(* ===== verification/Prelude.thy ===== *)
theory Prelude
  imports Main "HOL-Library.Word" "HOL-Library.Multiset" "HOL-Library.Signed_Division"
begin

text \<open>
  The vocabulary every component shares: the ways a C function can fail to return a value
  (\<open>c_error\<close>), results that carry such a failure (\<open>c_result\<close>, with its bind), C division on
  mathematical integers, element exchange in arrays, and the collections of simplification
  rules the component proofs use.
\<close>

section \<open>Failures of a C function\<close>

text \<open>
  A call of \<open>fatal_error\<close> ends the process with its exit status. The other constructors are the
  memory faults whose absence the code relies on: a dereferenced NULL pointer, a write past the
  end of a buffer, a read outside an object, a division by zero, and an overflow of a signed integer.
\<close>

datatype c_error =
    Exit int
  | Null_pointer
  | Buffer_overflow
  | Out_of_bounds_read
  | Division_by_zero
  | Signed_overflow

type_synonym 'a c_result = "c_error + 'a"

fun result_bind :: "('e + 'a) \<Rightarrow> ('a \<Rightarrow> 'e + 'b) \<Rightarrow> 'e + 'b" where
  "result_bind (Inl e) f = Inl e"
| "result_bind (Inr x) f = f x"

named_theorems result_simps
named_theorems swap_simps

lemma result_bind_cong [fundef_cong]:
  "x = y \<Longrightarrow> (\<And>v. y = Inr v \<Longrightarrow> f v = g v) \<Longrightarrow> result_bind x f = result_bind y g"
  by (cases y) auto

lemma result_bind_Inr_iff [result_simps]:
  "result_bind x f = Inr y \<longleftrightarrow> (\<exists>v. x = Inr v \<and> f v = Inr y)"
  by (cases x) auto

lemma result_bind_Inl_iff [result_simps]:
  "result_bind x f = Inl e \<longleftrightarrow> x = Inl e \<or> (\<exists>v. x = Inr v \<and> f v = Inl e)"
  by (cases x) auto

lemma result_bind_Inr_right [simp]: "result_bind x Inr = x"
  by (cases x) auto

lemma result_bind_assoc [result_simps]:
  "result_bind (result_bind x f) g = result_bind x (\<lambda>v. result_bind (f v) g)"
  by (cases x) auto

text \<open>Running a fallible body over the elements of a list.\<close>

fun fold_result :: "('a \<Rightarrow> 's \<Rightarrow> 'e + 's) \<Rightarrow> 'a list \<Rightarrow> 's \<Rightarrow> 'e + 's" where
  "fold_result f [] s = Inr s"
| "fold_result f (x # xs) s = result_bind (f x s) (fold_result f xs)"

lemma fold_result_append [result_simps]:
  "fold_result f (xs @ ys) s = result_bind (fold_result f xs s) (fold_result f ys)"
  by (induction xs arbitrary: s) (simp_all add: result_bind_assoc fun_eq_iff cong: result_bind_cong)

text \<open>
  Code with a loop that may not end: \<open>None\<close> when it does not, else a result. The bind runs the
  next part if the first one has returned a value.
\<close>

fun loop_bind :: "('e + 'a) option \<Rightarrow> ('a \<Rightarrow> ('e + 'b) option) \<Rightarrow> ('e + 'b) option" where
  "loop_bind None f = None"
| "loop_bind (Some (Inl e)) f = Some (Inl e)"
| "loop_bind (Some (Inr x)) f = f x"

lemma loop_bind_Some_Inr_iff [result_simps]:
  "loop_bind x f = Some (Inr y) \<longleftrightarrow> (\<exists>v. x = Some (Inr v) \<and> f v = Some (Inr y))"
  by (cases "(x, f)" rule: loop_bind.cases) auto

section \<open>C integers\<close>

text \<open>
  Division truncates towards zero. Halving a predecessor, as the array heap does to find a
  parent, agrees with natural division, also at 0, where \<open>(0 - 1) / 2\<close> is \<open>0\<close> in C.
\<close>

definition c_div :: "int \<Rightarrow> int \<Rightarrow> int" where
  "c_div a b = a sdiv b"

lemma c_div_code [code, simp]: "c_div a b = sgn a * sgn b * (\<bar>a\<bar> div \<bar>b\<bar>)"
  by (simp add: c_div_def signed_divide_int_def)

lemma c_div_half_pred: "c_div (int n - 1) 2 = int ((n - 1) div 2)"
  by (cases n) (auto simp: zdiv_int sgn_if)

section \<open>Exchanging array elements\<close>

definition swap_elems :: "'a list \<Rightarrow> nat \<Rightarrow> nat \<Rightarrow> 'a list" where
  "swap_elems xs i j = xs[i := xs ! j, j := xs ! i]"

lemma length_swap_elems [simp, swap_simps]: "length (swap_elems xs i j) = length xs"
  by (simp add: swap_elems_def)

lemma swap_elems_self [simp, swap_simps]: "swap_elems xs i i = xs"
  by (simp add: swap_elems_def)

lemma swap_elems_commute: "swap_elems xs i j = swap_elems xs j i"
  by (cases "i = j") (simp_all add: swap_elems_def list_update_swap)

lemma nth_swap_elems [swap_simps]:
  "i < length xs \<Longrightarrow> j < length xs \<Longrightarrow>
   swap_elems xs i j ! k = (if k = i then xs ! j else if k = j then xs ! i else xs ! k)"
  by (simp add: swap_elems_def nth_list_update)

lemma mset_swap_elems [simp]:
  "i < length xs \<Longrightarrow> j < length xs \<Longrightarrow> mset (swap_elems xs i j) = mset xs"
  by (simp add: swap_elems_def mset_swap)

lemma set_swap_elems [simp]:
  "i < length xs \<Longrightarrow> j < length xs \<Longrightarrow> set (swap_elems xs i j) = set xs"
  using mset_swap_elems[of i xs j] by (metis set_mset_mset)

end
