(* ===== verification/ArrayHeap.thy ===== *)
theory ArrayHeap
  imports Prelude
begin

text \<open>
  The binary heap of \<open>array_heap.c\<close>: an array and a comparison function called on pointers to
  two of its slots. The first part translates the operations; the second shows what holds for
  every comparison function whatever it reads (the array is only permuted); the third states
  the contract of a comparison function and the heap property as a locale; the last gives the
  abstract priority queue, which every contract-abiding heap implements.
\<close>

section \<open>The structure and its operations\<close>

text \<open>
  \<open>is_greater\<close> receives two addresses inside the array, so it is modelled as a function of the
  array's contents and two slot numbers. A comparison that looks only at the two slots is
  \<open>by_value f\<close>.
\<close>

type_synonym 'a slot_cmp = "'a list \<Rightarrow> nat \<Rightarrow> nat \<Rightarrow> bool"

record 'a array_heap =
  array :: "'a list"
  is_greater :: "'a slot_cmp"

definition by_value :: "('a \<Rightarrow> 'a \<Rightarrow> bool) \<Rightarrow> 'a slot_cmp" where
  "by_value f arr i j = f (arr ! i) (arr ! j)"

definition heap_is_empty :: "'a array_heap \<Rightarrow> bool" where
  "heap_is_empty heap = (if length (array heap) \<noteq> 0 then False else True)"

definition heap_first :: "'a array_heap \<Rightarrow> 'a option" where
  "heap_first heap = (case array heap of [] \<Rightarrow> None | x # _ \<Rightarrow> Some x)"

definition swap_ptr :: "'a array_heap \<Rightarrow> int \<Rightarrow> int \<Rightarrow> 'a array_heap" where
  "swap_ptr heap a b = heap\<lparr>array := swap_elems (array heap) (nat a) (nat b)\<rparr>"

definition greater_at :: "'a array_heap \<Rightarrow> int \<Rightarrow> int \<Rightarrow> bool" where
  "greater_at heap a b = is_greater heap (array heap) (nat a) (nat b)"

text \<open>
  The index that \<open>heapify\<close> exchanges with, computed by its two guarded comparisons: the right
  child is compared with the winner of the first comparison.
\<close>

definition largest_index :: "'a array_heap \<Rightarrow> int \<Rightarrow> int" where
  "largest_index heap index =
     (let array_len = int (length (array heap));
          left_index = 2 * index + 1;
          right_index = 2 * index + 2;
          largest = (if left_index < array_len \<and> greater_at heap left_index index
                     then left_index else index)
      in if right_index < array_len \<and> greater_at heap right_index largest
         then right_index else largest)"

lemma largest_index_range:
  "largest_index heap index = index \<or>
   ((largest_index heap index = 2 * index + 1 \<or> largest_index heap index = 2 * index + 2)
    \<and> largest_index heap index < int (length (array heap)))"
  by (auto simp: largest_index_def Let_def)

function heapify :: "'a array_heap \<Rightarrow> int \<Rightarrow> 'a array_heap" where
  "heapify heap index =
     (let array_len = int (length (array heap)) in
      if index < 0 \<or> index > array_len - 1 then heap
      else
        let largest = largest_index heap index in
        if largest \<noteq> index then heapify (swap_ptr heap largest index) largest
        else heap)"
  by pat_completeness auto
termination
proof (relation "measure (\<lambda>(heap, index). nat (int (length (array heap)) - index))", goal_cases)
  case (2 heap index array_len largest)
  then show ?case using largest_index_range[of heap index] by (auto simp: swap_ptr_def)
qed simp

declare heapify.simps [simp del]

fun build_loop :: "'a array_heap \<Rightarrow> nat \<Rightarrow> 'a array_heap" where
  "build_loop heap 0 = heap"
| "build_loop heap (Suc i) = build_loop (heapify heap (int i)) i"

definition heap_build :: "'a array_heap \<Rightarrow> 'a array_heap" where
  "heap_build heap =
     (if heap_is_empty heap then heap
      else
        let last_index = int (length (array heap)) - 1;
            last_parent_index = c_div (last_index - 1) 2
        in build_loop heap (nat (last_parent_index + 1)))"

function sift_up :: "'a array_heap \<Rightarrow> int \<Rightarrow> 'a array_heap" where
  "sift_up heap elem_index =
     (if elem_index > 0 then
        let parent_index = c_div (elem_index - 1) 2 in
        if greater_at heap parent_index elem_index then heap
        else sift_up (swap_ptr heap parent_index elem_index) parent_index
      else heap)"
  by pat_completeness auto
termination
  by (relation "measure (\<lambda>(heap, index). nat index)") (auto simp: sgn_if)

declare sift_up.simps [simp del]

definition heap_push :: "'a array_heap \<Rightarrow> 'a \<Rightarrow> 'a array_heap" where
  "heap_push heap elem =
     (let heap = heap\<lparr>array := array heap @ [elem]\<rparr>
      in sift_up heap (int (length (array heap)) - 1))"

definition heap_pop :: "'a array_heap \<Rightarrow> 'a array_heap" where
  "heap_pop heap =
     (if heap_is_empty heap then heap
      else
        let back = last (array heap);
            heap = heap\<lparr>array := (array heap)[0 := back]\<rparr>;
            heap = heap\<lparr>array := butlast (array heap)\<rparr>
        in if \<not> heap_is_empty heap then heapify heap 0 else heap)"

section \<open>Whatever the comparison reads, the array is only permuted\<close>

text \<open>
  Natural-number views of the recursions, and an induction rule for \<open>heapify\<close> whose step knows
  that the index moves down to an existing slot.
\<close>

definition sift_target :: "'a array_heap \<Rightarrow> nat \<Rightarrow> nat" where
  "sift_target heap i = nat (largest_index heap (int i))"

lemma largest_index_int [simp]: "largest_index heap (int i) = int (sift_target heap i)"
  using largest_index_range[of heap "int i"] by (auto simp: sift_target_def)

lemma sift_target_cases:
  "sift_target heap i = i \<or>
   (sift_target heap i < length (array heap) \<and>
    (sift_target heap i = 2 * i + 1 \<or> sift_target heap i = 2 * i + 2))"
  using largest_index_range[of heap "int i"] unfolding largest_index_int by presburger

lemma heapify_unfold:
  "heapify heap (int i) =
     (if i < length (array heap) \<and> sift_target heap i \<noteq> i
      then heapify (heap\<lparr>array := swap_elems (array heap) (sift_target heap i) i\<rparr>)
             (int (sift_target heap i))
      else heap)"
  by (subst heapify.simps) (auto simp: swap_ptr_def Let_def)

lemma heapify_induct [case_names step]:
  assumes step: "\<And>heap i.
    (\<And>k. i < length (array heap) \<Longrightarrow> k = sift_target heap i \<Longrightarrow> i < k \<Longrightarrow>
      k < length (array heap) \<Longrightarrow> P (heap\<lparr>array := swap_elems (array heap) k i\<rparr>) k) \<Longrightarrow> P heap i"
  shows "P heap i"
proof (induction "length (array heap) - i" arbitrary: heap i rule: less_induct)
  case less
  show ?case
  proof (rule step)
    fix k assume "i < length (array heap)" "k = sift_target heap i" "i < k" "k < length (array heap)"
    then show "P (heap\<lparr>array := swap_elems (array heap) k i\<rparr>) k"
      by (intro less) auto
  qed
qed

lemma heapify_keeps:
  "length (array (heapify heap (int i))) = length (array heap) \<and>
   mset (array (heapify heap (int i))) = mset (array heap) \<and>
   is_greater (heapify heap (int i)) = is_greater heap"
proof (induction heap i rule: heapify_induct)
  case (step heap i)
  then show ?case
    using sift_target_cases[of heap i] by (subst (1 2 3) heapify_unfold) auto
qed

lemmas heapify_kept [simp] =
  heapify_keeps[THEN conjunct1] heapify_keeps[THEN conjunct2, THEN conjunct1]
  heapify_keeps[THEN conjunct2, THEN conjunct2]

lemmas heapify_root_kept [simp] = heapify_kept[where i = 0, simplified]

lemma build_loop_keeps:
  "length (array (build_loop heap n)) = length (array heap) \<and>
   mset (array (build_loop heap n)) = mset (array heap) \<and>
   is_greater (build_loop heap n) = is_greater heap"
  by (induction heap n rule: build_loop.induct) auto

lemma heap_build_unfold:
  "heap_build heap =
     (if array heap = [] then heap else build_loop heap (Suc ((length (array heap) - 2) div 2)))"
proof (cases "array heap = []")
  case False
  then have "c_div (int (length (array heap)) - 1 - 1) 2 = int ((length (array heap) - 2) div 2)"
    using c_div_half_pred[of "length (array heap) - 1"] by (cases "array heap") auto
  with False show ?thesis
    by (simp add: heap_build_def heap_is_empty_def Let_def nat_add_distrib del: c_div_code)
qed (simp add: heap_build_def heap_is_empty_def)

lemma heap_build_keeps:
  "length (array (heap_build heap)) = length (array heap) \<and>
   mset (array (heap_build heap)) = mset (array heap) \<and>
   is_greater (heap_build heap) = is_greater heap"
  using build_loop_keeps[of heap] by (simp add: heap_build_unfold del: build_loop.simps)

lemma sift_up_unfold:
  "sift_up heap (int i) =
     (if 0 < i \<and> \<not> is_greater heap (array heap) ((i - 1) div 2) i
      then sift_up (heap\<lparr>array := swap_elems (array heap) ((i - 1) div 2) i\<rparr>) (int ((i - 1) div 2))
      else heap)"
  by (subst sift_up.simps)
    (simp add: swap_ptr_def greater_at_def Let_def c_div_half_pred del: c_div_code)

lemma sift_up_induct [case_names step]:
  assumes step: "\<And>heap i. (0 < i \<Longrightarrow> \<not> is_greater heap (array heap) ((i - 1) div 2) i \<Longrightarrow>
      P (heap\<lparr>array := swap_elems (array heap) ((i - 1) div 2) i\<rparr>) ((i - 1) div 2)) \<Longrightarrow> P heap i"
  shows "P heap i"
  by (induction i arbitrary: heap rule: less_induct) (rule step, simp)

lemma sift_up_keeps:
  "i < length (array heap) \<Longrightarrow>
   length (array (sift_up heap (int i))) = length (array heap) \<and>
   mset (array (sift_up heap (int i))) = mset (array heap) \<and>
   is_greater (sift_up heap (int i)) = is_greater heap"
proof (induction heap i rule: sift_up_induct)
  case (step heap i)
  then show ?case by (subst (1 2 3) sift_up_unfold) auto
qed

lemma heap_push_unfold:
  "heap_push heap x = sift_up (heap\<lparr>array := array heap @ [x]\<rparr>) (int (length (array heap)))"
  by (simp add: heap_push_def)

lemma heap_push_keeps:
  "length (array (heap_push heap x)) = Suc (length (array heap)) \<and>
   mset (array (heap_push heap x)) = add_mset x (mset (array heap)) \<and>
   is_greater (heap_push heap x) = is_greater heap"
  using sift_up_keeps[of "length (array heap)" "heap\<lparr>array := array heap @ [x]\<rparr>"]
  by (simp add: heap_push_unfold)

lemma heap_pop_unfold:
  "heap_pop heap =
     (if length (array heap) \<le> 1 then heap\<lparr>array := []\<rparr>
      else heapify (heap\<lparr>array := last (array heap) # butlast (tl (array heap))\<rparr>) (int 0))"
proof (cases "array heap")
  case (Cons x xs)
  then show ?thesis by (cases xs) (simp_all add: heap_pop_def heap_is_empty_def Let_def)
qed (simp add: heap_pop_def heap_is_empty_def)

lemma heap_pop_keeps:
  assumes "array heap = x # xs"
  shows "length (array (heap_pop heap)) = length xs \<and>
    mset (array (heap_pop heap)) = mset xs \<and>
    is_greater (heap_pop heap) = is_greater heap"
proof (cases "xs = []")
  case False
  have "mset (last xs # butlast xs) = mset xs"
    using False by (induction xs) auto
  with False assms show ?thesis by (simp add: heap_pop_unfold)
qed (use assms in \<open>simp add: heap_pop_unfold\<close>)

lemma heap_pop_is_greater [simp]: "is_greater (heap_pop heap) = is_greater heap"
  using heap_pop_keeps[of heap] by (cases "array heap") (auto simp: heap_pop_unfold)

section \<open>The heap property\<close>

definition parent :: "nat \<Rightarrow> nat" where
  "parent i = (i - 1) div 2"

lemma parent_less [simp]: "0 < i \<Longrightarrow> parent i < i"
  by (simp add: parent_def)

lemma parent_le: "parent i \<le> i"
  by (simp add: parent_def)

lemma parent_eq_iff: "0 < j \<Longrightarrow> parent j = i \<longleftrightarrow> j = 2 * i + 1 \<or> j = 2 * i + 2"
  by (auto simp: parent_def)

text \<open>
  \<open>ordered_from r k arr\<close> states the heap property for the parents from slot \<open>k\<close> on; the whole
  heap property is the case \<open>k = 0\<close>. \<open>sinking\<close> and \<open>rising\<close> allow one slot to be out of order
  with its children, respectively with its parent.
\<close>

definition ordered_from :: "('a \<Rightarrow> 'a \<Rightarrow> bool) \<Rightarrow> nat \<Rightarrow> 'a list \<Rightarrow> bool" where
  "ordered_from r k arr \<longleftrightarrow>
     (\<forall>j < length arr. 0 < j \<longrightarrow> k \<le> parent j \<longrightarrow> r (arr ! parent j) (arr ! j))"

abbreviation heap_ordered :: "('a \<Rightarrow> 'a \<Rightarrow> bool) \<Rightarrow> 'a list \<Rightarrow> bool" where
  "heap_ordered r arr \<equiv> ordered_from r 0 arr"

definition sinking :: "('a \<Rightarrow> 'a \<Rightarrow> bool) \<Rightarrow> nat \<Rightarrow> 'a list \<Rightarrow> nat \<Rightarrow> bool" where
  "sinking r k arr i \<longleftrightarrow>
     (\<forall>j < length arr. 0 < j \<longrightarrow> k \<le> parent j \<longrightarrow> parent j \<noteq> i \<longrightarrow> r (arr ! parent j) (arr ! j)) \<and>
     (0 < i \<longrightarrow> k \<le> parent i \<longrightarrow>
       (\<forall>j < length arr. 0 < j \<longrightarrow> parent j = i \<longrightarrow> r (arr ! parent i) (arr ! j)))"

definition rising :: "('a \<Rightarrow> 'a \<Rightarrow> bool) \<Rightarrow> 'a list \<Rightarrow> nat \<Rightarrow> bool" where
  "rising r arr i \<longleftrightarrow>
     (\<forall>j < length arr. 0 < j \<longrightarrow> j \<noteq> i \<longrightarrow> r (arr ! parent j) (arr ! j)) \<and>
     (0 < i \<longrightarrow> (\<forall>j < length arr. 0 < j \<longrightarrow> parent j = i \<longrightarrow> r (arr ! parent i) (arr ! j)))"

lemma ordered_from_sinking: "ordered_from r (Suc k) arr \<Longrightarrow> sinking r k arr k"
  by (auto simp: ordered_from_def sinking_def)
    (metis le_antisym not_less_eq_eq parent_less less_le_not_le)+

lemma ordered_from_last: "length arr \<le> 2 * k + 1 \<Longrightarrow> ordered_from r k arr"
  by (auto simp: ordered_from_def parent_def)

text \<open>
  The contract of a comparison function: it lies between a total preorder and its strict part.
  Both a strict comparison (\<open>timeout_sooner\<close>, the \<open>is_greater\<close> of \<open>heap_test.c\<close>) and a
  reflexive one (\<open>connect_sooner\<close>) satisfy it.
\<close>

locale heap_comparison =
  fixes gt :: "'a \<Rightarrow> 'a \<Rightarrow> bool"
    and ge :: "'a \<Rightarrow> 'a \<Rightarrow> bool"
  assumes gt_ge: "gt x y \<Longrightarrow> ge x y"
    and not_gt_ge: "\<not> gt x y \<Longrightarrow> ge y x"
    and ge_trans: "ge x y \<Longrightarrow> ge y z \<Longrightarrow> ge x z"
begin

lemma ge_refl [simp]: "ge x x"
  using gt_ge not_gt_ge by blast

lemma sift_target_ge:
  assumes "is_greater heap = by_value gt" and "i < length (array heap)"
  shows "ge (array heap ! sift_target heap i) (array heap ! i)"
    and "j < length (array heap) \<Longrightarrow> 0 < j \<Longrightarrow> parent j = i \<Longrightarrow>
      ge (array heap ! sift_target heap i) (array heap ! j)"
proof -
  let ?a = "array heap"
  have t: "sift_target heap i =
      (let l = (if 2 * i + 1 < length ?a \<and> gt (?a ! (2 * i + 1)) (?a ! i) then 2 * i + 1 else i)
       in if 2 * i + 2 < length ?a \<and> gt (?a ! (2 * i + 2)) (?a ! l) then 2 * i + 2 else l)"
    using assms(1)
    by (simp add: sift_target_def largest_index_def Let_def greater_at_def by_value_def
        nat_add_distrib nat_mult_distrib)
  show "ge (?a ! sift_target heap i) (?a ! i)"
    unfolding t Let_def by (auto intro: gt_ge ge_trans)
  show "ge (?a ! sift_target heap i) (?a ! j)"
    if "j < length ?a" "0 < j" "parent j = i"
    using that unfolding t Let_def parent_eq_iff[OF that(2)]
    by (auto intro: gt_ge ge_trans not_gt_ge)
qed

lemma sinking_swap:
  assumes sink: "sinking ge k arr i" and ki: "k \<le> i" and t: "0 < t" "t < length arr" "parent t = i"
    and big: "ge (arr ! t) (arr ! i)"
    and big': "\<And>j. j < length arr \<Longrightarrow> 0 < j \<Longrightarrow> parent j = i \<Longrightarrow> ge (arr ! t) (arr ! j)"
  shows "sinking ge k (swap_elems arr t i) t"
proof -
  from t have i: "i < length arr" "i < t" using parent_less[of t] by auto
  note [simp] = nth_swap_elems[OF t(2) i(1)]
  show ?thesis
    unfolding sinking_def
  proof (intro conjI allI impI)
    fix j assume j: "j < length (swap_elems arr t i)" "0 < j" "k \<le> parent j" "parent j \<noteq> t"
    show "ge (swap_elems arr t i ! parent j) (swap_elems arr t i ! j)"
      using j sink t i big big' by (auto simp: sinking_def)
  next
    fix j assume "0 < t" "k \<le> parent t" "j < length (swap_elems arr t i)" "0 < j" "parent j = t"
    then show "ge (swap_elems arr t i ! parent t) (swap_elems arr t i ! j)"
      using sink t i ki parent_less[of j] by (auto simp: sinking_def)
  qed
qed

lemma heapify_ordered:
  "is_greater heap = by_value gt \<Longrightarrow> k \<le> i \<Longrightarrow> sinking ge k (array heap) i \<Longrightarrow>
   ordered_from ge k (array (heapify heap (int i)))"
proof (induction heap i rule: heapify_induct)
  case (step heap i)
  show ?case
  proof (cases "i < length (array heap) \<and> sift_target heap i \<noteq> i")
    case True
    then have t: "0 < sift_target heap i" "sift_target heap i < length (array heap)"
      "parent (sift_target heap i) = i" "i < sift_target heap i"
      using sift_target_cases[of heap i] by (auto simp: parent_def)
    then have "sinking ge k (swap_elems (array heap) (sift_target heap i) i) (sift_target heap i)"
      using step.prems True by (intro sinking_swap) (auto intro: sift_target_ge)
    then show ?thesis
      using step.IH[OF _ refl t(4,2)] step.prems t True by (subst heapify_unfold) auto
  next
    case False
    have "ordered_from ge k (array heap)"
      unfolding ordered_from_def
    proof (intro allI impI)
      fix j assume j: "j < length (array heap)" "0 < j" "k \<le> parent j"
      show "ge (array heap ! parent j) (array heap ! j)"
      proof (cases "parent j = i")
        case True
        with j have "i < length (array heap)" using parent_less[of j] by auto
        with False True j step.prems(1) show ?thesis using sift_target_ge(2)[of heap i j] by auto
      qed (use step.prems(3) j in \<open>auto simp: sinking_def\<close>)
    qed
    with False show ?thesis by (subst heapify_unfold) auto
  qed
qed

lemma build_loop_ordered:
  "is_greater heap = by_value gt \<Longrightarrow> ordered_from ge n (array heap) \<Longrightarrow>
   heap_ordered ge (array (build_loop heap n))"
  by (induction heap n rule: build_loop.induct)
    (auto intro!: heapify_ordered ordered_from_sinking)

lemma heap_build_ordered:
  assumes "is_greater heap = by_value gt"
  shows "heap_ordered ge (array (heap_build heap))"
proof (cases "array heap = []")
  case False
  have "ordered_from ge (Suc ((length (array heap) - 2) div 2)) (array heap)"
    by (rule ordered_from_last) presburger
  with False assms show ?thesis
    by (simp add: heap_build_unfold build_loop_ordered del: build_loop.simps)
qed (simp add: heap_build_unfold ordered_from_def)

lemma rising_swap:
  assumes rise: "rising ge arr i" and i: "0 < i" "i < length arr"
    and big: "ge (arr ! i) (arr ! parent i)"
  shows "rising ge (swap_elems arr (parent i) i) (parent i)"
proof -
  have p: "parent i < i" using i by simp
  note [simp] = nth_swap_elems[OF less_trans[OF p i(2)] i(2)]
  have up: "ge (arr ! parent i) (arr ! j)"
    if "j < length arr" "0 < j" "j \<noteq> i" "parent j = parent i" for j
    using rise that by (auto simp: rising_def)
  show ?thesis
    unfolding rising_def
  proof (intro conjI allI impI)
    fix j assume j: "j < length (swap_elems arr (parent i) i)" "0 < j" "j \<noteq> parent i"
    show "ge (swap_elems arr (parent i) i ! parent j) (swap_elems arr (parent i) i ! j)"
      using j rise i p big up[of j] ge_trans[OF big up[of j]] by (auto simp: rising_def)
  next
    fix j assume j: "0 < parent i" "j < length (swap_elems arr (parent i) i)" "0 < j"
      "parent j = parent i"
    have *: "ge (arr ! parent (parent i)) (arr ! parent i)"
      using rise i p j(1) by (auto simp: rising_def)
    have "parent (parent i) < parent i" using j(1) by simp
    with j p * show "ge (swap_elems arr (parent i) i ! parent (parent i))
        (swap_elems arr (parent i) i ! j)"
      using ge_trans[OF * up[of j]] by auto
  qed
qed

lemma sift_up_ordered:
  "is_greater heap = by_value gt \<Longrightarrow> i < length (array heap) \<Longrightarrow> rising ge (array heap) i \<Longrightarrow>
   heap_ordered ge (array (sift_up heap (int i)))"
proof (induction heap i rule: sift_up_induct)
  case (step heap i)
  show ?case
  proof (cases "0 < i \<and> \<not> is_greater heap (array heap) ((i - 1) div 2) i")
    case True
    then have "ge (array heap ! i) (array heap ! parent i)"
      using step.prems(1) by (auto simp: by_value_def parent_def intro: not_gt_ge)
    then have "rising ge (swap_elems (array heap) (parent i) i) (parent i)"
      using True step.prems by (intro rising_swap) auto
    moreover have "parent i < length (array heap)"
      using True step.prems(2) parent_less[of i] by linarith
    ultimately show ?thesis
      using step True by (subst sift_up_unfold) (auto simp: parent_def)
  next
    case False
    have "heap_ordered ge (array heap)"
      using step.prems False
      by (auto simp: ordered_from_def rising_def by_value_def parent_def intro: gt_ge)
    with False show ?thesis by (subst sift_up_unfold) auto
  qed
qed

lemma heap_push_ordered:
  assumes "is_greater heap = by_value gt" and "heap_ordered ge (array heap)"
  shows "heap_ordered ge (array (heap_push heap x))"
proof -
  have "rising ge (array heap @ [x]) (length (array heap))"
    using assms(2) parent_le[THEN le_less_trans] parent_less[of "length (array heap)"]
    by (fastforce simp: rising_def ordered_from_def nth_append less_Suc_eq simp del: parent_less)
  with assms(1) show ?thesis by (simp add: heap_push_unfold sift_up_ordered)
qed

lemma heap_pop_ordered:
  assumes "is_greater heap = by_value gt" and "heap_ordered ge (array heap)"
  shows "heap_ordered ge (array (heap_pop heap))"
proof (cases "length (array heap) \<le> 1")
  case False
  then obtain x xs where h: "array heap = x # xs" "xs \<noteq> []" by (cases "array heap") auto
  have "sinking ge 0 (last xs # butlast xs) 0"
  proof -
    have "ge ((x # xs) ! parent j) ((x # xs) ! j)" if "0 < j" "j < length xs" for j
      using assms(2) that h by (auto simp: ordered_from_def)
    moreover have nth: "(last xs # butlast xs) ! j = (x # xs) ! j" if "0 < j" "j < length xs" for j
      using that by (cases j) (auto simp: nth_butlast)
    moreover have "parent j < length xs" if "0 < j" "j < length xs" for j
      using that parent_less[of j] by linarith
    ultimately show ?thesis using h(2) unfolding sinking_def by (simp del: nth_Cons_pos)
  qed
  then show ?thesis
    using assms(1) False h
      heapify_ordered[of "heap\<lparr>array := last xs # butlast xs\<rparr>" 0 0]
    by (simp add: heap_pop_unfold)
qed (simp add: heap_pop_unfold ordered_from_def)

lemma heap_root_ge:
  "heap_ordered ge arr \<Longrightarrow> i < length arr \<Longrightarrow> ge (arr ! 0) (arr ! i)"
proof (induction i rule: less_induct)
  case (less i)
  show ?case
  proof (cases "0 < i")
    case True
    then have "parent i < length arr" using less.prems(2) parent_less[of i] by linarith
    then show ?thesis
      using less True ge_trans[of "arr ! 0" "arr ! parent i" "arr ! i"]
      by (auto simp: ordered_from_def)
  qed simp
qed

lemma heap_first_greatest:
  assumes "heap_ordered ge (array heap)" and "heap_first heap = Some x" and "y \<in> set (array heap)"
  shows "ge x y"
  using assms heap_root_ge[OF assms(1)]
  by (auto simp: heap_first_def in_set_conv_nth split: list.splits)

end

section \<open>The abstract priority queue\<close>

text \<open>
  What the client's updater relies on: a queue with an invariant and an abstraction to the
  multiset of its elements, whose first element is the greatest. \<open>drain n\<close> serves \<open>n\<close> elements
  by repeated first and pop.
\<close>

fun drain :: "('q \<Rightarrow> 'q) \<Rightarrow> ('q \<Rightarrow> 'a option) \<Rightarrow> nat \<Rightarrow> 'q \<Rightarrow> 'a list" where
  "drain pop first 0 q = []"
| "drain pop first (Suc n) q =
     (case first q of None \<Rightarrow> [] | Some x \<Rightarrow> x # drain pop first n (pop q))"

locale priority_queue =
  fixes push :: "'q \<Rightarrow> 'a \<Rightarrow> 'q"
    and pop :: "'q \<Rightarrow> 'q"
    and first :: "'q \<Rightarrow> 'a option"
    and is_empty :: "'q \<Rightarrow> bool"
    and elems :: "'q \<Rightarrow> 'a multiset"
    and invar :: "'q \<Rightarrow> bool"
    and precedes :: "'a \<Rightarrow> 'a \<Rightarrow> bool"
  assumes invar_push: "invar q \<Longrightarrow> invar (push q x)"
    and invar_pop: "invar q \<Longrightarrow> invar (pop q)"
    and elems_push: "invar q \<Longrightarrow> elems (push q x) = add_mset x (elems q)"
    and elems_pop: "invar q \<Longrightarrow> first q = Some x \<Longrightarrow> elems q = add_mset x (elems (pop q))"
    and is_empty_iff: "invar q \<Longrightarrow> is_empty q \<longleftrightarrow> elems q = {#}"
    and first_None_iff: "invar q \<Longrightarrow> first q = None \<longleftrightarrow> elems q = {#}"
    and first_precedes: "invar q \<Longrightarrow> first q = Some x \<Longrightarrow> y \<in># elems q \<Longrightarrow> precedes x y"
begin

lemma first_in: "invar q \<Longrightarrow> first q = Some x \<Longrightarrow> x \<in># elems q"
  by (simp add: elems_pop)

lemma drain_serves_all:
  "invar q \<Longrightarrow> size (elems q) = n \<Longrightarrow>
   mset (drain pop first n q) = elems q \<and> sorted_wrt precedes (drain pop first n q)"
proof (induction n arbitrary: q)
  case (Suc n)
  then obtain x where x: "first q = Some x"
    using first_None_iff[of q] by (cases "first q") auto
  have e: "elems q = add_mset x (elems (pop q))"
    using Suc.prems(1) x by (rule elems_pop)
  then have "mset (drain pop first n (pop q)) = elems (pop q) \<and>
      sorted_wrt precedes (drain pop first n (pop q))"
    using Suc.prems by (intro Suc.IH invar_pop) auto
  moreover from this have "set (drain pop first n (pop q)) \<subseteq> set_mset (elems q)"
    by (metis e insert_iff set_mset_add_mset_insert set_mset_mset subsetI)
  ultimately show ?case
    using x e first_precedes[OF Suc.prems(1) x] by auto
qed simp

end

text \<open>Every heap whose comparison keeps its contract is such a queue.\<close>

definition heap_elems :: "'a array_heap \<Rightarrow> 'a multiset" where
  "heap_elems heap = mset (array heap)"

definition heap_invar ::
    "('a \<Rightarrow> 'a \<Rightarrow> bool) \<Rightarrow> ('a \<Rightarrow> 'a \<Rightarrow> bool) \<Rightarrow> 'a array_heap \<Rightarrow> bool" where
  "heap_invar gt ge heap \<longleftrightarrow> is_greater heap = by_value gt \<and> heap_ordered ge (array heap)"

lemma heap_first_Some_iff: "heap_first heap = Some x \<longleftrightarrow> (\<exists>xs. array heap = x # xs)"
  by (auto simp: heap_first_def split: list.splits)

lemma heap_first_None_iff: "heap_first heap = None \<longleftrightarrow> array heap = []"
  by (auto simp: heap_first_def split: list.splits)

sublocale heap_comparison \<subseteq> pq: priority_queue
  heap_push heap_pop heap_first heap_is_empty heap_elems "heap_invar gt ge" ge
proof (unfold_locales, goal_cases)
  case (1 heap x)
  then show ?case using heap_push_keeps[of heap x] heap_push_ordered by (simp add: heap_invar_def)
next
  case (2 heap)
  then show ?case
    using heap_pop_ordered by (simp add: heap_invar_def)
next
  case (3 heap x)
  then show ?case using heap_push_keeps[of heap x] by (simp add: heap_elems_def)
next
  case (4 heap x)
  then show ?case
    using heap_pop_keeps[of heap x] by (auto simp: heap_first_Some_iff heap_elems_def)
next
  case (7 heap x y)
  then show ?case
    using heap_first_greatest[of heap x y] by (simp add: heap_invar_def heap_elems_def)
qed (auto simp: heap_elems_def heap_is_empty_def heap_first_None_iff)

context heap_comparison
begin

lemma heap_queue:
  "priority_queue heap_push heap_pop heap_first heap_is_empty heap_elems (heap_invar gt ge) ge"
  by (rule pq.priority_queue_axioms)

end

text \<open>The comparison of the heap's test program, on the integers its slots hold.\<close>

interpretation int_greater: heap_comparison "(<) :: int \<Rightarrow> int \<Rightarrow> bool" "(\<le>)"
  by unfold_locales auto

lemma heap_comparison_int: "heap_comparison ((<) :: int \<Rightarrow> int \<Rightarrow> bool) (\<le>)"
  by (rule int_greater.heap_comparison_axioms)

section \<open>The heap's guarantees\<close>

text \<open>\<open>heap_build\<close> turns every array into a heap (no child precedes its parent) and only
  rearranges it, for every comparison that keeps its contract.\<close>

lemma heap_build_establishes_order:
  assumes "heap_comparison gt ge" and "is_greater heap = by_value gt"
  shows "heap_ordered ge (array (heap_build heap)) \<and>
    mset (array (heap_build heap)) = mset (array heap) \<and>
    is_greater (heap_build heap) = is_greater heap"
  using heap_comparison.heap_build_ordered[OF assms] heap_build_keeps[of heap] by blast

lemma heap_build_establishes_order_witness:
  "heap_ordered (\<le>) (array (heap_build \<lparr>array = [3, 1, 2 :: int], is_greater = by_value (<)\<rparr>))"
  using heap_build_establishes_order[OF heap_comparison_int,
      of "\<lparr>array = [3, 1, 2], is_greater = by_value (<)\<rparr>"] by simp

text \<open>C10: pushing and popping keep the heap property; a push adds exactly its element, a pop removes
  exactly one occurrence of the first element, and the first element precedes all others.\<close>

theorem heap_push_pop_contract:
  assumes "heap_comparison gt ge" and "heap_invar gt ge heap"
  shows "heap_invar gt ge (heap_push heap x) \<and> heap_invar gt ge (heap_pop heap) \<and>
    heap_elems (heap_push heap x) = add_mset x (heap_elems heap) \<and>
    (\<forall>y. heap_first heap = Some y \<longrightarrow>
       heap_elems heap = add_mset y (heap_elems (heap_pop heap)) \<and>
       (\<forall>z \<in># heap_elems heap. ge y z)) \<and>
    (heap_first heap = None \<longleftrightarrow> heap_elems heap = {#})"
proof -
  have q: "priority_queue heap_push heap_pop heap_first heap_is_empty heap_elems (heap_invar gt ge) ge"
    by (rule heap_comparison.heap_queue[OF assms(1)])
  show ?thesis
    using priority_queue.invar_push[OF q assms(2)] priority_queue.invar_pop[OF q assms(2)]
      priority_queue.elems_push[OF q assms(2)] priority_queue.elems_pop[OF q assms(2)]
      priority_queue.first_precedes[OF q assms(2)] priority_queue.first_None_iff[OF q assms(2)]
    by blast
qed

lemma heap_push_pop_contract_witness:
  "heap_elems (heap_push \<lparr>array = [1, 3, 2 :: int], is_greater = by_value (<)\<rparr> 0) = {#0, 1, 3, 2#}"
proof -
  have "heap_invar (<) (\<le>) \<lparr>array = [1, 3, 2 :: int], is_greater = by_value (<)\<rparr>"
    by (auto simp: heap_invar_def ordered_from_def parent_def less_Suc_eq numeral_3_eq_3 nth_Cons')
  from heap_push_pop_contract[OF heap_comparison_int this, of 0] show ?thesis
    by (simp add: heap_elems_def)
qed

text \<open>Building a heap and serving it until it is empty delivers every element exactly once, in
  the order of the comparison.\<close>

lemma heap_serves_in_order:
  assumes "heap_comparison gt ge"
  shows "mset (drain heap_pop heap_first (length xs)
             (heap_build \<lparr>array = xs, is_greater = by_value gt\<rparr>)) = mset xs \<and>
    sorted_wrt ge (drain heap_pop heap_first (length xs)
             (heap_build \<lparr>array = xs, is_greater = by_value gt\<rparr>))"
proof -
  let ?h = "heap_build \<lparr>array = xs, is_greater = by_value gt\<rparr>"
  have q: "priority_queue heap_push heap_pop heap_first heap_is_empty heap_elems (heap_invar gt ge) ge"
    by (rule heap_comparison.heap_queue[OF assms])
  have "heap_invar gt ge ?h"
    using heap_build_keeps[of "\<lparr>array = xs, is_greater = by_value gt\<rparr>"]
      heap_comparison.heap_build_ordered[OF assms, of "\<lparr>array = xs, is_greater = by_value gt\<rparr>"]
    by (simp add: heap_invar_def)
  moreover have "heap_elems ?h = mset xs"
    using heap_build_keeps[of "\<lparr>array = xs, is_greater = by_value gt\<rparr>"] by (simp add: heap_elems_def)
  ultimately show ?thesis
    using priority_queue.drain_serves_all[OF q, of ?h "length xs"] by simp
qed

lemma heap_serves_in_order_witness:
  "sorted_wrt (\<le>) (drain heap_pop heap_first (length [3, 1, 2, 1 :: int])
     (heap_build \<lparr>array = [3, 1, 2, 1 :: int], is_greater = by_value (<)\<rparr>))"
  by (rule heap_serves_in_order[OF heap_comparison_int, THEN conjunct2])

text \<open>No element is lost or duplicated by any operation, whatever the comparison function answers:
  it may be inconsistent, or read memory that changes under the exchanges.\<close>

lemma heap_only_permutes:
  "mset (array (heap_build heap)) = mset (array heap) \<and>
   mset (array (heap_push heap x)) = add_mset x (mset (array heap)) \<and>
   mset (array (heap_pop heap)) = mset (tl (array heap))"
  using heap_build_keeps[of heap] heap_push_keeps[of heap x] heap_pop_keeps[of heap]
  by (cases "array heap") (auto simp: heap_pop_unfold)

end
