(* ===== verification/CString.thy ===== *)
theory CString
  imports Prelude
begin

text \<open>
  C strings. A \<open>char*\<close> is modelled by the bytes from the address on (\<open>string\<close>); the C string it
  denotes, \<open>cstr\<close>, ends before the first NUL, or at the end of the list, which stands for the
  terminator. A character array that is written to is a list of its bytes, and a write past its
  end is the failure \<open>Buffer_overflow\<close>. The theory holds the libc routines the program calls and
  the program's own string routines of \<open>mtn-common.c\<close>: \<open>strcopy\<close>, \<open>str_replace\<close>, \<open>get_token\<close>.
\<close>

section \<open>libc: reading strings\<close>

abbreviation NUL :: char where "NUL \<equiv> CHR 0x00"
abbreviation newline :: char where "newline \<equiv> CHR 0x0A"
abbreviation tab :: char where "tab \<equiv> CHR 0x09"
abbreviation space :: char where "space \<equiv> CHR 0x20"
abbreviation quote :: char where "quote \<equiv> CHR 0x22"

named_theorems cstr_simps

definition cstr :: "string \<Rightarrow> string" where
  "cstr mem = takeWhile (\<lambda>c. c \<noteq> NUL) mem"

lemma cstr_NUL_free [simp, cstr_simps]: "NUL \<notin> set s \<Longrightarrow> cstr s = s"
  by (auto simp: cstr_def takeWhile_eq_all_conv)

lemma cstr_terminated [simp, cstr_simps]: "NUL \<notin> set s \<Longrightarrow> cstr (s @ NUL # rest) = s"
  by (induction s) (auto simp: cstr_def)

lemma NUL_notin_cstr [simp]: "NUL \<notin> set (cstr mem)"
  by (auto simp: cstr_def dest: set_takeWhileD)

lemma cstr_idem [simp]: "cstr (cstr mem) = cstr mem"
  by simp

lemma length_cstr_le: "length (cstr mem) \<le> length mem"
  by (simp add: cstr_def length_takeWhile_le)

definition strspn :: "string \<Rightarrow> string \<Rightarrow> nat" where
  "strspn mem accept = length (takeWhile (\<lambda>c. c \<in> set accept) mem)"

definition strcspn :: "string \<Rightarrow> string \<Rightarrow> nat" where
  "strcspn mem reject = length (takeWhile (\<lambda>c. c \<noteq> NUL \<and> c \<notin> set reject) mem)"

text \<open>\<open>strncmp(a, b, n) == 0\<close>, the macro \<open>strneq\<close>, and \<open>strcmp(a, b) == 0\<close>, the macro \<open>streq\<close>.\<close>

definition strneq :: "string \<Rightarrow> string \<Rightarrow> nat \<Rightarrow> bool" where
  "strneq a b n \<longleftrightarrow> take n (cstr a) = take n (cstr b)"

definition streq :: "string \<Rightarrow> string \<Rightarrow> bool" where
  "streq a b \<longleftrightarrow> cstr a = cstr b"

text \<open>The offset of the first occurrence of a substring, and of the last occurrence of a character.\<close>

fun strstr :: "string \<Rightarrow> string \<Rightarrow> nat option" where
  "strstr [] needle = (if needle = [] then Some 0 else None)"
| "strstr (c # hay) needle =
     (if take (length needle) (c # hay) = needle then Some 0
      else map_option Suc (strstr hay needle))"

fun strrchr :: "string \<Rightarrow> char \<Rightarrow> nat option" where
  "strrchr [] c = None"
| "strrchr (x # xs) c =
     (case strrchr xs c of Some k \<Rightarrow> Some (Suc k) | None \<Rightarrow> if x = c then Some 0 else None)"

lemma strstr_Some:
  "strstr hay needle = Some k \<Longrightarrow>
   hay = take k hay @ needle @ drop (k + length needle) hay"
proof (induction hay needle arbitrary: k rule: strstr.induct)
  case (2 c hay needle)
  show ?case
  proof (cases "take (length needle) (c # hay) = needle")
    case True
    with 2 have "k = 0" by simp
    with True show ?thesis by (metis append_Nil append_take_drop_id plus_nat.add_0 take_0)
  qed (use 2 in auto)
qed (auto split: if_splits)

lemma strstr_le: "strstr hay needle = Some k \<Longrightarrow> k + length needle \<le> length hay"
proof (induction hay needle arbitrary: k rule: strstr.induct)
  case (2 c hay needle)
  show ?case
  proof (cases "take (length needle) (c # hay) = needle")
    case True
    with 2 have "k = 0" by simp
    with True show ?thesis by (metis length_take min.cobounded1 plus_nat.add_0)
  qed (use 2 in auto)
qed (auto split: if_splits)

lemma strrchr_None_iff: "strrchr s c = None \<longleftrightarrow> c \<notin> set s"
  by (induction s c rule: strrchr.induct) (auto split: option.splits)

lemma strrchr_append:
  "c \<notin> set q \<Longrightarrow> strrchr (p @ c # q) c = Some (length p)"
  by (induction p) (auto simp: strrchr_None_iff split: option.splits)

lemma strrchr_Some:
  "strrchr s c = Some k \<Longrightarrow>
   k < length s \<and> s = take k s @ c # drop (Suc k) s \<and> c \<notin> set (drop (Suc k) s)"
  by (induction s c arbitrary: k rule: strrchr.induct)
    (auto split: option.splits if_splits simp: strrchr_None_iff)

section \<open>libc: decimal numbers\<close>

definition is_digit :: "char \<Rightarrow> bool" where
  "is_digit c \<longleftrightarrow> 48 \<le> (of_char c :: nat) \<and> (of_char c :: nat) \<le> 57"

definition digit_val :: "char \<Rightarrow> nat" where
  "digit_val c = of_char c - 48"

definition digit_char :: "nat \<Rightarrow> char" where
  "digit_char d = char_of (48 + d)"

lemma digit_char_simps [simp]:
  "d < 10 \<Longrightarrow> is_digit (digit_char d)"
  "d < 10 \<Longrightarrow> digit_val (digit_char d) = d"
  by (auto simp: is_digit_def digit_char_def digit_val_def of_char_of)

fun digits_value :: "nat \<Rightarrow> string \<Rightarrow> nat" where
  "digits_value n [] = n"
| "digits_value n (c # cs) = (if is_digit c then digits_value (10 * n + digit_val c) cs else n)"

text \<open>\<open>atoi\<close>: white space, an optional sign, then digits.\<close>

definition is_space :: "char \<Rightarrow> bool" where
  "is_space c \<longleftrightarrow> c = space \<or> (9 \<le> (of_char c :: nat) \<and> (of_char c :: nat) \<le> 13)"

definition atoi :: "string \<Rightarrow> int" where
  "atoi mem =
     (case dropWhile is_space mem of
        [] \<Rightarrow> 0
      | c # cs \<Rightarrow>
          if c = CHR ''-'' then - int (digits_value 0 cs)
          else if c = CHR ''+'' then int (digits_value 0 cs)
          else int (digits_value 0 (c # cs)))"

text \<open>\<open>%d\<close> and \<open>%.<p>d\<close> for a non-negative argument.\<close>

fun decimal :: "nat \<Rightarrow> string" where
  "decimal n = (if n < 10 then [digit_char n] else decimal (n div 10) @ [digit_char (n mod 10)])"

declare decimal.simps [simp del]

definition decimal_prec :: "nat \<Rightarrow> nat \<Rightarrow> string" where
  "decimal_prec p n = replicate (p - length (decimal n)) (CHR ''0'') @ decimal n"

lemma decimal_is_digit: "c \<in> set (decimal n) \<Longrightarrow> is_digit c"
proof (induction n rule: decimal.induct)
  case (1 n)
  then show ?case by (subst (asm) (2) decimal.simps) (auto split: if_splits)
qed

lemma decimal_nonempty [simp]: "decimal n \<noteq> []"
  by (subst decimal.simps) simp

lemma digits_value_append:
  "(\<And>c. c \<in> set xs \<Longrightarrow> is_digit c) \<Longrightarrow>
   digits_value n (xs @ ys) = digits_value (digits_value n xs) ys"
  by (induction xs arbitrary: n) auto

lemma digits_value_decimal [simp]: "digits_value 0 (decimal n) = n"
proof (induction n rule: decimal.induct)
  case (1 n)
  then show ?case
    by (subst decimal.simps) (auto simp: digits_value_append decimal_is_digit)
qed

lemma digits_value_zeros [simp]: "digits_value 0 (replicate k (CHR ''0'') @ s) = digits_value 0 s"
  by (induction k) (auto simp: is_digit_def digit_val_def)

lemma digit_not_special: "is_digit c \<Longrightarrow> c \<noteq> CHR ''-'' \<and> c \<noteq> CHR ''+'' \<and> \<not> is_space c \<and> c \<noteq> NUL"
  by (auto simp: is_digit_def is_space_def)

lemma atoi_digits:
  assumes "s \<noteq> []" and "\<And>c. c \<in> set s \<Longrightarrow> is_digit c"
  shows "atoi s = int (digits_value 0 s)"
  using assms digit_not_special by (cases s) (auto simp: atoi_def)

lemma atoi_decimal: "atoi (decimal n) = int n"
  by (simp add: atoi_digits decimal_is_digit)

lemma set_decimal_prec: "c \<in> set (decimal_prec p n) \<Longrightarrow> is_digit c"
  by (auto simp: decimal_prec_def decimal_is_digit) (simp add: is_digit_def)

lemma atoi_decimal_prec: "atoi (decimal_prec p n) = int n"
  by (subst atoi_digits) (auto simp: set_decimal_prec, auto simp: decimal_prec_def)

section \<open>Writing into character arrays\<close>

definition poke :: "string \<Rightarrow> nat \<Rightarrow> char \<Rightarrow> string c_result" where
  "poke buf i c = (if i < length buf then Inr (buf[i := c]) else Inl Buffer_overflow)"

definition strcpy :: "string \<Rightarrow> string \<Rightarrow> string c_result" where
  "strcpy dest src =
     (if length (cstr src) < length dest
      then Inr (cstr src @ NUL # drop (Suc (length (cstr src))) dest)
      else Inl Buffer_overflow)"

text \<open>\<open>snprintf\<close> into a buffer of \<open>n\<close> bytes: the C string left there and the value returned.\<close>

definition snprintf :: "nat \<Rightarrow> string \<Rightarrow> string \<times> nat" where
  "snprintf n text = (take (n - 1) text, length text)"

subsection \<open>strcopy\<close>

text \<open>
  \<open>strcopy\<close> copies at \<open>dest_position\<close>, at most \<open>copy_len\<close> characters unless that is -1, and
  terminates the copy unless the limit was reached. The result is the array, the new position
  and the number of characters copied.
\<close>

fun strcopy_loop :: "string \<Rightarrow> nat \<Rightarrow> string \<Rightarrow> int \<Rightarrow> nat \<Rightarrow> (string \<times> nat) c_result" where
  "strcopy_loop dest position [] copy_len i = Inr (dest, i)"
| "strcopy_loop dest position (c # src) copy_len i =
     (if (copy_len = -1 \<or> int i < copy_len) \<and> c \<noteq> NUL
      then result_bind (poke dest (position + i) c)
             (\<lambda>dest. strcopy_loop dest position src copy_len (Suc i))
      else Inr (dest, i))"

definition strcopy :: "string \<Rightarrow> nat \<Rightarrow> string \<Rightarrow> int \<Rightarrow> (string \<times> nat \<times> nat) c_result" where
  "strcopy dest dest_position src copy_len =
     result_bind (strcopy_loop dest dest_position src copy_len 0) (\<lambda>(dest, i).
       result_bind (if int i < copy_len \<or> copy_len = -1
                    then poke dest (dest_position + i) NUL else Inr dest)
         (\<lambda>dest. Inr (dest, dest_position + i, i)))"

definition overwrite :: "string \<Rightarrow> nat \<Rightarrow> string \<Rightarrow> string" where
  "overwrite buf k t = take k buf @ t @ drop (k + length t) buf"

lemma length_overwrite [simp]: "k + length t \<le> length buf \<Longrightarrow> length (overwrite buf k t) = length buf"
  by (simp add: overwrite_def)

lemma overwrite_Nil [simp]: "overwrite buf k [] = buf"
  by (simp add: overwrite_def)

lemma overwrite_poke:
  "k < length buf \<Longrightarrow> overwrite (buf[k := c]) (Suc k) t = overwrite buf k (c # t)"
  by (simp add: overwrite_def take_Suc_conv_app_nth)

lemma overwrite_append:
  "k + length t \<le> length buf \<Longrightarrow> overwrite (overwrite buf k t) (k + length t) u = overwrite buf k (t @ u)"
  by (auto simp: overwrite_def min_def ac_simps) (use le_trans in fastforce)

text \<open>The characters a call copies.\<close>

definition copied :: "string \<Rightarrow> int \<Rightarrow> string" where
  "copied src copy_len = (if copy_len = -1 then cstr src else take (nat copy_len) (cstr src))"

lemma strcopy_loop_copies:
  assumes "-1 \<le> copy_len" and "copy_len \<noteq> -1 \<Longrightarrow> int i \<le> copy_len"
    and "copy_len = -1 \<and> t = cstr src \<or>
         copy_len \<noteq> -1 \<and> t = take (nat (copy_len - int i)) (cstr src)"
    and "position + i \<le> length dest"
  shows "strcopy_loop dest position src copy_len i =
    (if position + i + length t \<le> length dest
     then Inr (overwrite dest (position + i) t, i + length t) else Inl Buffer_overflow)"
  using assms(2-4)
proof (induction dest position src copy_len i arbitrary: t rule: strcopy_loop.induct)
  case (2 dest position c src copy_len i)
  show ?case
  proof (cases "(copy_len = -1 \<or> int i < copy_len) \<and> c \<noteq> NUL")
    case True
    define u where "u = (if copy_len = -1 then cstr src
      else take (nat (copy_len - int (Suc i))) (cstr src))"
    have [simp]: "nat (1 + int i) = Suc i" by linarith
    have t: "t = c # u"
      using 2(3) True by (auto simp: u_def cstr_def nat_diff_distrib take_Cons' nat_eq_iff
        intro: arg_cong[where f = "\<lambda>n. take n _"])
    show ?thesis
    proof (cases "position + i < length dest")
      case room: True
      have "strcopy_loop (dest[position + i := c]) position src copy_len (Suc i) =
        (if position + Suc i + length u \<le> length (dest[position + i := c])
         then Inr (overwrite (dest[position + i := c]) (position + Suc i) u, Suc i + length u)
         else Inl Buffer_overflow)"
        using True room by (intro 2(1)) (auto simp: poke_def u_def)
      with True room t show ?thesis by (simp add: poke_def overwrite_poke)
    qed (use True t in \<open>simp add: poke_def\<close>)
  qed (use 2 in \<open>auto simp: cstr_def\<close>)
qed (auto simp: cstr_def)

lemma strcopy_result:
  assumes "-1 \<le> copy_len" and "position \<le> length dest" and "t = copied src copy_len"
  shows "strcopy dest position src copy_len =
    (if position + length t + (if copy_len = -1 \<or> int (length t) < copy_len then 1 else 0)
        \<le> length dest
     then Inr (overwrite dest position
                 (t @ (if copy_len = -1 \<or> int (length t) < copy_len then [NUL] else [])),
               position + length t, length t)
     else Inl Buffer_overflow)"
proof -
  have "strcopy_loop dest position src copy_len 0 =
    (if position + 0 + length t \<le> length dest
     then Inr (overwrite dest (position + 0) t, 0 + length t) else Inl Buffer_overflow)"
    using assms by (intro strcopy_loop_copies) (auto simp: copied_def)
  then show ?thesis
    by (auto simp: strcopy_def poke_def overwrite_def list_update_append1 list_update_append
      min_def Suc_le_eq not_less drop_update_cancel list_update_beyond
      simp flip: Cons_nth_drop_Suc)
qed

subsection \<open>str_replace\<close>

text \<open>
  \<open>what\<close> is a literal at every call; \<open>replacement\<close> comes from \<open>getenv\<close> and may be NULL, which
  deletes the occurrence. \<open>target\<close> is the caller's array.
\<close>

definition str_replace :: "string \<Rightarrow> string option \<Rightarrow> string \<Rightarrow> string \<Rightarrow> string c_result" where
  "str_replace what replacement input target =
     (case strstr (cstr input) (cstr what) of
        Some prefix_len \<Rightarrow>
          result_bind (strcopy target 0 input (int prefix_len)) (\<lambda>(target, pos, _).
            result_bind (case replacement of
                           Some text \<Rightarrow> strcopy target pos text (-1)
                         | None \<Rightarrow> Inr (target, pos, 0)) (\<lambda>(target, pos, _).
              result_bind (strcopy target pos (drop (prefix_len + length (cstr what)) input) (-1))
                (\<lambda>(target, _, _). Inr target)))
      | None \<Rightarrow> strcpy target input)"

definition replace_first :: "string \<Rightarrow> string \<Rightarrow> string \<Rightarrow> string" where
  "replace_first what text input =
     (case strstr input what of
        Some k \<Rightarrow> take k input @ text @ drop (k + length what) input
      | None \<Rightarrow> input)"

definition replacement_text :: "string option \<Rightarrow> string" where
  "replacement_text replacement = (case replacement of Some text \<Rightarrow> cstr text | None \<Rightarrow> [])"

lemma strcopy_prefix:
  assumes "n \<le> length (cstr src)" and "n \<le> length dest"
  shows "strcopy dest 0 src (int n) = Inr (overwrite dest 0 (take n (cstr src)), n, n)"
  using strcopy_result[of "int n" 0 dest "take n (cstr src)" src] assms
  by (simp add: copied_def min_def)

lemma strcopy_prefix_overflow:
  assumes "n \<le> length (cstr src)" and "length dest < n"
  shows "strcopy dest 0 src (int n) = Inl Buffer_overflow"
  using strcopy_result[of "int n" 0 dest "take n (cstr src)" src] assms
  by (simp add: copied_def min_def)

lemma strcopy_all:
  assumes "position \<le> length dest"
  shows "strcopy dest position src (-1) =
    (if position + length (cstr src) < length dest
     then Inr (overwrite dest position (cstr src @ [NUL]), position + length (cstr src),
               length (cstr src))
     else Inl Buffer_overflow)"
  using strcopy_result[of "-1" position dest "cstr src" src] assms by (simp add: copied_def)

lemma overwrite_again:
  assumes "length z \<le> length u" and "k + length t + length z \<le> length buf"
  shows "overwrite (overwrite buf k (t @ z)) (k + length t) u = overwrite buf k (t @ u)"
  using assms by (auto simp: overwrite_def min_def ac_simps) (use le_trans in fastforce)+

lemma cstr_overwrite_0:
  "NUL \<notin> set t \<Longrightarrow> cstr (overwrite buf 0 (t @ [NUL])) = t"
  by (simp add: overwrite_def)

lemma str_replace_Some:
  fixes replacement :: "string option"
  assumes s: "strstr input (cstr what) = Some k" and nul: "NUL \<notin> set input"
  defines "t \<equiv> replacement_text replacement" and "rest \<equiv> drop (k + length (cstr what)) input"
  shows "str_replace what replacement input target =
    (if k + length t + length rest < length target
     then Inr (overwrite target 0 ((take k input @ t @ rest) @ [NUL]))
     else Inl Buffer_overflow)"
proof -
  have k: "k \<le> length input"
    using strstr_le[OF s] by simp
  have rest: "cstr rest = rest" and inp: "cstr input = input"
    using nul by (auto simp: rest_def intro!: cstr_NUL_free dest: in_set_dropD)
  show ?thesis
  proof (cases "k \<le> length target")
    case False
    then show ?thesis using s k inp by (simp add: str_replace_def strcopy_prefix_overflow)
  next
    case True
    define o1 where "o1 = overwrite target 0 (take k input)"
    have o1: "length o1 = length target" "strcopy target 0 input (int k) = Inr (o1, k, k)"
      using True k inp by (simp_all add: o1_def strcopy_prefix)
    have up: "overwrite o1 k u = overwrite target 0 (take k input @ u)" for u
      using overwrite_append[of 0 "take k input" target u] True k
      by (simp add: o1_def min.absorb2)
    show ?thesis
    proof (cases replacement)
      case None
      then show ?thesis
        using s o1 True k rest inp strcopy_all[of k o1 rest]
        by (auto simp: str_replace_def t_def replacement_text_def rest_def up)
    next
      case (Some w)
      define o2 where "o2 = overwrite o1 k (t @ [NUL])"
      have t: "t = cstr w" using Some by (simp add: t_def replacement_text_def)
      have step: "strcopy o1 k w (-1) =
        (if k + length t < length target then Inr (o2, k + length t, length t) else Inl Buffer_overflow)"
        using strcopy_all[of k o1 w] o1 True by (simp add: o2_def t)
      have "overwrite o2 (k + length t) (rest @ [NUL]) = overwrite o1 k (t @ rest @ [NUL])"
        if "k + length t < length target"
        unfolding o2_def using that o1 by (intro overwrite_again) auto
      moreover have "length o2 = length target" if "k + length t < length target"
        using that o1 by (simp add: o2_def)
      ultimately show ?thesis
        using s o1 inp Some step strcopy_all[of "k + length t" o2 rest] rest
        by (auto simp: str_replace_def rest_def up)
    qed
  qed
qed

lemma str_replace_result:
  fixes replacement :: "string option" and what input :: string
  assumes "NUL \<notin> set input"
  defines "r \<equiv> replace_first (cstr what) (replacement_text replacement) input"
  shows "length r < length target \<Longrightarrow>
      \<exists>out. str_replace what replacement input target = Inr out \<and> cstr out = r"
    and "length target \<le> length r \<Longrightarrow>
      str_replace what replacement input target = Inl Buffer_overflow"
proof -
  have t: "NUL \<notin> set (replacement_text replacement)"
    by (auto simp: replacement_text_def split: option.splits)
  show "\<exists>out. str_replace what replacement input target = Inr out \<and> cstr out = r"
    if "length r < length target"
  proof (cases "strstr input (cstr what)")
    case None
    with assms that show ?thesis by (simp add: str_replace_def replace_first_def strcpy_def)
  next
    case (Some k)
    have "k \<le> length input"
      using strstr_le[OF Some] by simp
    moreover have "NUL \<notin> set r"
      using assms t Some by (auto simp: replace_first_def dest: in_set_takeD in_set_dropD)
    ultimately show ?thesis
      using str_replace_Some[OF Some assms(1), where replacement = replacement and target = target] that Some
      by (auto simp: r_def replace_first_def cstr_overwrite_0 simp del: append_assoc)
  qed
  show "str_replace what replacement input target = Inl Buffer_overflow"
    if "length target \<le> length r"
  proof (cases "strstr input (cstr what)")
    case None
    with assms that show ?thesis by (simp add: str_replace_def replace_first_def strcpy_def)
  next
    case (Some k)
    have "k \<le> length input"
      using strstr_le[OF Some] by simp
    then show ?thesis
      using str_replace_Some[OF Some assms(1), where replacement = replacement and target = target] that Some
      by (auto simp: r_def replace_first_def)
  qed
qed

section \<open>get_token\<close>

text \<open>
  \<open>get_token\<close> skips delimiters at the pointer, copies the following characters up to the next
  delimiter or the end of the string into the caller's array of \<open>cap\<close> bytes, terminates the
  copy, and advances the pointer past the token. The result is the token's length (the C
  return value), the token, and the string at the advanced pointer.
\<close>

definition get_token :: "nat \<Rightarrow> string \<Rightarrow> string \<Rightarrow> (nat \<times> string \<times> string) c_result" where
  "get_token cap str_ptr delim =
     (let str_ptr = drop (strspn str_ptr delim) str_ptr;
          token_len = strcspn str_ptr delim
      in if token_len < cap
         then Inr (token_len, take token_len str_ptr, drop token_len str_ptr)
         else Inl Buffer_overflow)"

lemma strspn_split: "set pre \<subseteq> set accept \<Longrightarrow> s = [] \<or> hd s \<notin> set accept \<Longrightarrow>
   strspn (pre @ s) accept = length pre"
  by (induction pre) (cases s; auto simp: strspn_def)+

lemma strcspn_split: "NUL \<notin> set w \<Longrightarrow> set w \<inter> set reject = {} \<Longrightarrow>
   s = [] \<or> hd s = NUL \<or> hd s \<in> set reject \<Longrightarrow> strcspn (w @ s) reject = length w"
  by (induction w) (cases s; auto simp: strcspn_def)+

lemma get_token_word:
  assumes "set pre \<subseteq> set delim" and "w \<noteq> []" and "NUL \<notin> set w" and "set w \<inter> set delim = {}"
    and "rest = [] \<or> hd rest = NUL \<or> hd rest \<in> set delim" and "length w < cap"
  shows "get_token cap (pre @ w @ rest) delim = Inr (length w, w, rest)"
proof -
  have "strspn (pre @ w @ rest) delim = length pre"
    using assms by (intro strspn_split) (auto simp: neq_Nil_conv)
  moreover have "strcspn (w @ rest) delim = length w"
    using assms by (intro strcspn_split) auto
  ultimately show ?thesis using assms by (simp add: get_token_def Let_def)
qed

lemma get_token_room: "length s < cap \<Longrightarrow> \<exists>x. get_token cap s delim = Inr x"
  by (auto simp: get_token_def Let_def strcspn_def intro: le_less_trans[OF length_takeWhile_le]
      less_imp_diff_less)

lemma get_token_blank:
  "set pre \<subseteq> set delim \<Longrightarrow> 0 < cap \<Longrightarrow> get_token cap pre delim = Inr (0, [], [])"
  using strspn_split[of pre delim "[]"] by (simp add: get_token_def strcspn_def)

lemma get_token_overflow:
  assumes "w \<noteq> []" and "NUL \<notin> set w" and "set w \<inter> set delim = {}"
    and "rest = [] \<or> hd rest = NUL \<or> hd rest \<in> set delim"
    and "set pre \<subseteq> set delim" and "cap \<le> length w"
  shows "get_token cap (pre @ w @ rest) delim = Inl Buffer_overflow"
proof -
  have "strspn (pre @ w @ rest) delim = length pre"
    using assms by (intro strspn_split) (auto simp: neq_Nil_conv)
  moreover have "strcspn (w @ rest) delim = length w"
    using assms by (intro strcspn_split) auto
  ultimately show ?thesis using assms by (simp add: get_token_def Let_def)
qed

text \<open>What every successful call satisfies, on any string.\<close>

lemma get_token_Inr:
  assumes "get_token cap s delim = Inr (n, token, rest)"
  shows "n = length token" and "n < cap" and "NUL \<notin> set token" and "set token \<inter> set delim = {}"
    and "\<exists>pre. s = pre @ token @ rest \<and> set pre \<subseteq> set delim"
    and "length rest + n \<le> length s"
proof -
  let ?r = "drop (strspn s delim) s"
  have pre: "s = take (strspn s delim) s @ ?r" by simp
  have tok: "token = take (strcspn ?r delim) ?r" "rest = drop (strcspn ?r delim) ?r"
    "n = strcspn ?r delim" "n < cap"
    using assms by (auto simp: get_token_def Let_def split: if_splits)
  have le: "strcspn ?r delim \<le> length ?r" unfolding strcspn_def by (rule length_takeWhile_le)
  have tw: "token = takeWhile (\<lambda>c. c \<noteq> NUL \<and> c \<notin> set delim) ?r"
    using tok(1) by (simp add: strcspn_def takeWhile_eq_take[symmetric])
  show "n = length token" using tok le by simp
  show "n < cap" by (fact tok)
  show "NUL \<notin> set token" and "set token \<inter> set delim = {}"
    unfolding tw by (auto dest: set_takeWhileD)
  have "set (take (strspn s delim) s) \<subseteq> set delim"
    by (auto simp: strspn_def simp flip: takeWhile_eq_take dest: set_takeWhileD)
  then show "\<exists>pre. s = pre @ token @ rest \<and> set pre \<subseteq> set delim"
    using pre tok(1,2) by (metis append_take_drop_id)
  show "length rest + n \<le> length s" using tok le by simp
qed

section \<open>The string routines' guarantees\<close>

text \<open>\<open>str_replace\<close> leaves its input with the first occurrence of \<open>what\<close> replaced in the target
  array, or faults exactly when that text and its terminator do not fit; a missing replacement
  (the unset variable HOME) deletes the occurrence.\<close>

lemma str_replace_replaces_first:
  assumes "NUL \<notin> set input"
  shows "case str_replace what replacement input target of
      Inr out \<Rightarrow> length (replace_first (cstr what) (replacement_text replacement) input) < length target \<and>
        cstr out = replace_first (cstr what) (replacement_text replacement) input
    | Inl e \<Rightarrow> length target \<le> length (replace_first (cstr what) (replacement_text replacement) input) \<and>
        e = Buffer_overflow"
  using str_replace_result[OF assms, where what = what and replacement = replacement and target = target]
  by (cases "length (replace_first (cstr what) (replacement_text replacement) input) < length target")
    auto

lemma str_replace_replaces_first_witness:
  "\<exists>out. str_replace ''~'' (Some ''/root'') ''~/.mtn'' (replicate 20 NUL) = Inr out \<and>
     cstr out = ''/root/.mtn''"
proof -
  have r: "replace_first (cstr ''~'') (replacement_text (Some ''/root'')) ''~/.mtn'' = ''/root/.mtn''"
    by (simp add: replace_first_def replacement_text_def)
  have "NUL \<notin> set ''~/.mtn''" by simp
  from str_replace_replaces_first[OF this, where what = "''~''" and replacement = "Some ''/root''"
      and target = "replicate 20 NUL"] show ?thesis
    unfolding r by (auto split: sum.splits)
qed

text \<open>A successful \<open>get_token\<close> splits its string into skipped delimiters, the token, and the rest
  the pointer is left at; the token holds no delimiter and no NUL, and the rest is empty, at a
  NUL, or at a delimiter.\<close>

lemma get_token_splits:
  assumes "get_token cap s delim = Inr (n, token, rest)"
  shows "\<exists>pre. s = pre @ token @ rest \<and> set pre \<subseteq> set delim \<and> n = length token \<and> n < cap \<and>
    set token \<inter> insert NUL (set delim) = {} \<and>
    (rest = [] \<or> hd rest \<in> insert NUL (set delim))"
proof -
  let ?r = "drop (strspn s delim) s"
  have "rest = drop (strcspn ?r delim) ?r"
    using assms by (auto simp: get_token_def Let_def split: if_splits)
  then have "rest = dropWhile (\<lambda>c. c \<noteq> NUL \<and> c \<notin> set delim) ?r"
    by (simp add: strcspn_def dropWhile_eq_drop)
  then have "rest = [] \<or> hd rest \<in> insert NUL (set delim)"
    using hd_dropWhile[of "\<lambda>c. c \<noteq> NUL \<and> c \<notin> set delim" ?r] by auto
  with get_token_Inr[OF assms] show ?thesis by blast
qed

lemma get_token_splits_witness:
  "\<exists>pre. ''  ab cd'' = pre @ ''ab'' @ '' cd'' \<and> set pre \<subseteq> set '' ''"
proof -
  have "get_token 10 ''  ab cd'' '' '' = Inr (2, ''ab'', '' cd'')"
    by (simp add: get_token_def strspn_def strcspn_def)
  from get_token_splits[OF this] show ?thesis by blast
qed

end
