(* ===== verification/Network.thy ===== *)
theory Network
  imports CString
begin

text \<open>
  Socket addresses: the part of \<open>struct sockaddr_in\<close> the program uses, the conversions
  \<open>inet_pton\<close> and \<open>inet_ntop\<close> for IPv4, and datagrams. The port is a 16-bit word in host byte
  order (\<open>htons\<close> and \<open>ntohs\<close> undo each other); the address is its four octets.
\<close>

record sockaddr_in =
  sin_addr :: "nat list"
  sin_port :: "16 word"

text \<open>The time in seconds a subscription lasts, for the server as for the client.\<close>

definition SUBSCR_EXPIRE_TIME :: int where "SUBSCR_EXPIRE_TIME = 5"

definition INET_ADDRSTRLEN :: nat where "INET_ADDRSTRLEN = 16"

definition octets :: "nat list \<Rightarrow> bool" where
  "octets bs \<longleftrightarrow> length bs = 4 \<and> (\<forall>b \<in> set bs. b \<le> 255)"

text \<open>\<open>inet_pton\<close>: the finished octets, and the value of the one being read. A leading zero, a value
  above 255, an empty octet and a wrong number of octets are refused.\<close>

fun pton_loop :: "string \<Rightarrow> nat list \<Rightarrow> nat option \<Rightarrow> nat list option" where
  "pton_loop [] tp None = None"
| "pton_loop [] tp (Some v) = (if length tp = 3 then Some (tp @ [v]) else None)"
| "pton_loop (c # cs) tp cur =
     (if is_digit c then
        (case cur of
           None \<Rightarrow> pton_loop cs tp (Some (digit_val c))
         | Some v \<Rightarrow> if v = 0 \<or> 255 < 10 * v + digit_val c then None
                     else pton_loop cs tp (Some (10 * v + digit_val c)))
      else if c = CHR ''.'' then
        (case cur of
           None \<Rightarrow> None
         | Some v \<Rightarrow> if length tp = 3 then None else pton_loop cs (tp @ [v]) None)
      else None)"

definition inet_pton :: "string \<Rightarrow> nat list option" where
  "inet_pton s = pton_loop s [] None"

fun inet_ntop :: "nat list \<Rightarrow> string" where
  "inet_ntop [] = []"
| "inet_ntop [b] = decimal b"
| "inet_ntop (b # bs) = decimal b @ CHR ''.'' # inet_ntop bs"

section \<open>Printed addresses are read back\<close>

lemma decimal_length: "0 < k \<Longrightarrow> length (decimal n) \<le> k \<longleftrightarrow> n < 10 ^ k"
proof (induction n arbitrary: k rule: decimal.induct)
  case (1 n)
  show ?case
  proof (cases "n < 10")
    case True
    have "(10 :: nat) ^ 1 \<le> 10 ^ k" using 1(2) by (intro power_increasing) auto
    with True 1(2) show ?thesis by (subst decimal.simps) auto
  next
    case False
    show ?thesis
    proof (cases "k = 1")
      case True
      with False show ?thesis by (subst decimal.simps) (simp add: Suc_le_eq)
    next
      case k: False
      with 1(2) obtain j where j: "k = Suc j" "0 < j" by (cases k) auto
      have "length (decimal n) = Suc (length (decimal (n div 10)))"
        using False by (subst decimal.simps) simp
      with 1(1)[OF False j(2)] j show ?thesis by (auto simp: div_less_iff_less_mult mult.commute)
    qed
  qed
qed

lemma pton_loop_decimal: "b \<le> 255 \<Longrightarrow> pton_loop (decimal b @ s) tp None = pton_loop s tp (Some b)"
proof (induction b arbitrary: s rule: decimal.induct)
  case (1 b)
  show ?case
  proof (cases "b < 10")
    case True
    then show ?thesis by (subst decimal.simps) simp
  next
    case False
    with 1 have "pton_loop (decimal (b div 10) @ digit_char (b mod 10) # s) tp None =
        pton_loop (digit_char (b mod 10) # s) tp (Some (b div 10))"
      by simp
    moreover have "10 * (b div 10) + b mod 10 = b" "b div 10 \<noteq> 0" using False by auto
    ultimately show ?thesis using False 1(2) by (subst decimal.simps) simp
  qed
qed

lemma dot_not_digit [simp]: "\<not> is_digit (CHR ''.'')"
  by (simp add: is_digit_def)

lemma pton_ntop:
  assumes "octets bs"
  shows "inet_pton (inet_ntop bs) = Some bs"
proof -
  obtain a b c d where bs: "bs = [a, b, c, d]"
    using assms by (auto simp: octets_def length_Suc_conv eval_nat_numeral)
  have "pton_loop (decimal d) [a, b, c] None = Some [a, b, c, d]"
    using pton_loop_decimal[of d "[]" "[a, b, c]"] assms bs by (simp add: octets_def)
  with assms bs show ?thesis by (simp add: inet_pton_def pton_loop_decimal octets_def)
qed

lemma set_inet_ntop: "c \<in> set (inet_ntop bs) \<Longrightarrow> is_digit c \<or> c = CHR ''.''"
  by (induction bs rule: inet_ntop.induct) (auto dest: decimal_is_digit)

lemma length_inet_ntop:
  assumes "octets bs"
  shows "0 < length (inet_ntop bs) \<and> length (inet_ntop bs) < INET_ADDRSTRLEN"
proof -
  obtain a b c d where bs: "bs = [a, b, c, d]"
    using assms by (auto simp: octets_def length_Suc_conv eval_nat_numeral)
  have "length (decimal x) \<le> 3" if "x \<in> set bs" for x
    using assms that decimal_length[of 3 x] by (fastforce simp: octets_def)
  then have "length (decimal a) \<le> 3" "length (decimal b) \<le> 3" "length (decimal c) \<le> 3"
      "length (decimal d) \<le> 3"
    by (simp_all add: bs)
  then show ?thesis by (simp add: bs INET_ADDRSTRLEN_def)
qed

section \<open>Datagrams\<close>

text \<open>
  What \<open>recvfrom\<close> gives: a datagram, of which the first 1024 bytes are stored at the start of the
  receiver's array and terminated with a NUL, or -1, where the NUL is stored in front of the array.
  The array lives as long as the receiving thread, so bytes of earlier datagrams stay behind the
  terminator.
\<close>

datatype incoming = Datagram string sockaddr_in | Recv_failed

definition receive_into :: "nat \<Rightarrow> string \<Rightarrow> string \<Rightarrow> string" where
  "receive_into n buf d = overwrite buf 0 (take n d @ [NUL])"

lemma receive_into_split:
  "receive_into n buf d = take n d @ NUL # drop (Suc (length (take n d))) buf"
  by (simp add: receive_into_def overwrite_def)

text \<open>
  What \<open>sendto\<close> sends of a message printed by \<open>snprintf\<close> into an array of \<open>cap\<close> bytes when it is
  given the returned length: beyond the array it reads outside of it.
\<close>

definition send_printed :: "nat \<Rightarrow> string \<Rightarrow> string c_result" where
  "send_printed cap text =
     (case snprintf cap text of (printed, len) \<Rightarrow>
        if len < cap then Inr printed
        else if len = cap then Inr (printed @ [NUL])
        else Inl Out_of_bounds_read)"

lemma send_printed_fits: "length text < cap \<Longrightarrow> send_printed cap text = Inr text"
  by (simp add: send_printed_def snprintf_def)

end
