(* ===== verification/LineReader.thy ===== *)
theory LineReader
  imports CString
begin

text \<open>
  The buffered line reader \<open>get_file_line\<close> of \<open>mtn-common.c\<close>. A file descriptor is the list of
  results its future \<open>read\<close> calls give: a non-empty chunk of at most \<open>LINE_MAX_SIZE\<close> bytes, or a
  failure; the empty list is end of file. The static variables \<open>buffer\<close>, \<open>buffer_ptr\<close> and
  \<open>read_len\<close> are one string, the bytes not yet consumed (\<open>read_len\<close> is its length).
\<close>

section \<open>The reader\<close>

definition LINE_MAX_SIZE :: nat where "LINE_MAX_SIZE = 4096"

datatype read_result = Chunk string | Read_failed

record reader =
  unread :: string
  input_fd :: "read_result list"

text \<open>
  Filling an empty buffer. A failed \<open>read\<close> returns -1, and the terminator is then stored in
  front of the buffer.
\<close>

definition fill_buffer :: "reader \<Rightarrow> reader c_result" where
  "fill_buffer rd =
     (if unread rd \<noteq> [] then Inr rd
      else case input_fd rd of
        [] \<Rightarrow> Inr rd
      | Chunk s # fd \<Rightarrow> Inr \<lparr>unread = s, input_fd = fd\<rparr>
      | Read_failed # fd \<Rightarrow> Inl Buffer_overflow)"

text \<open>
  \<open>get_file_line cap\<close>, where \<open>cap\<close> is the size of the caller's \<open>line\<close> array, returns the C return
  value, the line, and the reader. Where the buffer ends before the line does, the rest is read
  by a recursive call, whose return value -1 (end of file) is added to the length.
\<close>

definition skip_newlines :: "bool \<Rightarrow> string \<Rightarrow> string" where
  "skip_newlines nonempty buffer_ptr =
     (if nonempty then drop (strspn buffer_ptr [newline]) buffer_ptr else buffer_ptr)"

definition append_next :: "nat \<Rightarrow> string \<Rightarrow> int \<times> string \<times> reader \<Rightarrow> (int \<times> string \<times> reader) c_result" where
  "append_next cap line = (\<lambda>(next_line_len, next_line, rd).
     let line_len = int (length line) in
     if next_line_len \<noteq> 0 then
       if line_len + next_line_len > int LINE_MAX_SIZE then Inl (Exit 1)
       else if cap \<le> length line + length next_line then Inl Buffer_overflow
       else Inr (line_len + next_line_len, line @ next_line, rd)
     else Inr (line_len, line, rd))"

definition fill_measure :: "reader \<Rightarrow> nat" where
  "fill_measure rd = 2 * length (input_fd rd) + (if unread rd = [] then 0 else 1)"

lemma fill_measure_less:
  "fill_buffer rd = Inr rd' \<Longrightarrow> unread rd' \<noteq> [] \<Longrightarrow> fill_measure (rd'\<lparr>unread := []\<rparr>) < fill_measure rd"
  by (auto simp: fill_buffer_def fill_measure_def split: if_splits list.splits read_result.splits)

function get_file_line :: "nat \<Rightarrow> reader \<Rightarrow> bool \<Rightarrow> (int \<times> string \<times> reader) c_result" where
  "get_file_line cap rd nonempty =
     result_bind (fill_buffer rd) (\<lambda>rd.
       if unread rd \<noteq> [] then
         let buffer_ptr = skip_newlines nonempty (unread rd);
             line_len = strcspn buffer_ptr [newline];
             line = take line_len buffer_ptr
         in if cap \<le> line_len then Inl Buffer_overflow
            else if length buffer_ptr < line_len + 1 then
              result_bind (get_file_line (LINE_MAX_SIZE + 1) (rd\<lparr>unread := []\<rparr>) False)
                (append_next cap line)
            else Inr (int line_len, line, rd\<lparr>unread := drop (line_len + 1) buffer_ptr\<rparr>)
       else Inr (-1, [], rd))"
  by pat_completeness auto

termination
  by (relation "measure (\<lambda>(cap, rd, nonempty). fill_measure rd)") (auto simp: fill_measure_less)

declare get_file_line.simps [simp del]

section \<open>Every call that returns a line consumes input\<close>

fun fd_size :: "read_result list \<Rightarrow> nat" where
  "fd_size [] = 0"
| "fd_size (Chunk s # fd) = Suc (length s + fd_size fd)"
| "fd_size (Read_failed # fd) = Suc (fd_size fd)"

definition reader_size :: "reader \<Rightarrow> nat" where
  "reader_size rd = length (unread rd) + fd_size (input_fd rd)"

lemma fill_buffer_size: "fill_buffer rd = Inr rd' \<Longrightarrow> reader_size rd' \<le> reader_size rd"
  by (auto simp: fill_buffer_def reader_size_def split: if_splits list.splits read_result.splits)

lemma strcspn_le: "strcspn s r \<le> length s"
  unfolding strcspn_def by (rule length_takeWhile_le)

lemma get_file_line_filled:
  assumes "fill_buffer rd = Inr r" and "unread r \<noteq> []"
    and "b = skip_newlines nonempty (unread r)" and "k = strcspn b [newline]"
  shows "get_file_line cap rd nonempty =
      (if cap \<le> k then Inl Buffer_overflow
       else if length b < k + 1 then
         result_bind (get_file_line (LINE_MAX_SIZE + 1) (r\<lparr>unread := []\<rparr>) False)
           (append_next cap (take k b))
       else Inr (int k, take k b, r\<lparr>unread := drop (k + 1) b\<rparr>))"
  using assms by (subst get_file_line.simps) (simp add: Let_def)

lemma append_next_reader:
  "append_next cap line (m, l, rd) = Inr (n, line', rd') \<Longrightarrow> rd' = rd"
  by (auto simp: append_next_def Let_def split: if_splits)

lemma get_file_line_consumes:
  "get_file_line cap rd nonempty = Inr (n, line, rd') \<Longrightarrow>
   reader_size rd' \<le> reader_size rd \<and> (n \<noteq> -1 \<longrightarrow> reader_size rd' < reader_size rd)"
proof (induction cap rd nonempty arbitrary: n line rd' rule: get_file_line.induct)
  case (1 cap rd nonempty)
  from "1.prems" obtain r where r: "fill_buffer rd = Inr r"
    by (subst (asm) get_file_line.simps) (auto simp: result_bind_Inr_iff)
  note size = fill_buffer_size[OF r]
  show ?case
  proof (cases "unread r = []")
    case True
    with "1.prems" r size show ?thesis by (subst (asm) get_file_line.simps) auto
  next
    case False
    define b where "b = skip_newlines nonempty (unread r)"
    define k where "k = strcspn b [newline]"
    have b: "length b \<le> length (unread r)" by (simp add: b_def skip_newlines_def)
    note eq = get_file_line_filled[OF r False b_def k_def, of cap]
    show ?thesis
    proof (cases "length b < k + 1")
      case True
      with "1.prems" eq obtain m l where
        "get_file_line (LINE_MAX_SIZE + 1) (r\<lparr>unread := []\<rparr>) False = Inr (m, l, rd')"
        by (auto simp: result_bind_Inr_iff split: if_splits dest: append_next_reader)
      then have "reader_size rd' \<le> reader_size (r\<lparr>unread := []\<rparr>)"
        using "1.IH"[OF r False b_def k_def refl] True "1.prems" eq by (auto split: if_splits)
      moreover have "reader_size (r\<lparr>unread := []\<rparr>) < reader_size r"
        using False by (simp add: reader_size_def)
      ultimately show ?thesis using size by linarith
    next
      case nl: False
      with "1.prems" eq have "rd' = r\<lparr>unread := drop (k + 1) b\<rparr>"
        by (auto split: if_splits)
      then have "reader_size rd' < reader_size r" using nl b by (simp add: reader_size_def)
      with size show ?thesis by linarith
    qed
  qed
qed

text \<open>
  The loop \<open>while(get_file_line(line, fd, true) != -1) body\<close>, shared by the two file parsers.
\<close>

function fold_lines ::
    "nat \<Rightarrow> (string \<Rightarrow> 's \<Rightarrow> 's c_result) \<Rightarrow> reader \<Rightarrow> 's \<Rightarrow> ('s \<times> reader) c_result" where
  "fold_lines cap body rd s =
     result_bind (get_file_line cap rd True) (\<lambda>(line_len, line, rd).
       if line_len \<noteq> -1 then result_bind (body line s) (fold_lines cap body rd)
       else Inr (s, rd))"
  by pat_completeness auto
termination
  by (relation "measure (\<lambda>(cap, body, rd, s). reader_size rd)") (auto dest: get_file_line_consumes)

declare fold_lines.simps [simp del]

section \<open>The lines read do not depend on how the file arrives in chunks\<close>

text \<open>
  \<open>stream\<close> is what remains to be read. A reader is \<open>good\<close> when no \<open>read\<close> fails or returns an
  empty chunk before the end of the file, and the file has no NUL byte.
\<close>

fun chunk_bytes :: "read_result \<Rightarrow> string" where
  "chunk_bytes (Chunk s) = s"
| "chunk_bytes Read_failed = []"

definition stream :: "reader \<Rightarrow> string" where
  "stream rd = unread rd @ concat (map chunk_bytes (input_fd rd))"

definition good :: "reader \<Rightarrow> bool" where
  "good rd \<longleftrightarrow> (\<forall>x \<in> set (input_fd rd). chunk_bytes x \<noteq> []) \<and> NUL \<notin> set (stream rd)"

definition plain_line :: "string \<Rightarrow> bool" where
  "plain_line l \<longleftrightarrow> newline \<notin> set l \<and> NUL \<notin> set l \<and> length l \<le> LINE_MAX_SIZE"

lemma fill_buffer_good:
  assumes "good rd"
  obtains r where "fill_buffer rd = Inr r" "good r" "stream r = stream rd"
    "unread r = [] \<longleftrightarrow> stream rd = []"
proof (cases "unread rd = []")
  case False
  with assms show ?thesis by (intro that[of rd]) (auto simp: fill_buffer_def stream_def)
next
  case True
  show ?thesis
  proof (cases "input_fd rd")
    case Nil
    with True assms show ?thesis by (intro that[of rd]) (auto simp: fill_buffer_def stream_def)
  next
    case (Cons x fd)
    with True assms show ?thesis
      by (cases x) (auto intro!: that simp: fill_buffer_def stream_def good_def)
  qed
qed

lemma good_drop:
  "good r \<Longrightarrow> unread r = p @ q \<Longrightarrow> good (r\<lparr>unread := q\<rparr>)"
  by (auto simp: good_def stream_def)

lemma get_file_line_eof:
  "good rd \<Longrightarrow> stream rd = [] \<Longrightarrow>
   \<exists>rd'. get_file_line cap rd nonempty = Inr (-1, [], rd') \<and> good rd' \<and> stream rd' = []"
  by (erule fill_buffer_good, subst get_file_line.simps) auto

text \<open>A line that ends inside the buffer, and one that does not.\<close>

lemma strcspn_newline: "newline \<notin> set l \<Longrightarrow> NUL \<notin> set l \<Longrightarrow>
    strcspn (l @ newline # rest) [newline] = length l \<and> strcspn l [newline] = length l"
  using strcspn_split[of l "[newline]" "newline # rest"] strcspn_split[of l "[newline]" "[]"] by auto

lemma first_split_unique:
  "u @ x # v = l @ x # w \<Longrightarrow> x \<notin> set u \<Longrightarrow> x \<notin> set l \<Longrightarrow> u = l \<and> v = w"
proof (induction u arbitrary: l)
  case Nil
  then show ?case by (cases l) auto
next
  case (Cons a u)
  then show ?case by (cases l) auto
qed

lemma prefix_without:
  "u @ v = l @ x # w \<Longrightarrow> x \<notin> set u \<Longrightarrow> \<exists>l2. l = u @ l2 \<and> v = l2 @ x # w"
proof (induction u arbitrary: l)
  case (Cons a u)
  then show ?case by (cases l) auto
qed simp

lemma get_file_line_reads:
  "good rd \<Longrightarrow> stream rd = l @ newline # rest \<Longrightarrow> plain_line l \<Longrightarrow> length l < cap \<Longrightarrow>
   \<exists>rd'. get_file_line cap rd False = Inr (int (length l), l, rd') \<and> good rd' \<and> stream rd' = rest"
proof (induction "fill_measure rd" arbitrary: cap rd l rule: less_induct)
  case less
  obtain r where r: "fill_buffer rd = Inr r" "good r" "stream r = l @ newline # rest" "unread r \<noteq> []"
    using fill_buffer_good[OF less.prems(1)] less.prems(2) by (metis append_is_Nil_conv list.distinct(1))
  have l: "newline \<notin> set l" "NUL \<notin> set l" "length l \<le> LINE_MAX_SIZE"
    using less.prems(3) by (auto simp: plain_line_def)
  note eq = get_file_line_filled[OF r(1,4) refl refl, of cap False]
  show ?case
  proof (cases "newline \<in> set (unread r)")
    case True
    then obtain u v where uv: "unread r = u @ newline # v" "newline \<notin> set u"
      by (meson split_list_first)
    then have "u = l" "v @ concat (map chunk_bytes (input_fd r)) = rest"
      using r(3) l first_split_unique[of u newline _ l rest] by (auto simp: stream_def)
    with uv r less.prems(4) eq l strcspn_newline[of l v] show ?thesis
      by (auto simp: skip_newlines_def stream_def intro!: good_drop[of r "l @ [newline]" v])
  next
    case False
    then obtain l2 where l2: "l = unread r @ l2"
        "concat (map chunk_bytes (input_fd r)) = l2 @ newline # rest"
      using r(3) prefix_without[of "unread r" _ l newline rest] by (auto simp: stream_def)
    let ?r = "r\<lparr>unread := []\<rparr>"
    obtain rd' where rd': "good rd'" "stream rd' = rest"
        "get_file_line (LINE_MAX_SIZE + 1) ?r False = Inr (int (length l2), l2, rd')"
      using less.hyps[OF fill_measure_less[OF r(1,4)], of l2 "LINE_MAX_SIZE + 1"]
        r(2) l l2 good_drop[of r "unread r" "[]"]
      by (auto simp: stream_def plain_line_def)
    have "strcspn (unread r) [newline] = length (unread r)"
      using strcspn_newline[of "unread r"] False l l2(1) by auto
    with eq rd' l2(1) l(3) less.prems(4) show ?thesis
      by (auto simp: skip_newlines_def append_next_def Let_def)
  qed
qed

text \<open>
  With \<open>nonempty\<close>, newlines at the front of the buffer are skipped. Newlines that arrive in a
  later chunk are not: the call then returns an empty line.
\<close>

lemma strspn_newlines: "l = [] \<or> hd l \<noteq> newline \<Longrightarrow> strspn (replicate k newline @ l) [newline] = k"
  using strspn_split[of "replicate k newline" "[newline]" l] by (auto simp: set_replicate_conv_if)

text \<open>What may follow a run of newlines: the end of the file, or a line.\<close>

definition line_or_end :: "nat \<Rightarrow> string \<Rightarrow> bool" where
  "line_or_end cap t \<longleftrightarrow>
     t = [] \<or> (\<exists>l rest. t = l @ newline # rest \<and> l \<noteq> [] \<and> plain_line l \<and> length l < cap)"

definition yields :: "string \<Rightarrow> int \<times> string \<times> reader \<Rightarrow> bool" where
  "yields t = (\<lambda>(n, line, rd). good rd \<and>
     (if t = [] then n = -1 \<and> line = [] \<and> stream rd = []
      else n = int (length line) \<and> t = line @ newline # stream rd \<and> newline \<notin> set line))"

lemma get_file_line_yields:
  assumes "good rd" and "stream rd = t" and "line_or_end cap t" and "0 < cap"
  shows "\<exists>res. get_file_line cap rd False = Inr res \<and> yields t res"
proof (cases "t = []")
  case True
  with assms get_file_line_eof[of rd cap False] show ?thesis by (auto simp: yields_def)
next
  case False
  with assms obtain l rest where l: "t = l @ newline # rest" "plain_line l" "length l < cap"
    by (auto simp: line_or_end_def)
  with assms get_file_line_reads[of rd l rest cap] show ?thesis
    by (auto simp: yields_def plain_line_def)
qed

lemma line_or_end_hd: "line_or_end cap t \<Longrightarrow> t = [] \<or> hd t \<noteq> newline"
  by (auto simp: line_or_end_def plain_line_def neq_Nil_conv)

lemma leading_newlines:
  obtains j b where "u = replicate j newline @ b" "b = [] \<or> hd b \<noteq> newline"
    "skip_newlines True u = b"
proof -
  let ?w = "takeWhile (\<lambda>c. c = newline) u" and ?b = "dropWhile (\<lambda>c. c = newline) u"
  have "\<forall>c \<in> set ?w. c = newline" by (auto dest: set_takeWhileD)
  then have "replicate (length ?w) newline = ?w" by (rule replicate_length_same)
  then have "replicate (length ?w) newline @ ?b = ?w @ ?b" by (rule arg_cong)
  then have u: "u = replicate (length ?w) newline @ ?b"
    by (simp only: takeWhile_dropWhile_id)
  moreover have b: "?b = [] \<or> hd ?b \<noteq> newline"
    using hd_dropWhile[of "\<lambda>c. c = newline" u] by blast
  moreover have "skip_newlines True u = ?b"
    by (simp add: skip_newlines_def strspn_def flip: dropWhile_eq_drop)
  ultimately show thesis by (rule that)
qed

lemma newlines_cancel:
  assumes "replicate j newline @ b = replicate k newline @ t"
    and "b = [] \<or> hd b \<noteq> newline" and "t = [] \<or> hd t \<noteq> newline"
  shows "j = k \<and> b = t"
  using strspn_newlines[OF assms(2), of j] strspn_newlines[OF assms(3), of k] assms(1) by simp

lemma append_next_Nil:
  "yields t res \<Longrightarrow> t = [] \<or> fst res \<le> int LINE_MAX_SIZE \<and> fst res < int cap \<Longrightarrow> 0 < cap \<Longrightarrow>
   append_next cap [] res = Inr res"
  by (cases res; cases "t = []") (simp_all add: yields_def append_next_def)

lemma get_file_line_nonempty:
  assumes rd: "good rd" "stream rd = replicate k newline @ t" and t: "line_or_end cap t" "0 < cap"
  shows "\<exists>res. get_file_line cap rd True = Inr res \<and>
    (yields t res \<or>
     (\<exists>rd' k'. res = (0, [], rd') \<and> good rd' \<and> k' < k \<and> stream rd' = replicate k' newline @ t))"
proof -
  obtain r where r: "fill_buffer rd = Inr r" "good r" "stream r = replicate k newline @ t"
      "unread r = [] \<longleftrightarrow> stream rd = []"
    using rd fill_buffer_good by metis
  show ?thesis
  proof (cases "unread r = []")
    case True
    with r(4) rd t get_file_line_eof[of rd cap True] show ?thesis by (auto simp: yields_def)
  next
    case nonempty: False
    obtain j b where b: "unread r = replicate j newline @ b" "b = [] \<or> hd b \<noteq> newline"
        "skip_newlines True (unread r) = b"
      by (rule leading_newlines)
    note eq = get_file_line_filled[OF r(1) nonempty refl refl, of cap True, unfolded b(3)]
    let ?c = "concat (map chunk_bytes (input_fd r))"
    show ?thesis
    proof (cases "b = []")
      case False
      have "fill_buffer (r\<lparr>unread := b\<rparr>) = Inr (r\<lparr>unread := b\<rparr>)"
        using False by (simp add: fill_buffer_def)
      from get_file_line_filled[OF this _ refl refl, where nonempty = False and cap = cap] False
      have same: "get_file_line cap rd True = get_file_line cap (r\<lparr>unread := b\<rparr>) False"
        by (simp add: eq skip_newlines_def)
      have "replicate j newline @ b @ ?c = replicate k newline @ t"
        using r(3) b(1) by (simp add: stream_def)
      then have "b @ ?c = t"
        using newlines_cancel[of j "b @ ?c" k t] False b(2) line_or_end_hd[OF t(1)] by simp
      then show ?thesis
        using get_file_line_yields[of "r\<lparr>unread := b\<rparr>" t cap] t good_drop[OF r(2) b(1)]
        by (auto simp: same stream_def)
    next
      case True
      let ?r = "r\<lparr>unread := []\<rparr>"
      have later: "get_file_line cap rd True =
          result_bind (get_file_line (LINE_MAX_SIZE + 1) ?r False) (append_next cap [])"
        using True eq t(2) by (simp add: strcspn_def)
      obtain i c where c: "?c = replicate i newline @ c" "c = [] \<or> hd c \<noteq> newline"
        using leading_newlines[of ?c] by metis
      have "replicate (j + i) newline @ c = replicate k newline @ t"
        using r(3) b(1) c(1) True by (simp add: stream_def replicate_add)
      then have k: "j + i = k" "c = t"
        using newlines_cancel[of "j + i" c k t] c(2) line_or_end_hd[OF t(1)] by auto
      have good: "good ?r" "stream ?r = replicate i newline @ t"
        using good_drop[OF r(2), of "unread r" "[]"] c k by (simp_all add: stream_def)
      show ?thesis
      proof (cases i)
        case 0
        have "line_or_end (LINE_MAX_SIZE + 1) t"
          using t(1) by (auto simp: line_or_end_def plain_line_def)
        with good 0 obtain res where res: "yields t res"
            "get_file_line (LINE_MAX_SIZE + 1) ?r False = Inr res"
          using get_file_line_yields[of ?r t "LINE_MAX_SIZE + 1"] by auto
        moreover have "t = [] \<or> fst res \<le> int LINE_MAX_SIZE \<and> fst res < int cap"
          using res(1) t(1) by (auto simp: yields_def line_or_end_def plain_line_def
            dest: first_split_unique split: prod.splits if_splits)
        ultimately show ?thesis using later t(2) by (auto simp: append_next_Nil)
      next
        case (Suc i')
        then obtain rd' where "get_file_line (LINE_MAX_SIZE + 1) ?r False = Inr (0, [], rd')"
            "good rd'" "stream rd' = replicate i' newline @ t"
          using get_file_line_reads[of ?r "[]" "replicate i' newline @ t" "LINE_MAX_SIZE + 1"] good
          by (auto simp: plain_line_def)
        then show ?thesis using later k(1) Suc by (auto simp: append_next_def)
      qed
    qed
  qed
qed

section \<open>Reading a text file line by line\<close>

definition text_of :: "string list \<Rightarrow> string" where
  "text_of ls = concat (map (\<lambda>l. l @ [newline]) ls)"

lemma text_of_simps [simp]:
  "text_of [] = []"
  "text_of (l # ls) = l @ newline # text_of ls"
  "text_of (replicate k [] @ ls) = replicate k newline @ text_of ls"
  by (induction k) (auto simp: text_of_def)

definition text_lines :: "nat \<Rightarrow> string list \<Rightarrow> bool" where
  "text_lines cap ls \<longleftrightarrow> (\<forall>l \<in> set ls. plain_line l \<and> length l < cap)"

text \<open>
  The interface between the reader and a parser: the parser's treatment of one line is
  insensitive to blank lines, which the reader may or may not deliver. \<open>blank\<close> is the state
  a blank line leaves.
\<close>

locale line_consumer =
  fixes body :: "string \<Rightarrow> 's \<Rightarrow> 's c_result"
    and blank :: "'s \<Rightarrow> 's"
  assumes body_blank: "body [] s = Inr (blank s)"
    and body_after_blank: "l \<noteq> [] \<Longrightarrow> body l (blank s) = body l s"
    and blank_idem: "blank (blank s) = blank s"
begin

lemma fold_lines_delivers:
  assumes "0 < cap"
  shows "good rd \<Longrightarrow> stream rd = text_of ls \<Longrightarrow> text_lines cap ls \<Longrightarrow> st = s \<or> st = blank s \<Longrightarrow>
    (case fold_result body (filter (\<lambda>l. l \<noteq> []) ls) s of
       Inl e \<Rightarrow> fold_lines cap body rd st = Inl e
     | Inr s' \<Rightarrow> \<exists>st' rd'. fold_lines cap body rd st = Inr (st', rd') \<and>
                  (st' = s' \<or> st' = blank s') \<and> good rd' \<and> stream rd' = [])"
proof (induction "reader_size rd" arbitrary: rd ls st s rule: less_induct)
  case less
  obtain k ls' where ls: "ls = replicate k [] @ ls'" "ls' = [] \<or> hd ls' \<noteq> []"
  proof -
    let ?w = "takeWhile (\<lambda>l. l = []) ls"
    have "\<forall>l \<in> set ?w. l = []" by (auto dest: set_takeWhileD)
    then have "replicate (length ?w) [] = ?w" by (rule replicate_length_same)
    then have "replicate (length ?w) [] @ dropWhile (\<lambda>l. l = []) ls = ls"
      by (simp only: takeWhile_dropWhile_id)
    moreover have "dropWhile (\<lambda>l. l = []) ls = [] \<or> hd (dropWhile (\<lambda>l. l = []) ls) \<noteq> []"
      using hd_dropWhile[of "\<lambda>l. l = []" ls] by blast
    ultimately show thesis using that by metis
  qed
  define t where "t = text_of ls'"
  have "line_or_end cap t"
    using ls less.prems(3) by (cases ls') (auto simp: t_def line_or_end_def text_lines_def)
  then obtain n l rd' where res: "get_file_line cap rd True = Inr (n, l, rd')"
      "yields t (n, l, rd') \<or> (n = 0 \<and> l = [] \<and> good rd' \<and>
         (\<exists>k' < k. stream rd' = replicate k' newline @ t))"
    using get_file_line_nonempty[of rd k t cap] less.prems(1,2) ls(1) assms
    by (force simp: t_def)
  have step: "fold_lines cap body rd st =
      (if n \<noteq> -1 then result_bind (body l st) (fold_lines cap body rd') else Inr (st, rd'))"
    using res(1) by (subst fold_lines.simps) simp
  have smaller: "n \<noteq> -1 \<Longrightarrow> reader_size rd' < reader_size rd"
    using get_file_line_consumes[OF res(1)] by simp
  have nonblank: "filter (\<lambda>l. l \<noteq> []) ls = filter (\<lambda>l. l \<noteq> []) ls'"
    using ls(1) by simp
  show ?case
  proof (cases "yields t (n, l, rd')")
    case False
    with res obtain k' where b: "n = 0" "l = []" "good rd'" "k' < k" "stream rd' = replicate k' newline @ t"
      by auto
    have "blank st = blank s" using less.prems(4) blank_idem by auto
    moreover have "text_lines cap (replicate k' [] @ ls')"
      using less.prems(3) ls(1) b(4) by (auto simp: text_lines_def)
    moreover have "fold_lines cap body rd st = fold_lines cap body rd' (blank st)"
      using step b(1,2) by (simp add: body_blank)
    ultimately show ?thesis
      using less.hyps[of rd' "replicate k' [] @ ls'" "blank st" s] smaller b
      by (simp add: nonblank t_def split: sum.splits)
  next
    case True
    show ?thesis
    proof (cases ls')
      case Nil
      with True less.prems(4) step nonblank show ?thesis by (simp add: yields_def t_def)
    next
      case (Cons l' ls'')
      have "newline \<notin> set l'"
        using less.prems(3) ls(1) Cons by (auto simp: text_lines_def plain_line_def)
      with True Cons have l: "l = l'" "n \<noteq> -1" "stream rd' = text_of ls''" "good rd'"
        using first_split_unique[of l' newline "text_of ls''" l "stream rd'"]
        by (auto simp: yields_def t_def)
      have "l' \<noteq> []" using ls(2) Cons by simp
      with less.prems(4) have "body l st = body l' s" using l(1) body_after_blank by auto
      moreover have "text_lines cap ls''"
        using less.prems(3) ls(1) Cons by (auto simp: text_lines_def)
      ultimately show ?thesis
        using less.hyps[of rd' ls'' "projr (body l' s)" "projr (body l' s)"] smaller l \<open>l' \<noteq> []\<close>
        by (cases "body l' s") (simp_all add: step nonblank Cons split: sum.splits)
    qed
  qed
qed

end

lemma fold_lines_invariant:
  assumes step: "\<And>l s s'. P s \<Longrightarrow> body l s = Inr s' \<Longrightarrow> P s'"
  shows "fold_lines cap body rd s = Inr (s', rd') \<Longrightarrow> P s \<Longrightarrow> P s'"
proof (induction "reader_size rd" arbitrary: rd s rule: less_induct)
  case less
  from less.prems(1) obtain n l r where r: "get_file_line cap rd True = Inr (n, l, r)"
    by (subst (asm) fold_lines.simps) (auto simp: result_bind_Inr_iff)
  show ?case
  proof (cases "n = -1")
    case True
    with r less.prems show ?thesis by (subst (asm) (1) fold_lines.simps) simp
  next
    case False
    with r less.prems obtain t where "body l s = Inr t" "fold_lines cap body r t = Inr (s', rd')"
      by (subst (asm) (1) fold_lines.simps) (auto simp: result_bind_Inr_iff)
    with False less get_file_line_consumes[OF r] step show ?thesis by blast
  qed
qed

section \<open>The reader's guarantees\<close>

text \<open>The lines a \<open>while(get_file_line(line, fd, true) != -1)\<close> loop delivers, blank ones left out.\<close>

definition nonempty_lines :: "nat \<Rightarrow> reader \<Rightarrow> (string list \<times> reader) c_result" where
  "nonempty_lines cap rd = fold_lines cap (\<lambda>l ls. Inr (if l = [] then ls else ls @ [l])) rd []"

interpretation collector: line_consumer "\<lambda>l ls. Inr (if l = [] then ls else ls @ [l])" "\<lambda>ls. ls"
  by unfold_locales auto

lemma fold_collector:
  "fold_result (\<lambda>l ls. Inr (if l = [] then ls else ls @ [l])) ls acc =
     Inr (acc @ filter (\<lambda>l. l \<noteq> []) ls)"
  by (induction ls arbitrary: acc) auto

text \<open>C32: a text file of lines without NUL bytes, each ended by a newline and, without it, no longer than 4096 bytes
  and shorter than the caller's array, is delivered by the loop the same way however \<open>read\<close> cuts
  it into chunks of at most 4096 bytes, as long as no \<open>read\<close> fails: its non-empty lines in order, each once, up to
  the end of the file.\<close>

theorem lines_do_not_depend_on_chunks:
  assumes "good rd" and "stream rd = text_of ls" and "text_lines cap ls" and "0 < cap"
  shows "\<exists>rd'. nonempty_lines cap rd = Inr (filter (\<lambda>l. l \<noteq> []) ls, rd') \<and> stream rd' = []"
  using collector.fold_lines_delivers[OF assms(4,1-3), of "[]" "[]"]
  by (auto simp: fold_collector nonempty_lines_def)

lemma lines_do_not_depend_on_chunks_witness:
  "\<exists>rd'. nonempty_lines 10 \<lparr>unread = [], input_fd = [Chunk ''a'', Chunk (''b'' @ [newline, newline]),
     Chunk (''c'' @ [newline])]\<rparr> = Inr ([''ab'', ''c''], rd') \<and> stream rd' = []"
  using lines_do_not_depend_on_chunks[of "\<lparr>unread = [], input_fd = [Chunk ''a'',
      Chunk (''b'' @ [newline, newline]), Chunk (''c'' @ [newline])]\<rparr>" "[''ab'', [], ''c'']" 10]
  by (simp add: good_def stream_def text_of_def text_lines_def plain_line_def LINE_MAX_SIZE_def)

text \<open>When a file does not end with a newline and its last \<open>read\<close> returns a single byte that
  continues a line, that byte is dropped: the recursive call's length 1 and the end-of-file value
  -1 add up to 0, which is taken for "nothing to append".\<close>

lemma last_byte_dropped:
  assumes "l \<noteq> []" and "newline \<notin> set (c # l)" and "NUL \<notin> set (c # l)" and "length l < cap"
  shows "get_file_line cap \<lparr>unread = [], input_fd = [Chunk l, Chunk [c]]\<rparr> True =
    Inr (int (length l), l, \<lparr>unread = [], input_fd = []\<rparr>)"
proof -
  have k: "strcspn l [newline] = length l" "strcspn [c] [newline] = 1" "strspn l [newline] = 0"
    using assms strcspn_newline[of l "[]"] strcspn_newline[of "[c]" "[]"] strspn_newlines[of l 0]
    by (auto simp: neq_Nil_conv)
  have "get_file_line (LINE_MAX_SIZE + 1) \<lparr>unread = [], input_fd = []\<rparr> False =
      Inr (-1, [], \<lparr>unread = [], input_fd = []\<rparr>)"
    by (subst get_file_line.simps) (simp add: fill_buffer_def)
  then have "get_file_line (LINE_MAX_SIZE + 1) \<lparr>unread = [], input_fd = [Chunk [c]]\<rparr> False =
      Inr (0, [c], \<lparr>unread = [], input_fd = []\<rparr>)"
    using k by (subst get_file_line.simps)
      (simp add: fill_buffer_def skip_newlines_def Let_def append_next_def LINE_MAX_SIZE_def)
  then show ?thesis
    using k assms by (subst get_file_line.simps)
      (simp add: fill_buffer_def skip_newlines_def Let_def append_next_def)
qed

lemma last_byte_dropped_witness:
  "get_file_line 4097 \<lparr>unread = [], input_fd = [Chunk ''port 4888'', Chunk ''8'']\<rparr> True =
    Inr (9, ''port 4888'', \<lparr>unread = [], input_fd = []\<rparr>)"
  using last_byte_dropped[of "''port 4888''" "CHR ''8''" 4097] by simp

end
