(* ===== verification/FileSystem.thy ===== *)
theory FileSystem
  imports LineReader
begin

text \<open>
  The file helpers of \<open>mtn-common.c\<close> (\<open>file_exists\<close>, \<open>init_dir\<close>, \<open>init_file\<close>, \<open>load_file\<close>,
  \<open>load_dir\<close>, \<open>rm_file\<close>) over a file system. A file system is a tree of directories and files,
  a map from the components of an absolute path to a node, with the working directory and the
  places the process may change; the system calls are modelled on it. Writes are complete, and
  messages to the user are left out.
\<close>

section \<open>System calls\<close>

datatype inode = Dir | File string

record file_system =
  nodes :: "string list \<Rightarrow> inode option"
  cwd :: "string list"
  may_change :: "string list \<Rightarrow> bool"

definition node_at :: "file_system \<Rightarrow> string list \<Rightarrow> inode option" where
  "node_at fs loc = (if loc = [] then Some Dir else nodes fs loc)"

definition put_node :: "file_system \<Rightarrow> string list \<Rightarrow> inode option \<Rightarrow> file_system" where
  "put_node fs loc n = fs\<lparr>nodes := (nodes fs)(loc := n)\<rparr>"

text \<open>The components of a path, separated by one or more slashes.\<close>

fun path_parts :: "string \<Rightarrow> string list" where
  "path_parts [] = []"
| "path_parts (c # s) =
     (if c = CHR ''/'' then path_parts s
      else case path_parts s of
        [] \<Rightarrow> [[c]]
      | p # ps \<Rightarrow> if s \<noteq> [] \<and> hd s = CHR ''/'' then [c] # p # ps else (c # p) # ps)"

definition locate :: "file_system \<Rightarrow> string \<Rightarrow> string list" where
  "locate fs path =
     (if path \<noteq> [] \<and> hd path = CHR ''/'' then path_parts path else cwd fs @ path_parts path)"

definition wants_dir :: "string \<Rightarrow> bool" where
  "wants_dir path \<longleftrightarrow> path \<noteq> [] \<and> last path = CHR ''/''"

text \<open>\<open>access(path, F_OK) == 0\<close>: an empty path names nothing, and a path that ends in a slash only a
  directory.\<close>

definition access_ok :: "file_system \<Rightarrow> string \<Rightarrow> bool" where
  "access_ok fs path =
     (path \<noteq> [] \<and> (case node_at fs (locate fs path) of
        None \<Rightarrow> False | Some Dir \<Rightarrow> True | Some (File _) \<Rightarrow> \<not> wants_dir path))"

text \<open>\<open>mkdir\<close>, \<open>creat\<close> and \<open>unlink\<close>: the new file system, and whether the call succeeded. A new entry
  needs an existing directory above it that the process may change, and a name of at most
  \<open>NAME_MAX\<close> bytes.\<close>

definition NAME_MAX :: nat where "NAME_MAX = 255"

definition can_enter :: "file_system \<Rightarrow> string list \<Rightarrow> bool" where
  "can_enter fs loc =
     (loc \<noteq> [] \<and> node_at fs (butlast loc) = Some Dir \<and> may_change fs (butlast loc) \<and>
      length (last loc) \<le> NAME_MAX)"

lemma can_enter_below [simp]:
  "can_enter fs (ds @ [f]) \<longleftrightarrow> node_at fs ds = Some Dir \<and> may_change fs ds \<and> length f \<le> NAME_MAX"
  by (simp add: can_enter_def)

definition mkdir :: "file_system \<Rightarrow> string \<Rightarrow> file_system \<times> bool" where
  "mkdir fs path =
     (let loc = locate fs path in
      if path \<noteq> [] \<and> node_at fs loc = None \<and> can_enter fs loc
      then (put_node fs loc (Some Dir), True) else (fs, False))"

definition creat :: "file_system \<Rightarrow> string \<Rightarrow> file_system \<times> string list option" where
  "creat fs path =
     (let loc = locate fs path in
      if path \<noteq> [] \<and> \<not> wants_dir path \<and> node_at fs loc \<noteq> Some Dir \<and> can_enter fs loc
      then (put_node fs loc (Some (File [])), Some loc) else (fs, None))"

definition unlink :: "file_system \<Rightarrow> string \<Rightarrow> file_system \<times> bool" where
  "unlink fs path =
     (let loc = locate fs path in
      case node_at fs loc of
        Some (File _) \<Rightarrow>
          if path \<noteq> [] \<and> \<not> wants_dir path \<and> can_enter fs loc
          then (put_node fs loc None, True) else (fs, False)
      | _ \<Rightarrow> (fs, False))"

text \<open>\<open>open\<close> without \<open>O_CREAT\<close>: a descriptor is the location opened. A directory opens for reading only.\<close>

datatype open_flags = O_RDONLY | O_WRONLY | O_WRONLY_TRUNC

definition open_file :: "file_system \<Rightarrow> string \<Rightarrow> open_flags \<Rightarrow> file_system \<times> string list option" where
  "open_file fs path flags =
     (let loc = locate fs path in
      if path = [] then (fs, None)
      else case node_at fs loc of
        None \<Rightarrow> (fs, None)
      | Some Dir \<Rightarrow> (fs, if flags = O_RDONLY then Some loc else None)
      | Some (File _) \<Rightarrow>
          if wants_dir path then (fs, None)
          else if flags = O_WRONLY_TRUNC then (put_node fs loc (Some (File [])), Some loc)
          else (fs, Some loc))"

text \<open>The results of reading a descriptor to its end with a buffer of \<open>n\<close> bytes: full buffers, then
  the rest; a directory cannot be read.\<close>

function pieces :: "nat \<Rightarrow> string \<Rightarrow> string list" where
  "pieces n s = (if s = [] \<or> n = 0 then [] else take n s # pieces n (drop n s))"
  by pat_completeness auto
termination
  by (relation "measure (\<lambda>(n, s). length s)") auto

declare pieces.simps [simp del]

definition reads :: "nat \<Rightarrow> file_system \<Rightarrow> string list \<Rightarrow> read_result list" where
  "reads n fs loc = (case node_at fs loc of
     Some (File content) \<Rightarrow> map Chunk (pieces n content)
   | _ \<Rightarrow> [Read_failed])"

definition write_file :: "file_system \<Rightarrow> string list \<Rightarrow> string \<Rightarrow> file_system" where
  "write_file fs loc s = (case node_at fs loc of
     Some (File content) \<Rightarrow> put_node fs loc (Some (File (content @ s)))
   | _ \<Rightarrow> fs)"

section \<open>The helpers\<close>

text \<open>Every helper first replaces the first tilde of its argument by the home directory, in an array of
  4096 bytes.\<close>

definition expand_home :: "string option \<Rightarrow> string \<Rightarrow> string c_result" where
  "expand_home home file =
     result_bind (str_replace ''~'' home file (replicate 4096 NUL)) (\<lambda>path. Inr (cstr path))"

definition file_exists :: "string option \<Rightarrow> file_system \<Rightarrow> string \<Rightarrow> bool c_result" where
  "file_exists home fs file =
     result_bind (expand_home home file) (\<lambda>path. Inr (access_ok fs path))"

function init_dir :: "file_system \<Rightarrow> string \<Rightarrow> file_system" where
  "init_dir fs path =
     (if \<not> access_ok fs path then
        case strrchr path (CHR ''/'') of
          None \<Rightarrow> fst (mkdir fs path)
        | Some slash_ptr \<Rightarrow>
            let fs = init_dir fs (take slash_ptr path) in
            if drop slash_ptr path = ''/'' then fst (mkdir fs path) else fs
      else fs)"
  by pat_completeness auto
termination
  by (relation "measure (\<lambda>(fs, path). length path)") (auto dest: strrchr_Some)

declare init_dir.simps [simp del]

text \<open>The copy loop of \<open>init_file\<close>: \<open>read\<close> until it returns 0 or -1, each piece written as it is.\<close>

fun copy_loop :: "file_system \<Rightarrow> read_result list \<Rightarrow> string list \<Rightarrow> file_system" where
  "copy_loop fs [] outf = fs"
| "copy_loop fs (Read_failed # in_fd) outf = fs"
| "copy_loop fs (Chunk buffer # in_fd) outf =
     (if buffer = [] then fs else copy_loop (write_file fs outf buffer) in_fd outf)"

definition init_file :: "file_system \<Rightarrow> string \<Rightarrow> string option \<Rightarrow> file_system c_result" where
  "init_file fs path example_file =
     (if 4096 \<le> length path then Inl Buffer_overflow
      else if access_ok fs path then Inr fs
      else
        let fs = (case strrchr path (CHR ''/'') of
                    Some slash_ptr \<Rightarrow> init_dir fs (take slash_ptr path)
                  | None \<Rightarrow> fs)
        in case creat fs path of
             (fs, None) \<Rightarrow> Inr fs
           | (fs, Some outf) \<Rightarrow>
               (case example_file of
                  None \<Rightarrow> Inr fs
                | Some example \<Rightarrow>
                    (case open_file fs example O_RDONLY of
                       (fs, Some in_fd) \<Rightarrow> Inr (copy_loop fs (reads 4096 fs in_fd) outf)
                     | (fs, None) \<Rightarrow> Inr fs)))"

definition load_file ::
    "string option \<Rightarrow> file_system \<Rightarrow> string \<Rightarrow> open_flags \<Rightarrow> string option \<Rightarrow>
     (file_system \<times> string list option) c_result" where
  "load_file home fs file flags example_file =
     result_bind (expand_home home file) (\<lambda>path.
       result_bind
         (case example_file of
            Some example \<Rightarrow>
              result_bind (expand_home home example) (\<lambda>example_path.
                init_file fs path (Some example_path))
          | None \<Rightarrow> init_file fs path None)
         (\<lambda>fs. Inr (open_file fs path flags)))"

definition load_dir ::
    "string option \<Rightarrow> file_system \<Rightarrow> string \<Rightarrow> (file_system \<times> string list option) c_result" where
  "load_dir home fs dir_path =
     result_bind (expand_home home dir_path) (\<lambda>path.
       let fs = init_dir fs path in
       Inr (fs, if path \<noteq> [] \<and> node_at fs (locate fs path) = Some Dir
                then Some (locate fs path) else None))"

definition rm_file :: "string option \<Rightarrow> file_system \<Rightarrow> string \<Rightarrow> (file_system \<times> bool) c_result" where
  "rm_file home fs file =
     result_bind (expand_home home file) (\<lambda>path. Inr (unlink fs path))"

section \<open>Paths printed from their components\<close>

definition part :: "string \<Rightarrow> bool" where
  "part p \<longleftrightarrow> p \<noteq> [] \<and> CHR ''/'' \<notin> set p"

definition abs_path :: "string list \<Rightarrow> string" where
  "abs_path ps = concat (map (\<lambda>p. CHR ''/'' # p) ps)"

lemma abs_path_simps [simp]:
  "abs_path [] = []"
  "abs_path (ps @ [p]) = abs_path ps @ CHR ''/'' # p"
  by (simp_all add: abs_path_def)

lemma path_parts_word:
  "CHR ''/'' \<notin> set p \<Longrightarrow> p \<noteq> [] \<Longrightarrow> s = [] \<or> hd s = CHR ''/'' \<Longrightarrow> path_parts (p @ s) = p # path_parts s"
proof (induction p)
  case (Cons c p)
  show ?case
  proof (cases "p = []")
    case True
    with Cons.prems show ?thesis by (cases s) (auto split: list.splits)
  next
    case False
    with Cons show ?thesis by (cases p) auto
  qed
qed simp

lemma path_parts_abs_path:
  "\<forall>p \<in> set ps. part p \<Longrightarrow> s = [] \<or> s = ''/'' \<Longrightarrow> path_parts (abs_path ps @ s) = ps"
proof (induction ps)
  case (Cons p ps)
  have "abs_path ps @ s = [] \<or> hd (abs_path ps @ s) = CHR ''/''"
    using Cons.prems(2) by (cases ps) (auto simp: abs_path_def)
  with Cons show ?case
    using path_parts_word[of p "abs_path ps @ s"] by (simp add: abs_path_def part_def)
qed (auto simp: abs_path_def)

lemma locate_abs_path:
  assumes "\<forall>p \<in> set ps. part p" and "ps \<noteq> []" and "s = [] \<or> s = ''/''"
  shows "locate fs (abs_path ps @ s) = ps"
  using assms path_parts_abs_path[OF assms(1,3)] by (cases ps) (auto simp: locate_def abs_path_def)

lemma abs_path_not_dir:
  assumes "\<forall>p \<in> set ps. part p"
  shows "\<not> wants_dir (abs_path ps)"
proof (cases ps rule: rev_cases)
  case (snoc qs q)
  with assms have "q \<noteq> []" "CHR ''/'' \<notin> set q" by (auto simp: part_def)
  then have "last q \<noteq> CHR ''/''" by (metis last_in_set)
  with snoc \<open>q \<noteq> []\<close> show ?thesis by (simp add: wants_dir_def)
qed (simp add: wants_dir_def)

lemma access_abs_path:
  assumes "\<forall>p \<in> set ps. part p" and "ps \<noteq> []"
  shows "access_ok fs (abs_path ps) \<longleftrightarrow> node_at fs ps \<noteq> None"
    and "access_ok fs (abs_path ps @ ''/'') \<longleftrightarrow> node_at fs ps = Some Dir"
proof -
  have ne: "abs_path ps \<noteq> []" using assms(2) by (cases ps) (auto simp: abs_path_def)
  show "access_ok fs (abs_path ps) \<longleftrightarrow> node_at fs ps \<noteq> None"
    using locate_abs_path[OF assms, of "[]" fs] abs_path_not_dir[OF assms(1)] ne
    by (auto simp: access_ok_def split: option.splits inode.splits)
  show "access_ok fs (abs_path ps @ ''/'') \<longleftrightarrow> node_at fs ps = Some Dir"
    using locate_abs_path[OF assms, of "''/''" fs]
    by (auto simp: access_ok_def wants_dir_def split: option.splits inode.splits)
qed

lemma strrchr_abs_path:
  assumes "part p"
  shows "strrchr (abs_path ps @ CHR ''/'' # p) (CHR ''/'') = Some (length (abs_path ps))"
  using assms by (intro strrchr_append) (simp add: part_def)

lemma access_empty [simp]: "\<not> access_ok fs []"
  by (simp add: access_ok_def)

lemma init_dir_abs_path:
  "\<forall>p \<in> set ps. part p \<Longrightarrow> init_dir fs (abs_path ps) = fs"
proof (induction ps rule: rev_induct)
  case Nil
  show ?case by (subst init_dir.simps) (simp add: mkdir_def)
next
  case (snoc p ps)
  then have p: "part p" "p \<noteq> []" by (auto simp: part_def)
  show ?case
  proof (cases "access_ok fs (abs_path (ps @ [p]))")
    case True
    then show ?thesis by (subst init_dir.simps) simp
  next
    case False
    then show ?thesis
      using snoc strrchr_abs_path[OF p(1), of ps] p(2) by (subst init_dir.simps) (simp add: Let_def)
  qed
qed

lemma mkdir_abs_path:
  assumes "\<forall>p \<in> set ps. part p" and "ps \<noteq> []"
  shows "mkdir fs (abs_path ps @ ''/'') =
    (if node_at fs ps = None \<and> can_enter fs ps then (put_node fs ps (Some Dir), True) else (fs, False))"
  using locate_abs_path[OF assms, of "''/''" fs] by (simp add: mkdir_def Let_def)

lemma init_dir_abs_path_slash:
  assumes "\<forall>p \<in> set ps. part p" and "ps \<noteq> []"
  shows "init_dir fs (abs_path ps @ ''/'') =
    (if node_at fs ps = None \<and> can_enter fs ps then put_node fs ps (Some Dir) else fs)"
proof (cases "access_ok fs (abs_path ps @ ''/'')")
  case True
  with access_abs_path(2)[OF assms] show ?thesis by (subst init_dir.simps) simp
next
  case False
  have "strrchr (abs_path ps @ ''/'') (CHR ''/'') = Some (length (abs_path ps))"
    by (rule strrchr_append) simp
  with False init_dir_abs_path[OF assms(1)] mkdir_abs_path[OF assms] show ?thesis
    by (subst init_dir.simps) (simp add: Let_def)
qed

section \<open>Expansion of the home directory\<close>

lemma expand_home_result:
  assumes "NUL \<notin> set file"
  shows "expand_home home file =
    (if length (replace_first ''~'' (replacement_text home) file) < 4096
     then Inr (replace_first ''~'' (replacement_text home) file) else Inl Buffer_overflow)"
proof -
  have w: "cstr ''~'' = ''~''" by simp
  show ?thesis
    using str_replace_result[OF assms, where what = "''~''" and replacement = home
        and target = "replicate 4096 NUL"]
    unfolding w by (auto simp: expand_home_def)
qed

section \<open>Creating and copying a file\<close>

lemma concat_pieces: "0 < n \<Longrightarrow> concat (pieces n s) = s"
proof (induction n s rule: pieces.induct)
  case (1 n s)
  then show ?case by (subst pieces.simps) auto
qed

lemma pieces_nonempty: "p \<in> set (pieces n s) \<Longrightarrow> p \<noteq> [] \<and> length p \<le> n"
proof (induction n s rule: pieces.induct)
  case (1 n s)
  then show ?case by (subst (asm) (2) pieces.simps) (auto split: if_splits)
qed

lemma node_at_put [simp]:
  "loc \<noteq> [] \<Longrightarrow> node_at (put_node fs loc n) loc' = (if loc' = loc then n else node_at fs loc')"
  by (simp add: node_at_def put_node_def)

lemma put_node_again [simp]: "put_node (put_node fs loc n) loc m = put_node fs loc m"
  by (simp add: put_node_def)

lemma copy_loop_pieces:
  assumes "loc \<noteq> []"
  shows "\<forall>p \<in> set ps. p \<noteq> [] \<Longrightarrow>
    copy_loop (put_node fs loc (Some (File a))) (map Chunk ps) loc =
      put_node fs loc (Some (File (a @ concat ps)))"
  by (induction ps arbitrary: a) (auto simp: write_file_def assms)

lemma init_file_creates:
  assumes ps: "\<forall>p \<in> set (ds @ [f]). part p" "length (abs_path (ds @ [f])) < 4096"
    and es: "\<forall>p \<in> set es. part p" "es \<noteq> []" "node_at fs es = Some (File content)"
    and missing: "node_at fs (ds @ [f]) = None"
  shows "init_file fs (abs_path (ds @ [f])) (Some (abs_path es)) =
    Inr (if can_enter fs (ds @ [f]) then put_node fs (ds @ [f]) (Some (File content)) else fs)"
proof -
  have ne: "abs_path (ds @ [f]) \<noteq> []" "abs_path es \<noteq> []"
    using es(2) by (auto simp: abs_path_def)
  have acc: "\<not> access_ok fs (abs_path (ds @ [f]))"
    using access_abs_path(1)[OF ps(1)] missing by simp
  have slash: "strrchr (abs_path (ds @ [f])) (CHR ''/'') = Some (length (abs_path ds))"
    using strrchr_abs_path[of f ds] ps(1) by simp
  have dir: "init_dir fs (take (length (abs_path ds)) (abs_path (ds @ [f]))) = fs"
    using init_dir_abs_path[of ds fs] ps(1) by simp
  have loc: "locate fs (abs_path (ds @ [f])) = ds @ [f]" for fs
    using locate_abs_path[OF ps(1), of "[]"] by simp
  have eloc: "locate fs (abs_path es) = es" for fs
    using locate_abs_path[OF es(1,2), of "[]"] by simp
  have diff: "es \<noteq> ds @ [f]" using es(3) missing by auto
  show ?thesis
  proof (cases "can_enter fs (ds @ [f])")
    case True
    define fs1 where "fs1 = put_node fs (ds @ [f]) (Some (File []))"
    have c: "creat fs (abs_path (ds @ [f])) = (fs1, Some (ds @ [f]))"
      using True missing ne loc abs_path_not_dir[OF ps(1)]
      by (simp add: creat_def Let_def fs1_def)
    have o: "open_file fs1 (abs_path es) O_RDONLY = (fs1, Some es)"
      using es ne eloc diff abs_path_not_dir[OF es(1)] by (simp add: open_file_def Let_def fs1_def)
    have r: "reads 4096 fs1 es = map Chunk (pieces 4096 content)"
      using es(3) diff by (simp add: reads_def fs1_def)
    have "copy_loop fs1 (map Chunk (pieces 4096 content)) (ds @ [f]) =
        put_node fs (ds @ [f]) (Some (File content))"
      using copy_loop_pieces[of "ds @ [f]" "pieces 4096 content" fs "[]"] pieces_nonempty
      by (simp add: fs1_def concat_pieces)
    then show ?thesis
      using acc slash dir c o r ps(2) True by (simp add: init_file_def Let_def)
  next
    case False
    then have "creat fs (abs_path (ds @ [f])) = (fs, None)"
      using missing loc by (auto simp: creat_def Let_def)
    then show ?thesis
      using acc slash dir ps(2) False by (auto simp: init_file_def Let_def)
  qed
qed

section \<open>Reading a file to its end\<close>

lemma reads_file:
  assumes "node_at fs loc = Some (File content)" and "NUL \<notin> set content"
  shows "good \<lparr>unread = [], input_fd = reads LINE_MAX_SIZE fs loc\<rparr> \<and>
    stream \<lparr>unread = [], input_fd = reads LINE_MAX_SIZE fs loc\<rparr> = content"
proof -
  have "concat (map chunk_bytes (map Chunk (pieces LINE_MAX_SIZE content))) = content"
    using concat_pieces[of LINE_MAX_SIZE content] by (simp add: o_def LINE_MAX_SIZE_def)
  then show ?thesis
    using assms pieces_nonempty[of _ LINE_MAX_SIZE content]
    by (fastforce simp: good_def stream_def reads_def)
qed

section \<open>The helpers' guarantees\<close>

text \<open>\<open>init_dir\<close> never creates a missing directory whose path does not end in a slash, and with a
  final slash it creates the last directory only, provided the one above exists and may be changed
  and the name is not too long: the missing
  directories above are not created by the recursive call, contrary to the comment in the code.\<close>

lemma init_dir_creates_one_level:
  assumes "\<forall>p \<in> set ps. part p" and "ps \<noteq> []"
  shows "init_dir fs (abs_path ps) = fs \<and>
    init_dir fs (abs_path ps @ ''/'') =
      (if node_at fs ps = None \<and> node_at fs (butlast ps) = Some Dir \<and> may_change fs (butlast ps) \<and>
          length (last ps) \<le> NAME_MAX
       then put_node fs ps (Some Dir) else fs)"
  using init_dir_abs_path[OF assms(1)] init_dir_abs_path_slash[OF assms] assms(2)
  by (simp add: can_enter_def)

lemma init_dir_creates_one_level_witness:
  "init_dir \<lparr>nodes = Map.empty, cwd = [], may_change = \<lambda>_. True\<rparr> ''/a/b/'' =
     \<lparr>nodes = Map.empty, cwd = [], may_change = \<lambda>_. True\<rparr>"
  using init_dir_creates_one_level[of "[''a'', ''b'']" "\<lparr>nodes = Map.empty, cwd = [], may_change = \<lambda>_. True\<rparr>"]
  by (simp add: part_def abs_path_def node_at_def)

text \<open>Loading a file that does not exist creates it as a copy of its example, whatever its size, when
  its directory exists and may be changed and its name is not too long, and opens the copy;
  otherwise nothing is created and -1 is returned.\<close>

lemma load_file_copies_example:
  assumes "\<forall>p \<in> set (ds @ [f]). part p" and "length (abs_path (ds @ [f])) < 4096"
    and "\<forall>p \<in> set es. part p" and "es \<noteq> []" and "node_at fs es = Some (File content)"
    and "node_at fs (ds @ [f]) = None"
    and "expand_home home file = Inr (abs_path (ds @ [f]))"
    and "expand_home home example = Inr (abs_path es)"
  shows "load_file home fs file O_RDONLY (Some example) =
    (if can_enter fs (ds @ [f])
     then Inr (put_node fs (ds @ [f]) (Some (File content)), Some (ds @ [f]))
     else Inr (fs, None))"
proof -
  have "locate fs' (abs_path (ds @ [f])) = ds @ [f]" for fs'
    using locate_abs_path[OF assms(1), of "[]"] by simp
  moreover have "abs_path (ds @ [f]) \<noteq> []" by simp
  ultimately show ?thesis
    using init_file_creates[OF assms(1-6)] assms(6-8) abs_path_not_dir[OF assms(1)]
    by (simp add: load_file_def open_file_def Let_def)
qed

lemma load_file_copies_example_witness:
  "load_file (Some ''/h'') \<lparr>nodes = [[''h''] \<mapsto> Dir, [''e''] \<mapsto> File ''x''], cwd = [], may_change = \<lambda>_. True\<rparr>
     ''~/c'' O_RDONLY (Some ''/e'') =
   Inr (put_node \<lparr>nodes = [[''h''] \<mapsto> Dir, [''e''] \<mapsto> File ''x''], cwd = [], may_change = \<lambda>_. True\<rparr>
     [''h'', ''c''] (Some (File ''x'')), Some [''h'', ''c''])"
proof -
  have "expand_home (Some ''/h'') ''~/c'' = Inr (abs_path ([''h''] @ [''c'']))"
    "expand_home (Some ''/h'') ''/e'' = Inr (abs_path [''e''])"
    by (simp_all add: expand_home_result replace_first_def replacement_text_def abs_path_def)
  from load_file_copies_example[OF _ _ _ _ _ _ this] show ?thesis
    by (simp add: part_def abs_path_def node_at_def can_enter_def NAME_MAX_def)
qed

end
