(* ===== verification/HashTable.thy ===== *)
theory HashTable
  imports Prelude
begin

text \<open>
  The hash tables of the program (uthash) as the program uses them: nodes in application order,
  the order \<open>HASH_ITER\<close> visits. The keys of a table are distinct, because every \<open>HASH_ADD\<close>
  follows a failed \<open>HASH_FIND\<close> of the same key or comes from a list of distinct names. The
  locale states what a client of a table relies on.
\<close>

type_synonym ('k, 'v) hash = "('k \<times> 'v) list"

definition hash_find :: "('k, 'v) hash \<Rightarrow> 'k \<Rightarrow> 'v option" where
  "hash_find m k = map_of m k"

definition hash_add :: "('k, 'v) hash \<Rightarrow> 'k \<Rightarrow> 'v \<Rightarrow> ('k, 'v) hash" where
  "hash_add m k v = m @ [(k, v)]"

text \<open>Writing through the node's \<open>data\<close> or \<open>value\<close> pointer.\<close>

definition hash_change :: "('k, 'v) hash \<Rightarrow> 'k \<Rightarrow> ('v \<Rightarrow> 'v) \<Rightarrow> ('k, 'v) hash" where
  "hash_change m k f = map (\<lambda>(k', v). (k', if k' = k then f v else v)) m"

definition hash_del :: "('k, 'v) hash \<Rightarrow> 'k \<Rightarrow> ('k, 'v) hash" where
  "hash_del m k = filter (\<lambda>(k', v). k' \<noteq> k) m"

definition hash_count :: "('k, 'v) hash \<Rightarrow> nat" where
  "hash_count m = length m"

definition hash_keys :: "('k, 'v) hash \<Rightarrow> 'k list" where
  "hash_keys m = map fst m"

definition hash_ok :: "('k, 'v) hash \<Rightarrow> bool" where
  "hash_ok m \<longleftrightarrow> distinct (hash_keys m)"

locale keyed_table =
  fixes find :: "'m \<Rightarrow> 'k \<Rightarrow> 'v option"
    and add :: "'m \<Rightarrow> 'k \<Rightarrow> 'v \<Rightarrow> 'm"
    and change :: "'m \<Rightarrow> 'k \<Rightarrow> ('v \<Rightarrow> 'v) \<Rightarrow> 'm"
    and del :: "'m \<Rightarrow> 'k \<Rightarrow> 'm"
    and count :: "'m \<Rightarrow> nat"
    and invar :: "'m \<Rightarrow> bool"
  assumes find_add: "find m k = None \<Longrightarrow> find (add m k v) = (find m)(k \<mapsto> v)"
    and find_change: "find (change m k f) = (find m)(k := map_option f (find m k))"
    and find_del: "find (del m k) = (find m)(k := None)"
    and count_dom: "invar m \<Longrightarrow> count m = card (dom (find m))"
    and finite_dom: "finite (dom (find m))"
    and invar_add: "invar m \<Longrightarrow> find m k = None \<Longrightarrow> invar (add m k v)"
    and invar_change: "invar m \<Longrightarrow> invar (change m k f)"
    and invar_del: "invar m \<Longrightarrow> invar (del m k)"
begin

text \<open>The find-or-add idiom: update the entry of a key, or add one.\<close>

definition upsert :: "'m \<Rightarrow> 'k \<Rightarrow> ('v \<Rightarrow> 'v) \<Rightarrow> 'v \<Rightarrow> 'm" where
  "upsert m k f v = (case find m k of Some _ \<Rightarrow> change m k f | None \<Rightarrow> add m k v)"

lemma find_upsert:
  "find (upsert m k f v) = (find m)(k \<mapsto> (case find m k of Some w \<Rightarrow> f w | None \<Rightarrow> v))"
  by (auto simp: upsert_def find_add find_change split: option.splits)

lemma invar_upsert: "invar m \<Longrightarrow> invar (upsert m k f v)"
  by (auto simp: upsert_def invar_add invar_change split: option.splits)

lemma count_upsert:
  assumes "invar m"
  shows "count (upsert m k f v) = (if find m k = None then Suc (count m) else count m)"
  using assms finite_dom[of m]
  by (auto simp: count_dom invar_upsert find_upsert insert_absorb domIff)

lemma count_del:
  assumes "invar m" and "find m k \<noteq> None"
  shows "Suc (count (del m k)) = count m"
proof -
  have "dom (find (del m k)) = dom (find m) - {k}" by (auto simp: find_del)
  then show ?thesis
    using assms finite_dom[of m] card_Suc_Diff1[of "dom (find m)" k]
    by (auto simp: count_dom invar_del domIff)
qed

end

lemma hash_find_change [simp]:
  "hash_find (hash_change m k f) = (hash_find m)(k := map_option f (hash_find m k))"
  by (induction m) (auto simp: hash_find_def hash_change_def fun_eq_iff)

lemma hash_find_None_iff: "hash_find m k = None \<longleftrightarrow> k \<notin> set (hash_keys m)"
  by (simp add: hash_find_def hash_keys_def map_of_eq_None_iff)

lemma hash_keys_simps [simp]:
  "hash_keys [] = []"
  "hash_keys ((k, v) # m) = k # hash_keys m"
  "hash_keys (hash_add m k v) = hash_keys m @ [k]"
  "hash_keys (hash_change m k f) = hash_keys m"
  "hash_keys (hash_del m k) = filter (\<lambda>k'. k' \<noteq> k) (hash_keys m)"
  by (auto simp: hash_keys_def hash_add_def hash_change_def hash_del_def filter_map o_def
      split_def)

lemma hash_find_add [simp]:
  "hash_find m k = None \<Longrightarrow> hash_find (hash_add m k v) = (hash_find m)(k \<mapsto> v)"
  by (auto simp: hash_find_def hash_add_def map_add_def fun_eq_iff split: option.splits)

lemma hash_find_del [simp]: "hash_find (hash_del m k) = (hash_find m)(k := None)"
  by (induction m) (auto simp: hash_find_def hash_del_def fun_eq_iff)

lemma dom_hash_find: "dom (hash_find m) = set (hash_keys m)"
  by (simp add: hash_find_def[abs_def] hash_keys_def dom_map_of_conv_image_fst)

interpretation hash: keyed_table hash_find hash_add hash_change hash_del hash_count hash_ok
proof (unfold_locales, goal_cases)
  case (4 m)
  then show ?case
    by (simp add: dom_hash_find hash_ok_def distinct_card hash_count_def) (simp add: hash_keys_def)
qed (auto simp: dom_hash_find hash_ok_def hash_find_None_iff)

end
