(* ===== verification/ServerList.thy ===== *)
theory ServerList
  imports Network FileSystem HashTable
begin

text \<open>
  The client's list of servers, \<open>mtn-client-server-list.c\<close>: the data kept for a server, and the
  parser of the list. A server is identified by its address, the key of its map node; since every
  node has its own \<open>server_data\<close>, the key also stands for the pointer to it.

  The nodes come from \<open>malloc\<close> and are cleared with \<open>memset(p, 0, sizeof(p))\<close>, which covers the size
  of a pointer only. What the other bytes hold is up to the allocator and a parameter of the model:
  \<open>alloc n\<close> is the content of the block for the \<open>n\<close>-th server. Allocation succeeds.
\<close>

text \<open>A state field that was never written may hold a value outside the enumeration.\<close>

datatype server_state = SEND_REQ | RESP | WAIT | SUBSCR | Not_a_state

record server_data =
  address :: sockaddr_in
  state :: server_state
  not_connect_count :: int
  last_connect_attempt_time :: int
  srv_response :: string
  srv_name :: string
  srv_descr :: string

type_synonym server_map = "(sockaddr_in, server_data) hash"

definition SERVER_DEFAULT_PORT :: int where "SERVER_DEFAULT_PORT = 48888"

definition USER_CLIENT_SERVER_LIST_FILE :: string where
  "USER_CLIENT_SERVER_LIST_FILE = ''~/.config/mtn/client/server_list''"

definition add_server :: "(nat \<Rightarrow> server_data) \<Rightarrow> sockaddr_in \<Rightarrow> server_map \<Rightarrow> server_map" where
  "add_server alloc addr m =
     (case hash_find m addr of
        Some _ \<Rightarrow> m
      | None \<Rightarrow> hash_add m addr ((alloc (hash_count m))\<lparr>address := addr\<rparr>))"

text \<open>One line: the arrays are \<open>address_str[4096]\<close>, \<open>ip_address_str[16]\<close> and \<open>port_str[5]\<close>.\<close>

definition parse_server_line ::
    "(nat \<Rightarrow> server_data) \<Rightarrow> string \<Rightarrow> server_map \<Rightarrow> server_map c_result" where
  "parse_server_line alloc line m =
     result_bind (get_token 4096 line [space, tab]) (\<lambda>(_, address_str, _).
       result_bind (get_token INET_ADDRSTRLEN address_str '':'') (\<lambda>(ip_len, ip_address_str, address_str_ptr).
         if ip_len \<noteq> 0 then
           (case inet_pton ip_address_str of
              None \<Rightarrow> Inr m
            | Some bytes \<Rightarrow>
                result_bind (get_token 5 address_str_ptr '':'') (\<lambda>(port_len, port_str, _).
                  let port = (if port_len \<noteq> 0 then atoi port_str else 0);
                      port = (if port = 0 then SERVER_DEFAULT_PORT else port)
                  in Inr (add_server alloc \<lparr>sin_addr = bytes, sin_port = word_of_int port\<rparr> m)))
         else Inr m))"

definition parse_client_server_list ::
    "(nat \<Rightarrow> server_data) \<Rightarrow> reader \<Rightarrow> (server_map \<times> reader) c_result" where
  "parse_client_server_list alloc rd = fold_lines 4096 (parse_server_line alloc) rd []"

definition load_client_server_list ::
    "(nat \<Rightarrow> server_data) \<Rightarrow> string option \<Rightarrow> string option \<Rightarrow> file_system \<Rightarrow> string \<Rightarrow> server_map \<Rightarrow>
     (file_system \<times> server_map \<times> string) c_result" where
  "load_client_server_list alloc home server_list_file fs static_unread m =
     result_bind
       (case server_list_file of
          Some file \<Rightarrow> load_file home fs file O_RDONLY None
        | None \<Rightarrow> load_file home fs USER_CLIENT_SERVER_LIST_FILE O_RDONLY None)
       (\<lambda>(fs, server_list_file_fd).
         case server_list_file_fd of
           None \<Rightarrow> Inr (fs, m, static_unread)
         | Some fd \<Rightarrow>
             result_bind (parse_client_server_list alloc
                 \<lparr>unread = static_unread, input_fd = reads LINE_MAX_SIZE fs fd\<rparr>)
               (\<lambda>(m, rd). Inr (fs, m, unread rd)))"

section \<open>Lines\<close>

text \<open>A line \<open>a.b.c.d\<close> or \<open>a.b.c.d:port\<close>, and the address it stands for.\<close>

datatype list_line = Server "nat list" "nat option"

fun entry_text :: "list_line \<Rightarrow> string" where
  "entry_text (Server bs None) = inet_ntop bs"
| "entry_text (Server bs (Some p)) = inet_ntop bs @ CHR '':'' # decimal p"

fun entry_address :: "list_line \<Rightarrow> sockaddr_in" where
  "entry_address (Server bs p) =
     \<lparr>sin_addr = bs,
      sin_port = (case p of None \<Rightarrow> 48888 | Some p \<Rightarrow> if p = 0 then 48888 else of_nat p)\<rparr>"

text \<open>A line that can be written in a list, and one whose port fits the array \<^verbatim>\<open>port_str\<close> of 5 bytes.\<close>

fun entry_form :: "list_line \<Rightarrow> bool" where
  "entry_form (Server bs p) = (octets bs \<and> (case p of None \<Rightarrow> True | Some p \<Rightarrow> p < 65536))"

fun entry_ok :: "list_line \<Rightarrow> bool" where
  "entry_ok (Server bs p) = (octets bs \<and> (case p of None \<Rightarrow> True | Some p \<Rightarrow> p < 10000))"

lemma digit_plain: "is_digit c \<or> c = CHR ''.'' \<or> c = CHR '':'' \<Longrightarrow> c \<notin> {space, tab, newline, NUL}"
  by (auto simp: is_digit_def)

lemma colon_not_digit: "is_digit c \<or> c = CHR ''.'' \<Longrightarrow> c \<noteq> CHR '':''"
  by (auto simp: is_digit_def)

lemma set_entry_text: "c \<in> set (entry_text e) \<Longrightarrow> is_digit c \<or> c = CHR ''.'' \<or> c = CHR '':''"
  by (cases e rule: entry_text.cases) (auto dest: set_inet_ntop decimal_is_digit)

text \<open>The first two tokens of a line that starts with a printed address.\<close>

lemma parse_address:
  assumes "octets bs" and "rest = [] \<or> hd rest = CHR '':''" and "length (inet_ntop bs @ rest) < 4096"
    and "set rest \<inter> {space, tab, NUL} = {}"
  shows "parse_server_line alloc (inet_ntop bs @ rest) m =
    result_bind (get_token 5 rest '':'') (\<lambda>(port_len, port_str, _).
      let port = (if port_len \<noteq> 0 then atoi port_str else 0);
          port = (if port = 0 then SERVER_DEFAULT_PORT else port)
      in Inr (add_server alloc \<lparr>sin_addr = bs, sin_port = word_of_int port\<rparr> m))"
proof -
  have ne: "inet_ntop bs \<noteq> []" and len: "length (inet_ntop bs) < INET_ADDRSTRLEN"
    using length_inet_ntop[OF assms(1)] by auto
  have "set (inet_ntop bs) \<inter> {space, tab, newline, NUL} = {}"
    using set_inet_ntop[of _ bs] digit_plain by blast
  then have "get_token 4096 ([] @ (inet_ntop bs @ rest) @ []) [space, tab] =
      Inr (length (inet_ntop bs @ rest), inet_ntop bs @ rest, [])"
    using assms ne by (intro get_token_word) auto
  moreover have "get_token INET_ADDRSTRLEN ([] @ inet_ntop bs @ rest) '':'' =
      Inr (length (inet_ntop bs), inet_ntop bs, rest)"
    using assms(2) ne len set_inet_ntop[of _ bs] colon_not_digit digit_plain
    by (intro get_token_word) fastforce+
  ultimately show ?thesis
    using ne pton_ntop[OF assms(1)] by (simp add: parse_server_line_def)
qed

lemma parse_server_line_text:
  assumes "entry_ok e"
  shows "parse_server_line alloc (entry_text e) m = Inr (add_server alloc (entry_address e) m)"
proof (cases e)
  case (Server bs p)
  then have bs: "octets bs" using assms by simp
  have short: "length (inet_ntop bs) < 16"
    using length_inet_ntop[OF bs] by (simp add: INET_ADDRSTRLEN_def)
  show ?thesis
  proof (cases p)
    case None
    have "get_token 5 [] '':'' = Inr (0, [], [])" by (rule get_token_blank) auto
    with parse_address[OF bs, of "[]" alloc m] short Server None show ?thesis
      by (simp add: SERVER_DEFAULT_PORT_def)
  next
    case (Some q)
    have dig: "c \<in> set (decimal q) \<Longrightarrow> is_digit c" for c by (rule decimal_is_digit)
    have "length (decimal q) < 5" using decimal_length[of 4 q] assms Server Some by simp
    moreover have "get_token 5 ('':'' @ decimal q @ []) '':'' = Inr (length (decimal q), decimal q, [])"
      using calculation dig colon_not_digit digit_plain by (intro get_token_word) fastforce+
    moreover have "set (CHR '':'' # decimal q) \<inter> {space, tab, NUL} = {}"
      using dig digit_plain by fastforce
    ultimately show ?thesis
      using parse_address[OF bs, of "CHR '':'' # decimal q" alloc m] short Server Some
      by (simp add: atoi_decimal SERVER_DEFAULT_PORT_def)
  qed
qed

text \<open>A port of five digits, as the default port 48888 has, does not fit \<open>port_str\<close>: a list line that
  writes it out overflows the array.\<close>

lemma five_digit_port_overflows:
  assumes "octets bs" and "10000 \<le> p" and "p < 65536"
  shows "parse_server_line alloc (inet_ntop bs @ CHR '':'' # decimal p) m = Inl Buffer_overflow"
proof -
  have dig: "c \<in> set (decimal p) \<Longrightarrow> is_digit c" for c by (rule decimal_is_digit)
  have len: "5 \<le> length (decimal p)" "length (decimal p) \<le> 5"
    using decimal_length[of 4 p] decimal_length[of 5 p] assms by simp_all
  have "get_token 5 ('':'' @ decimal p @ []) '':'' = Inl Buffer_overflow"
    using len(1) dig colon_not_digit digit_plain by (intro get_token_overflow) fastforce+
  moreover have "set (CHR '':'' # decimal p) \<inter> {space, tab, NUL} = {}"
    using dig digit_plain by fastforce
  ultimately show ?thesis
    using parse_address[OF assms(1), of "CHR '':'' # decimal p" alloc m] len(2)
      length_inet_ntop[OF assms(1)]
    by (simp add: INET_ADDRSTRLEN_def)
qed

interpretation server_lines: line_consumer "parse_server_line alloc" "\<lambda>m. m" for alloc
  using get_token_blank[of "[]" "[space, tab]" 4096] get_token_blank[of "[]" "'':''" INET_ADDRSTRLEN]
  by unfold_locales (auto simp: parse_server_line_def INET_ADDRSTRLEN_def)

lemma parse_server_line_result:
  assumes "entry_form e"
  shows "parse_server_line alloc (entry_text e) m =
    (if entry_ok e then Inr (add_server alloc (entry_address e) m) else Inl Buffer_overflow)"
proof (cases "entry_ok e")
  case False
  then obtain bs p where "e = Server bs (Some p)" "octets bs" "10000 \<le> p" "p < 65536"
    using assms by (cases e rule: entry_text.cases) auto
  then show ?thesis using five_digit_port_overflows[of bs p alloc m] by simp
qed (simp add: parse_server_line_text)

lemma fold_server_lines:
  "\<forall>e \<in> set es. entry_form e \<Longrightarrow>
   fold_result (parse_server_line alloc) (map entry_text es) m =
     (if \<forall>e \<in> set es. entry_ok e then Inr (fold (\<lambda>e. add_server alloc (entry_address e)) es m)
      else Inl Buffer_overflow)"
  by (induction es arbitrary: m) (auto simp: parse_server_line_result)

lemma entry_ok_form: "entry_ok e \<Longrightarrow> entry_form e"
  by (cases e) (auto split: option.splits)

text \<open>The map after a list of entries: the addresses in the order of their first appearance.\<close>

definition first_occurrences :: "'a list \<Rightarrow> 'a list" where
  "first_occurrences xs = rev (remdups (rev xs))"

lemma first_occurrences_snoc:
  "first_occurrences (xs @ [x]) = (if x \<in> set xs then first_occurrences xs else first_occurrences xs @ [x])"
  by (simp add: first_occurrences_def)

lemma set_first_occurrences [simp]: "set (first_occurrences xs) = set xs"
  by (simp add: first_occurrences_def)

definition addresses_ok :: "server_map \<Rightarrow> bool" where
  "addresses_ok m \<longleftrightarrow> hash_ok m \<and> (\<forall>(a, d) \<in> set m. address d = a)"

lemma keys_add_server:
  "hash_keys (add_server alloc a m) =
     (if a \<in> set (hash_keys m) then hash_keys m else hash_keys m @ [a])"
  using hash_find_None_iff[of m a] by (auto simp: add_server_def split: option.splits)

lemma addresses_add_server: "addresses_ok m \<Longrightarrow> addresses_ok (add_server alloc a m)"
  unfolding addresses_ok_def hash_ok_def keys_add_server
  by (auto simp: add_server_def hash_add_def split: option.splits)

lemma fold_add_server:
  "hash_keys (fold (\<lambda>e. add_server alloc (entry_address e)) es []) =
     first_occurrences (map entry_address es) \<and>
   addresses_ok (fold (\<lambda>e. add_server alloc (entry_address e)) es [])"
proof (induction es rule: rev_induct)
  case Nil
  show ?case by (simp add: first_occurrences_def addresses_ok_def hash_ok_def)
next
  case (snoc e es)
  then have "set (hash_keys (fold (\<lambda>e. add_server alloc (entry_address e)) es [])) =
      set (map entry_address es)" by simp
  with snoc show ?case
    by (simp add: first_occurrences_snoc keys_add_server addresses_add_server)
qed

lemma entry_text_line:
  assumes "entry_form e"
  shows "plain_line (entry_text e) \<and> length (entry_text e) < 4096 \<and> entry_text e \<noteq> []"
proof -
  obtain bs p where e: "e = Server bs p" by (cases e)
  have len: "length (inet_ntop bs) < 16" "inet_ntop bs \<noteq> []"
    using length_inet_ntop[of bs] assms e by (auto simp: INET_ADDRSTRLEN_def)
  have "length (entry_text e) < 100"
  proof (cases p)
    case (Some q)
    then have "length (decimal q) \<le> 5" using assms e decimal_length[of 5 q] by simp
    with Some e len show ?thesis by simp
  qed (use e len in simp)
  moreover have "c \<notin> {space, tab, newline, NUL}" if "c \<in> set (entry_text e)" for c
    using that by (intro digit_plain set_entry_text)
  then have "newline \<notin> set (entry_text e)" "NUL \<notin> set (entry_text e)" by auto
  moreover have "entry_text e \<noteq> []" using e len(2) by (cases p) auto
  ultimately show ?thesis by (simp add: plain_line_def LINE_MAX_SIZE_def)
qed

section \<open>The server list's guarantees\<close>

lemma parse_server_list_lines:
  assumes "good rd" and "stream rd = text_of texts" and "filter (\<lambda>l. l \<noteq> []) texts = map entry_text es"
    and "\<forall>e \<in> set es. entry_form e"
  shows "if \<forall>e \<in> set es. entry_ok e
    then \<exists>m rd'. parse_client_server_list alloc rd = Inr (m, rd') \<and> stream rd' = [] \<and>
      hash_keys m = first_occurrences (map entry_address es) \<and> addresses_ok m
    else parse_client_server_list alloc rd = Inl Buffer_overflow"
proof -
  have "plain_line l \<and> length l < 4096" if "l \<in> set texts" for l
  proof (cases "l = []")
    case False
    with that have "l \<in> set (map entry_text es)" unfolding assms(3)[symmetric] by simp
    with assms(4) entry_text_line show ?thesis by auto
  qed (simp add: plain_line_def)
  then have "text_lines 4096 texts" by (simp add: text_lines_def)
  from server_lines.fold_lines_delivers[OF _ assms(1,2) this, of "[]" "[]" alloc] fold_add_server[of alloc es]
  show ?thesis
    unfolding assms(3) fold_server_lines[OF assms(4)]
    by (auto simp: parse_client_server_list_def split: if_splits)
qed

lemma parse_server_list_text:
  assumes "good rd" and "stream rd = text_of (map entry_text es)" and "\<forall>e \<in> set es. entry_ok e"
  shows "\<exists>m rd'. parse_client_server_list alloc rd = Inr (m, rd') \<and> stream rd' = [] \<and>
    hash_keys m = first_occurrences (map entry_address es) \<and> addresses_ok m"
proof -
  have "filter (\<lambda>l. l \<noteq> []) (map entry_text es) = map entry_text es"
    using assms(3) entry_text_line entry_ok_form by (intro filter_True) fastforce
  from parse_server_list_lines[OF assms(1,2) this, of alloc] assms(3) entry_ok_form show ?thesis by auto
qed

text \<open>C31: a list of addresses \<^verbatim>\<open>a.b.c.d\<close> or \<^verbatim>\<open>a.b.c.d:port\<close>, one per line, with blank lines anywhere and a
  newline at its end, is read the same way however it arrives in chunks, if no \<^verbatim>\<open>read\<close> and no allocation fails.
  If no port is above 9999, the map afterwards has each address once, in the order of first appearance, with the
  default port 48888 where none or 0 is given, and every node's data carries the address of its
  key. If some port has five digits, as in the repository's own list \<^verbatim>\<open>127.0.0.1:48888\<close>, the copy of its
  digits overflows the array \<^verbatim>\<open>port_str\<close>.\<close>

theorem server_list_loads_addresses:
  assumes "good rd" and "stream rd = text_of texts" and "filter (\<lambda>l. l \<noteq> []) texts = map entry_text es"
    and "\<forall>e \<in> set es. entry_form e"
  shows "if \<forall>e \<in> set es. entry_ok e
    then \<exists>m rd'. parse_client_server_list alloc rd = Inr (m, rd') \<and> stream rd' = [] \<and>
      hash_keys m = first_occurrences (map entry_address es) \<and> addresses_ok m
    else parse_client_server_list alloc rd = Inl Buffer_overflow"
  using assms by (rule parse_server_list_lines)

lemma server_list_loads_addresses_witness:
  "\<forall>alloc. (\<exists>m rd'. parse_client_server_list alloc
      \<lparr>unread = [], input_fd = [Chunk ''10.0.0.1:8'', Chunk (''0'' @ [newline, newline] @ ''10.0.0.2'' @ [newline])]\<rparr> = Inr (m, rd') \<and>
     hash_keys m = [\<lparr>sin_addr = [10, 0, 0, 1], sin_port = 80\<rparr>, \<lparr>sin_addr = [10, 0, 0, 2], sin_port = 48888\<rparr>]) \<and>
   parse_client_server_list alloc \<lparr>unread = [], input_fd = [Chunk (''127.0.0.1:48888'' @ [newline])]\<rparr> =
     Inl Buffer_overflow"
  (is "\<forall>alloc. ?P alloc \<and> ?Q alloc")
proof
  fix alloc
  have t: "entry_text (Server [10, 0, 0, 1] (Some 80)) = ''10.0.0.1:80''"
    "entry_text (Server [10, 0, 0, 2] None) = ''10.0.0.2''"
    by code_simp+
  have "digit_char 4 = CHR ''4''" "digit_char 8 = CHR ''8''" by code_simp+
  then have d: "decimal 48888 = ''48888''" by (simp add: decimal.simps)
  have "inet_ntop [127, 0, 0, 1] = ''127.0.0.1''" by code_simp
  with d have t': "entry_text (Server [127, 0, 0, 1] (Some 48888)) = ''127.0.0.1:48888''" by simp
  let ?r = "\<lparr>unread = [], input_fd = [Chunk ''10.0.0.1:8'',
        Chunk (''0'' @ [newline, newline] @ ''10.0.0.2'' @ [newline])]\<rparr>"
  let ?r' = "\<lparr>unread = [], input_fd = [Chunk (''127.0.0.1:48888'' @ [newline])]\<rparr>"
  let ?es = "[Server [10, 0, 0, 1] (Some 80), Server [10, 0, 0, 2] None]"
  have r: "good ?r" "good ?r'" "stream ?r = text_of [''10.0.0.1:80'', [], ''10.0.0.2'']"
    "stream ?r' = text_of [''127.0.0.1:48888'']"
    by (simp_all add: good_def stream_def text_of_def)
  have f: "filter (\<lambda>l. l \<noteq> []) [''10.0.0.1:80'', [], ''10.0.0.2''] = map entry_text ?es"
    "filter (\<lambda>l. l \<noteq> []) [''127.0.0.1:48888''] = map entry_text [Server [127, 0, 0, 1] (Some 48888)]"
    unfolding list.map t t' by simp_all
  have o: "\<forall>e \<in> set ?es. entry_form e" "\<forall>e \<in> set ?es. entry_ok e"
    "\<forall>e \<in> set [Server [127, 0, 0, 1] (Some 48888)]. entry_form e"
    "\<not> (\<forall>e \<in> set [Server [127, 0, 0, 1] (Some 48888)]. entry_ok e)"
    by (simp_all add: octets_def)
  have a: "first_occurrences (map entry_address ?es) =
      [\<lparr>sin_addr = [10, 0, 0, 1], sin_port = 80\<rparr>, \<lparr>sin_addr = [10, 0, 0, 2], sin_port = 48888\<rparr>]"
    by (simp add: first_occurrences_def)
  have "?P alloc"
    using server_list_loads_addresses[OF r(1,3) f(1) o(1), of alloc] unfolding if_P[OF o(2)] a by blast
  moreover have "?Q alloc"
    using server_list_loads_addresses[OF r(2,4) f(2) o(3), of alloc] unfolding if_not_P[OF o(4)] .
  ultimately show "?P alloc \<and> ?Q alloc" by blast
qed

lemma five_digit_port_overflows_witness:
  "\<forall>alloc. parse_server_line alloc (inet_ntop [127, 0, 0, 1] @ CHR '':'' # decimal 48888) [] =
     Inl Buffer_overflow"
  using five_digit_port_overflows[of "[127, 0, 0, 1]" 48888 _ "[]"] by (simp add: octets_def)

end
