(* ===== verification/Protocol.thy ===== *)
theory Protocol
  imports CString
begin

text \<open>
  The message vocabulary of \<open>mtn-protocol.h\<close> and \<open>mtn-protocol.c\<close>: message, request and response
  types, their texts, and their recognition in a received buffer. A message is the memory from
  the buffer's start on, because the request and the response type are read at a fixed offset,
  also where the message's own C string ends before it.
\<close>

section \<open>Types and sizes\<close>

datatype mtn_request_type = MTN_REQ_SUBSCR | MTN_REQ_RESEND | MTN_REQ_UNKNOWN
datatype mtn_response_type = MTN_RES_ACCEPT | MTN_RES_REJECT | MTN_RES_UNKNOWN
datatype mtn_message_type = MTN_REQUEST | MTN_RESPONSE | MTN_DM_HEAD | MTN_DM_BLOCK | MTN_UNKNOWN

definition MTN_MSG_LEN :: nat where "MTN_MSG_LEN = 1024"
definition MTN_MSG_TYPE_LEN :: nat where "MTN_MSG_TYPE_LEN = 4"
definition MTN_REQ_TYPE_LEN :: nat where "MTN_REQ_TYPE_LEN = 6"
definition MTN_RES_TYPE_LEN :: nat where "MTN_RES_TYPE_LEN = 6"
definition MTN_DM_BLOCK_HEAD_LEN :: nat where "MTN_DM_BLOCK_HEAD_LEN = 10 + 3 + 3 + 2"
definition MTN_DM_BLOCK_DATA_LEN :: nat where
  "MTN_DM_BLOCK_DATA_LEN = MTN_MSG_LEN - MTN_MSG_TYPE_LEN - MTN_DM_BLOCK_HEAD_LEN"
definition SRV_NAME_LEN :: nat where "SRV_NAME_LEN = 128"
definition SRV_DESCR_LEN :: nat where "SRV_DESCR_LEN = 256"

definition MTN_REQUEST_TXT :: string where "MTN_REQUEST_TXT = ''RQST''"
definition MTN_RESPONSE_TXT :: string where "MTN_RESPONSE_TXT = ''RSPS''"
definition MTN_DM_HEAD_TXT :: string where "MTN_DM_HEAD_TXT = ''DATA''"
definition MTN_DM_BLOCK_TXT :: string where "MTN_DM_BLOCK_TXT = ''BLCK''"
definition MTN_REQ_SUBSCR_TXT :: string where "MTN_REQ_SUBSCR_TXT = ''SUBSCR''"
definition MTN_REQ_RESEND_TXT :: string where "MTN_REQ_RESEND_TXT = ''RESEND''"
definition MTN_RES_ACCEPT_TXT :: string where "MTN_RES_ACCEPT_TXT = ''ACCEPT''"
definition MTN_RES_REJECT_TXT :: string where "MTN_RES_REJECT_TXT = ''REJECT''"

lemmas size_defs = MTN_MSG_LEN_def MTN_MSG_TYPE_LEN_def MTN_REQ_TYPE_LEN_def MTN_RES_TYPE_LEN_def
  MTN_DM_BLOCK_HEAD_LEN_def MTN_DM_BLOCK_DATA_LEN_def SRV_NAME_LEN_def SRV_DESCR_LEN_def

lemmas text_defs = MTN_REQUEST_TXT_def MTN_RESPONSE_TXT_def MTN_DM_HEAD_TXT_def MTN_DM_BLOCK_TXT_def
  MTN_REQ_SUBSCR_TXT_def MTN_REQ_RESEND_TXT_def MTN_RES_ACCEPT_TXT_def MTN_RES_REJECT_TXT_def

section \<open>Recognising a message\<close>

definition get_message_type :: "string \<Rightarrow> mtn_message_type" where
  "get_message_type message =
     (if strneq message MTN_REQUEST_TXT MTN_MSG_TYPE_LEN then MTN_REQUEST
      else if strneq message MTN_RESPONSE_TXT MTN_MSG_TYPE_LEN then MTN_RESPONSE
      else if strneq message MTN_DM_HEAD_TXT MTN_MSG_TYPE_LEN then MTN_DM_HEAD
      else if strneq message MTN_DM_BLOCK_TXT MTN_MSG_TYPE_LEN then MTN_DM_BLOCK
      else MTN_UNKNOWN)"

definition get_request_type :: "string \<Rightarrow> mtn_request_type" where
  "get_request_type message =
     (let message_ptr = drop (MTN_MSG_TYPE_LEN + 1) message in
      if strneq message_ptr MTN_REQ_SUBSCR_TXT MTN_REQ_TYPE_LEN then MTN_REQ_SUBSCR
      else if strneq message_ptr MTN_REQ_RESEND_TXT MTN_REQ_TYPE_LEN then MTN_REQ_RESEND
      else MTN_REQ_UNKNOWN)"

definition get_response_type :: "string \<Rightarrow> mtn_response_type" where
  "get_response_type message =
     (let message_ptr = drop (MTN_MSG_TYPE_LEN + 1) message in
      if strneq message_ptr MTN_RES_ACCEPT_TXT MTN_RES_TYPE_LEN then MTN_RES_ACCEPT
      else if strneq message_ptr MTN_RES_REJECT_TXT MTN_RES_TYPE_LEN then MTN_RES_REJECT
      else MTN_RES_UNKNOWN)"

section \<open>Naming a type\<close>

definition get_message_type_str :: "mtn_message_type \<Rightarrow> string" where
  "get_message_type_str t = (case t of
     MTN_REQUEST \<Rightarrow> MTN_REQUEST_TXT
   | MTN_RESPONSE \<Rightarrow> MTN_RESPONSE_TXT
   | MTN_DM_HEAD \<Rightarrow> MTN_DM_HEAD_TXT
   | MTN_DM_BLOCK \<Rightarrow> MTN_DM_BLOCK_TXT
   | _ \<Rightarrow> ''UNKNOWN'')"

text \<open>
  The callers' arrays for a request or response name have room for six characters and the
  terminator; \<open>get_request_type_str\<close> and \<open>get_response_type_str\<close> copy the name into an array of
  \<open>cap\<close> bytes, and the seven characters of \<open>UNKNOWN\<close> need eight.
\<close>

definition request_type_name :: "mtn_request_type \<Rightarrow> string" where
  "request_type_name t = (case t of
     MTN_REQ_SUBSCR \<Rightarrow> MTN_REQ_SUBSCR_TXT
   | MTN_REQ_RESEND \<Rightarrow> MTN_REQ_RESEND_TXT
   | _ \<Rightarrow> ''UNKNOWN'')"

definition response_type_name :: "mtn_response_type \<Rightarrow> string" where
  "response_type_name t = (case t of
     MTN_RES_ACCEPT \<Rightarrow> MTN_RES_ACCEPT_TXT
   | MTN_RES_REJECT \<Rightarrow> MTN_RES_REJECT_TXT
   | _ \<Rightarrow> ''UNKNOWN'')"

definition get_request_type_str :: "nat \<Rightarrow> mtn_request_type \<Rightarrow> string c_result" where
  "get_request_type_str cap t =
     (if length (request_type_name t) < cap then Inr (request_type_name t) else Inl Buffer_overflow)"

definition get_response_type_str :: "nat \<Rightarrow> mtn_response_type \<Rightarrow> string c_result" where
  "get_response_type_str cap t =
     (if length (response_type_name t) < cap then Inr (response_type_name t) else Inl Buffer_overflow)"

section \<open>Recognition and naming agree\<close>

lemma strneq_prefix: "NUL \<notin> set t \<Longrightarrow> length t = n \<Longrightarrow> strneq (t @ rest) t n"
  by (induction t arbitrary: n) (auto simp: strneq_def cstr_def)

lemma strneq_take: "NUL \<notin> set t \<Longrightarrow> length t = n \<Longrightarrow> strneq s t n \<longleftrightarrow> take n s = t"
proof (induction t arbitrary: n s)
  case (Cons a t)
  then show ?case by (cases s) (auto simp: strneq_def cstr_def)
qed (simp add: strneq_def)

lemma get_message_type_iff:
  "get_message_type m = MTN_REQUEST \<longleftrightarrow> take 4 m = ''RQST''"
  "get_message_type m = MTN_RESPONSE \<longleftrightarrow> take 4 m = ''RSPS''"
  "get_message_type m = MTN_DM_HEAD \<longleftrightarrow> take 4 m = ''DATA''"
  "get_message_type m = MTN_DM_BLOCK \<longleftrightarrow> take 4 m = ''BLCK''"
  by (auto simp: get_message_type_def strneq_take text_defs MTN_MSG_TYPE_LEN_def)

lemma get_request_type_iff:
  "get_request_type m = MTN_REQ_SUBSCR \<longleftrightarrow> take 6 (drop 5 m) = ''SUBSCR''"
  "get_request_type m = MTN_REQ_RESEND \<longleftrightarrow> take 6 (drop 5 m) = ''RESEND''"
  by (auto simp: get_request_type_def strneq_take text_defs MTN_MSG_TYPE_LEN_def
      MTN_REQ_TYPE_LEN_def Let_def)

lemma get_response_type_iff:
  "get_response_type m = MTN_RES_ACCEPT \<longleftrightarrow> take 6 (drop 5 m) = ''ACCEPT''"
  "get_response_type m = MTN_RES_REJECT \<longleftrightarrow> take 6 (drop 5 m) = ''REJECT''"
  by (auto simp: get_response_type_def strneq_take text_defs MTN_MSG_TYPE_LEN_def
      MTN_RES_TYPE_LEN_def Let_def)

lemma get_message_type_naming:
  "t \<noteq> MTN_UNKNOWN \<Longrightarrow> get_message_type (get_message_type_str t @ rest) = t"
  by (cases t) (auto simp: get_message_type_str_def get_message_type_iff text_defs)

lemma get_request_type_naming:
  "t \<noteq> MTN_REQ_UNKNOWN \<Longrightarrow> length pre = 5 \<Longrightarrow>
   get_request_type (pre @ request_type_name t @ rest) = t"
  by (cases t) (auto simp: request_type_name_def get_request_type_iff text_defs)

lemma get_response_type_naming:
  "t \<noteq> MTN_RES_UNKNOWN \<Longrightarrow> length pre = 5 \<Longrightarrow>
   get_response_type (pre @ response_type_name t @ rest) = t"
  by (cases t) (auto simp: response_type_name_def get_response_type_iff text_defs)

section \<open>The protocol's guarantees\<close>

text \<open>The three kinds of type words are recognised exactly as they are named: a message that starts
  with the name of a known type, followed by any bytes, has that type, and likewise for the
  request and the response type at their offset of five.\<close>

lemma types_recognised_as_named:
  "(t \<noteq> MTN_UNKNOWN \<longrightarrow> get_message_type (get_message_type_str t @ rest) = t) \<and>
   (q \<noteq> MTN_REQ_UNKNOWN \<longrightarrow>
      get_request_type (MTN_REQUEST_TXT @ [space] @ request_type_name q @ rest) = q) \<and>
   (p \<noteq> MTN_RES_UNKNOWN \<longrightarrow>
      get_response_type (MTN_RESPONSE_TXT @ [space] @ response_type_name p @ rest) = p)"
  using get_message_type_naming[of t rest]
    get_request_type_naming[of q "MTN_REQUEST_TXT @ [space]" rest]
    get_response_type_naming[of p "MTN_RESPONSE_TXT @ [space]" rest]
  by (auto simp: text_defs)

lemma types_recognised_as_named_witness:
  "get_request_type ''RQST SUBSCR'' = MTN_REQ_SUBSCR"
  using types_recognised_as_named[of MTN_UNKNOWN "[]" MTN_REQ_SUBSCR MTN_RES_UNKNOWN]
  by (simp add: text_defs request_type_name_def)

text \<open>A request or response of unknown type does not fit the callers' arrays of type length plus
  one: naming it writes past the array, and naming a known one never does.\<close>

lemma unknown_type_name_overflows:
  "(get_request_type_str (MTN_REQ_TYPE_LEN + 1) q = Inl Buffer_overflow \<longleftrightarrow> q = MTN_REQ_UNKNOWN) \<and>
   (get_response_type_str (MTN_RES_TYPE_LEN + 1) p = Inl Buffer_overflow \<longleftrightarrow> p = MTN_RES_UNKNOWN)"
  by (cases q; cases p) (simp_all add: get_request_type_str_def get_response_type_str_def
      request_type_name_def response_type_name_def text_defs size_defs)

end
