(* ===== verification/ClientMessages.thy ===== *)
theory ClientMessages
  imports ArrayHeap ServerList Protocol
begin

text \<open>
  The client's side of data messages, \<open>mtn-client-data-message.c\<close>, which the repository leaves
  unfinished (it does not compile): the order of the queue of incomplete messages, and the two
  handlers the receiving thread calls. The handler of a message's head calls
  \<open>mktime(&time)\<close> where \<open>time\<close> is an uninitialised object of 8 bytes and \<open>mktime\<close> takes a
  \<open>struct tm\<close> of 56: it reads outside of the object, so the rest of the handler, which parses the
  identifier and the number of blocks, has no meaning and is not modelled.
\<close>

record client_message =
  msg_release_time :: int
  msg_id :: int
  receive_time :: int
  msg_blocks_count :: int

definition timeout_sooner :: "client_message \<Rightarrow> client_message \<Rightarrow> bool" where
  "timeout_sooner msg1 msg2 = (receive_time msg1 < receive_time msg2)"

interpretation timeout_order: heap_comparison timeout_sooner "\<lambda>a b. receive_time a \<le> receive_time b"
  by unfold_locales (auto simp: timeout_sooner_def)

text \<open>The first token, the release time, is taken from a pointer into the receiving array; the array
  \<open>token\<close> has 4096 bytes. A datagram from an unknown server is ignored.\<close>

definition receive_data_message_head ::
    "string \<Rightarrow> sockaddr_in \<Rightarrow> server_map \<Rightarrow> server_map c_result" where
  "receive_data_message_head msg server_address m =
     (case hash_find m server_address of
        None \<Rightarrow> Inr m
      | Some server \<Rightarrow>
          let msg_ptr = cstr (drop (MTN_MSG_TYPE_LEN + 1) msg) in
          result_bind (get_token 4096 msg_ptr [space]) (\<lambda>_. Inl Out_of_bounds_read))"

definition receive_data_message_block ::
    "string \<Rightarrow> sockaddr_in \<Rightarrow> server_map \<Rightarrow> server_map" where
  "receive_data_message_block msg server_address m =
     (case hash_find m server_address of None \<Rightarrow> m | Some server \<Rightarrow> m)"

lemma receive_data_message_block_ignored [simp]: "receive_data_message_block msg a m = m"
  by (simp add: receive_data_message_block_def split: option.splits)

lemma receive_data_message_head_result:
  assumes "length msg < 4096"
  shows "receive_data_message_head msg a m = (if a \<in> set (hash_keys m) then Inl Out_of_bounds_read else Inr m)"
proof (cases "hash_find m a")
  case (Some server)
  have "length (cstr xs) \<le> length xs" for xs by (simp add: cstr_def length_takeWhile_le)
  from le_less_trans[OF le_trans[OF this] assms] have "length (cstr (drop (MTN_MSG_TYPE_LEN + 1) msg)) < 4096"
    by simp
  then obtain x where "get_token 4096 (cstr (drop (MTN_MSG_TYPE_LEN + 1) msg)) [space] = Inr x"
    using get_token_room by blast
  then show ?thesis
    using Some hash_find_None_iff[of m a] by (simp add: receive_data_message_head_def)
next
  case None
  then show ?thesis using hash_find_None_iff[of m a] by (simp add: receive_data_message_head_def)
qed

end
