(* ===== verification/ClientRequest.thy ===== *)
theory ClientRequest
  imports ClientMessages
begin

text \<open>
  The client's requests and the receiving thread: \<open>mtn-client-request.c\<close>,
  \<open>mtn-client-receiver.c\<close>, and the parsing of a server's response in \<open>mtn-client-updater.c\<close>.

  The array \<open>response\<close> of a server is kept as its 1025 bytes, because the response type is read at
  a fixed offset whether or not the stored string reaches it.
\<close>

section \<open>Sending a request\<close>

definition SERVER_RESPONSE_TIMEOUT :: int where "SERVER_RESPONSE_TIMEOUT = 3"
definition MAX_NOT_CONNECT_COUNT :: int where "MAX_NOT_CONNECT_COUNT = 3"

text \<open>
  A wait on the condition variable ends with a time-out or a wake-up; meanwhile the server's data
  may have been changed by the receiving thread.
\<close>

datatype wakeup = Timed_out server_data | Woken server_data

definition request_timed_out :: "int \<Rightarrow> server_data \<Rightarrow> server_data" where
  "request_timed_out send_time server =
     (let count = not_connect_count server + 1 in
      server\<lparr>last_connect_attempt_time := send_time, not_connect_count := count,
        state := (if count mod MAX_NOT_CONNECT_COUNT = 0 then WAIT else state server)\<rparr>)"

definition request_answered :: "int \<Rightarrow> server_data \<Rightarrow> server_data c_result" where
  "request_answered connect_time server =
     result_bind (get_response_type_str (MTN_RES_TYPE_LEN + 1) (get_response_type (srv_response server)))
       (\<lambda>_. if connect_time = -1 then Inl (Exit 1)
            else Inr (server\<lparr>last_connect_attempt_time := connect_time, not_connect_count := 0\<rparr>))"

text \<open>The waiting loop over the wake-ups to come; \<open>None\<close> when they do not end it.\<close>

fun await_response ::
    "int \<Rightarrow> int \<Rightarrow> wakeup list \<Rightarrow> server_data \<Rightarrow> (bool \<times> server_data) c_result option" where
  "await_response send_time connect_time wakeups server =
     (if state server = RESP
      then Some (result_bind (request_answered connect_time server) (\<lambda>server. Inr (True, server)))
      else case wakeups of
        [] \<Rightarrow> None
      | Timed_out server' # _ \<Rightarrow> Some (Inr (False, request_timed_out send_time server'))
      | Woken server' # wakeups' \<Rightarrow> await_response send_time connect_time wakeups' server')"

text \<open>\<open>sent\<close> is the success of \<open>sendto\<close>, the times are those \<open>time\<close> returns.\<close>

definition send_request ::
    "bool \<Rightarrow> int \<Rightarrow> int \<Rightarrow> wakeup list \<Rightarrow> string \<Rightarrow> server_data \<Rightarrow>
     (bool \<times> server_data) c_result option" where
  "send_request sent send_time connect_time wakeups request server =
     (case get_request_type_str (MTN_REQ_TYPE_LEN + 1) (get_request_type request) of
        Inl e \<Rightarrow> Some (Inl e)
      | Inr _ \<Rightarrow>
          if \<not> sent then Some (Inr (False, server))
          else if send_time = -1 then Some (Inl (Exit 1))
          else await_response send_time connect_time wakeups server)"

section \<open>Receiving\<close>

definition receive_response ::
    "string \<Rightarrow> sockaddr_in \<Rightarrow> server_map \<Rightarrow> server_map c_result" where
  "receive_response response server_address m =
     (case hash_find m server_address of
        None \<Rightarrow> Inl Null_pointer
      | Some server \<Rightarrow>
          result_bind (strcpy (srv_response server) response) (\<lambda>mem.
            Inr (hash_change m server_address (\<lambda>server. server\<lparr>srv_response := mem, state := RESP\<rparr>))))"

text \<open>
  One turn of the receiving loop, given the thread's array: the array, the servers, and whether the
  loop goes on.
\<close>

definition client_dispatch :: "string \<Rightarrow> sockaddr_in \<Rightarrow> server_map \<Rightarrow> server_map c_result" where
  "client_dispatch msg server_address m =
     (case get_message_type msg of
        MTN_RESPONSE \<Rightarrow> receive_response msg server_address m
      | MTN_DM_HEAD \<Rightarrow> receive_data_message_head msg server_address m
      | MTN_DM_BLOCK \<Rightarrow> Inr (receive_data_message_block msg server_address m)
      | _ \<Rightarrow> Inr m)"

fun client_receive ::
    "incoming \<Rightarrow> string \<Rightarrow> server_map \<Rightarrow> (string \<times> server_map \<times> bool) c_result" where
  "client_receive Recv_failed msg m = Inl Buffer_overflow"
| "client_receive (Datagram d server_address) msg m =
     (if d = [] then Inr (msg, m, False)
      else
        let msg_len = length (take MTN_MSG_LEN d);
            msg = receive_into MTN_MSG_LEN msg d
        in if MTN_MSG_TYPE_LEN \<le> msg_len
           then result_bind (client_dispatch msg server_address m) (\<lambda>m. Inr (msg, m, True))
           else Inr (msg, m, True))"

fun receive_thread :: "incoming list \<Rightarrow> string \<Rightarrow> server_map \<Rightarrow> (string \<times> server_map) c_result" where
  "receive_thread [] msg m = Inr (msg, m)"
| "receive_thread (d # ds) msg m =
     result_bind (client_receive d msg m) (\<lambda>(msg, m, more).
       if more then receive_thread ds msg m else Inr (msg, m))"

section \<open>The response to a subscription\<close>

text \<open>
  \<open>get_token(line, &ptr, delim)\<close> with the array \<open>line\<close> kept: the pointer is an offset into its
  string, and the bytes behind the token's terminator stay what they were.
\<close>

definition get_token_into :: "string \<Rightarrow> string \<Rightarrow> string \<Rightarrow> (nat \<times> string \<times> string) c_result" where
  "get_token_into buf str_ptr delim =
     result_bind (get_token (length buf) str_ptr delim) (\<lambda>(token_len, token, rest).
       Inr (token_len, overwrite buf 0 (token @ [NUL]), rest))"

text \<open>One line of the response: \<open>line_ptr\<close> is left behind the first token of the line, and the value
  starts one byte later, also when the line ends there.\<close>

definition parse_response_line :: "string \<Rightarrow> server_data \<Rightarrow> server_data c_result" where
  "parse_response_line line server =
     result_bind (get_token 4096 (cstr line) [space]) (\<lambda>(_, token, line_ptr).
       let v = cstr (drop (Suc (length (cstr line) - length line_ptr)) line) in
       if token = ''name'' then
         if length v < SRV_NAME_LEN then Inr (server\<lparr>srv_name := v\<rparr>) else Inl Buffer_overflow
       else if token = ''descr'' then
         if length v < SRV_DESCR_LEN then Inr (server\<lparr>srv_descr := v\<rparr>) else Inl Buffer_overflow
       else Inr server)"

function parse_response_lines :: "string \<Rightarrow> string \<Rightarrow> server_data \<Rightarrow> server_data c_result" where
  "parse_response_lines line response_ptr server =
     result_bind (get_token_into line response_ptr [newline]) (\<lambda>(n, line, response_ptr).
       if n \<noteq> 0
       then result_bind (parse_response_line line server) (parse_response_lines line response_ptr)
       else Inr server)"
  by pat_completeness auto
termination
  by (relation "measure (\<lambda>(line, response_ptr, server). length response_ptr)")
    (auto simp: get_token_into_def result_simps dest!: get_token_Inr(6))

declare parse_response_lines.simps [simp del]

text \<open>What \<open>send_subscription_request_thread\<close> does with an answered request; \<open>line\<close> is the content
  its array \<open>line[4096]\<close> starts with.\<close>

definition handle_response :: "string \<Rightarrow> server_data \<Rightarrow> server_data c_result" where
  "handle_response line server =
     result_bind
       (if get_response_type (srv_response server) = MTN_RES_ACCEPT then
          let server = server\<lparr>state := SUBSCR\<rparr> in
          result_bind (get_token_into line (cstr (srv_response server)) [newline])
            (\<lambda>(_, line, response_ptr). parse_response_lines line response_ptr server)
        else Inr (server\<lparr>state := WAIT\<rparr>))
       (\<lambda>server. result_bind (strcpy (srv_response server) []) (\<lambda>mem.
          Inr (server\<lparr>srv_response := mem\<rparr>)))"

definition subscription_request :: string where
  "subscription_request = fst (snprintf (MTN_MSG_LEN + 1) (MTN_REQUEST_TXT @ [space] @ MTN_REQ_SUBSCR_TXT))"

section \<open>The lines of a response\<close>

lemma get_token_into_line:
  assumes "set pre \<subseteq> {newline}" and "w \<noteq> []" and "NUL \<notin> set w" and "newline \<notin> set w"
    and "rest = [] \<or> hd rest = newline" and "length w < length line"
  shows "get_token_into line (pre @ w @ rest) [newline] =
    Inr (length w, w @ NUL # drop (Suc (length w)) line, rest)"
proof -
  have "get_token (length line) (pre @ w @ rest) [newline] = Inr (length w, w, rest)"
    using assms by (intro get_token_word) auto
  then show ?thesis by (simp add: get_token_into_def overwrite_def)
qed

lemma parse_response_line_key:
  assumes "key \<noteq> []" and "NUL \<notin> set key" and "space \<notin> set key" and "NUL \<notin> set v"
    and "length key < 4096"
  shows "parse_response_line ((key @ space # v) @ NUL # rest) server =
    (if key = ''name'' then
       (if length v < SRV_NAME_LEN then Inr (server\<lparr>srv_name := v\<rparr>) else Inl Buffer_overflow)
     else if key = ''descr'' then
       (if length v < SRV_DESCR_LEN then Inr (server\<lparr>srv_descr := v\<rparr>) else Inl Buffer_overflow)
     else Inr server)"
proof -
  have c: "cstr ((key @ space # v) @ NUL # rest) = key @ space # v"
    using assms by (intro cstr_terminated) auto
  have "get_token 4096 ([] @ key @ space # v) [space] = Inr (length key, key, space # v)"
    using assms by (intro get_token_word) auto
  moreover have "drop (Suc (length (key @ space # v) - length (space # v)))
      ((key @ space # v) @ NUL # rest) = v @ NUL # rest" by simp
  ultimately show ?thesis
    using assms unfolding parse_response_line_def c by (simp add: Let_def)
qed

lemma parse_response_lines_step:
  assumes "w = key @ space # v" and "key \<noteq> []" and "set key \<inter> {space, newline, NUL} = {}"
    and "newline \<notin> set v" and "NUL \<notin> set v" and "length w < length line" and "length key < 4096"
    and "rest = [] \<or> hd rest = newline"
    and "length v < (if key = ''name'' then SRV_NAME_LEN else if key = ''descr'' then SRV_DESCR_LEN
      else Suc (length v))"
  shows "parse_response_lines line (newline # w @ rest) server =
    parse_response_lines (w @ NUL # drop (Suc (length w)) line) rest
      (if key = ''name'' then server\<lparr>srv_name := v\<rparr>
       else if key = ''descr'' then server\<lparr>srv_descr := v\<rparr> else server)"
proof -
  have "get_token_into line ([newline] @ w @ rest) [newline] =
      Inr (length w, w @ NUL # drop (Suc (length w)) line, rest)"
    using assms by (intro get_token_into_line) auto
  moreover have "parse_response_line (w @ NUL # drop (Suc (length w)) line) server =
      Inr (if key = ''name'' then server\<lparr>srv_name := v\<rparr>
        else if key = ''descr'' then server\<lparr>srv_descr := v\<rparr> else server)"
    using assms parse_response_line_key[of key v "drop (Suc (length w)) line" server]
    by (auto split: if_splits)
  ultimately show ?thesis using assms(1) by (subst parse_response_lines.simps) simp
qed

lemma parse_response_lines_end:
  "0 < length line \<Longrightarrow> parse_response_lines line [] server = Inr server"
  using get_token_blank[of "[]" "[newline]" "length line"]
  by (subst parse_response_lines.simps) (simp add: get_token_into_def)

text \<open>The response a server prints, and what the client makes of it.\<close>

definition accept_text :: "string \<Rightarrow> string \<Rightarrow> string" where
  "accept_text n d = MTN_RESPONSE_TXT @ [space] @ MTN_RES_ACCEPT_TXT @ [newline] @
     ''name '' @ n @ [newline] @ ''descr '' @ d"

lemma handle_accept:
  assumes mem: "srv_response server = accept_text n d @ NUL # rest"
    and n: "NUL \<notin> set n" "newline \<notin> set n" "length n < SRV_NAME_LEN"
    and d: "NUL \<notin> set d" "newline \<notin> set d" "length d < SRV_DESCR_LEN"
    and line: "length line = 4096"
  shows "handle_response line server =
    Inr (server\<lparr>state := SUBSCR, srv_name := n, srv_descr := d,
      srv_response := NUL # tl (srv_response server)\<rparr>)"
proof -
  let ?s = "server\<lparr>state := SUBSCR\<rparr>"
  have c: "cstr (srv_response server) = accept_text n d"
    unfolding mem using n d by (intro cstr_terminated) (auto simp: accept_text_def text_defs)
  have t: "get_response_type (srv_response server) = MTN_RES_ACCEPT"
    unfolding mem by (simp add: get_response_type_iff accept_text_def text_defs)
  define l1 where "l1 = ''RSPS ACCEPT'' @ NUL # drop (Suc (length ''RSPS ACCEPT'')) line"
  define l2 where "l2 = (''name'' @ space # n) @ NUL # drop (Suc (length (''name'' @ space # n))) l1"
  have l1: "length l1 = 4096" using line by (simp add: l1_def)
  have l2: "length l2 = 4096" using l1 n by (simp add: l2_def SRV_NAME_LEN_def)
  have "get_token_into line ([] @ ''RSPS ACCEPT'' @ newline # ''name '' @ n @ [newline] @ ''descr '' @ d)
      [newline] = Inr (length ''RSPS ACCEPT'', l1, newline # ''name '' @ n @ [newline] @ ''descr '' @ d)"
    using line get_token_into_line[of "[]" "''RSPS ACCEPT''"
        "newline # ''name '' @ n @ [newline] @ ''descr '' @ d" line] by (simp add: l1_def)
  moreover have "accept_text n d =
      [] @ ''RSPS ACCEPT'' @ newline # ''name '' @ n @ [newline] @ ''descr '' @ d"
    by (simp add: accept_text_def text_defs)
  moreover have "parse_response_lines l1 (newline # (''name'' @ space # n) @ newline # ''descr '' @ d) ?s =
      parse_response_lines l2 (newline # (''descr'' @ space # d) @ []) (?s\<lparr>srv_name := n\<rparr>)"
    using parse_response_lines_step[of "''name'' @ space # n" "''name''" n l1
        "newline # (''descr'' @ space # d) @ []" ?s] n l1
    by (simp add: l2_def SRV_NAME_LEN_def)
  moreover have "parse_response_lines l2 (newline # (''descr'' @ space # d) @ []) (?s\<lparr>srv_name := n\<rparr>) =
      Inr (?s\<lparr>srv_name := n, srv_descr := d\<rparr>)"
    using parse_response_lines_step[of "''descr'' @ space # d" "''descr''" d l2 "[]"
        "?s\<lparr>srv_name := n\<rparr>"] d l2
    by (simp add: parse_response_lines_end SRV_DESCR_LEN_def)
  ultimately have "result_bind (get_token_into line (cstr (srv_response server)) [newline])
      (\<lambda>(_, line, response_ptr). parse_response_lines line response_ptr ?s) =
      Inr (?s\<lparr>srv_name := n, srv_descr := d\<rparr>)"
    unfolding c by simp
  moreover have "strcpy (srv_response server) [] = Inr (NUL # tl (srv_response server))"
    by (simp add: mem strcpy_def cstr_def accept_text_def drop_Suc text_defs)
  ultimately show ?thesis
    using t by (simp add: handle_response_def)
qed

section \<open>The receiving thread's memory\<close>

definition responses_sized :: "server_map \<Rightarrow> bool" where
  "responses_sized m \<longleftrightarrow> (\<forall>(a, d) \<in> set m. length (srv_response d) = MTN_MSG_LEN + 1)"

lemma length_receive_into:
  "length buf = MTN_MSG_LEN + 1 \<Longrightarrow> length (receive_into MTN_MSG_LEN buf d) = MTN_MSG_LEN + 1"
  by (simp add: receive_into_def)

lemma cstr_receive_into: "length (cstr (receive_into n buf d)) \<le> n"
proof -
  have "length (cstr (xs @ NUL # r)) \<le> length xs" for xs r
    by (induction xs) (auto simp: cstr_def)
  from le_trans[OF this] show ?thesis by (simp add: receive_into_split)
qed

lemma strcpy_room:
  "length (cstr src) < length dest \<Longrightarrow>
   \<exists>mem. strcpy dest src = Inr mem \<and> length mem = length dest \<and> cstr mem = cstr src"
  by (auto simp: strcpy_def)

lemma receive_response_known:
  assumes "hash_find m a = Some server" and "responses_sized m" and "length (cstr msg) \<le> MTN_MSG_LEN"
  shows "\<exists>m'. receive_response msg a m = Inr m' \<and> hash_keys m' = hash_keys m \<and> responses_sized m' \<and>
    (\<exists>s'. hash_find m' a = Some s' \<and> state s' = RESP \<and> cstr (srv_response s') = cstr msg)"
proof -
  have "length (srv_response server) = MTN_MSG_LEN + 1"
    using assms(1,2) map_of_SomeD[of m a server] by (auto simp: responses_sized_def hash_find_def)
  then obtain mem where mem: "strcpy (srv_response server) msg = Inr mem"
      "length mem = MTN_MSG_LEN + 1" "cstr mem = cstr msg"
    using strcpy_room[of msg "srv_response server"] assms(3) by auto
  define m' where "m' = hash_change m a (\<lambda>server. server\<lparr>srv_response := mem, state := RESP\<rparr>)"
  have "responses_sized m'"
    using assms(2) mem(2) by (auto simp: m'_def responses_sized_def hash_change_def split: if_splits)
  moreover have "receive_response msg a m = Inr m'"
    using assms(1) mem(1) by (simp add: receive_response_def m'_def)
  moreover have "hash_find m' a = Some (server\<lparr>srv_response := mem, state := RESP\<rparr>)"
    using assms(1) by (simp add: m'_def)
  ultimately show ?thesis using mem(3) by (auto simp: m'_def)
qed

text \<open>What a datagram does to the thread: the fault it ends in, if any.\<close>

definition datagram_fault :: "sockaddr_in list \<Rightarrow> incoming \<Rightarrow> c_error option" where
  "datagram_fault ks x = (case x of
     Recv_failed \<Rightarrow> Some Buffer_overflow
   | Datagram d a \<Rightarrow>
       if take 4 d = ''RSPS'' \<and> a \<notin> set ks then Some Null_pointer
       else if take 4 d = ''DATA'' \<and> a \<in> set ks then Some Out_of_bounds_read else None)"

definition answer_stored :: "string \<Rightarrow> server_data \<Rightarrow> server_data \<Rightarrow> bool" where
  "answer_stored d s s' \<longleftrightarrow> (\<exists>mem. s' = s\<lparr>srv_response := mem, state := RESP\<rparr> \<and>
     length mem = MTN_MSG_LEN + 1 \<and> cstr mem = cstr (take MTN_MSG_LEN d))"

lemma take_4_receive: "4 \<le> length d \<Longrightarrow> take 4 (receive_into MTN_MSG_LEN buf d) = take 4 d"
  by (simp add: receive_into_split MTN_MSG_LEN_def)

lemma cstr_receive: "cstr (receive_into n buf d) = cstr (take n d)"
proof (cases "NUL \<in> set (take n d)")
  case True
  then show ?thesis by (simp add: receive_into_split cstr_def takeWhile_append1[of NUL])
next
  case False
  then have "takeWhile (\<lambda>c. c \<noteq> NUL) (take n d @ NUL # xs) = take n d" for xs
    by (subst takeWhile_append2) auto
  then have "cstr (receive_into n buf d) = take n d" by (simp add: receive_into_split cstr_def)
  moreover have "cstr (take n d) = take n d" using False by (rule cstr_NUL_free)
  ultimately show ?thesis by simp
qed

lemma client_receive_result:
  assumes "responses_sized m" and "length buf = MTN_MSG_LEN + 1" and "\<nexists>a. x = Datagram [] a"
  shows "case datagram_fault (hash_keys m) x of
      Some e \<Rightarrow> client_receive x buf m = Inl e
    | None \<Rightarrow> \<exists>buf' m'. client_receive x buf m = Inr (buf', m', True) \<and> length buf' = MTN_MSG_LEN + 1 \<and>
        hash_keys m' = hash_keys m \<and> responses_sized m' \<and>
        (\<forall>a. if \<exists>d. x = Datagram d a \<and> take 4 d = ''RSPS''
             then \<exists>d s s'. x = Datagram d a \<and> hash_find m a = Some s \<and> hash_find m' a = Some s' \<and> answer_stored d s s'
             else hash_find m' a = hash_find m a)"
proof (cases x)
  case (Datagram d a)
  let ?b = "receive_into MTN_MSG_LEN buf d"
  have b: "length ?b = MTN_MSG_LEN + 1" using length_receive_into[OF assms(2)] .
  have ne: "d \<noteq> []" using assms(3) Datagram by auto
  show ?thesis
  proof (cases "4 \<le> length d")
    case False
    then have "length (take 4 d) < length ''RSPS''" by simp
    then have "take 4 d \<noteq> ''RSPS''" "take 4 d \<noteq> ''DATA''" by auto
    then show ?thesis
      using False ne b assms(1) Datagram by (auto simp: datagram_fault_def size_defs Let_def)
  next
    case True
    then have go: "client_receive x buf m = result_bind (client_dispatch ?b a m) (\<lambda>m. Inr (?b, m, True))"
      using ne Datagram by (simp add: Let_def size_defs)
    consider (resp) "take 4 d = ''RSPS''" | (head) "take 4 d = ''DATA''" | (other) "take 4 d \<noteq> ''RSPS''" "take 4 d \<noteq> ''DATA''"
      by blast
    then show ?thesis
    proof cases
      case resp
      then have "get_message_type ?b = MTN_RESPONSE"
        using take_4_receive[OF True, of buf] by (simp add: get_message_type_iff)
      then have d: "client_dispatch ?b a m = receive_response ?b a m" by (simp add: client_dispatch_def)
      show ?thesis
      proof (cases "hash_find m a")
        case None
        then show ?thesis
          using resp Datagram go d hash_find_None_iff[of m a] by (simp add: datagram_fault_def receive_response_def)
      next
        case (Some s)
        then have a: "a \<in> set (hash_keys m)" using hash_find_None_iff[of m a] by auto
        have "length (srv_response s) = MTN_MSG_LEN + 1"
          using assms(1) Some map_of_SomeD[of m a s] by (auto simp: responses_sized_def hash_find_def)
        then obtain mem where mem: "strcpy (srv_response s) ?b = Inr mem" "length mem = MTN_MSG_LEN + 1"
            "cstr mem = cstr (take MTN_MSG_LEN d)"
          using strcpy_room[of ?b "srv_response s"] cstr_receive_into[of MTN_MSG_LEN buf d]
          by (auto simp: cstr_receive)
        define m' where "m' = hash_change m a (\<lambda>s. s\<lparr>srv_response := mem, state := RESP\<rparr>)"
        have "responses_sized m'"
          using assms(1) mem(2) by (auto simp: m'_def responses_sized_def hash_change_def split: if_splits)
        moreover have "client_receive x buf m = Inr (?b, m', True)"
          using go d Some mem(1) by (simp add: receive_response_def m'_def)
        moreover have "answer_stored d s (s\<lparr>srv_response := mem, state := RESP\<rparr>)"
          using mem(2,3) by (auto simp: answer_stored_def)
        ultimately show ?thesis
          using resp Datagram a b Some by (auto simp: datagram_fault_def m'_def)
      qed
    next
      case head
      then have "get_message_type ?b = MTN_DM_HEAD"
        using take_4_receive[OF True, of buf] by (simp add: get_message_type_iff)
      then have "client_dispatch ?b a m = (if a \<in> set (hash_keys m) then Inl Out_of_bounds_read else Inr m)"
        using b by (simp add: client_dispatch_def receive_data_message_head_result MTN_MSG_LEN_def)
      then show ?thesis using go head b assms(1) Datagram by (auto simp: datagram_fault_def)
    next
      case other
      then have "get_message_type ?b \<noteq> MTN_RESPONSE" "get_message_type ?b \<noteq> MTN_DM_HEAD"
        using take_4_receive[OF True, of buf] by (simp_all add: get_message_type_iff)
      then have "client_dispatch ?b a m = Inr m"
        by (auto simp: client_dispatch_def split: mtn_message_type.splits)
      then show ?thesis using go other b assms(1) Datagram by (auto simp: datagram_fault_def)
    qed
  qed
qed (simp add: datagram_fault_def)

lemma answer_stored_again: "answer_stored d s s' \<Longrightarrow> answer_stored d' s' s'' \<Longrightarrow> answer_stored d' s s''"
  by (auto simp: answer_stored_def)

text \<open>The same over all the datagrams: the thread ends at the first empty one.\<close>

fun first_fault :: "sockaddr_in list \<Rightarrow> incoming list \<Rightarrow> c_error option" where
  "first_fault ks [] = None"
| "first_fault ks (x # xs) =
     (if x \<in> range (Datagram []) then None
      else case datagram_fault ks x of Some e \<Rightarrow> Some e | None \<Rightarrow> first_fault ks xs)"

fun last_response :: "sockaddr_in \<Rightarrow> incoming list \<Rightarrow> string option" where
  "last_response a [] = None"
| "last_response a (Recv_failed # xs) = None"
| "last_response a (Datagram d b # xs) =
     (if d = [] then None
      else case last_response a xs of
        Some r \<Rightarrow> Some r
      | None \<Rightarrow> if b = a \<and> take 4 d = ''RSPS'' then Some d else None)"

section \<open>The result of a request\<close>

lemma request_answered_result:
  "request_answered connect_time s =
     (if take 6 (drop 5 (srv_response s)) \<in> {''ACCEPT'', ''REJECT''}
      then if connect_time = -1 then Inl (Exit 1)
        else Inr (s\<lparr>last_connect_attempt_time := connect_time, not_connect_count := 0\<rparr>)
      else Inl Buffer_overflow)"
proof -
  have "take 6 (drop 5 (srv_response s)) \<in> {''ACCEPT'', ''REJECT''} \<longleftrightarrow>
      get_response_type (srv_response s) \<noteq> MTN_RES_UNKNOWN"
    using get_response_type_iff[of "srv_response s"] by (cases "get_response_type (srv_response s)") auto
  then show ?thesis
    by (cases "get_response_type (srv_response s)")
      (auto simp: request_answered_def get_response_type_str_def response_type_name_def text_defs size_defs)
qed

text \<open>Waiting through wake-ups that do not show an answer, and the three ways the wake-ups can go.\<close>

definition no_answer_in :: "server_data list \<Rightarrow> bool" where
  "no_answer_in ds \<longleftrightarrow> (\<forall>d \<in> set ds. state d \<noteq> RESP)"

lemma no_answer_in_simps [simp]:
  "no_answer_in []" "no_answer_in (d # ds) \<longleftrightarrow> state d \<noteq> RESP \<and> no_answer_in ds"
  by (auto simp: no_answer_in_def)

lemma await_goes_on: "no_answer_in (server # waits) \<Longrightarrow> await_response t c (map Woken waits) server = None"
  by (induction waits arbitrary: server) auto

lemma await_times_out:
  "no_answer_in (server # waits) \<Longrightarrow> await_response t c (map Woken waits @ Timed_out s # later) server =
     Some (Inr (False, request_timed_out t s))"
  by (induction waits arbitrary: server) auto

lemma await_answered:
  "no_answer_in (butlast (server # waits)) \<Longrightarrow> state (last (server # waits)) = RESP \<Longrightarrow>
   await_response t c (map Woken waits @ later) server =
     Some (result_bind (request_answered c (last (server # waits))) (\<lambda>s. Inr (True, s)))"
  by (induction waits arbitrary: server) (auto split: if_splits)

lemma wakeups_cases:
  obtains waits where "wakeups = map Woken waits" "no_answer_in (server # waits)"
  | waits s later where "wakeups = map Woken waits @ Timed_out s # later" "no_answer_in (server # waits)"
  | waits later where "wakeups = map Woken waits @ later" "no_answer_in (butlast (server # waits))"
      "state (last (server # waits)) = RESP"
proof (induction wakeups arbitrary: server thesis)
  case Nil
  show ?case
    using Nil(1)[of "[]"] Nil(3)[of "[]" "[]"] by (cases "state server = RESP") auto
next
  case (Cons w ws)
  consider (found) "state server = RESP" | (timeout) s where "state server \<noteq> RESP" "w = Timed_out s"
    | (woken) s where "state server \<noteq> RESP" "w = Woken s"
    by (cases w) auto
  then show ?case
  proof cases
    case found
    then show ?thesis using Cons.prems(3)[of "[]" "w # ws"] by simp
  next
    case timeout
    then show ?thesis using Cons.prems(2)[of "[]" s ws] by simp
  next
    case woken
    show ?thesis
    proof (rule Cons.IH[of s])
      fix waits assume "ws = map Woken waits" "no_answer_in (s # waits)"
      then show ?thesis using woken Cons.prems(1)[of "s # waits"] by simp
    next
      fix waits s' later assume "ws = map Woken waits @ Timed_out s' # later" "no_answer_in (s # waits)"
      then show ?thesis using woken Cons.prems(2)[of "s # waits" s' later] by simp
    next
      fix waits later assume "ws = map Woken waits @ later" "no_answer_in (butlast (s # waits))"
        "state (last (s # waits)) = RESP"
      then show ?thesis using woken Cons.prems(3)[of "s # waits" later] by simp
    qed
  qed
qed

section \<open>The client's guarantees\<close>

text \<open>C37: a request that was sent ends with the first wait that times out, unless the server's state was
  found to be RESP before: then it gives false, the attempt's time is the time of sending, the
  failure count is one higher and the state is WAIT when three divides it and as it was otherwise.
  It ends as soon as the state is found to be RESP: then it gives true, with the time of the answer
  and a failure count of 0, provided the response names a known type; an unknown type overflows
  the array for its name, and a failing \<open>time\<close> ends the program. It goes on waiting only if neither
  happens: wake-ups for other servers' responses, which share the condition variable, do not end it.\<close>

theorem send_request_returns_iff:
  assumes "send_time \<noteq> -1"
  shows "case send_request True send_time connect_time wakeups subscription_request server of
      None \<Rightarrow> \<exists>waits. wakeups = map Woken waits \<and> no_answer_in (server # waits)
    | Some (Inr (False, s')) \<Rightarrow> \<exists>waits s later. wakeups = map Woken waits @ Timed_out s # later \<and>
        no_answer_in (server # waits) \<and>
        s' = s\<lparr>last_connect_attempt_time := send_time, not_connect_count := not_connect_count s + 1,
          state := (if 3 dvd not_connect_count s + 1 then WAIT else state s)\<rparr>
    | Some (Inr (True, s')) \<Rightarrow> \<exists>waits later s. wakeups = map Woken waits @ later \<and>
        no_answer_in (butlast (server # waits)) \<and> s = last (server # waits) \<and> state s = RESP \<and>
        take 6 (drop 5 (srv_response s)) \<in> {''ACCEPT'', ''REJECT''} \<and> connect_time \<noteq> -1 \<and>
        s' = s\<lparr>last_connect_attempt_time := connect_time, not_connect_count := 0\<rparr>
    | Some (Inl e) \<Rightarrow> \<exists>waits later s. wakeups = map Woken waits @ later \<and>
        no_answer_in (butlast (server # waits)) \<and> s = last (server # waits) \<and> state s = RESP \<and>
        (if take 6 (drop 5 (srv_response s)) \<in> {''ACCEPT'', ''REJECT''}
         then connect_time = -1 \<and> e = Exit 1 else e = Buffer_overflow)"
proof -
  have send: "send_request True send_time connect_time ws subscription_request s =
      await_response send_time connect_time ws s" for ws s
    using assms by (simp add: send_request_def get_request_type_str_def request_type_name_def
        subscription_request_def snprintf_def get_request_type_def text_defs size_defs strneq_def cstr_def)
  show ?thesis
  proof (cases wakeups server rule: wakeups_cases)
    case (1 waits)
    with send await_goes_on[OF 1(2)] show ?thesis by (auto simp del: no_answer_in_simps)
  next
    case (2 waits s later)
    have "send_request True send_time connect_time wakeups subscription_request server =
        Some (Inr (False, request_timed_out send_time s))"
      using send await_times_out[OF 2(2)] 2(1) by simp
    moreover have "\<exists>waits s' later. wakeups = map Woken waits @ Timed_out s' # later \<and>
        no_answer_in (server # waits) \<and> request_timed_out send_time s =
          s'\<lparr>last_connect_attempt_time := send_time, not_connect_count := not_connect_count s' + 1,
            state := (if 3 dvd not_connect_count s' + 1 then WAIT else state s')\<rparr>"
      by (rule exI[of _ waits], rule exI[of _ s], rule exI[of _ later])
        (use 2 in \<open>simp add: request_timed_out_def Let_def MAX_NOT_CONNECT_COUNT_def dvd_eq_mod_eq_0\<close>)
    ultimately show ?thesis by (simp only: option.case sum.case prod.case bool.case)
  next
    case (3 waits later)
    let ?s = "last (server # waits)"
    have r: "send_request True send_time connect_time wakeups subscription_request server =
        Some (result_bind (request_answered connect_time ?s) (\<lambda>s. Inr (True, s)))"
      using send await_answered[OF 3(2,3)] 3(1) by simp
    have found: "P ?s \<Longrightarrow> \<exists>waits later s. wakeups = map Woken waits @ later \<and>
        no_answer_in (butlast (server # waits)) \<and> s = last (server # waits) \<and> state s = RESP \<and> P s" for P
      using 3 by blast
    show ?thesis
    proof (cases "take 6 (drop 5 (srv_response ?s)) \<in> {''ACCEPT'', ''REJECT''}")
      case known: True
      show ?thesis
      proof (cases "connect_time = -1")
        case True
        then have "request_answered connect_time ?s = Inl (Exit 1)"
          using known by (simp only: request_answered_result if_True simp_thms)
        then show ?thesis
          unfolding r using known True by (simp only: result_bind.simps option.case sum.case) (rule found, simp)
      next
        case False
        then have "request_answered connect_time ?s =
            Inr (?s\<lparr>last_connect_attempt_time := connect_time, not_connect_count := 0\<rparr>)"
          using known by (simp only: request_answered_result if_True if_False)
        then show ?thesis
          unfolding r using known False
          by (simp only: result_bind.simps option.case sum.case prod.case bool.case) (rule found, simp)
      qed
    next
      case False
      then have "request_answered connect_time ?s = Inl Buffer_overflow"
        by (simp only: request_answered_result if_False)
      then show ?thesis
        unfolding r using False by (simp only: result_bind.simps option.case sum.case) (rule found, simp)
    qed
  qed
qed

lemma send_request_returns_iff_witness:
  "\<forall>s. \<exists>s'. send_request True 5 6 [Woken (s\<lparr>state := SEND_REQ\<rparr>), Timed_out (s\<lparr>state := WAIT\<rparr>)] subscription_request
     (s\<lparr>state := SEND_REQ\<rparr>) = Some (Inr (False, s')) \<and> last_connect_attempt_time s' = 5"
proof
  fix s :: server_data
  have "(5::int) \<noteq> -1" by simp
  from send_request_returns_iff[OF this, where connect_time = 6 and server = "s\<lparr>state := SEND_REQ\<rparr>"
      and wakeups = "[Woken (s\<lparr>state := SEND_REQ\<rparr>), Timed_out (s\<lparr>state := WAIT\<rparr>)]"]
  show "\<exists>s'. send_request True 5 6 [Woken (s\<lparr>state := SEND_REQ\<rparr>), Timed_out (s\<lparr>state := WAIT\<rparr>)] subscription_request
     (s\<lparr>state := SEND_REQ\<rparr>) = Some (Inr (False, s')) \<and> last_connect_attempt_time s' = 5"
    by (auto simp: Cons_eq_append_conv Cons_eq_map_conv append_eq_Cons_conv split: option.splits sum.splits prod.splits bool.splits)
qed

text \<open>An attempt that times out, started like \<open>subscription_thread\<close> starts one.\<close>

definition failed_attempt :: "int \<Rightarrow> server_data \<Rightarrow> server_data" where
  "failed_attempt send_time s = snd (projr (the (send_request True send_time 0
     [Timed_out (s\<lparr>state := SEND_REQ\<rparr>)] subscription_request (s\<lparr>state := SEND_REQ\<rparr>))))"

text \<open>A server that never answers is tried three times in a row and then put to wait, round after
  round: after \<open>n\<close> timed-out attempts, each started in state SEND_REQ, the failure count is \<open>n\<close> and
  the state is WAIT exactly when three divides \<open>n\<close>.\<close>

lemma timeouts_wait_every_third:
  assumes "send_time \<noteq> -1" and "not_connect_count server = 0" and "0 < n"
  shows "not_connect_count ((failed_attempt send_time ^^ n) server) = int n \<and>
    last_connect_attempt_time ((failed_attempt send_time ^^ n) server) = send_time \<and>
    state ((failed_attempt send_time ^^ n) server) = (if n mod 3 = 0 then WAIT else SEND_REQ)"
proof -
  have a: "failed_attempt send_time s = request_timed_out send_time (s\<lparr>state := SEND_REQ\<rparr>)" for s
    using assms(1) by (simp add: failed_attempt_def send_request_def get_request_type_str_def
        request_type_name_def subscription_request_def snprintf_def get_request_type_def text_defs
        size_defs strneq_def cstr_def)
  have c: "not_connect_count ((failed_attempt send_time ^^ k) server) = int k" for k
    by (induction k) (simp_all add: assms(2) a request_timed_out_def Let_def)
  obtain k where "n = Suc k" using assms(3) by (cases n) auto
  moreover have "(int k + 1) mod 3 = 0 \<longleftrightarrow> Suc k mod 3 = 0" by presburger
  ultimately show ?thesis
    using c[of k] by (simp add: a request_timed_out_def Let_def MAX_NOT_CONNECT_COUNT_def)
qed

lemma timeouts_wait_every_third_witness:
  "\<forall>s. state ((failed_attempt 7 ^^ 3) (s\<lparr>not_connect_count := 0\<rparr>)) = WAIT"
proof
  fix s :: server_data
  from timeouts_wait_every_third[of 7 "s\<lparr>not_connect_count := 0\<rparr>" 3]
  show "state ((failed_attempt 7 ^^ 3) (s\<lparr>not_connect_count := 0\<rparr>)) = WAIT" by simp
qed

text \<open>A response that arrived late, after its own request had timed out, is taken for the answer to
  the next request: with the state still RESP the request succeeds at once, whatever the server
  does, and the failure count is reset.\<close>

lemma late_response_answers_next_request:
  assumes "send_time \<noteq> -1" and "connect_time \<noteq> -1" and "state server = RESP"
    and "get_response_type (srv_response server) \<noteq> MTN_RES_UNKNOWN"
  shows "send_request True send_time connect_time wakeups subscription_request server =
    Some (Inr (True, server\<lparr>last_connect_attempt_time := connect_time, not_connect_count := 0\<rparr>))"
proof -
  have "get_response_type_str (MTN_RES_TYPE_LEN + 1) (get_response_type (srv_response server)) =
      Inr (response_type_name (get_response_type (srv_response server)))"
    using assms(4) by (cases "get_response_type (srv_response server)")
      (simp_all add: get_response_type_str_def response_type_name_def text_defs size_defs)
  then show ?thesis
    using assms(1-3) by (simp add: send_request_def get_request_type_str_def request_answered_def
        request_type_name_def subscription_request_def snprintf_def get_request_type_def text_defs
        size_defs strneq_def cstr_def)
qed

lemma late_response_answers_next_request_witness:
  "\<forall>a. send_request True 100 100 [] subscription_request
     \<lparr>address = a, state = RESP, not_connect_count = 2, last_connect_attempt_time = 3,
       srv_response = ''RSPS ACCEPT'', srv_name = [], srv_descr = []\<rparr> =
   Some (Inr (True, \<lparr>address = a, state = RESP, not_connect_count = 0, last_connect_attempt_time = 100,
       srv_response = ''RSPS ACCEPT'', srv_name = [], srv_descr = []\<rparr>))"
proof
  fix a
  let ?s = "\<lparr>address = a, state = RESP, not_connect_count = 2, last_connect_attempt_time = 3,
       srv_response = ''RSPS ACCEPT'', srv_name = [], srv_descr = []\<rparr>"
  have "get_response_type (srv_response ?s) = MTN_RES_ACCEPT"
    by (simp add: get_response_type_iff)
  then show "send_request True 100 100 [] subscription_request ?s =
      Some (Inr (True, \<lparr>address = a, state = RESP, not_connect_count = 0,
        last_connect_attempt_time = 100, srv_response = ''RSPS ACCEPT'', srv_name = [], srv_descr = []\<rparr>))"
    using late_response_answers_next_request[where send_time = 100 and server = ?s and connect_time = 100 and wakeups = "[]"] by simp
qed

text \<open>C36: whatever datagrams arrive, before an empty one ends it, the receiving thread faults exactly at the
  first of these: a failed \<open>recvfrom\<close>, a response from an address that is not listed, and the head
  of a data message from a listed server. Without one, whatever the contents and lengths of the
  datagrams, the servers and the sizes of their arrays stay the same; a server that has sent no
  response keeps its data, and the others are in state RESP and hold the text of their last
  response, up to 1024 bytes, with all other fields unchanged.\<close>

theorem receive_thread_is_safe:
  assumes "responses_sized m" and "length buf = MTN_MSG_LEN + 1"
  shows "case receive_thread ds buf m of
      Inl e \<Rightarrow> first_fault (hash_keys m) ds = Some e
    | Inr (buf', m') \<Rightarrow> first_fault (hash_keys m) ds = None \<and> length buf' = MTN_MSG_LEN + 1 \<and>
        hash_keys m' = hash_keys m \<and> responses_sized m' \<and>
        (\<forall>a. case last_response a ds of
           None \<Rightarrow> hash_find m' a = hash_find m a
         | Some d \<Rightarrow> \<exists>s s'. hash_find m a = Some s \<and> hash_find m' a = Some s' \<and> answer_stored d s s')"
  using assms
proof (induction ds arbitrary: buf m)
  case (Cons x ds)
  show ?case
  proof (cases "x \<in> range (Datagram [])")
    case True
    with Cons.prems show ?thesis by auto
  next
    case False
    then have "\<nexists>a. x = Datagram [] a" by auto
    note step = client_receive_result[OF Cons.prems this]
    show ?thesis
    proof (cases "datagram_fault (hash_keys m) x")
      case (Some e)
      with step False show ?thesis by simp
    next
      case None
      with step obtain buf' m' where one: "client_receive x buf m = Inr (buf', m', True)" "length buf' = MTN_MSG_LEN + 1"
        "hash_keys m' = hash_keys m" "responses_sized m'"
        and found: "\<forall>a. if \<exists>d. x = Datagram d a \<and> take 4 d = ''RSPS''
             then \<exists>d s s'. x = Datagram d a \<and> hash_find m a = Some s \<and> hash_find m' a = Some s' \<and> answer_stored d s s'
             else hash_find m' a = hash_find m a" by auto
      obtain d0 a0 where x: "x = Datagram d0 a0" "d0 \<noteq> []"
        using False None by (cases x) (auto simp: datagram_fault_def)
      have same: "receive_thread (x # ds) buf m = receive_thread ds buf' m'"
        "first_fault (hash_keys m) (x # ds) = first_fault (hash_keys m') ds"
        using one(1,3) None False by simp_all
      show ?thesis
      proof (cases "receive_thread ds buf' m'")
        case (Inl e)
        with Cons.IH[OF one(4,2)] show ?thesis unfolding same by simp
      next
        case (Inr r)
        obtain buf2 m2 where r: "r = (buf2, m2)" by (cases r)
        have found': "case last_response a ds of None \<Rightarrow> hash_find m2 a = hash_find m' a
           | Some d \<Rightarrow> \<exists>s s'. hash_find m' a = Some s \<and> hash_find m2 a = Some s' \<and> answer_stored d s s'" for a
          using Cons.IH[OF one(4,2)] Inr r by simp
        have "case last_response a (x # ds) of None \<Rightarrow> hash_find m2 a = hash_find m a
           | Some d \<Rightarrow> \<exists>s s'. hash_find m a = Some s \<and> hash_find m2 a = Some s' \<and> answer_stored d s s'" for a
        proof (cases "a0 = a \<and> take 4 d0 = ''RSPS''")
          case True
          then obtain s s1 where s: "hash_find m a = Some s" "hash_find m' a = Some s1" "answer_stored d0 s s1"
            using spec[OF found, of a] x by auto
          with found'[of a] x True show ?thesis
            by (cases "last_response a ds") (auto dest: answer_stored_again[OF s(3)])
        next
          case False
          then have "hash_find m' a = hash_find m a" using spec[OF found, of a] x by auto
          with found'[of a] x False show ?thesis by (cases "last_response a ds") auto
        qed
        then show ?thesis using Cons.IH[OF one(4,2)] Inr r one(3) unfolding same by simp
      qed
    qed
  qed
qed simp

lemma receive_thread_is_safe_witness:
  "\<exists>buf m s. receive_thread [Datagram ''RSPS REJECT'' \<lparr>sin_addr = [1, 2, 3, 4], sin_port = 5\<rparr>, Datagram ''?'' \<lparr>sin_addr = [1, 2, 3, 4], sin_port = 5\<rparr>]
     (replicate 1025 NUL) [(\<lparr>sin_addr = [1, 2, 3, 4], sin_port = 5\<rparr>,
       \<lparr>address = \<lparr>sin_addr = [1, 2, 3, 4], sin_port = 5\<rparr>, state = SEND_REQ, not_connect_count = 0,
         last_connect_attempt_time = 0, srv_response = replicate 1025 NUL, srv_name = [], srv_descr = []\<rparr>)] =
     Inr (buf, m) \<and> hash_find m \<lparr>sin_addr = [1, 2, 3, 4], sin_port = 5\<rparr> = Some s \<and>
     state s = RESP \<and> cstr (srv_response s) = ''RSPS REJECT''"
proof -
  let ?a = "\<lparr>sin_addr = [1, 2, 3, 4], sin_port = 5 :: 16 word\<rparr>"
  let ?m = "[(?a, \<lparr>address = ?a, state = SEND_REQ, not_connect_count = 0,
         last_connect_attempt_time = 0, srv_response = replicate 1025 NUL, srv_name = [], srv_descr = []\<rparr>)]"
  let ?ds = "[Datagram ''RSPS REJECT'' ?a, Datagram ''?'' ?a]"
  define m0 ds where defs: "m0 = ?m" "ds = [Datagram ''RSPS REJECT'' ?a, Datagram ''?'' ?a]"
  have "responses_sized m0" "length (replicate 1025 NUL) = MTN_MSG_LEN + 1"
    by (simp_all add: defs responses_sized_def MTN_MSG_LEN_def)
  note safe = receive_thread_is_safe[OF this, of ds]
  have "first_fault (hash_keys m0) ds = None" by (auto simp: defs datagram_fault_def)
  with safe obtain buf m where r: "receive_thread ds (replicate 1025 NUL) m0 = Inr (buf, m)"
    by (cases "receive_thread ds (replicate 1025 NUL) m0") auto
  have "last_response ?a ds = Some ''RSPS REJECT''" by (simp add: defs)
  then obtain s s' where "hash_find m ?a = Some s'" "answer_stored ''RSPS REJECT'' s s'"
    using safe r by (auto dest!: spec[of _ ?a])
  then show ?thesis
    using r unfolding defs by (intro exI[of _ buf] exI[of _ m] exI[of _ s'])
      (auto simp: answer_stored_def MTN_MSG_LEN_def simp del: receive_thread.simps)
qed

text \<open>A response from an address that is not in the server list makes the receiving thread
  dereference NULL: one datagram from anywhere that starts with RSPS ends the client.\<close>

lemma unknown_responder_crashes_client:
  assumes "take 4 d = ''RSPS''" and "a \<notin> set (hash_keys m)"
  shows "receive_thread (Datagram d a # ds) buf m = Inl Null_pointer"
proof -
  have "length (take 4 d) = 4" using assms(1) by simp
  then have l: "4 \<le> length d" by simp
  have "take 4 (receive_into MTN_MSG_LEN buf d) = ''RSPS''"
    using assms(1) l by (simp add: receive_into_split MTN_MSG_LEN_def)
  then have "get_message_type (receive_into MTN_MSG_LEN buf d) = MTN_RESPONSE"
    by (simp add: get_message_type_iff)
  moreover have "d \<noteq> []" using l by auto
  moreover have "hash_find m a = None" using assms(2) by (simp add: hash_find_None_iff)
  ultimately show ?thesis
    using l by (simp add: client_dispatch_def receive_response_def size_defs Let_def)
qed

lemma unknown_responder_crashes_client_witness:
  "receive_thread [Datagram ''RSPS'' \<lparr>sin_addr = [6, 6, 6, 6], sin_port = 1\<rparr>] (replicate 1025 NUL) [] =
     Inl Null_pointer"
  using unknown_responder_crashes_client[of "''RSPS''" "\<lparr>sin_addr = [6, 6, 6, 6], sin_port = 1\<rparr>" "[]"]
  by simp

end
