(* ===== verification/Updater.thy ===== *)
theory Updater
  imports ArrayHeap ClientRequest
begin

text \<open>
  The client's updater, \<open>mtn-client-updater.c\<close>: two queues of servers, a thread that serves each of
  them, and the sender threads they start, limited by a semaphore; together with the receiving
  thread they share the servers' data. The threads are a step relation, one step per section that
  runs under a lock or touches shared data, so every interleaving is a sequence of steps. A queue
  element is a pointer to a \<open>server_data\<close>, represented by the server's key.
\<close>

section \<open>The order of the queues\<close>

text \<open>The comparison as it is meant, on the data of two servers.\<close>

definition connect_sooner :: "server_data \<Rightarrow> server_data \<Rightarrow> bool" where
  "connect_sooner first second =
     (if not_connect_count first < not_connect_count second then True
      else if not_connect_count first = not_connect_count second then
        (if last_connect_attempt_time first \<le> last_connect_attempt_time second then True else False)
      else False)"

interpretation connect_order: heap_comparison connect_sooner connect_sooner
  by unfold_locales (auto simp: connect_sooner_def split: if_splits)

text \<open>
  The comparison as it is called. The heap hands it the addresses of two slots, and it reads them
  as if a \<open>server_data\<close> began there; but a slot holds a pointer to one. On a little-endian machine
  with 8-byte pointers and \<open>time_t\<close>, \<open>not_connect_count\<close> (offset 20) is the upper half of the
  word two slots further on and \<open>last_connect_attempt_time\<close> (offset 24) the word three slots further
  on. \<open>beyond\<close> is the memory after the elements: slots reserved but not in use, and behind the last
  reserved slot whatever lies there.
\<close>

definition slot_word :: "(nat \<Rightarrow> 64 word) \<Rightarrow> 64 word list \<Rightarrow> nat \<Rightarrow> 64 word" where
  "slot_word beyond arr i = (if i < length arr then arr ! i else beyond (i - length arr))"

definition slot_count :: "(nat \<Rightarrow> 64 word) \<Rightarrow> 64 word list \<Rightarrow> nat \<Rightarrow> int" where
  "slot_count beyond arr i = sint (ucast (drop_bit 32 (slot_word beyond arr (i + 2))) :: 32 word)"

definition slot_time :: "(nat \<Rightarrow> 64 word) \<Rightarrow> 64 word list \<Rightarrow> nat \<Rightarrow> int" where
  "slot_time beyond arr i = sint (slot_word beyond arr (i + 3))"

definition connect_sooner_slots :: "(nat \<Rightarrow> 64 word) \<Rightarrow> 64 word slot_cmp" where
  "connect_sooner_slots beyond arr i j =
     (if slot_count beyond arr i < slot_count beyond arr j then True
      else if slot_count beyond arr i = slot_count beyond arr j then
        (if slot_time beyond arr i \<le> slot_time beyond arr j then True else False)
      else False)"

text \<open>
  The last reads are outside of the array when the compared slot is one of its last three (the time,
  which is read when the counts are equal) or last two (the count). An array of slots starts with 8
  and doubles when it is full, and never shrinks. The following say of each operation of the heap
  whether one of the comparisons it makes can read outside of an array of \<open>n\<close> slots. Such a read may
  end the process; where it does not, the comparison has some result, and the operation goes on.
\<close>

definition push_slots :: "nat \<Rightarrow> nat \<Rightarrow> nat" where
  "push_slots len n = (if n < len + 1 then if n \<noteq> 0 then 2 * n else 8 else n)"

definition misreads :: "nat \<Rightarrow> nat \<Rightarrow> bool" where
  "misreads n slot = (n \<le> slot + 3)"

function heapify_misreads :: "nat \<Rightarrow> 'a array_heap \<Rightarrow> nat \<Rightarrow> bool" where
  "heapify_misreads n heap i =
     (let len = length (array heap); k = sift_target heap i in
      if i < len then
        if 2 * i + 1 < len \<and> misreads n (2 * i + 1) \<or> 2 * i + 2 < len \<and> misreads n (2 * i + 2) then True
        else if k \<noteq> i then heapify_misreads n (heap\<lparr>array := swap_elems (array heap) k i\<rparr>) k
        else False
      else False)"
  by pat_completeness auto
termination
proof (relation "measure (\<lambda>(n, heap, i). length (array heap) - i)", goal_cases)
  case (2 n heap i len k)
  then show ?case using sift_target_cases[of heap i] by auto
qed simp

declare heapify_misreads.simps [simp del]

fun build_misreads :: "nat \<Rightarrow> 'a array_heap \<Rightarrow> nat \<Rightarrow> bool" where
  "build_misreads n heap 0 = False"
| "build_misreads n heap (Suc i) = (heapify_misreads n heap i \<or> build_misreads n (heapify heap (int i)) i)"

definition heap_build_misreads :: "nat \<Rightarrow> 'a array_heap \<Rightarrow> bool" where
  "heap_build_misreads n heap =
     (\<not> heap_is_empty heap \<and> build_misreads n heap (Suc ((length (array heap) - 2) div 2)))"

definition heap_push_misreads :: "nat \<Rightarrow> 'a array_heap \<Rightarrow> bool" where
  "heap_push_misreads n heap = (0 < length (array heap) \<and> misreads n (length (array heap)))"

definition heap_pop_misreads :: "nat \<Rightarrow> 'a array_heap \<Rightarrow> bool" where
  "heap_pop_misreads n heap =
     (1 < length (array heap) \<and>
      heapify_misreads n (heap\<lparr>array := last (array heap) # butlast (tl (array heap))\<rparr>) 0)"

lemma small_heapify: "length (array heap) + 3 \<le> n \<Longrightarrow> \<not> heapify_misreads n heap i"
proof (induction n heap i rule: heapify_misreads.induct)
  case (1 n heap i)
  from 1(1)[OF refl refl] 1(2) show ?case
    using sift_target_cases[of heap i]
    by (subst heapify_misreads.simps) (auto simp: Let_def misreads_def)
qed

lemma small_build: "length (array heap) + 3 \<le> n \<Longrightarrow> \<not> build_misreads n heap i"
  by (induction n heap i rule: build_misreads.induct) (auto simp: small_heapify)

lemma small_heap:
  assumes "length (array heap) + 3 \<le> n"
  shows "\<not> heap_build_misreads n heap" and "\<not> heap_pop_misreads n heap"
    and "length (array heap) + 4 \<le> n \<Longrightarrow> \<not> heap_push_misreads n heap"
  using assms small_build[OF assms] small_heapify[of "heap\<lparr>array := last (array heap) # butlast (tl (array heap))\<rparr>" n]
  by (auto simp: heap_build_misreads_def heap_pop_misreads_def heap_push_misreads_def misreads_def
      simp del: build_misreads.simps)

section \<open>The state\<close>

text \<open>
  Where a queue's thread is: before the test for an empty queue; at the head of the inner loop, with
  the flag \<open>wait\<close>; in its timed wait; holding the popped server.
\<close>

datatype queue_pc = Start | Scan bool | Blocked int | Popped sockaddr_in

text \<open>
  Where a sender is: about to send; at the test of \<open>server->state\<close> in \<open>send_request\<close>; in its timed
  wait; between \<open>send_request\<close> and the handling of the response; past it; having read the state to
  choose a queue; having queued the server.
\<close>

datatype sender_pc = Request | Check int | Await int | Answered | Finish | Push bool | Post

record client =
  servers :: server_map
  subscribed_queue :: "sockaddr_in array_heap"
  not_subscribed_queue :: "sockaddr_in array_heap"
  subscribed_slots :: nat
  not_subscribed_slots :: nat
  semaphore :: nat
  subscr_pc :: queue_pc
  update_pc :: queue_pc
  senders :: "(sockaddr_in \<times> sender_pc) list"
  recv_array :: "string option"
  clock :: int

definition MAX_ACTIVE_REQUESTS :: nat where "MAX_ACTIVE_REQUESTS = 3"
definition NEXT_CONNECT_ATTEMPT_TIME :: int where "NEXT_CONNECT_ATTEMPT_TIME = 30"

text \<open>\<open>update_control\<close> and whether its \<open>heap_build\<close> can read outside of the slots.\<close>

definition loaded_slots :: "server_map \<Rightarrow> nat" where
  "loaded_slots m = fold push_slots [0..<hash_count m] 0"

definition update_control_misreads :: "sockaddr_in slot_cmp \<Rightarrow> server_map \<Rightarrow> bool" where
  "update_control_misreads cmp m =
     heap_build_misreads (loaded_slots m) \<lparr>array = hash_keys m, is_greater = cmp\<rparr>"

definition update_control ::
    "sockaddr_in slot_cmp \<Rightarrow> server_map \<Rightarrow> string \<Rightarrow> int \<Rightarrow> client" where
  "update_control cmp m recv now =
     \<lparr>servers = m,
      subscribed_queue = \<lparr>array = [], is_greater = cmp\<rparr>,
      not_subscribed_queue = heap_build \<lparr>array = hash_keys m, is_greater = cmp\<rparr>,
      subscribed_slots = 0, not_subscribed_slots = loaded_slots m,
      semaphore = MAX_ACTIVE_REQUESTS, subscr_pc = Start, update_pc = Start, senders = [],
      recv_array = Some recv, clock = now\<rparr>"

definition set_server :: "sockaddr_in \<Rightarrow> server_data \<Rightarrow> client \<Rightarrow> client" where
  "set_server k s c = c\<lparr>servers := hash_change (servers c) k (\<lambda>_. s)\<rparr>"

section \<open>The steps\<close>

definition connect_due :: "int \<Rightarrow> server_data \<Rightarrow> bool" where
  "connect_due now server =
     (\<not> (state server \<noteq> SEND_REQ \<and>
          (state server \<noteq> WAIT \<or> last_connect_attempt_time server + NEXT_CONNECT_ATTEMPT_TIME > now)))"

inductive subscription_thread :: "client \<Rightarrow> client c_result \<Rightarrow> bool" where
  sub_nonempty: "subscr_pc c = Start \<Longrightarrow> \<not> heap_is_empty (not_subscribed_queue c) \<Longrightarrow>
    subscription_thread c (Inr (c\<lparr>subscr_pc := Scan True\<rparr>))"
| sub_null: "subscr_pc c = Scan wait \<Longrightarrow> heap_first (not_subscribed_queue c) = None \<Longrightarrow>
    subscription_thread c (Inl Null_pointer)"
| sub_pop: "subscr_pc c = Scan wait \<Longrightarrow> heap_first (not_subscribed_queue c) = Some k \<Longrightarrow>
    hash_find (servers c) k = Some s \<Longrightarrow> \<not> wait \<or> connect_due (clock c) s \<Longrightarrow>
    subscription_thread c (Inr (set_server k (s\<lparr>state := SEND_REQ\<rparr>)
      (c\<lparr>not_subscribed_queue := heap_pop (not_subscribed_queue c), subscr_pc := Popped k\<rparr>)))"
| sub_misread: "subscr_pc c = Scan wait \<Longrightarrow> heap_first (not_subscribed_queue c) = Some k \<Longrightarrow>
    hash_find (servers c) k = Some s \<Longrightarrow> \<not> wait \<or> connect_due (clock c) s \<Longrightarrow>
    heap_pop_misreads (not_subscribed_slots c) (not_subscribed_queue c) \<Longrightarrow>
    subscription_thread c (Inl Out_of_bounds_read)"
| sub_block: "subscr_pc c = Scan True \<Longrightarrow> heap_first (not_subscribed_queue c) = Some k \<Longrightarrow>
    hash_find (servers c) k = Some s \<Longrightarrow> \<not> connect_due (clock c) s \<Longrightarrow>
    subscription_thread c (Inr (c\<lparr>subscr_pc :=
      Blocked (last_connect_attempt_time s + NEXT_CONNECT_ATTEMPT_TIME)\<rparr>))"
| sub_woken: "subscr_pc c = Blocked deadline \<Longrightarrow>
    subscription_thread c (Inr (c\<lparr>subscr_pc := Scan True\<rparr>))"
| sub_timed_out: "subscr_pc c = Blocked deadline \<Longrightarrow> deadline \<le> clock c \<Longrightarrow>
    subscription_thread c (Inr (c\<lparr>subscr_pc := Scan False\<rparr>))"
| sub_send: "subscr_pc c = Popped k \<Longrightarrow> semaphore c = Suc n \<Longrightarrow>
    subscription_thread c (Inr (c\<lparr>semaphore := n, senders := senders c @ [(k, Request)],
      subscr_pc := Start\<rparr>))"

inductive update_thread :: "client \<Rightarrow> client c_result \<Rightarrow> bool" where
  upd_nonempty: "update_pc c = Start \<Longrightarrow> \<not> heap_is_empty (subscribed_queue c) \<Longrightarrow>
    update_thread c (Inr (c\<lparr>update_pc := Scan True\<rparr>))"
| upd_null: "update_pc c = Scan wait \<Longrightarrow> heap_first (subscribed_queue c) = None \<Longrightarrow>
    update_thread c (Inl Null_pointer)"
| upd_pop: "update_pc c = Scan wait \<Longrightarrow> heap_first (subscribed_queue c) = Some k \<Longrightarrow>
    hash_find (servers c) k = Some s \<Longrightarrow>
    \<not> wait \<or> \<not> last_connect_attempt_time s + SUBSCR_EXPIRE_TIME > clock c \<Longrightarrow>
    update_thread c (Inr (c\<lparr>subscribed_queue := heap_pop (subscribed_queue c), update_pc := Popped k\<rparr>))"
| upd_misread: "update_pc c = Scan wait \<Longrightarrow> heap_first (subscribed_queue c) = Some k \<Longrightarrow>
    hash_find (servers c) k = Some s \<Longrightarrow>
    \<not> wait \<or> \<not> last_connect_attempt_time s + SUBSCR_EXPIRE_TIME > clock c \<Longrightarrow>
    heap_pop_misreads (subscribed_slots c) (subscribed_queue c) \<Longrightarrow>
    update_thread c (Inl Out_of_bounds_read)"
| upd_block: "update_pc c = Scan True \<Longrightarrow> heap_first (subscribed_queue c) = Some k \<Longrightarrow>
    hash_find (servers c) k = Some s \<Longrightarrow> last_connect_attempt_time s + SUBSCR_EXPIRE_TIME > clock c \<Longrightarrow>
    update_thread c (Inr (c\<lparr>update_pc := Blocked (last_connect_attempt_time s + SUBSCR_EXPIRE_TIME)\<rparr>))"
| upd_woken: "update_pc c = Blocked deadline \<Longrightarrow>
    update_thread c (Inr (c\<lparr>update_pc := Scan True\<rparr>))"
| upd_timed_out: "update_pc c = Blocked deadline \<Longrightarrow> deadline \<le> clock c \<Longrightarrow>
    update_thread c (Inr (c\<lparr>update_pc := Scan False\<rparr>))"
| upd_send: "update_pc c = Popped k \<Longrightarrow> semaphore c = Suc n \<Longrightarrow>
    update_thread c (Inr (c\<lparr>semaphore := n, senders := senders c @ [(k, Request)],
      update_pc := Start\<rparr>))"

text \<open>
  A sender's own moves: it reads and writes its server's data, and goes on at another place.
  The failure of \<open>sendto\<close> and the content of the uninitialised array \<open>line\<close> are free.
\<close>

inductive sender_move :: "int \<Rightarrow> server_data \<Rightarrow> sender_pc \<Rightarrow> (server_data \<times> sender_pc) c_result \<Rightarrow> bool" where
  not_sent: "sender_move now s Request (Inr (s, Finish))"
| sent: "sender_move now s Request (Inr (s, Check now))"
| answered: "state s = RESP \<Longrightarrow> request_answered now s = Inr s' \<Longrightarrow>
    sender_move now s (Check t) (Inr (s', Answered))"
| bad_answer: "state s = RESP \<Longrightarrow> request_answered now s = Inl e \<Longrightarrow> sender_move now s (Check t) (Inl e)"
| no_answer: "state s \<noteq> RESP \<Longrightarrow> sender_move now s (Check t) (Inr (s, Await t))"
| woken: "sender_move now s (Await t) (Inr (s, Check t))"
| timed_out: "t + SERVER_RESPONSE_TIMEOUT \<le> now \<Longrightarrow>
    sender_move now s (Await t) (Inr (request_timed_out t s, Finish))"
| handled: "length line = 4096 \<Longrightarrow> handle_response line s = Inr s' \<Longrightarrow>
    sender_move now s Answered (Inr (s', Finish))"
| mishandled: "length line = 4096 \<Longrightarrow> handle_response line s = Inl e \<Longrightarrow>
    sender_move now s Answered (Inl e)"
| chosen: "sender_move now s Finish (Inr (s, Push (state s = SUBSCR)))"

inductive sender_thread :: "client \<Rightarrow> client c_result \<Rightarrow> bool" where
  move: "senders c = xs @ (k, pc) # ys \<Longrightarrow> hash_find (servers c) k = Some s \<Longrightarrow>
    sender_move (clock c) s pc (Inr (s', pc')) \<Longrightarrow>
    sender_thread c (Inr (set_server k s' (c\<lparr>senders := xs @ (k, pc') # ys\<rparr>)))"
| crash: "senders c = xs @ (k, pc) # ys \<Longrightarrow> hash_find (servers c) k = Some s \<Longrightarrow>
    sender_move (clock c) s pc (Inl e) \<Longrightarrow> sender_thread c (Inl e)"
| push_subscribed: "senders c = xs @ (k, Push True) # ys \<Longrightarrow>
    sender_thread c (Inr (c\<lparr>subscribed_queue := heap_push (subscribed_queue c) k,
      subscribed_slots := push_slots (length (array (subscribed_queue c))) (subscribed_slots c),
      senders := xs @ (k, Post) # ys\<rparr>))"
| push_not_subscribed: "senders c = xs @ (k, Push False) # ys \<Longrightarrow>
    sender_thread c (Inr (c\<lparr>not_subscribed_queue := heap_push (not_subscribed_queue c) k,
      not_subscribed_slots := push_slots (length (array (not_subscribed_queue c))) (not_subscribed_slots c),
      senders := xs @ (k, Post) # ys\<rparr>))"
| push_misread: "senders c = xs @ (k, Push b) # ys \<Longrightarrow>
    queue = (if b then subscribed_queue c else not_subscribed_queue c) \<Longrightarrow>
    slots = (if b then subscribed_slots c else not_subscribed_slots c) \<Longrightarrow>
    heap_push_misreads (push_slots (length (array queue)) slots) queue \<Longrightarrow>
    sender_thread c (Inl Out_of_bounds_read)"
| post: "senders c = xs @ (k, Post) # ys \<Longrightarrow>
    sender_thread c (Inr (c\<lparr>semaphore := Suc (semaphore c), senders := xs @ ys\<rparr>))"

text \<open>
  All the threads. A datagram whose handler reads outside of an object may end the process; otherwise
  the servers are as before. The clock may show any time, also an earlier one; \<open>time\<close> does not fail.
\<close>

inductive client_step :: "client \<Rightarrow> client c_result \<Rightarrow> bool" where
  subscribe: "subscription_thread c r \<Longrightarrow> client_step c r"
| update: "update_thread c r \<Longrightarrow> client_step c r"
| send: "sender_thread c r \<Longrightarrow> client_step c r"
| receive: "recv_array c = Some buf \<Longrightarrow> client_receive d buf (servers c) = Inr (buf', m, go) \<Longrightarrow>
    client_step c (Inr (c\<lparr>servers := m, recv_array := (if go then Some buf' else None)\<rparr>))"
| receive_crash: "recv_array c = Some buf \<Longrightarrow> client_receive d buf (servers c) = Inl e \<Longrightarrow>
    client_step c (Inl e)"
| receive_on: "recv_array c = Some buf \<Longrightarrow>
    client_receive (Datagram d a) buf (servers c) = Inl Out_of_bounds_read \<Longrightarrow>
    client_step c (Inr (c\<lparr>recv_array := Some (receive_into MTN_MSG_LEN buf d)\<rparr>))"
| tick: "t \<noteq> -1 \<Longrightarrow> client_step c (Inr (c\<lparr>clock := t\<rparr>))"

inductive client_run :: "client \<Rightarrow> client \<Rightarrow> bool" for c0 where
  run_start: "client_run c0 c0"
| run_step: "client_run c0 c \<Longrightarrow> client_step c (Inr c') \<Longrightarrow> client_run c0 c'"

inductive_cases subscription_threadE: "subscription_thread c r"
inductive_cases update_threadE: "update_thread c r"
inductive_cases sender_threadE: "sender_thread c r"
inductive_cases client_stepE: "client_step c r"

section \<open>Where the servers are\<close>

fun pc_holds :: "queue_pc \<Rightarrow> sockaddr_in multiset" where
  "pc_holds (Popped k) = {#k#}"
| "pc_holds _ = {#}"

definition senders_hold :: "(sockaddr_in \<times> sender_pc) list \<Rightarrow> sockaddr_in multiset" where
  "senders_hold ss = mset (map fst (filter (\<lambda>(k, pc). pc \<noteq> Post) ss))"

lemma senders_hold_simps [simp]:
  "senders_hold [] = {#}"
  "senders_hold ((k, pc) # ss) = (if pc = Post then {#} else {#k#}) + senders_hold ss"
  "senders_hold (xs @ ys) = senders_hold xs + senders_hold ys"
  by (auto simp: senders_hold_def)

definition places :: "client \<Rightarrow> sockaddr_in multiset" where
  "places c = mset (array (subscribed_queue c)) + mset (array (not_subscribed_queue c)) +
     pc_holds (subscr_pc c) + pc_holds (update_pc c) + senders_hold (senders c)"

fun pc_served :: "queue_pc \<Rightarrow> 'a array_heap \<Rightarrow> bool" where
  "pc_served (Scan _) h = (array h \<noteq> [])"
| "pc_served (Blocked _) h = (array h \<noteq> [])"
| "pc_served _ h = True"

definition client_ok :: "sockaddr_in list \<Rightarrow> client \<Rightarrow> bool" where
  "client_ok ks c \<longleftrightarrow> hash_keys (servers c) = ks \<and> places c = mset ks \<and>
     semaphore c + length (senders c) = MAX_ACTIVE_REQUESTS \<and>
     pc_served (subscr_pc c) (not_subscribed_queue c) \<and>
     pc_served (update_pc c) (subscribed_queue c)"

lemma heap_pop_mset [simp]: "mset (array (heap_pop h)) = mset (tl (array h))"
  using heap_pop_keeps[of h] by (cases "array h") (auto simp: heap_pop_unfold)

lemma heap_push_mset [simp]: "mset (array (heap_push h k)) = add_mset k (mset (array h))"
  using heap_push_keeps[of h k] by blast

lemma heap_push_member: "k \<in> set (array (heap_push h k))"
  using heap_push_mset[of h k] by (metis set_mset_mset union_single_eq_member)

lemma distinct_sub_mset:
  assumes "mset xs \<subseteq># mset ys" and "distinct ys"
  shows "distinct xs"
proof (rule ccontr)
  assume "\<not> distinct xs"
  then obtain us vs ws a where "xs = us @ [a] @ vs @ [a] @ ws"
    using not_distinct_decomp by blast
  then have "2 \<le> count (mset xs) a" by simp
  also have "\<dots> \<le> count (mset ys) a" using assms(1) by (rule mset_subset_eq_count)
  also have "\<dots> \<le> 1" using assms(2) by (auto simp: distinct_count_atmost_1)
  finally show False by simp
qed

lemma heap_push_nonempty: "array (heap_push h k) \<noteq> []"
  using heap_push_keeps[of h k] by auto

lemma pc_served_push [simp]: "pc_served pc h \<Longrightarrow> pc_served pc (heap_push h k)"
  by (cases pc) (auto simp: heap_push_nonempty)

text \<open>The arrays of slots have room for their elements.\<close>

definition room :: "nat \<Rightarrow> 'a array_heap \<Rightarrow> bool" where
  "room n h \<longleftrightarrow> length (array h) \<le> n \<and> (n = 0 \<or> 8 \<le> n)"

definition slots_ok :: "client \<Rightarrow> bool" where
  "slots_ok c \<longleftrightarrow> room (subscribed_slots c) (subscribed_queue c) \<and>
     room (not_subscribed_slots c) (not_subscribed_queue c)"

lemma heap_push_length [simp]: "length (array (heap_push h k)) = Suc (length (array h))"
  using heap_push_keeps[of h k] by simp

lemma heap_pop_length [simp]: "length (array (heap_pop h)) = length (array h) - 1"
  using heap_pop_keeps[of h] by (cases "array h") (auto simp: heap_pop_unfold)

lemma room_push: "room n h \<Longrightarrow> room (push_slots (length (array h)) n) (heap_push h k)"
  by (auto simp: room_def push_slots_def)

lemma room_pop: "room n h \<Longrightarrow> room n (heap_pop h)"
  by (auto simp: room_def)

lemma loaded_slots_room: "hash_count m \<le> loaded_slots m \<and> (loaded_slots m = 0 \<or> 8 \<le> loaded_slots m)"
proof -
  have "n \<le> fold push_slots [0..<n] 0 \<and> (fold push_slots [0..<n] 0 = 0 \<or> 8 \<le> fold push_slots [0..<n] 0)" for n
    by (induction n) (auto simp: push_slots_def)
  then show ?thesis by (simp add: loaded_slots_def)
qed

lemma room_small:
  "room n h \<Longrightarrow> length (array h) \<le> 5 \<Longrightarrow> \<not> heap_pop_misreads n h \<and> \<not> heap_build_misreads n h"
  using small_heap(1,2)[of h n]
  by (cases "array h = []") (auto simp: room_def heap_pop_misreads_def heap_build_misreads_def heap_is_empty_def)

lemma set_server_fields [simp]:
  "hash_keys (servers (set_server k s c)) = hash_keys (servers c)"
  "subscribed_queue (set_server k s c) = subscribed_queue c"
  "not_subscribed_queue (set_server k s c) = not_subscribed_queue c"
  "subscribed_slots (set_server k s c) = subscribed_slots c"
  "not_subscribed_slots (set_server k s c) = not_subscribed_slots c"
  "semaphore (set_server k s c) = semaphore c"
  "subscr_pc (set_server k s c) = subscr_pc c"
  "update_pc (set_server k s c) = update_pc c"
  "senders (set_server k s c) = senders c"
  by (simp_all add: set_server_def)

lemma set_server_find:
  "hash_find (servers (set_server k s c)) j = (if j = k \<and> hash_find (servers c) k \<noteq> None then Some s else hash_find (servers c) j)"
  by (cases "hash_find (servers c) k") (auto simp: set_server_def)

lemma client_receive_keys:
  "client_receive d buf m = Inr (buf', m', go) \<Longrightarrow> hash_keys m' = hash_keys m"
  by (cases "(d, buf, m)" rule: client_receive.cases)
    (auto simp: result_simps client_dispatch_def receive_response_def receive_data_message_head_def Let_def
      split: if_splits mtn_message_type.splits option.splits)

lemma sender_move_not_post: "sender_move now s pc (Inr (s', pc')) \<Longrightarrow> pc \<noteq> Post \<and> pc' \<noteq> Post"
  by (cases rule: sender_move.cases) auto

lemmas step_simps = client_ok_def places_def heap_is_empty_def heap_first_None_iff heap_first_Some_iff

text \<open>The only fault of the queue threads is a read outside of the slots.\<close>

lemma subscription_thread_ok:
  assumes "subscription_thread c r" and "client_ok ks c"
  shows "case r of Inl e \<Rightarrow> e = Out_of_bounds_read \<and> heap_pop_misreads (not_subscribed_slots c) (not_subscribed_queue c)
    | Inr c' \<Rightarrow> client_ok ks c'"
  using assms by (cases rule: subscription_thread.cases) (auto simp: step_simps split: if_splits)

lemma update_thread_ok:
  assumes "update_thread c r" and "client_ok ks c"
  shows "case r of Inl e \<Rightarrow> e = Out_of_bounds_read \<and> heap_pop_misreads (subscribed_slots c) (subscribed_queue c)
    | Inr c' \<Rightarrow> client_ok ks c'"
  using assms by (cases rule: update_thread.cases) (auto simp: step_simps split: if_splits)

lemma sender_thread_ok:
  assumes "sender_thread c (Inr c')" and "client_ok ks c"
  shows "client_ok ks c'"
  using assms
  by (cases rule: sender_thread.cases) (auto simp: step_simps dest: sender_move_not_post)

lemma client_step_ok:
  assumes "client_step c (Inr c')" and "client_ok ks c"
  shows "client_ok ks c'"
  using assms(1)
proof (cases rule: client_step.cases)
  case (receive buf d buf' m go)
  with assms(2) show ?thesis by (auto simp: step_simps dest: client_receive_keys)
next
  case (tick n)
  with assms(2) show ?thesis by (auto simp: step_simps)
next
  case (receive_on buf d a)
  with assms(2) show ?thesis by (auto simp: step_simps)
qed (use assms(2) subscription_thread_ok[of c "Inr c'"] update_thread_ok[of c "Inr c'"]
      sender_thread_ok in auto)

lemma client_step_slots:
  assumes "client_step c (Inr c')" and "slots_ok c"
  shows "slots_ok c'"
  using assms(1)
proof (cases rule: client_step.cases)
  case subscribe
  then show ?thesis
    using assms(2) by (cases rule: subscription_thread.cases) (auto simp: slots_ok_def room_pop)
next
  case update
  then show ?thesis
    using assms(2) by (cases rule: update_thread.cases) (auto simp: slots_ok_def room_pop)
next
  case send
  then show ?thesis
    using assms(2) by (cases rule: sender_thread.cases) (auto simp: slots_ok_def room_push)
qed (use assms(2) in \<open>auto simp: slots_ok_def\<close>)

lemma update_control_slots: "slots_ok (update_control cmp m recv now)"
  using loaded_slots_room[of m] heap_build_keeps[of "\<lparr>array = hash_keys m, is_greater = cmp\<rparr>"]
  by (auto simp: slots_ok_def room_def update_control_def hash_count_def hash_keys_def)

lemma client_run_slots: "client_run c0 c \<Longrightarrow> slots_ok c0 \<Longrightarrow> slots_ok c"
  by (induction rule: client_run.induct) (auto intro: client_step_slots)

text \<open>No queue ever holds more than the listed servers, so five servers never make a comparison
  read outside of the eight slots; six do, at the start.\<close>

lemma queue_threads_fault:
  assumes "subscription_thread c (Inl e) \<or> update_thread c (Inl e)" and "client_ok ks c" and "slots_ok c"
  shows "e = Out_of_bounds_read \<and> 6 \<le> length ks"
proof -
  obtain n h where h: "e = Out_of_bounds_read" "heap_pop_misreads n h" "room n h"
      "mset (array h) \<subseteq># places c"
    using assms subscription_thread_ok[of c "Inl e" ks] update_thread_ok[of c "Inl e" ks]
    by (force simp: slots_ok_def places_def)
  then have "\<not> length (array h) \<le> 5" using room_small by blast
  moreover have "length (array h) \<le> length ks"
    using size_mset_mono[OF h(4)] assms(2) by (simp add: client_ok_def)
  ultimately show ?thesis using h(1) by simp
qed

lemma six_servers_misread:
  assumes "hash_count m = 6"
  shows "update_control_misreads cmp m"
proof -
  have "[0..<hash_count m] = [0, 1, 2, 3, 4, 5]" unfolding assms by (simp add: upt_rec)
  then have "loaded_slots m = 8" by (simp add: loaded_slots_def push_slots_def)
  moreover have "build_misreads 8 h 3" if "length (array h) = 6" for h :: "sockaddr_in array_heap"
    using that by (simp add: eval_nat_numeral build_misreads.simps) (subst heapify_misreads.simps, simp add: Let_def misreads_def)
  ultimately show ?thesis
    using assms by (simp add: update_control_misreads_def heap_build_misreads_def heap_is_empty_def
        hash_count_def hash_keys_def)
qed

lemma update_control_ok: "client_ok (hash_keys m) (update_control cmp m recv now)"
  using heap_build_keeps[of "\<lparr>array = hash_keys m, is_greater = cmp\<rparr>"]
  by (simp add: step_simps update_control_def)

lemma client_run_ok: "client_run c0 c \<Longrightarrow> client_ok ks c0 \<Longrightarrow> client_ok ks c"
  by (induction rule: client_run.induct) (auto intro: client_step_ok)

section \<open>The updater's guarantees\<close>

lemma run_from_start_ok:
  "client_run (update_control cmp m recv now) c \<Longrightarrow> client_ok (hash_keys m) c"
  using client_run_ok update_control_ok by blast

text \<open>However the threads interleave, and whatever the comparison of the queues answers, every
  listed server is always in exactly one place: one of the queues, one of the two queue threads, or
  one sender; nothing else is ever there.\<close>

lemma every_server_in_one_place:
  assumes "hash_ok m" and "client_run (update_control cmp m recv now) c"
  shows "hash_keys (servers c) = hash_keys m \<and>
    count (places c) k = (if k \<in> set (hash_keys m) then 1 else 0)"
proof -
  have "client_ok (hash_keys m) c" using run_from_start_ok[OF assms(2)] .
  moreover have "count (mset (hash_keys m)) k = (if k \<in> set (hash_keys m) then 1 else 0)"
    using assms(1) by (simp add: hash_ok_def distinct_count_atmost_1)
  ultimately show ?thesis by (simp add: client_ok_def)
qed

lemma every_server_in_one_place_witness:
  "\<forall>s recv. count (places (update_control (\<lambda>_ _ _. True)
     [(\<lparr>sin_addr = [1, 2, 3, 4], sin_port = 5\<rparr>, s)] recv 0)) \<lparr>sin_addr = [1, 2, 3, 4], sin_port = 5\<rparr> = 1"
proof (intro allI)
  fix s :: server_data and recv
  let ?k = "\<lparr>sin_addr = [1, 2, 3, 4], sin_port = 5 :: 16 word\<rparr>"
  have "hash_ok [(?k, s)]" by (simp add: hash_ok_def)
  from every_server_in_one_place[OF this run_start, where k = ?k and cmp = "\<lambda>_ _ _. True" and now = 0]
  show "count (places (update_control (\<lambda>_ _ _. True) [(?k, s)] recv 0)) ?k = 1" by simp
qed

text \<open>The semaphore and the running senders add up to three in every reachable state, and no two
  senders work on the same server at the same time.\<close>

lemma at_most_three_senders:
  assumes "hash_ok m" and "client_run (update_control cmp m recv now) c"
  shows "semaphore c + length (senders c) = 3 \<and>
    distinct (map fst (filter (\<lambda>(k, pc). pc \<noteq> Post) (senders c)))"
proof -
  have ok: "client_ok (hash_keys m) c" using run_from_start_ok[OF assms(2)] .
  then have "senders_hold (senders c) \<subseteq># mset (hash_keys m)"
    unfolding client_ok_def places_def by (metis mset_subset_eq_add_right)
  then have "distinct (map fst (filter (\<lambda>(k, pc). pc \<noteq> Post) (senders c)))"
    using assms(1) distinct_sub_mset unfolding senders_hold_def hash_ok_def by blast
  with ok show ?thesis by (simp add: client_ok_def MAX_ACTIVE_REQUESTS_def)
qed

lemma at_most_three_senders_witness:
  "\<forall>recv. semaphore (update_control (\<lambda>_ _ _. True) [] recv 0) +
     length (senders (update_control (\<lambda>_ _ _. True) [] recv 0)) = 3"
proof
  fix recv
  have "hash_ok ([] :: server_map)" by (simp add: hash_ok_def)
  from at_most_three_senders[OF this run_start, of "\<lambda>_ _ _. True" recv 0]
  show "semaphore (update_control (\<lambda>_ _ _. True) [] recv 0) +
     length (senders (update_control (\<lambda>_ _ _. True) [] recv 0)) = 3" by simp
qed

text \<open>The two queue threads never dereference the NULL that \<open>heap_first\<close> returns for an empty queue,
  although they fetch the first element again after every wait; and when such a thread is at the
  head of its loop it can always go on.\<close>

lemma queue_threads_never_null:
  assumes "client_run (update_control cmp m recv now) c"
  shows "\<not> subscription_thread c (Inl Null_pointer) \<and> \<not> update_thread c (Inl Null_pointer) \<and>
    (\<forall>w. subscr_pc c = Scan w \<longrightarrow> (\<exists>c'. subscription_thread c (Inr c'))) \<and>
    (\<forall>w. update_pc c = Scan w \<longrightarrow> (\<exists>c'. update_thread c (Inr c')))"
proof -
  have ok: "client_ok (hash_keys m) c" using run_from_start_ok[OF assms] .
  have known: "\<exists>s. hash_find (servers c) k = Some s"
    if "k \<in> set (array (subscribed_queue c)) \<union> set (array (not_subscribed_queue c))" for k
  proof -
    have "k \<in># places c" using that by (auto simp: places_def)
    with ok have "k \<in> set (hash_keys (servers c))" by (simp add: client_ok_def)
    then show ?thesis using hash_find_None_iff[of "servers c" k] by (cases "hash_find (servers c) k") auto
  qed
  have "\<exists>c'. subscription_thread c (Inr c')" if w: "subscr_pc c = Scan w" for w
  proof -
    obtain k ks where q: "array (not_subscribed_queue c) = k # ks"
      using ok w by (cases "array (not_subscribed_queue c)") (auto simp: client_ok_def)
    with known[of k] obtain s where "heap_first (not_subscribed_queue c) = Some k"
      "hash_find (servers c) k = Some s" by (auto simp: heap_first_Some_iff)
    with w sub_pop[of c w k s] sub_block[of c k s] show ?thesis
      by (cases "\<not> w \<or> connect_due (clock c) s") auto
  qed
  moreover have "\<exists>c'. update_thread c (Inr c')" if w: "update_pc c = Scan w" for w
  proof -
    obtain k ks where q: "array (subscribed_queue c) = k # ks"
      using ok w by (cases "array (subscribed_queue c)") (auto simp: client_ok_def)
    with known[of k] obtain s where "heap_first (subscribed_queue c) = Some k"
      "hash_find (servers c) k = Some s" by (auto simp: heap_first_Some_iff)
    with w upd_pop[of c w k s] upd_block[of c k s] show ?thesis
      by (cases "\<not> w \<or> \<not> last_connect_attempt_time s + SUBSCR_EXPIRE_TIME > clock c") auto
  qed
  ultimately show ?thesis
    using subscription_thread_ok[of c "Inl Null_pointer"] update_thread_ok[of c "Inl Null_pointer"] ok by auto
qed

lemma queue_threads_never_null_witness:
  "\<forall>recv. \<not> subscription_thread (update_control (\<lambda>_ _ _. True) [] recv 0) (Inl Null_pointer)"
  using queue_threads_never_null[OF run_start] by blast

text \<open>A sender chooses the queue by reading the state again, without the server's lock. If a
  duplicate of the accepting response arrives between the handling of the response and that read, the
  accepted server goes into the queue of servers that are not subscribed.\<close>

lemma accepted_server_may_be_requeued:
  assumes "senders c = xs @ (k, Finish) # ys" and "hash_find (servers c) k = Some s"
    and "state s = SUBSCR" and "responses_sized (servers c)"
    and "recv_array c = Some buf"
  shows "\<exists>c'. client_run c c' \<and> senders c' = xs @ (k, Post) # ys \<and>
    k \<in> set (array (not_subscribed_queue c')) \<and> subscribed_queue c' = subscribed_queue c"
proof -
  let ?d = "''RSPS ACCEPT''" and ?b = "receive_into MTN_MSG_LEN buf ''RSPS ACCEPT''"
  have "take 4 ?b = ''RSPS''" by (simp add: receive_into_split MTN_MSG_LEN_def)
  then have t: "get_message_type ?b = MTN_RESPONSE" by (simp add: get_message_type_iff)
  obtain m' s' where m': "receive_response ?b k (servers c) = Inr m'" "hash_find m' k = Some s'"
      "state s' = RESP"
    using receive_response_known[OF assms(2,4) cstr_receive_into] by metis
  define c1 where "c1 = c\<lparr>servers := m', recv_array := Some ?b\<rparr>"
  define c2 where "c2 = set_server k s' (c1\<lparr>senders := xs @ (k, Push False) # ys\<rparr>)"
  define c3 where "c3 = c2\<lparr>not_subscribed_queue := heap_push (not_subscribed_queue c2) k,
    not_subscribed_slots := push_slots (length (array (not_subscribed_queue c2))) (not_subscribed_slots c2),
    senders := xs @ (k, Post) # ys\<rparr>"
  have "client_receive (Datagram ?d k) buf (servers c) = Inr (?b, m', True)"
    using m'(1) t by (simp add: client_dispatch_def size_defs Let_def)
  then have 1: "client_step c (Inr c1)"
    using client_step.receive[OF assms(5), of "Datagram ?d k" ?b m' True] by (simp add: c1_def)
  have "sender_move (clock c1) s' Finish (Inr (s', Push (state s' = SUBSCR)))" by (rule chosen)
  then have 2: "client_step c1 (Inr c2)"
    using move[of c1 xs k Finish ys s' s' "Push False"] assms(1) m'(2,3)
    by (intro client_step.send) (simp add: c1_def c2_def)
  have 3: "client_step c2 (Inr c3)"
    using push_not_subscribed[of c2 xs k ys] by (intro client_step.send) (simp add: c2_def c3_def)
  have "client_run c c3" using 1 2 3 by (meson run_start run_step)
  then show ?thesis
    by (intro exI[of _ c3]) (simp add: c3_def c2_def c1_def set_server_def heap_push_member)
qed

text \<open>The state in which a server has just been accepted.\<close>

definition just_accepted :: client where
  "just_accepted = (let k = \<lparr>sin_addr = [1, 2, 3, 4], sin_port = 5\<rparr> in
     \<lparr>servers = [(k, \<lparr>address = k, state = SUBSCR, not_connect_count = 0, last_connect_attempt_time = 9,
        srv_response = replicate 1025 NUL, srv_name = ''a'', srv_descr = []\<rparr>)],
      subscribed_queue = \<lparr>array = [], is_greater = \<lambda>_ _ _. True\<rparr>,
      not_subscribed_queue = \<lparr>array = [], is_greater = \<lambda>_ _ _. True\<rparr>,
      subscribed_slots = 0, not_subscribed_slots = 8, semaphore = 2, subscr_pc = Start, update_pc = Start, senders = [(k, Finish)],
      recv_array = Some (replicate 1025 NUL), clock = 10\<rparr>)"

lemma accepted_server_may_be_requeued_witness:
  "\<exists>c'. client_run just_accepted c' \<and>
     \<lparr>sin_addr = [1, 2, 3, 4], sin_port = 5\<rparr> \<in> set (array (not_subscribed_queue c'))"
proof -
  let ?k = "\<lparr>sin_addr = [1, 2, 3, 4], sin_port = 5 :: 16 word\<rparr>"
  let ?s = "\<lparr>address = ?k, state = SUBSCR, not_connect_count = 0, last_connect_attempt_time = 9,
        srv_response = replicate 1025 NUL, srv_name = ''a'', srv_descr = []\<rparr>"
  have "senders just_accepted = [] @ (?k, Finish) # []" "hash_find (servers just_accepted) ?k = Some ?s"
    "state ?s = SUBSCR" "responses_sized (servers just_accepted)"
    "recv_array just_accepted = Some (replicate 1025 NUL)"
    by (simp_all add: just_accepted_def Let_def hash_find_def responses_sized_def MTN_MSG_LEN_def)
  from accepted_server_may_be_requeued[OF this] show ?thesis by blast
qed

text \<open>The order meant for the queues: with the comparison applied to the servers' data, the first of a
  built queue has the fewest failed attempts, and the oldest last attempt among those.\<close>

lemma intended_first_server:
  assumes "heap_first (heap_build \<lparr>array = ss, is_greater = by_value connect_sooner\<rparr>) = Some s"
    and "t \<in> set ss"
  shows "not_connect_count s < not_connect_count t \<or>
    not_connect_count s = not_connect_count t \<and>
      last_connect_attempt_time s \<le> last_connect_attempt_time t"
proof -
  let ?h = "\<lparr>array = ss, is_greater = by_value connect_sooner\<rparr>"
  have "t \<in> set (array (heap_build ?h))"
    using assms(2) heap_build_keeps[of ?h] by (metis array_heap.select_convs(1) set_mset_mset)
  then have "connect_sooner s t"
    using connect_order.heap_first_greatest[OF connect_order.heap_build_ordered assms(1)] by simp
  then show ?thesis by (auto simp: connect_sooner_def split: if_splits)
qed

lemma intended_first_server_witness:
  "\<forall>a b. not_connect_count a = 0 \<and> not_connect_count b = 1 \<longrightarrow>
     heap_first (heap_build \<lparr>array = [b, a], is_greater = by_value connect_sooner\<rparr>) \<noteq> Some b"
  using intended_first_server[of "[_, _]"] by fastforce

text \<open>The order the queues really have does not depend on the servers at all: of two queued servers
  with zeroed memory behind the array, the one stored second becomes the first, whatever their data.\<close>

lemma queue_order_ignores_servers:
  "array (heap_build \<lparr>array = [p, q], is_greater = connect_sooner_slots (\<lambda>_. 0)\<rparr>) = [q, p]"
proof -
  have "connect_sooner_slots (\<lambda>_. 0) [p, q] 1 0"
    by (simp add: connect_sooner_slots_def slot_count_def slot_time_def slot_word_def)
  then show ?thesis
    by (simp add: heap_build_def heap_is_empty_def Let_def heapify.simps largest_index_def
        greater_at_def swap_ptr_def swap_elems_def)
qed

end
