(* ===== verification/Config.thy ===== *)
theory Config
  imports FileSystem HashTable
begin

text \<open>
  The configuration of \<open>mtn-config.c\<close>, \<open>mtn-server-config.c\<close> and \<open>mtn-client-config.c\<close>: a table from
  names to values, initialised from arrays of defaults and changed by the configuration file.

  A value lives in a heap block requested with the size of a pointer (\<open>malloc(sizeof(value))\<close>,
  where \<open>value\<close> is a \<open>char*\<close>). How many bytes such a block can really hold is the allocator's
  affair and a parameter of the model, \<open>usable\<close>; the C language grants 8 of them.
\<close>

section \<open>The table of values\<close>

type_synonym config_map = "(string, string) hash"

definition MTN_CFG_NAME_LEN :: nat where "MTN_CFG_NAME_LEN = 32"
definition TOKEN_MAX_SIZE :: nat where "TOKEN_MAX_SIZE = 4096"

fun init_config_from_array ::
    "nat \<Rightarrow> (string \<times> string) list \<Rightarrow> config_map \<Rightarrow> config_map c_result" where
  "init_config_from_array usable [] config = Inr config"
| "init_config_from_array usable ((name, v) # config_array) config =
     (if MTN_CFG_NAME_LEN \<le> length name then Inl Buffer_overflow
      else if usable \<le> length v then Inl Buffer_overflow
      else init_config_from_array usable config_array (hash_add config name v))"

definition common_config_array :: "(string \<times> string) list" where
  "common_config_array = [(''debug'', ''0'')]"

definition init_config ::
    "nat \<Rightarrow> (string \<times> string) list option \<Rightarrow> config_map \<Rightarrow> config_map c_result" where
  "init_config usable config_array config =
     result_bind (init_config_from_array usable common_config_array config) (\<lambda>config.
       case config_array of
         Some entries \<Rightarrow> init_config_from_array usable entries config
       | None \<Rightarrow> Inr config)"

definition get_config_value :: "config_map \<Rightarrow> string \<Rightarrow> string option" where
  "get_config_value config name = hash_find config name"

definition set_config_value ::
    "nat \<Rightarrow> string \<Rightarrow> string \<Rightarrow> config_map \<Rightarrow> (bool \<times> config_map) c_result" where
  "set_config_value usable name v config =
     (case hash_find config name of
        Some _ \<Rightarrow>
          if usable \<le> length v then Inl Buffer_overflow
          else Inr (True, hash_change config name (\<lambda>_. v))
      | None \<Rightarrow> Inr (False, config))"

section \<open>The parser\<close>

text \<open>
  The local variables of \<open>parse_config_file\<close> that live across lines, and the table it sets values
  in. \<open>next_line\<close> is false whenever a line starts, so it is threaded through the token loop only.
\<close>

record config_parser =
  property :: string
  get_property :: bool
  pvalue :: string
  get_value :: bool
  is_string_value :: bool
  cfg :: config_map

definition strcat :: "nat \<Rightarrow> string \<Rightarrow> string \<Rightarrow> string c_result" where
  "strcat cap dest src =
     (if length dest + length src < cap then Inr (dest @ src) else Inl Buffer_overflow)"

text \<open>
  Taking a token of a value. The character compared with the closing quote, at \<open>token_len - 1\<close>
  from \<open>token_ptr\<close>, is the token's last one whether or not an opening quote was skipped; for a
  token that is a single quote it is that quote, and nothing is appended.
\<close>

definition take_value :: "string \<Rightarrow> config_parser \<Rightarrow> config_parser c_result" where
  "take_value token st =
     result_bind (if pvalue st \<noteq> [] then strcat (TOKEN_MAX_SIZE + 1) (pvalue st) [space]
                  else Inr (pvalue st)) (\<lambda>v.
       let opening = (hd token = quote);
           is_string = (opening \<or> is_string_value st);
           token_ptr = (if opening then tl token else token)
       in if is_string \<and> last token = quote then
            result_bind (strcat (TOKEN_MAX_SIZE + 1) v (butlast token_ptr)) (\<lambda>v.
              Inr (st\<lparr>pvalue := v, is_string_value := False, get_value := False\<rparr>))
          else
            result_bind (strcat (TOKEN_MAX_SIZE + 1) v token_ptr) (\<lambda>v.
              Inr (st\<lparr>pvalue := v, is_string_value := is_string, get_value := is_string\<rparr>)))"

text \<open>After a token: set the value once it is complete.\<close>

definition after_token ::
    "nat \<Rightarrow> bool \<Rightarrow> config_parser \<Rightarrow> (config_parser \<times> bool) c_result" where
  "after_token usable next_line st =
     (if \<not> get_property st \<and> \<not> get_value st then
        result_bind (set_config_value usable (property st) (pvalue st) (cfg st))
          (\<lambda>(found, m). Inr (st\<lparr>cfg := m\<rparr>, True))
      else Inr (st, next_line))"

text \<open>One token; the last component of the result says that the loop is left (a comment).\<close>

definition parse_token ::
    "nat \<Rightarrow> string \<Rightarrow> config_parser \<Rightarrow> bool \<Rightarrow> (config_parser \<times> bool \<times> bool) c_result" where
  "parse_token usable token st next_line =
     (if get_property st \<and> hd token = CHR ''#'' then Inr (st\<lparr>property := token\<rparr>, True, True)
      else
        result_bind
          (if get_property st then
             Inr (st\<lparr>property := token, get_property := False, get_value := True\<rparr>)
           else if get_value st then take_value token st
           else Inr st)
          (\<lambda>st. result_bind (after_token usable next_line st)
             (\<lambda>(st, next_line). Inr (st, next_line, False))))"

function parse_tokens ::
    "nat \<Rightarrow> string \<Rightarrow> config_parser \<Rightarrow> bool \<Rightarrow> (config_parser \<times> bool) c_result" where
  "parse_tokens usable line_ptr st next_line =
     result_bind (get_token (TOKEN_MAX_SIZE + 1) line_ptr [space, tab])
       (\<lambda>(token_len, token, line_ptr).
         if token_len \<noteq> 0 then
           result_bind (parse_token usable token st next_line) (\<lambda>(st, next_line, stop).
             if stop then Inr (st, next_line) else parse_tokens usable line_ptr st next_line)
         else Inr (st, next_line))"
  by pat_completeness auto
termination
  by (relation "measure (\<lambda>(usable, line_ptr, st, next_line). length line_ptr)")
    (auto dest!: get_token_Inr(6))

declare parse_tokens.simps [simp del]

definition missing_value :: "config_parser \<Rightarrow> config_parser" where
  "missing_value st =
     (if get_value st \<and> \<not> is_string_value st
      then st\<lparr>get_value := False, get_property := True\<rparr> else st)"

definition parse_line :: "nat \<Rightarrow> string \<Rightarrow> config_parser \<Rightarrow> config_parser c_result" where
  "parse_line usable line st =
     result_bind (parse_tokens usable line (missing_value st) False) (\<lambda>(st, next_line).
       Inr (if next_line
            then st\<lparr>property := [], pvalue := [], get_property := True, get_value := False\<rparr>
            else st))"

definition init_parser :: "config_map \<Rightarrow> config_parser" where
  "init_parser m = \<lparr>property = [], get_property = True, pvalue = [], get_value = False,
     is_string_value = False, cfg = m\<rparr>"

definition parse_config_file :: "nat \<Rightarrow> reader \<Rightarrow> config_map \<Rightarrow> (config_map \<times> reader) c_result" where
  "parse_config_file usable rd m =
     result_bind (fold_lines (LINE_MAX_SIZE + 1) (parse_line usable) rd (init_parser m))
       (\<lambda>(st, rd). Inr (cfg st, rd))"

section \<open>Server and client\<close>

definition SERVER_DEFAULT_PORT_TXT :: string where "SERVER_DEFAULT_PORT_TXT = ''48888''"

definition init_server_config :: "nat \<Rightarrow> config_map \<Rightarrow> config_map c_result" where
  "init_server_config usable config =
     init_config usable
       (Some [(''name'', ''MTN server''), (''descr'', []), (''port'', SERVER_DEFAULT_PORT_TXT)]) config"

definition init_client_config :: "nat \<Rightarrow> config_map \<Rightarrow> config_map c_result" where
  "init_client_config usable config = init_config usable None config"

definition USER_SERVER_CFG_FILE :: string where "USER_SERVER_CFG_FILE = ''~/.config/mtn/server.conf''"
definition USER_CLIENT_CFG_FILE :: string where "USER_CLIENT_CFG_FILE = ''~/.config/mtn/client.conf''"
definition EXAMPLE_SERVER_CFG_FILE :: string where "EXAMPLE_SERVER_CFG_FILE = ''conf/server.conf.example''"
definition EXAMPLE_CLIENT_CFG_FILE :: string where "EXAMPLE_CLIENT_CFG_FILE = ''conf/client.conf.example''"

text \<open>
  Loading a configuration: \<open>config_file\<close> is the option's argument, if it was given, and
  \<open>static_unread\<close> what the line reader still buffers. The result is the file system, the table,
  and the reader's buffer.
\<close>

definition load_server_config ::
    "nat \<Rightarrow> string option \<Rightarrow> string option \<Rightarrow> file_system \<Rightarrow> string \<Rightarrow> config_map \<Rightarrow>
     (file_system \<times> config_map \<times> string) c_result" where
  "load_server_config usable home config_file fs static_unread config =
     result_bind (init_server_config usable config) (\<lambda>config.
       result_bind
         (case config_file of
            Some file \<Rightarrow> load_file home fs file O_RDONLY (Some EXAMPLE_SERVER_CFG_FILE)
          | None \<Rightarrow> load_file home fs USER_SERVER_CFG_FILE O_RDONLY (Some EXAMPLE_SERVER_CFG_FILE))
         (\<lambda>(fs, conf_file_fd).
           case conf_file_fd of
             None \<Rightarrow> Inr (fs, config, static_unread)
           | Some fd \<Rightarrow>
               result_bind (parse_config_file usable
                   \<lparr>unread = static_unread, input_fd = reads LINE_MAX_SIZE fs fd\<rparr> config)
                 (\<lambda>(config, rd). Inr (fs, config, unread rd))))"

definition load_client_config ::
    "nat \<Rightarrow> string option \<Rightarrow> string option \<Rightarrow> file_system \<Rightarrow> string \<Rightarrow> config_map \<Rightarrow>
     (file_system \<times> config_map \<times> string) c_result" where
  "load_client_config usable home config_file fs static_unread config =
     result_bind (init_client_config usable config) (\<lambda>config.
       result_bind
         (case config_file of
            Some file \<Rightarrow> load_file home fs file O_RDONLY (Some EXAMPLE_CLIENT_CFG_FILE)
          | None \<Rightarrow> load_file home fs USER_CLIENT_CFG_FILE O_RDONLY (Some EXAMPLE_CLIENT_CFG_FILE))
         (\<lambda>(fs, conf_file_fd).
           case conf_file_fd of
             None \<Rightarrow> Inr (fs, config, static_unread)
           | Some fd \<Rightarrow>
               result_bind (parse_config_file usable
                   \<lparr>unread = static_unread, input_fd = reads LINE_MAX_SIZE fs fd\<rparr> config)
                 (\<lambda>(config, rd). Inr (fs, config, unread rd))))"

section \<open>Lines as token sequences\<close>

lemma missing_value_idem [simp]: "missing_value (missing_value st) = missing_value st"
  by (simp add: missing_value_def)

lemma parse_tokens_Nil: "parse_tokens usable [] st next_line = Inr (st, next_line)"
  using get_token_blank[of "[]" "[space, tab]" "TOKEN_MAX_SIZE + 1"]
  by (subst parse_tokens.simps) simp

interpretation config_lines: line_consumer "parse_line usable" missing_value for usable
  by unfold_locales (auto simp: parse_line_def parse_tokens_Nil)

definition word :: "string \<Rightarrow> bool" where
  "word w \<longleftrightarrow> w \<noteq> [] \<and> set w \<inter> {space, tab, newline, NUL} = {} \<and> length w \<le> TOKEN_MAX_SIZE"

lemma parse_tokens_word:
  assumes "word w" and "rest = [] \<or> hd rest = space" and "pre = [] \<or> pre = [space]"
  shows "parse_tokens usable (pre @ w @ rest) st next_line =
    result_bind (parse_token usable w st next_line) (\<lambda>(st, next_line, stop).
      if stop then Inr (st, next_line) else parse_tokens usable rest st next_line)"
proof -
  have "get_token (TOKEN_MAX_SIZE + 1) (pre @ w @ rest) [space, tab] = Inr (length w, w, rest)"
    using assms by (intro get_token_word) (auto simp: word_def)
  then show ?thesis using assms(1) by (subst parse_tokens.simps) (simp add: word_def)
qed

lemmas parse_tokens_first = parse_tokens_word[where pre = "[]", simplified]
lemmas parse_tokens_next = parse_tokens_word[where pre = "[space]", simplified]

section \<open>Entries\<close>

fun join_words :: "string list \<Rightarrow> string" where
  "join_words [] = []"
| "join_words [w] = w"
| "join_words (w # ws) = w @ space # join_words ws"

lemma join_words_Cons: "ws \<noteq> [] \<Longrightarrow> join_words (w # ws) = w @ space # join_words ws"
  by (cases ws) auto

definition plain_word :: "string \<Rightarrow> bool" where
  "plain_word w \<longleftrightarrow> word w \<and> quote \<notin> set w \<and> length w < TOKEN_MAX_SIZE - 1"

definition set_entry :: "config_map \<Rightarrow> string \<Rightarrow> string \<Rightarrow> config_map" where
  "set_entry m name v = (if hash_find m name = None then m else hash_change m name (\<lambda>_. v))"

definition fits :: "nat \<Rightarrow> config_map \<Rightarrow> string \<Rightarrow> string \<Rightarrow> bool" where
  "fits usable m name v \<longleftrightarrow> (hash_find m name \<noteq> None \<longrightarrow> length v < usable)"

definition put_entry :: "nat \<Rightarrow> config_map \<Rightarrow> string \<Rightarrow> string \<Rightarrow> config_map c_result" where
  "put_entry usable m name v = (if fits usable m name v then Inr (set_entry m name v) else Inl Buffer_overflow)"

lemma set_config_value_entry:
  "set_config_value usable name v m =
     result_bind (put_entry usable m name v) (\<lambda>m'. Inr (hash_find m name \<noteq> None, m'))"
  by (auto simp: set_config_value_def put_entry_def set_entry_def fits_def split: option.splits)

text \<open>A closing token, a token inside a string, and an opening token.\<close>

lemma closing_token:
  assumes "plain_word w" and "\<not> get_property st" "get_value st" "is_string_value st" "pvalue st \<noteq> []"
    and "length (pvalue st) + Suc (length w) \<le> TOKEN_MAX_SIZE"
  shows "parse_token usable (w @ [quote]) st next_line =
    result_bind (put_entry usable (cfg st) (property st) (pvalue st @ space # w)) (\<lambda>m.
      Inr (st\<lparr>pvalue := pvalue st @ space # w, is_string_value := False, get_value := False, cfg := m\<rparr>, True, False))"
proof -
  have w: "hd (w @ [quote]) \<noteq> quote" "w \<noteq> []"
    using assms(1) by (auto simp: plain_word_def word_def neq_Nil_conv)
  have "take_value (w @ [quote]) st = Inr (st\<lparr>pvalue := pvalue st @ space # w,
      is_string_value := False, get_value := False\<rparr>)"
    using assms w by (simp add: take_value_def strcat_def Let_def)
  then show ?thesis
    using assms by (simp add: parse_token_def after_token_def set_config_value_entry result_bind_assoc)
qed

lemma inner_token:
  assumes "plain_word w" and "\<not> get_property st" "get_value st" "is_string_value st" "pvalue st \<noteq> []"
    and "length (pvalue st) + Suc (length w) \<le> TOKEN_MAX_SIZE"
  shows "parse_token usable w st next_line =
    Inr (st\<lparr>pvalue := pvalue st @ space # w\<rparr>, next_line, False)"
proof -
  have w: "hd w \<noteq> quote" "last w \<noteq> quote"
    using assms(1) by (auto simp: plain_word_def word_def dest: hd_in_set last_in_set)
  then have "take_value w st = Inr (st\<lparr>pvalue := pvalue st @ space # w\<rparr>)"
    using assms by (simp add: take_value_def strcat_def Let_def)
  then show ?thesis
    using assms by (simp add: parse_token_def after_token_def)
qed

lemma string_tail:
  "ws \<noteq> [] \<Longrightarrow> \<forall>w \<in> set ws. plain_word w \<Longrightarrow>
   \<not> get_property st \<Longrightarrow> get_value st \<Longrightarrow> is_string_value st \<Longrightarrow> pvalue st \<noteq> [] \<Longrightarrow>
   length (pvalue st) + Suc (length (join_words ws)) \<le> TOKEN_MAX_SIZE \<Longrightarrow>
   parse_tokens usable (space # join_words ws @ [quote]) st next_line =
     result_bind (put_entry usable (cfg st) (property st) (pvalue st @ space # join_words ws)) (\<lambda>m.
       Inr (st\<lparr>pvalue := pvalue st @ space # join_words ws, is_string_value := False, get_value := False, cfg := m\<rparr>, True))"
proof (induction ws arbitrary: st next_line)
  case (Cons w ws)
  show ?case
  proof (cases "ws = []")
    case True
    then have "word (w @ [quote])" using Cons.prems(2) by (auto simp: plain_word_def word_def)
    then show ?thesis
      using Cons.prems True closing_token[of w st usable next_line]
        parse_tokens_next[of "w @ [quote]" "[]" usable st next_line]
      by (simp add: parse_tokens_Nil result_bind_assoc)
  next
    case False
    let ?st = "st\<lparr>pvalue := pvalue st @ space # w\<rparr>"
    have w: "plain_word w" "word w" using Cons.prems(2) by (auto simp: plain_word_def)
    have "parse_tokens usable (space # join_words ws @ [quote]) ?st next_line =
      result_bind (put_entry usable (cfg ?st) (property ?st) (pvalue ?st @ space # join_words ws)) (\<lambda>m.
        Inr (?st\<lparr>pvalue := pvalue ?st @ space # join_words ws, is_string_value := False,
          get_value := False, cfg := m\<rparr>, True))"
      using Cons.prems False by (intro Cons.IH) (auto simp: join_words_Cons)
    then show ?thesis
      using Cons.prems False w inner_token[of w st usable next_line]
        parse_tokens_next[of w "space # join_words ws @ [quote]" usable st next_line]
      by (simp add: join_words_Cons)
  qed
qed simp

text \<open>
  The lines of a configuration: a name and a quoted value of any number of words without quotes, a name and a
  value of one word without quotes around it, or a comment.
\<close>

datatype cfg_line =
    Entry string "string list"
  | Bare string string
  | Comment string

fun line_text :: "cfg_line \<Rightarrow> string" where
  "line_text (Entry name ws) = name @ space # quote # join_words ws @ [quote]"
| "line_text (Bare name w) = name @ space # w"
| "line_text (Comment c) = CHR ''#'' # c"

text \<open>What a line sets.\<close>

fun line_value :: "cfg_line \<Rightarrow> (string \<times> string) option" where
  "line_value (Entry name ws) = Some (name, join_words ws)"
| "line_value (Bare name w) = Some (name, w)"
| "line_value (Comment c) = None"

definition apply_line :: "cfg_line \<Rightarrow> config_map \<Rightarrow> config_map" where
  "apply_line l m = (case line_value l of None \<Rightarrow> m | Some (name, v) \<Rightarrow> set_entry m name v)"

definition put_line :: "nat \<Rightarrow> cfg_line \<Rightarrow> config_map \<Rightarrow> config_map c_result" where
  "put_line usable l m = (case line_value l of None \<Rightarrow> Inr m | Some (name, v) \<Rightarrow> put_entry usable m name v)"

fun line_form :: "cfg_line \<Rightarrow> bool" where
  "line_form (Entry name ws) \<longleftrightarrow>
     word name \<and> hd name \<noteq> CHR ''#'' \<and> (\<forall>w \<in> set ws. plain_word w) \<and>
     length name + length (join_words ws) + 3 \<le> LINE_MAX_SIZE"
| "line_form (Bare name w) \<longleftrightarrow>
     word name \<and> hd name \<noteq> CHR ''#'' \<and> word w \<and> hd w \<noteq> quote \<and> length name + length w + 1 \<le> LINE_MAX_SIZE"
| "line_form (Comment c) \<longleftrightarrow>
     newline \<notin> set c \<and> NUL \<notin> set c \<and> length c < LINE_MAX_SIZE"

definition line_fits :: "nat \<Rightarrow> config_map \<Rightarrow> cfg_line \<Rightarrow> bool" where
  "line_fits usable m l \<longleftrightarrow> (\<forall>name v. line_value l = Some (name, v) \<longrightarrow> fits usable m name v)"

definition line_ok :: "nat \<Rightarrow> config_map \<Rightarrow> cfg_line \<Rightarrow> bool" where
  "line_ok usable m l \<longleftrightarrow> line_form l \<and> line_fits usable m l"

definition value_state :: "string \<Rightarrow> config_map \<Rightarrow> config_parser" where
  "value_state name m = \<lparr>property = name, get_property = False, pvalue = [], get_value = True,
     is_string_value = False, cfg = m\<rparr>"

lemma property_token:
  "hd name \<noteq> CHR ''#'' \<Longrightarrow>
   parse_token usable name (init_parser m) next_line = Inr (value_state name m, next_line, False)"
  by (simp add: parse_token_def init_parser_def after_token_def value_state_def)

text \<open>A value that is one token, quoted or not.\<close>

lemma whole_token:
  assumes "token = quote # w @ [quote] \<and> (w = [] \<or> plain_word w) \<or> token = w \<and> word w \<and> hd w \<noteq> quote"
  shows "parse_token usable token (value_state name m) next_line =
    result_bind (put_entry usable m name w) (\<lambda>m.
      Inr ((value_state name m)\<lparr>pvalue := w, get_value := False\<rparr>, True, False))"
proof -
  have "take_value token (value_state name m) = Inr ((value_state name m)\<lparr>pvalue := w, get_value := False\<rparr>)"
    using assms by (auto simp: take_value_def strcat_def Let_def value_state_def butlast_append plain_word_def word_def)
  then show ?thesis
    by (simp add: parse_token_def after_token_def set_config_value_entry value_state_def result_bind_assoc)
qed

lemma opening_token:
  assumes "plain_word w"
  shows "parse_token usable (quote # w) (value_state name m) next_line =
    Inr ((value_state name m)\<lparr>pvalue := w, is_string_value := True\<rparr>, next_line, False)"
proof -
  have "w \<noteq> []" "last w \<noteq> quote" "length w \<le> TOKEN_MAX_SIZE"
    using assms by (auto simp: plain_word_def word_def dest: last_in_set)
  then show ?thesis
    by (simp add: parse_token_def take_value_def strcat_def Let_def value_state_def after_token_def)
qed

lemma one_token_value:
  assumes "token = quote # w @ [quote] \<and> (w = [] \<or> plain_word w) \<or> token = w \<and> word w \<and> hd w \<noteq> quote"
  shows "parse_tokens usable (space # token) (value_state name m) False =
    result_bind (put_entry usable m name w) (\<lambda>m. Inr ((value_state name m)\<lparr>pvalue := w, get_value := False\<rparr>, True))"
proof -
  have "word token" using assms by (auto simp: plain_word_def word_def TOKEN_MAX_SIZE_def)
  then show ?thesis
    using whole_token[OF assms, of usable name m False] parse_tokens_next[of token "[]" usable "value_state name m" False]
    by (simp add: parse_tokens_Nil result_bind_assoc)
qed

text \<open>The tokens of a quoted value: none, one or several words.\<close>

lemma value_tokens:
  assumes ws: "\<forall>w \<in> set ws. plain_word w" and len: "length (join_words ws) \<le> TOKEN_MAX_SIZE"
  shows "parse_tokens usable (space # quote # join_words ws @ [quote]) (value_state name m) False =
    result_bind (put_entry usable m name (join_words ws)) (\<lambda>m.
      Inr ((value_state name m)\<lparr>pvalue := join_words ws, get_value := False\<rparr>, True))"
proof (cases "length ws \<le> 1")
  case True
  have w: "join_words ws = [] \<or> plain_word (join_words ws)" using True ws by (cases ws) auto
  then show ?thesis using one_token_value[of "quote # join_words ws @ [quote]" "join_words ws"] by simp
next
  case False
  then obtain w ws' where ws': "ws = w # ws'" "ws' \<noteq> []" by (cases ws) auto
  then have w: "plain_word w" "word (quote # w)" "w \<noteq> []"
    using ws by (auto simp: plain_word_def word_def)
  let ?st = "(value_state name m)\<lparr>pvalue := w, is_string_value := True\<rparr>"
  have "parse_tokens usable (space # join_words ws' @ [quote]) ?st False =
    result_bind (put_entry usable (cfg ?st) (property ?st) (pvalue ?st @ space # join_words ws')) (\<lambda>m.
      Inr (?st\<lparr>pvalue := pvalue ?st @ space # join_words ws', is_string_value := False,
        get_value := False, cfg := m\<rparr>, True))"
    using ws ws' len w by (intro string_tail) (auto simp: value_state_def join_words_Cons)
  then show ?thesis
    using opening_token[OF w(1), of usable name m False] ws' w
      parse_tokens_next[of "quote # w" "space # join_words ws' @ [quote]" usable
        "value_state name m" False]
    by (simp add: join_words_Cons value_state_def)
qed

lemma missing_value_init [simp]: "missing_value (init_parser m) = init_parser m"
  by (simp add: missing_value_def init_parser_def)

text \<open>A line whose name is followed by tokens that set a value.\<close>

lemma parse_setting:
  assumes "word name" and "hd name \<noteq> CHR ''#''" and "hd rest = space"
    and "parse_tokens usable rest (value_state name m) False =
      result_bind (put_entry usable m name v) (\<lambda>m. Inr ((value_state name m)\<lparr>pvalue := v, get_value := False\<rparr>, True))"
  shows "parse_line usable (name @ rest) (init_parser m) =
    result_bind (put_entry usable m name v) (\<lambda>m. Inr (init_parser m))"
  using property_token[OF assms(2), of usable m False] parse_tokens_first[OF assms(1), of rest usable "init_parser m" False] assms(3,4)
  by (simp add: parse_line_def result_bind_assoc) (simp add: value_state_def init_parser_def missing_value_def)

lemma parse_line_text:
  assumes "line_form l"
  shows "parse_line usable (line_text l) (init_parser m) = result_bind (put_line usable l m) (\<lambda>m. Inr (init_parser m))"
proof (cases l)
  case (Entry name ws)
  then have "length (join_words ws) \<le> TOKEN_MAX_SIZE"
    using assms by (auto simp: LINE_MAX_SIZE_def TOKEN_MAX_SIZE_def)
  then show ?thesis
    using assms Entry value_tokens[of ws usable name m]
      parse_setting[of name "space # quote # join_words ws @ [quote]" usable m "join_words ws"]
    by (simp add: put_line_def)
next
  case (Bare name w)
  then show ?thesis
    using assms one_token_value[of w w usable name m] parse_setting[of name "space # w" usable m w]
    by (simp add: put_line_def)
next
  case (Comment c)
  let ?s = "CHR ''#'' # c"
  define w where "w = takeWhile (\<lambda>x. x \<noteq> space \<and> x \<noteq> tab) ?s"
  define r where "r = dropWhile (\<lambda>x. x \<noteq> space \<and> x \<noteq> tab) ?s"
  have split: "?s = w @ r" by (simp only: w_def r_def takeWhile_dropWhile_id)
  have "set w \<subseteq> set ?s" "length w \<le> length ?s"
    unfolding w_def by (auto dest: set_takeWhileD intro: length_takeWhile_le)
  then have "NUL \<notin> set w" "length w < TOKEN_MAX_SIZE + 1"
    using assms Comment by (auto simp: LINE_MAX_SIZE_def TOKEN_MAX_SIZE_def)
  moreover have "w \<noteq> []" "set w \<inter> set [space, tab] = {}" "hd w = CHR ''#''"
    by (auto simp: w_def dest: set_takeWhileD)
  moreover have "r = [] \<or> hd r \<in> set [space, tab]"
    using hd_dropWhile[of "\<lambda>x. x \<noteq> space \<and> x \<noteq> tab" ?s] by (auto simp: r_def)
  ultimately have "get_token (TOKEN_MAX_SIZE + 1) ([] @ w @ r) [space, tab] = Inr (length w, w, r)"
    by (intro get_token_word) auto
  with \<open>w \<noteq> []\<close> \<open>hd w = CHR ''#''\<close> have
    "parse_tokens usable ?s (init_parser m) False = Inr ((init_parser m)\<lparr>property := w\<rparr>, True)"
    by (subst parse_tokens.simps) (simp add: split parse_token_def init_parser_def)
  with Comment show ?thesis by (simp add: parse_line_def init_parser_def missing_value_def put_line_def)
qed

section \<open>Whole files\<close>

lemma find_set_entry:
  "hash_find (set_entry m name v) k =
     (if k = name \<and> hash_find m name \<noteq> None then Some v else hash_find m k)"
  by (auto simp: set_entry_def)

lemma fits_apply_line [simp]: "fits usable (apply_line l m) name v = fits usable m name v"
  by (auto simp: apply_line_def fits_def find_set_entry split: option.splits)

lemma line_fits_apply_line [simp]: "line_fits usable (apply_line l' m) l = line_fits usable m l"
  by (simp add: line_fits_def)

lemma put_line_result: "put_line usable l m = (if line_fits usable m l then Inr (apply_line l m) else Inl Buffer_overflow)"
  by (auto simp: put_line_def put_entry_def line_fits_def apply_line_def split: option.splits)

lemma set_join_words: "set (join_words ws) \<subseteq> insert space (\<Union> (set ` set ws))"
  by (induction ws rule: join_words.induct) auto

lemma plain_line_text:
  assumes "line_form l"
  shows "plain_line (line_text l) \<and> length (line_text l) \<le> LINE_MAX_SIZE \<and> line_text l \<noteq> []"
proof (cases l)
  case (Entry name ws)
  moreover have "set (join_words ws) \<inter> {newline, NUL} = {}"
    using assms Entry set_join_words[of ws] by (fastforce simp: plain_word_def word_def)
  ultimately show ?thesis using assms by (auto simp: plain_line_def word_def)
next
  case (Bare name w)
  with assms show ?thesis by (auto simp: plain_line_def word_def)
next
  case (Comment c)
  with assms show ?thesis by (auto simp: plain_line_def)
qed

lemma fold_parse_lines:
  "\<forall>l \<in> set ls. line_form l \<Longrightarrow>
   fold_result (parse_line usable) (map line_text ls) (init_parser m) =
     (if \<forall>l \<in> set ls. line_fits usable m l then Inr (init_parser (fold apply_line ls m)) else Inl Buffer_overflow)"
  by (induction ls arbitrary: m) (auto simp: parse_line_text put_line_result)

lemma parse_config_file_lines:
  assumes "good rd" and "stream rd = text_of texts" and "filter (\<lambda>l. l \<noteq> []) texts = map line_text ls"
    and "\<forall>l \<in> set ls. line_form l"
  shows "if \<forall>l \<in> set ls. line_fits usable m l
    then \<exists>rd'. parse_config_file usable rd m = Inr (fold apply_line ls m, rd') \<and> unread rd' = [] \<and> stream rd' = []
    else parse_config_file usable rd m = Inl Buffer_overflow"
proof -
  have "plain_line l \<and> length l < LINE_MAX_SIZE + 1" if "l \<in> set texts" for l
  proof (cases "l = []")
    case False
    with that have "l \<in> set (map line_text ls)" unfolding assms(3)[symmetric] by simp
    with assms(4) plain_line_text show ?thesis by fastforce
  qed (simp add: plain_line_def)
  then have "text_lines (LINE_MAX_SIZE + 1) texts" by (simp add: text_lines_def)
  from config_lines.fold_lines_delivers[OF _ assms(1,2) this, of "init_parser m" "init_parser m" usable]
  show ?thesis
    unfolding assms(3) fold_parse_lines[OF assms(4)]
    by (auto simp: parse_config_file_def stream_def split: if_splits) (simp add: init_parser_def)
qed

lemma parse_config_file_text:
  assumes "good rd" and "stream rd = text_of (map line_text ls)"
    and "\<forall>l \<in> set ls. line_ok usable m l"
  shows "\<exists>rd'. parse_config_file usable rd m = Inr (fold apply_line ls m, rd') \<and>
    unread rd' = [] \<and> stream rd' = []"
proof -
  have "filter (\<lambda>l. l \<noteq> []) (map line_text ls) = map line_text ls"
    using assms(3) plain_line_text by (fastforce simp: line_ok_def intro: filter_True)
  from parse_config_file_lines[OF assms(1,2) this, of usable m] assms(3) show ?thesis
    by (simp add: line_ok_def split: if_splits)
qed

lemma find_fold_None: "hash_find (fold apply_line ls m) k = None \<longleftrightarrow> hash_find m k = None"
proof (induction ls arbitrary: m)
  case (Cons l ls)
  then show ?case by (auto simp: apply_line_def find_set_entry split: option.splits)
qed simp

lemma find_fold_apply:
  "hash_find (fold apply_line ls m) k =
    (if hash_find m k = None then None
     else case map_of (rev (List.map_filter line_value ls)) k of
       Some v \<Rightarrow> Some v
     | None \<Rightarrow> hash_find m k)"
proof (induction ls rule: rev_induct)
  case (snoc l ls)
  have "List.map_filter line_value (ls @ [l]) = List.map_filter line_value ls @ List.map_filter line_value [l]"
    by (simp add: List.map_filter_def)
  then show ?case
    using snoc find_fold_None[of ls m k]
    by (auto simp: apply_line_def find_set_entry List.map_filter_def split: option.splits)
qed (simp add: List.map_filter_def)

section \<open>What no file can break\<close>

text \<open>The names of a table, and the room every stored value has.\<close>

definition table_ok :: "nat \<Rightarrow> string list \<Rightarrow> config_map \<Rightarrow> bool" where
  "table_ok usable names m \<longleftrightarrow> hash_keys m = names \<and> (\<forall>(k, v) \<in> set m. length v < usable)"

lemma set_config_value_ok:
  assumes "set_config_value usable name v m = Inr (found, m')" and "table_ok usable names m"
  shows "table_ok usable names m'"
proof (cases "hash_find m name")
  case (Some w)
  with assms have "m' = hash_change m name (\<lambda>_. v)" "length v < usable"
    by (auto simp: set_config_value_def split: if_splits)
  with assms(2) show ?thesis
    by (auto simp: table_ok_def) (auto simp: hash_change_def split: if_splits)
qed (use assms in \<open>simp add: set_config_value_def\<close>)

lemma take_value_cfg: "take_value token st = Inr st' \<Longrightarrow> cfg st' = cfg st"
  by (auto simp: take_value_def Let_def result_simps split: if_splits)

lemma parse_token_ok:
  assumes "parse_token usable token st nl = Inr (st', nl', stop)" and "table_ok usable names (cfg st)"
  shows "table_ok usable names (cfg st')"
  using assms set_config_value_ok take_value_cfg[of token st]
  by (auto simp: parse_token_def after_token_def result_simps split: if_splits)

lemma parse_tokens_ok:
  "parse_tokens usable line st nl = Inr (st', nl') \<Longrightarrow> table_ok usable names (cfg st) \<Longrightarrow>
   table_ok usable names (cfg st')"
proof (induction usable line st nl rule: parse_tokens.induct)
  case (1 usable line st nl)
  from 1(2) obtain n token rest where t:
    "get_token (TOKEN_MAX_SIZE + 1) line [space, tab] = Inr (n, token, rest)"
    by (subst (asm) parse_tokens.simps) (auto simp: result_simps)
  show ?case
  proof (cases "n = 0")
    case True
    with 1 t show ?thesis by (subst (asm) parse_tokens.simps) simp
  next
    case False
    with 1(2) t obtain st1 nl1 stop where p: "parse_token usable token st nl = Inr (st1, nl1, stop)"
      "(if stop then Inr (st1, nl1) else parse_tokens usable rest st1 nl1) = Inr (st', nl')"
      by (subst (asm) parse_tokens.simps) (auto simp: result_simps)
    have "table_ok usable names (cfg st1)" using parse_token_ok p(1) 1(3) by blast
    with 1(1)[OF t refl refl _ p(1) refl refl] False p(2) show ?thesis by (cases stop) auto
  qed
qed

lemma parse_line_ok:
  "parse_line usable l st = Inr st' \<Longrightarrow> table_ok usable names (cfg st) \<Longrightarrow>
   table_ok usable names (cfg st')"
  using parse_tokens_ok[of usable l "missing_value st" False _ _ names]
  by (auto simp: parse_line_def missing_value_def result_simps split: if_splits)

section \<open>The configuration's guarantees\<close>

text \<open>A configuration file never adds, removes or reorders names, whatever its contents and however
  it is read, and never leaves a value that does not fit its block: every file either ends in a
  fault or the exit of an overlong line, or leaves a table with the same names.\<close>

lemma parse_config_file_keeps_names:
  assumes "table_ok usable names m" and "parse_config_file usable rd m = Inr (m', rd')"
  shows "table_ok usable names m'"
proof -
  obtain st where "fold_lines (LINE_MAX_SIZE + 1) (parse_line usable) rd (init_parser m) = Inr (st, rd')"
    "m' = cfg st"
    using assms(2) by (auto simp: parse_config_file_def result_simps)
  with fold_lines_invariant[of "\<lambda>st. table_ok usable names (cfg st)" "parse_line usable"] parse_line_ok
    assms(1) show ?thesis by (force simp: init_parser_def)
qed

lemma parse_config_file_keeps_names_witness:
  "\<exists>m' rd'. parse_config_file 24
     \<lparr>unread = [], input_fd = [Chunk (line_text (Entry ''port'' [''5'']) @ [newline])]\<rparr>
     [(''port'', ''48888'')] = Inr (m', rd') \<and> table_ok 24 [''port''] m'"
proof -
  let ?rd = "\<lparr>unread = [], input_fd = [Chunk (line_text (Entry ''port'' [''5'']) @ [newline])]\<rparr>"
  have "line_ok 24 [(''port'', ''48888'')] (Entry ''port'' [''5''])"
    by (simp add: line_ok_def line_fits_def plain_word_def word_def TOKEN_MAX_SIZE_def LINE_MAX_SIZE_def fits_def)
  then obtain m' rd' where p: "parse_config_file 24 ?rd [(''port'', ''48888'')] = Inr (m', rd')"
    using parse_config_file_text[of ?rd "[Entry ''port'' [''5'']]" 24 "[(''port'', ''48888'')]"]
    by (auto simp: good_def stream_def)
  have "table_ok 24 [''port''] [(''port'', ''48888'')]" by (simp add: table_ok_def)
  from parse_config_file_keeps_names[OF this p] p show ?thesis by blast
qed

text \<open>The lines of \<^verbatim>\<open>conf/server.conf.example\<close>, which the server installs when its user has no
  configuration file; \<^verbatim>\<open>set\<close> is a name the program does not know.\<close>

definition example_entries :: "cfg_line list" where
  "example_entries =
     [Comment ''## MTN server config ###'',
      Comment '' name of the server'', Entry ''name'' [''MTN'', ''server''],
      Comment '' subscription expiration time'', Bare ''set'' ''60'',
      Comment '' server description'', Entry ''descr'' [],
      Comment '' listen on port'', Bare ''port'' ''48888'',
      Comment '' level of debug informations to print'', Bare ''debug'' ''0'']"

definition example_lines :: "string list" where
  "example_lines =
     [''### MTN server config ###'', [],
      ''# name of the server'', ''name '' @ quote # ''MTN server'' @ [quote], [],
      ''# subscription expiration time'', ''set 60'', [],
      ''# server description'', ''descr '' @ [quote, quote], [],
      ''# listen on port'', ''port 48888'', [],
      ''# level of debug informations to print'', ''debug 0'']"

definition example_conf :: string where
  "example_conf = text_of example_lines"

definition server_defaults :: config_map where
  "server_defaults =
     [(''debug'', ''0''), (''name'', ''MTN server''), (''descr'', []), (''port'', ''48888'')]"

lemma init_server_config_defaults: "10 < usable \<Longrightarrow> init_server_config usable [] = Inr server_defaults"
  by (simp add: init_server_config_def init_config_def common_config_array_def MTN_CFG_NAME_LEN_def
      hash_add_def SERVER_DEFAULT_PORT_TXT_def server_defaults_def)

text \<open>C11: a configuration file of blank lines, comment lines \<^verbatim>\<open>#...\<close> and entries, each a known or
  unknown name and a value that is either one bare word or a quoted sequence of words without quotes
  separated by single blanks, every line at most 4096 bytes and ended by a newline, is read back as
  written, whatever chunks it arrives in, if no \<^verbatim>\<open>read\<close> fails. If every value of a known name is shorter
  than the block it is copied into (which was requested with the size of a pointer; \<^verbatim>\<open>usable\<close> is what
  malloc grants), then the file is read to its end and afterwards a known name has the value of its last
  entry, or its old value if it has none, and an unknown name is still unknown; otherwise the copy of a
  longer value overflows that block.\<close>

theorem parse_config_file_reads_entries:
  assumes "good rd" and "stream rd = text_of texts" and "filter (\<lambda>l. l \<noteq> []) texts = map line_text ls"
    and "\<forall>l \<in> set ls. line_form l"
  shows "if \<forall>l \<in> set ls. line_fits usable m l
    then \<exists>m' rd'. parse_config_file usable rd m = Inr (m', rd') \<and> unread rd' = [] \<and> stream rd' = [] \<and>
      (\<forall>k. get_config_value m' k =
        (if get_config_value m k = None then None
         else case map_of (rev (List.map_filter line_value ls)) k of
           Some v \<Rightarrow> Some v
         | None \<Rightarrow> get_config_value m k))
    else parse_config_file usable rd m = Inl Buffer_overflow"
proof (cases "\<forall>l \<in> set ls. line_fits usable m l")
  case True
  have get: "get_config_value = hash_find" by (simp add: get_config_value_def fun_eq_iff)
  from parse_config_file_lines[OF assms, of usable m] True obtain rd' where
    "parse_config_file usable rd m = Inr (fold apply_line ls m, rd')" "unread rd' = []" "stream rd' = []"
    by auto
  with True show ?thesis unfolding get by (simp add: find_fold_apply)
qed (use parse_config_file_lines[OF assms, of usable m] in \<open>simp only: if_False\<close>)

lemma parse_config_file_reads_entries_witness:
  "\<exists>m' rd'. parse_config_file 24 \<lparr>unread = [], input_fd = [Chunk example_conf]\<rparr> server_defaults = Inr (m', rd') \<and>
     map (get_config_value m') [''name'', ''descr'', ''port'', ''debug'', ''set''] =
       [Some ''MTN server'', Some [], Some ''48888'', Some ''0'', None]"
proof -
  let ?rd = "\<lparr>unread = [], input_fd = [Chunk example_conf]\<rparr>"
  have g: "good ?rd" "stream ?rd = text_of example_lines"
    by (simp_all add: good_def stream_def example_conf_def text_of_def example_lines_def)
  have f: "filter (\<lambda>l. l \<noteq> []) example_lines = map line_text example_entries"
    by (simp add: example_lines_def example_entries_def)
  have o: "\<forall>l \<in> set example_entries. line_form l" "\<forall>l \<in> set example_entries. line_fits 24 server_defaults l"
    by (simp_all add: example_entries_def plain_word_def word_def TOKEN_MAX_SIZE_def LINE_MAX_SIZE_def
        line_fits_def fits_def server_defaults_def)
  from parse_config_file_reads_entries[OF g f o(1), of 24 server_defaults] o(2) obtain m' rd' where
    p: "parse_config_file 24 ?rd server_defaults = Inr (m', rd')"
      "\<And>k. get_config_value m' k =
        (if get_config_value server_defaults k = None then None
         else case map_of (rev (List.map_filter line_value example_entries)) k of
           Some v \<Rightarrow> Some v
         | None \<Rightarrow> get_config_value server_defaults k)" by auto
  have "map (get_config_value m') [''name'', ''descr'', ''port'', ''debug'', ''set''] =
      [Some ''MTN server'', Some [], Some ''48888'', Some ''0'', None]"
    unfolding list.map p(2)
    by (simp add: example_entries_def List.map_filter_def get_config_value_def server_defaults_def hash_find_def)
  with p(1) show ?thesis by (intro exI conjI) assumption+
qed

text \<open>The server's defaults need 11 usable bytes in a block that was requested with the size of a
  pointer: on an allocator that grants only what was asked for (8), initialising the server
  overflows the block of its name, and with 11 bytes or more it sets up four entries.\<close>

lemma init_server_config_needs_room:
  "init_server_config usable [] =
     (if usable \<le> 10 then Inl Buffer_overflow
      else Inr [(''debug'', ''0''), (''name'', ''MTN server''), (''descr'', []), (''port'', ''48888'')])"
  by (simp add: init_server_config_def init_config_def common_config_array_def MTN_CFG_NAME_LEN_def
      hash_add_def SERVER_DEFAULT_PORT_TXT_def)

text \<open>Loading the server's configuration gives the defaults when the file cannot be opened;
  otherwise every known name gets the value the file last gives it, and the default if it gives
  none.\<close>

lemma load_server_config_result:
  assumes "10 < usable"
    and "load_file home fs (case config_file of Some f \<Rightarrow> f | None \<Rightarrow> USER_SERVER_CFG_FILE) O_RDONLY
      (Some EXAMPLE_SERVER_CFG_FILE) = Inr (fs', fd)"
    and "\<forall>loc. fd = Some loc \<longrightarrow> node_at fs' loc = Some (File (text_of (map line_text ls)))"
    and "\<forall>l \<in> set ls. line_ok usable server_defaults l"
  shows "load_server_config usable home config_file fs [] [] =
    Inr (fs', if fd = None then server_defaults else fold apply_line ls server_defaults, [])"
proof -
  have d: "init_server_config usable [] = Inr server_defaults"
    using assms(1) by (rule init_server_config_defaults)
  have f: "(case config_file of
            Some file \<Rightarrow> load_file home fs file O_RDONLY (Some EXAMPLE_SERVER_CFG_FILE)
          | None \<Rightarrow> load_file home fs USER_SERVER_CFG_FILE O_RDONLY (Some EXAMPLE_SERVER_CFG_FILE)) =
      Inr (fs', fd)"
    using assms(2) by (cases config_file) auto
  show ?thesis
  proof (cases fd)
    case None
    with d f show ?thesis by (simp add: load_server_config_def)
  next
    case (Some loc)
    let ?rd = "\<lparr>unread = [], input_fd = reads LINE_MAX_SIZE fs' loc\<rparr>"
    have "NUL \<notin> set (line_text l)" if "l \<in> set ls" for l
      using that assms(4) plain_line_text by (simp add: plain_line_def line_ok_def)
    then have "good ?rd \<and> stream ?rd = text_of (map line_text ls)"
      using assms(3) Some by (intro reads_file) (auto simp: text_of_def)
    then obtain rd' where "parse_config_file usable ?rd server_defaults =
        Inr (fold apply_line ls server_defaults, rd')" "unread rd' = []"
      using parse_config_file_text[of ?rd ls usable server_defaults] assms(4) by auto
    with d f Some show ?thesis by (simp add: load_server_config_def)
  qed
qed

lemma load_server_config_result_witness:
  "load_server_config 24 None (Some ''/s'')
     \<lparr>nodes = [[''s''] \<mapsto> File (text_of (map line_text [Entry ''port'' [''5'']]))], cwd = [],
       may_change = \<lambda>_. False\<rparr> [] [] =
   Inr (\<lparr>nodes = [[''s''] \<mapsto> File (text_of (map line_text [Entry ''port'' [''5'']]))], cwd = [],
       may_change = \<lambda>_. False\<rparr>, fold apply_line [Entry ''port'' [''5'']] server_defaults, [])"
proof -
  let ?fs = "\<lparr>nodes = [[''s''] \<mapsto> File (text_of (map line_text [Entry ''port'' [''5'']]))], cwd = [],
       may_change = \<lambda>_. False\<rparr>"
  have "line_ok 24 server_defaults (Entry ''port'' [''5''])"
    by (simp add: line_ok_def line_fits_def plain_word_def word_def TOKEN_MAX_SIZE_def LINE_MAX_SIZE_def
        fits_def server_defaults_def)
  moreover have "load_file None ?fs ''/s'' O_RDONLY (Some EXAMPLE_SERVER_CFG_FILE) = Inr (?fs, Some [''s''])"
    by (simp add: load_file_def expand_home_result replace_first_def EXAMPLE_SERVER_CFG_FILE_def
        init_file_def access_ok_def locate_def node_at_def wants_dir_def open_file_def Let_def)
  ultimately show ?thesis
    using load_server_config_result[of 24 None ?fs "Some ''/s''" ?fs "Some [''s'']"
        "[Entry ''port'' [''5'']]"]
    by (simp add: node_at_def)
qed

end
