(* ===== verification/ServerReceiver.thy ===== *)
theory ServerReceiver
  imports Network Config Protocol
begin

text \<open>
  The server's request thread, \<open>mtn-server-receiver.c\<close>, and its table of subscribed clients,
  \<open>mtn-server-client-list.c\<close>. The thread takes datagrams one after another, each with the time
  the clock shows when it is handled and the success of the reply's \<open>sendto\<close>; its state is its
  array, the table, and the replies sent so far. Allocation succeeds.
\<close>

record client_data =
  client_address :: sockaddr_in
  last_update_time :: int

type_synonym client_map = "(sockaddr_in, client_data) hash"

definition current_time :: "int \<Rightarrow> int c_result" where
  "current_time c_time = (if c_time = -1 then Inl (Exit 1) else Inr c_time)"

section \<open>Handling a request\<close>

definition send_response ::
    "bool \<Rightarrow> string \<Rightarrow> mtn_request_type \<Rightarrow> string option c_result" where
  "send_response sent response request_type =
     result_bind (get_response_type_str (MTN_RES_TYPE_LEN + 1)
         (get_response_type (fst (snprintf (MTN_MSG_LEN + 1) response)))) (\<lambda>_.
       result_bind (get_request_type_str (MTN_REQ_TYPE_LEN + 1) request_type) (\<lambda>_.
         result_bind (send_printed (MTN_MSG_LEN + 1) response) (\<lambda>bytes.
           Inr (if sent then Some bytes else None))))"

definition subscribe :: "int \<Rightarrow> sockaddr_in \<Rightarrow> client_map \<Rightarrow> client_map c_result" where
  "subscribe c_time addr clients =
     (case hash_find clients addr of
        Some _ \<Rightarrow>
          result_bind (current_time c_time) (\<lambda>now.
            Inr (hash_change clients addr (\<lambda>client. client\<lparr>last_update_time := now\<rparr>)))
      | None \<Rightarrow>
          result_bind (current_time c_time) (\<lambda>now.
            Inr (hash_add clients addr \<lparr>client_address = addr, last_update_time = now\<rparr>)))"

text \<open>\<open>%s\<close> of a missing value is a NULL argument.\<close>

definition accept_response :: "config_map \<Rightarrow> string c_result" where
  "accept_response config =
     (case (get_config_value config ''name'', get_config_value config ''descr'') of
        (Some n, Some d) \<Rightarrow>
          Inr (MTN_RESPONSE_TXT @ [space] @ MTN_RES_ACCEPT_TXT @ [newline] @ ''name '' @ n @
            [newline] @ ''descr '' @ d)
      | _ \<Rightarrow> Inl Null_pointer)"

definition receive_subscription ::
    "config_map \<Rightarrow> int \<Rightarrow> bool \<Rightarrow> sockaddr_in \<Rightarrow> client_map \<Rightarrow>
     (client_map \<times> string option) c_result" where
  "receive_subscription config c_time sent addr clients =
     result_bind (subscribe c_time addr clients) (\<lambda>clients.
       result_bind (accept_response config) (\<lambda>response.
         result_bind (send_response sent response MTN_REQ_SUBSCR) (\<lambda>reply.
           Inr (clients, reply))))"

definition receive_resend ::
    "string \<Rightarrow> sockaddr_in \<Rightarrow> client_map \<Rightarrow> (client_map \<times> string option) c_result" where
  "receive_resend msg addr clients = Inr (clients, None)"

definition server_dispatch ::
    "config_map \<Rightarrow> int \<Rightarrow> bool \<Rightarrow> string \<Rightarrow> sockaddr_in \<Rightarrow> client_map \<Rightarrow>
     (client_map \<times> string option) c_result" where
  "server_dispatch config c_time sent msg addr clients =
     (case get_message_type msg of
        MTN_REQUEST \<Rightarrow>
          (case get_request_type msg of
             MTN_REQ_SUBSCR \<Rightarrow> receive_subscription config c_time sent addr clients
           | MTN_REQ_RESEND \<Rightarrow> receive_resend msg addr clients
           | _ \<Rightarrow> Inr (clients, None))
      | _ \<Rightarrow> Inr (clients, None))"

text \<open>One turn of the loop; the last component of the result says whether the loop goes on.\<close>

fun server_receive ::
    "config_map \<Rightarrow> int \<Rightarrow> bool \<Rightarrow> incoming \<Rightarrow> string \<Rightarrow> client_map \<Rightarrow>
     (string \<times> client_map \<times> (sockaddr_in \<times> string) list \<times> bool) c_result" where
  "server_receive config c_time sent Recv_failed msg clients = Inl Buffer_overflow"
| "server_receive config c_time sent (Datagram d addr) msg clients =
     (if d = [] then Inr (msg, clients, [], False)
      else
        let msg_len = length (take MTN_MSG_LEN d);
            msg = receive_into MTN_MSG_LEN msg d
        in if MTN_MSG_TYPE_LEN \<le> msg_len then
             result_bind (server_dispatch config c_time sent msg addr clients) (\<lambda>(clients, reply).
               Inr (msg, clients, case reply of None \<Rightarrow> [] | Some r \<Rightarrow> [(addr, r)], True))
           else Inr (msg, clients, [], True))"

fun request_control_thread ::
    "config_map \<Rightarrow> (int \<times> bool \<times> incoming) list \<Rightarrow> string \<Rightarrow> client_map \<Rightarrow>
     (string \<times> client_map \<times> (sockaddr_in \<times> string) list) c_result" where
  "request_control_thread config [] msg clients = Inr (msg, clients, [])"
| "request_control_thread config ((c_time, sent, d) # ds) msg clients =
     result_bind (server_receive config c_time sent d msg clients) (\<lambda>(msg, clients, replies, go).
       if go then
         result_bind (request_control_thread config ds msg clients) (\<lambda>(msg, clients, replies').
           Inr (msg, clients, replies @ replies'))
       else Inr (msg, clients, replies))"

section \<open>Subscriptions\<close>

definition last_update :: "client_map \<Rightarrow> sockaddr_in \<Rightarrow> int option" where
  "last_update clients a = map_option last_update_time (hash_find clients a)"

text \<open>The table after a subscription is the find-or-add of the table interface.\<close>

lemma subscribe_upsert:
  "t \<noteq> -1 \<Longrightarrow> subscribe t a clients =
     Inr (hash.upsert clients a (\<lambda>client. client\<lparr>last_update_time := t\<rparr>)
       \<lparr>client_address = a, last_update_time = t\<rparr>)"
  by (auto simp: subscribe_def hash.upsert_def current_time_def split: option.splits)

lemma subscribe_result:
  assumes "t \<noteq> -1" and "hash_ok clients"
  shows "\<exists>clients'. subscribe t a clients = Inr clients' \<and> hash_ok clients' \<and>
    (\<forall>b. last_update clients' b =
      (if b = a then Some t else last_update clients b))"
  using assms(2) hash.invar_upsert[OF assms(2)]
  by (auto simp: subscribe_upsert[OF assms(1)] hash.find_upsert last_update_def split: option.splits)

text \<open>The reply, for texts that fit the message.\<close>

definition reply_fits :: "config_map \<Rightarrow> bool" where
  "reply_fits config \<longleftrightarrow> (case accept_response config of Inl _ \<Rightarrow> False | Inr r \<Rightarrow> length r \<le> MTN_MSG_LEN)"

lemma accept_response_type:
  "accept_response config = Inr r \<Longrightarrow> get_response_type (fst (snprintf (MTN_MSG_LEN + 1) r)) = MTN_RES_ACCEPT"
  by (auto simp: accept_response_def snprintf_def get_response_type_iff text_defs MTN_MSG_LEN_def
      split: option.splits)

lemma send_response_accept:
  assumes "accept_response config = Inr r"
  shows "send_response sent r MTN_REQ_SUBSCR =
    result_bind (send_printed (MTN_MSG_LEN + 1) r) (\<lambda>bytes. Inr (if sent then Some bytes else None))"
  using accept_response_type[OF assms]
  by (simp add: send_response_def get_response_type_str_def get_request_type_str_def
      response_type_name_def request_type_name_def text_defs size_defs)

lemma receive_subscription_result:
  assumes "t \<noteq> -1" and "hash_ok clients" and "accept_response config = Inr r"
    and "length r \<le> MTN_MSG_LEN"
  shows "\<exists>clients'. receive_subscription config t sent a clients =
      Inr (clients', if sent then Some r else None) \<and> hash_ok clients' \<and>
    (\<forall>b. last_update clients' b =
      (if b = a then Some t else last_update clients b))"
  using subscribe_result[OF assms(1,2), of a] assms(3,4) send_response_accept[OF assms(3), of sent]
  by (auto simp: receive_subscription_def send_printed_fits less_Suc_eq_le)

text \<open>What a datagram is taken for depends on the datagram alone, unless it has exactly four bytes.\<close>

lemma cstr_before_NUL: "cstr (x @ NUL # r) = cstr x"
  by (induction x) (auto simp: cstr_def)

lemma receive_into_types:
  "get_message_type (receive_into MTN_MSG_LEN buf d) = get_message_type (take MTN_MSG_LEN d)"
  "4 < length d \<Longrightarrow>
     get_request_type (receive_into MTN_MSG_LEN buf d) = get_request_type (take MTN_MSG_LEN d)"
  by (simp_all add: get_message_type_def get_request_type_def strneq_def receive_into_split
      cstr_before_NUL size_defs)

section \<open>The request thread's guarantees\<close>

text \<open>The subscriptions among the events of the thread, by the datagrams alone.\<close>

definition asks_subscription :: "string \<Rightarrow> bool" where
  "asks_subscription d \<longleftrightarrow> 4 < length d \<and> get_message_type (take MTN_MSG_LEN d) = MTN_REQUEST \<and>
     get_request_type (take MTN_MSG_LEN d) = MTN_REQ_SUBSCR"

fun subscription_of :: "int \<times> bool \<times> incoming \<Rightarrow> (int \<times> bool \<times> sockaddr_in) list" where
  "subscription_of (t, sent, Datagram d a) = (if asks_subscription d then [(t, sent, a)] else [])"
| "subscription_of (t, sent, Recv_failed) = []"

definition subscriptions :: "(int \<times> bool \<times> incoming) list \<Rightarrow> (int \<times> bool \<times> sockaddr_in) list" where
  "subscriptions evs = concat (map subscription_of evs)"

fun note_subscription ::
    "int \<times> bool \<times> sockaddr_in \<Rightarrow> (sockaddr_in \<Rightarrow> int option) \<Rightarrow> sockaddr_in \<Rightarrow> int option" where
  "note_subscription (t, sent, a) f = f(a \<mapsto> t)"

fun ordinary :: "int \<times> bool \<times> incoming \<Rightarrow> bool" where
  "ordinary (t, sent, Datagram d a) = (t \<noteq> -1 \<and> d \<noteq> [] \<and> length d \<noteq> 4)"
| "ordinary (t, sent, Recv_failed) = False"

lemma server_receive_ordinary:
  assumes "ordinary (t, sent, Datagram d a)" and "hash_ok clients" and "accept_response config = Inr r"
    and "length r \<le> MTN_MSG_LEN"
  shows "\<exists>buf' clients'. server_receive config t sent (Datagram d a) buf clients =
      Inr (buf', clients', if asks_subscription d \<and> sent then [(a, r)] else [], True) \<and>
    hash_ok clients' \<and>
    last_update clients' = (if asks_subscription d then (last_update clients)(a \<mapsto> t) else last_update clients)"
proof (cases "4 < length d")
  case False
  then have "\<not> MTN_MSG_TYPE_LEN \<le> length (take MTN_MSG_LEN d)" "\<not> asks_subscription d" "d \<noteq> []"
    using assms(1) by (auto simp: size_defs asks_subscription_def)
  with False assms(2) show ?thesis by (auto simp: Let_def size_defs)
next
  case True
  let ?b = "receive_into MTN_MSG_LEN buf d"
  obtain clients' where c: "receive_subscription config t sent a clients =
      Inr (clients', if sent then Some r else None)" "hash_ok clients'"
      "\<forall>b. last_update clients' b = (if b = a then Some t else last_update clients b)"
    using receive_subscription_result[OF _ assms(2-4), of t sent a] assms(1) by auto
  have u: "last_update clients' = (last_update clients)(a \<mapsto> t)" using c(3) by auto
  have "\<exists>clients'. server_dispatch config t sent ?b a clients =
      Inr (clients', if asks_subscription d \<and> sent then Some r else None) \<and> hash_ok clients' \<and>
      last_update clients' = (if asks_subscription d then (last_update clients)(a \<mapsto> t) else last_update clients)"
    using c(1,2) u assms(2) True
    by (auto simp: server_dispatch_def asks_subscription_def receive_into_types receive_resend_def
        split: mtn_message_type.splits mtn_request_type.splits)
  moreover have "MTN_MSG_TYPE_LEN \<le> length (take MTN_MSG_LEN d)" "d \<noteq> []"
    using True by (auto simp: size_defs)
  ultimately show ?thesis by (auto simp: Let_def)
qed

text \<open>C30: over any traffic of ordinary datagrams (not empty and not of exactly four bytes) the thread keeps
  one entry per client, whose time is that of the client's last subscription request; it answers
  every subscription whose reply can be sent with the accepting response, in order, and nothing
  else; other datagrams change nothing.\<close>

theorem subscriptions_are_recorded:
  assumes "\<forall>ev \<in> set evs. ordinary ev" and "hash_ok clients" and "accept_response config = Inr r"
    and "length r \<le> MTN_MSG_LEN"
  shows "\<exists>buf' clients'. request_control_thread config evs buf clients =
      Inr (buf', clients', map (\<lambda>(t, sent, a). (a, r)) (filter (\<lambda>(t, sent, a). sent) (subscriptions evs))) \<and>
    hash_ok clients' \<and>
    last_update clients' = fold note_subscription (subscriptions evs) (last_update clients)"
  using assms(1,2)
proof (induction evs arbitrary: buf clients)
  case Nil
  then show ?case by (simp add: subscriptions_def)
next
  case (Cons ev evs)
  obtain t sent d a where ev: "ev = (t, sent, Datagram d a)"
    using Cons.prems(1) by (cases ev rule: ordinary.cases) auto
  obtain buf' clients' where step: "server_receive config t sent (Datagram d a) buf clients =
      Inr (buf', clients', if asks_subscription d \<and> sent then [(a, r)] else [], True)"
      "hash_ok clients'" "last_update clients' =
        (if asks_subscription d then (last_update clients)(a \<mapsto> t) else last_update clients)"
    using server_receive_ordinary[OF _ Cons.prems(2) assms(3,4), of t sent d a buf] Cons.prems(1) ev
    by auto
  obtain buf'' clients'' where "request_control_thread config evs buf' clients' =
      Inr (buf'', clients'', map (\<lambda>(t, sent, a). (a, r)) (filter (\<lambda>(t, sent, a). sent) (subscriptions evs)))"
      "hash_ok clients''"
      "last_update clients'' = fold note_subscription (subscriptions evs) (last_update clients')"
    using Cons.IH[of clients' buf'] Cons.prems(1) step(2) by auto
  with step ev show ?case by (auto simp: subscriptions_def)
qed

lemma subscriptions_are_recorded_witness:
  "\<exists>buf' clients' replies. request_control_thread server_defaults
      [(10, True, Datagram ''RQST SUBSCR'' \<lparr>sin_addr = [1, 2, 3, 4], sin_port = 5\<rparr>),
       (20, True, Datagram ''hello'' \<lparr>sin_addr = [6, 7, 8, 9], sin_port = 5\<rparr>)] (replicate 1025 NUL) [] =
      Inr (buf', clients', replies) \<and> last_update clients' = [\<lparr>sin_addr = [1, 2, 3, 4], sin_port = 5\<rparr> \<mapsto> 10]"
proof -
  let ?a = "\<lparr>sin_addr = [1, 2, 3, 4], sin_port = 5 :: 16 word\<rparr>"
  let ?b = "\<lparr>sin_addr = [6, 7, 8, 9], sin_port = 5 :: 16 word\<rparr>"
  let ?evs = "[(10, True, Datagram ''RQST SUBSCR'' ?a), (20, True, Datagram ''hello'' ?b)]"
  let ?r = "''RSPS ACCEPT'' @ [newline] @ ''name MTN server'' @ [newline] @ ''descr ''"
  have r: "accept_response server_defaults = Inr ?r"
    by (simp add: accept_response_def get_config_value_def hash_find_def server_defaults_def text_defs)
  have "asks_subscription ''RQST SUBSCR''" "\<not> asks_subscription ''hello''"
    by (simp_all add: asks_subscription_def get_message_type_iff get_request_type_iff MTN_MSG_LEN_def)
  then have s: "subscriptions ?evs = [(10, True, ?a)]" by (simp add: subscriptions_def)
  have "last_update [] = Map.empty" by (simp add: last_update_def fun_eq_iff hash_find_def)
  with subscriptions_are_recorded[OF _ _ r, of ?evs "[]" "replicate 1025 NUL"] show ?thesis
    unfolding s by (auto simp: hash_ok_def MTN_MSG_LEN_def)
qed

text \<open>A datagram of the four bytes RQST is read past its end: after a subscription request of any
  client, it is handled as another subscription request, of its own sender.\<close>

lemma four_byte_request_misread:
  assumes "t \<noteq> -1" and "u \<noteq> -1" and "hash_ok clients" and "accept_response config = Inr r"
    and "length r \<le> MTN_MSG_LEN" and "length buf = MTN_MSG_LEN + 1"
  shows "\<exists>buf' clients'. request_control_thread config
      [(t, True, Datagram ''RQST SUBSCR'' a), (u, True, Datagram ''RQST'' b)] buf clients =
      Inr (buf', clients', [(a, r), (b, r)]) \<and> last_update clients' b = Some u"
proof -
  let ?b1 = "receive_into MTN_MSG_LEN buf ''RQST SUBSCR''"
  let ?b2 = "receive_into MTN_MSG_LEN ?b1 ''RQST''"
  have b: "?b1 = ''RQST SUBSCR'' @ NUL # drop (Suc (length ''RQST SUBSCR'')) buf"
    "?b2 = ''RQST'' @ NUL # ''SUBSCR'' @ NUL # drop (Suc (length ''RQST SUBSCR'')) buf"
    by (simp_all add: receive_into_split MTN_MSG_LEN_def)
  have types: "get_message_type ?b1 = MTN_REQUEST" "get_request_type ?b1 = MTN_REQ_SUBSCR"
    "get_message_type ?b2 = MTN_REQUEST" "get_request_type ?b2 = MTN_REQ_SUBSCR"
    unfolding get_message_type_iff get_request_type_iff b(2) by (simp_all add: b(1))
  obtain c1 where c1: "receive_subscription config t True a clients = Inr (c1, Some r)" "hash_ok c1"
    using receive_subscription_result[OF assms(1,3-5), of True a] by auto
  obtain c2 where c2: "receive_subscription config u True b c1 = Inr (c2, Some r)"
      "\<forall>x. last_update c2 x = (if x = b then Some u else last_update c1 x)"
    using receive_subscription_result[OF assms(2) c1(2) assms(4,5), of True b] by auto
  show ?thesis
    using c1 c2 types by (simp add: server_dispatch_def size_defs Let_def)
qed

lemma four_byte_request_misread_witness:
  "\<exists>buf' clients' replies. request_control_thread server_defaults
      [(1, True, Datagram ''RQST SUBSCR'' \<lparr>sin_addr = [1, 2, 3, 4], sin_port = 5\<rparr>),
       (2, True, Datagram ''RQST'' \<lparr>sin_addr = [6, 7, 8, 9], sin_port = 5\<rparr>)] (replicate 1025 NUL) [] =
      Inr (buf', clients', replies) \<and> last_update clients' \<lparr>sin_addr = [6, 7, 8, 9], sin_port = 5\<rparr> = Some 2"
proof -
  let ?r = "''RSPS ACCEPT'' @ [newline] @ ''name MTN server'' @ [newline] @ ''descr ''"
  have r: "accept_response server_defaults = Inr ?r"
    by (simp add: accept_response_def get_config_value_def hash_find_def server_defaults_def text_defs)
  from four_byte_request_misread[OF _ _ _ this, of 1 2 "[]" "replicate 1025 NUL"
      "\<lparr>sin_addr = [1, 2, 3, 4], sin_port = 5\<rparr>" "\<lparr>sin_addr = [6, 7, 8, 9], sin_port = 5\<rparr>"]
  show ?thesis by (auto simp: hash_ok_def MTN_MSG_LEN_def)
qed

text \<open>The length \<open>snprintf\<close> returns for the untruncated reply is what is sent: when the configured
  name and description make the reply longer than the array, \<open>sendto\<close> reads beyond it.\<close>

lemma long_reply_reads_past_array:
  assumes "t \<noteq> -1" and "accept_response config = Inr r"
  shows "receive_subscription config t sent a clients = Inl Out_of_bounds_read \<longleftrightarrow>
    MTN_MSG_LEN + 1 < length r"
proof -
  obtain c where "subscribe t a clients = Inr c"
    using subscribe_upsert[OF assms(1)] by blast
  then show ?thesis
    using assms(2) send_response_accept[OF assms(2), of sent]
    by (auto simp: receive_subscription_def send_printed_def snprintf_def)
qed

lemma long_reply_reads_past_array_witness:
  "\<forall>a. receive_subscription [(''name'', replicate 2000 (CHR ''x'')), (''descr'', [])] 1 True a [] =
     Inl Out_of_bounds_read"
proof
  fix a
  have "accept_response [(''name'', replicate 2000 (CHR ''x'')), (''descr'', [])] =
      Inr (''RSPS ACCEPT'' @ [newline] @ ''name '' @ replicate 2000 (CHR ''x'') @ [newline] @ ''descr '')"
    by (simp add: accept_response_def get_config_value_def hash_find_def text_defs)
  from long_reply_reads_past_array[OF _ this, of 1 True a "[]"]
  show "receive_subscription [(''name'', replicate 2000 (CHR ''x'')), (''descr'', [])] 1 True a [] =
      Inl Out_of_bounds_read" by (simp add: MTN_MSG_LEN_def)
qed

end
