(* ===== verification/ServerMessages.thy ===== *)
theory ServerMessages
  imports FileSystem Protocol ServerReceiver
begin

text \<open>
  The server's loading of data messages, \<open>mtn-server-data-message.c\<close>: a signal announces new files,
  and a thread reads every file of the directory of new messages into a message of blocks and
  queues it. The names a directory lists, in the order \<open>readdir\<close> gives them, and the times the
  clock shows are inputs; allocation succeeds and \<open>readdir\<close> does not fail.
\<close>

record data_message =
  release_time :: int
  message_id :: int
  file_name :: string
  blocks_count :: nat
  blocks :: "string list"

text \<open>The two static variables of the thread, the flag of the signal handler, and the queue.\<close>

record loader =
  last_id :: int
  last_release_time :: int
  new_message_available :: bool
  to_send_queue :: "data_message list"

definition USER_NEW_MESSAGE_DIR :: string where
  "USER_NEW_MESSAGE_DIR = ''~/.config/mtn/server/new_messages/''"

definition new_message_signal :: "loader \<Rightarrow> loader" where
  "new_message_signal st = st\<lparr>new_message_available := True\<rparr>"

text \<open>The reading loop: every piece read is copied as a string into a block, until the end or a failure.\<close>

fun read_blocks :: "read_result list \<Rightarrow> string list" where
  "read_blocks [] = []"
| "read_blocks (Read_failed # fd) = []"
| "read_blocks (Chunk buffer # fd) = (if buffer = [] then [] else cstr buffer # read_blocks fd)"

definition next_id :: "loader \<Rightarrow> int \<Rightarrow> int" where
  "next_id st now = (if now = last_release_time st then last_id st + 1 else 0)"

definition queue_message :: "int \<Rightarrow> string \<Rightarrow> string list \<Rightarrow> loader \<Rightarrow> loader" where
  "queue_message now name bs st =
     (let message = \<lparr>release_time = now, message_id = next_id st now, file_name = name,
            blocks_count = length bs, blocks = bs\<rparr>
      in st\<lparr>last_id := message_id message, last_release_time := release_time message,
           to_send_queue := to_send_queue st @ [message]\<rparr>)"

text \<open>One directory entry, with the time at which it is handled.\<close>

definition load_entry ::
    "string option \<Rightarrow> string \<times> int \<Rightarrow> file_system \<times> loader \<Rightarrow> (file_system \<times> loader) c_result" where
  "load_entry home = (\<lambda>(d_name, c_time) (fs, st).
     if streq d_name ''.'' \<or> streq d_name ''..'' then Inr (fs, st)
     else if 4096 \<le> length (USER_NEW_MESSAGE_DIR @ d_name) then Inl Buffer_overflow
     else
       result_bind (load_file home fs (USER_NEW_MESSAGE_DIR @ d_name) O_RDONLY None)
         (\<lambda>(fs, message_file_fd).
           case message_file_fd of
             None \<Rightarrow> Inr (fs, st)
           | Some fd \<Rightarrow>
               let bs = read_blocks (reads MTN_DM_BLOCK_DATA_LEN fs fd) in
               if bs = [] then Inr (fs, st)
               else result_bind (current_time c_time)
                      (\<lambda>now. Inr (fs, queue_message now d_name bs st))))"

text \<open>One turn of the thread after a signal: \<open>listing\<close> is what \<open>readdir\<close> gives.\<close>

definition load_data_messages ::
    "string option \<Rightarrow> (string \<times> int) list \<Rightarrow> file_system \<times> loader \<Rightarrow> (file_system \<times> loader) c_result" where
  "load_data_messages home listing = (\<lambda>(fs, st).
     let st = st\<lparr>new_message_available := False\<rparr> in
     result_bind (load_dir home fs USER_NEW_MESSAGE_DIR) (\<lambda>(fs, dir).
       case dir of
         None \<Rightarrow> Inr (fs, st)
       | Some _ \<Rightarrow> fold_result (load_entry home) listing (fs, st)))"

section \<open>Blocks\<close>

lemma read_blocks_pieces:
  "\<forall>p \<in> set ps. p \<noteq> [] \<Longrightarrow> read_blocks (map Chunk ps) = map cstr ps"
  by (induction ps) auto

lemma read_blocks_file:
  assumes "node_at fs loc = Some (File content)" and "0 < n"
  shows "read_blocks (reads n fs loc) = map cstr (pieces n content)"
  using assms pieces_nonempty[of _ n content] by (auto simp: reads_def intro!: read_blocks_pieces)

lemma length_pieces: "0 < n \<Longrightarrow> length (pieces n s) = (length s + n - 1) div n"
proof (induction n s rule: pieces.induct)
  case (1 n s)
  show ?case
  proof (cases "s = []")
    case True
    with 1 show ?thesis by (subst pieces.simps) simp
  next
    case False
    with 1 have "length (pieces n s) = Suc ((length (drop n s) + n - 1) div n)"
      by (subst pieces.simps) simp
    also have "\<dots> = (length s + n - 1) div n"
    proof (cases "length s \<le> n")
      case True
      have "(length s + n - 1) div n = 1"
        using True False 1(2) by (intro div_nat_eqI) (auto simp: neq_Nil_conv)
      with True 1(2) show ?thesis by simp
    next
      case nle: False
      then have "length s + n - 1 = length (drop n s) + n - 1 + n" using 1(2) by simp
      then show ?thesis using 1(2) by (simp only: div_add_self2) 
    qed
    finally show ?thesis .
  qed
qed

section \<open>Files of a directory\<close>

text \<open>The expanded directory of new messages, and the message a file of it becomes.\<close>

definition in_dir :: "string option \<Rightarrow> string list \<Rightarrow> string \<Rightarrow> bool" where
  "in_dir home ds f \<longleftrightarrow> part f \<and> f \<noteq> ''.'' \<and> f \<noteq> ''..'' \<and> NUL \<notin> set f \<and>
     expand_home home (USER_NEW_MESSAGE_DIR @ f) = Inr (abs_path (ds @ [f])) \<and>
     length (USER_NEW_MESSAGE_DIR @ f) < 4096 \<and> length (abs_path (ds @ [f])) < 4096"

lemma load_existing_file:
  assumes ps: "\<forall>p \<in> set ps. part p" "ps \<noteq> []" "length (abs_path ps) < 4096"
    and home: "expand_home home file = Inr (abs_path ps)" and f: "node_at fs ps = Some (File content)"
  shows "load_file home fs file O_RDONLY None = Inr (fs, Some ps)"
proof -
  have "access_ok fs (abs_path ps)" using access_abs_path(1)[OF ps(1,2)] f by simp
  moreover have "locate fs (abs_path ps) = ps" using locate_abs_path[OF ps(1,2), of "[]"] by simp
  moreover have "abs_path ps \<noteq> []" using ps(2) by (auto simp: abs_path_def neq_Nil_conv)
  ultimately show ?thesis
    using home f ps(3) abs_path_not_dir[OF ps(1)]
    by (simp add: load_file_def init_file_def open_file_def Let_def)
qed

lemma load_entry_file:
  assumes "\<forall>p \<in> set ds. part p" and "in_dir home ds f" and "node_at fs (ds @ [f]) = Some (File content)"
    and "t \<noteq> -1"
  shows "load_entry home (f, t) (fs, st) =
    Inr (fs, if content = [] then st
             else queue_message t f (map cstr (pieces MTN_DM_BLOCK_DATA_LEN content)) st)"
proof -
  have n: "0 < MTN_DM_BLOCK_DATA_LEN" by (simp add: size_defs)
  have "load_file home fs (USER_NEW_MESSAGE_DIR @ f) O_RDONLY None = Inr (fs, Some (ds @ [f]))"
    using assms by (intro load_existing_file[where content = content]) (auto simp: in_dir_def)
  moreover have "pieces MTN_DM_BLOCK_DATA_LEN content = [] \<longleftrightarrow> content = []"
    using n by (subst pieces.simps) auto
  moreover have "\<not> streq f ''.''" "\<not> streq f ''..''" using assms(2) by (auto simp: in_dir_def streq_def)
  ultimately show ?thesis
    using assms read_blocks_file[OF assms(3) n]
    by (simp add: load_entry_def in_dir_def current_time_def Let_def)
qed

text \<open>What a listing of files adds to the queue.\<close>

definition dot_name :: "string \<Rightarrow> bool" where
  "dot_name f \<longleftrightarrow> f = ''.'' \<or> f = ''..''"

fun queue_files :: "(string \<Rightarrow> string) \<Rightarrow> (string \<times> int) list \<Rightarrow> loader \<Rightarrow> loader" where
  "queue_files content [] st = st"
| "queue_files content ((f, t) # listing) st =
     queue_files content listing
       (if dot_name f \<or> content f = [] then st
        else queue_message t f (map cstr (pieces MTN_DM_BLOCK_DATA_LEN (content f))) st)"

lemma load_entry_dot: "dot_name f \<Longrightarrow> load_entry home (f, t) (fs, st) = Inr (fs, st)"
  by (auto simp: load_entry_def dot_name_def streq_def)

lemma in_dir_no_dot: "in_dir home ds f \<Longrightarrow> \<not> dot_name f"
  by (simp add: in_dir_def dot_name_def)

lemma fold_load_entry:
  assumes ds: "\<forall>p \<in> set ds. part p"
  shows "\<forall>(f, t) \<in> set listing. dot_name f \<or> in_dir home ds f \<and> t \<noteq> -1 \<and>
      node_at fs (ds @ [f]) = Some (File (content f)) \<Longrightarrow>
    fold_result (load_entry home) listing (fs, st) = Inr (fs, queue_files content listing st)"
  by (induction listing arbitrary: st) (auto simp: load_entry_file[OF ds] load_entry_dot in_dir_no_dot)

text \<open>The messages a listing adds, and what each of them carries.\<close>

definition carries :: "(string \<Rightarrow> string) \<Rightarrow> data_message \<Rightarrow> bool" where
  "carries content m \<longleftrightarrow>
     blocks m = map cstr (pieces MTN_DM_BLOCK_DATA_LEN (content (file_name m))) \<and>
     blocks_count m = length (blocks m)"

lemma queue_files_queue:
  "\<exists>new. to_send_queue (queue_files content listing st) = to_send_queue st @ new \<and>
     map file_name new = filter (\<lambda>f. \<not> dot_name f \<and> content f \<noteq> []) (map fst listing) \<and>
     (\<forall>m \<in> set new. carries content m)"
proof (induction content listing st rule: queue_files.induct)
  case (2 content f t listing st)
  let ?bs = "map cstr (pieces MTN_DM_BLOCK_DATA_LEN (content f))"
  from 2 obtain new where new: "to_send_queue (queue_files content ((f, t) # listing) st) =
      to_send_queue (if dot_name f \<or> content f = [] then st else queue_message t f ?bs st) @ new"
    "map file_name new = filter (\<lambda>f. \<not> dot_name f \<and> content f \<noteq> []) (map fst listing)"
    "\<forall>m \<in> set new. carries content m" by auto
  define first where "first = (if dot_name f \<or> content f = [] then []
    else [\<lparr>release_time = t, message_id = next_id st t, file_name = f, blocks_count = length ?bs, blocks = ?bs\<rparr>])"
  show ?case
    by (rule exI[of _ "first @ new"]) (use new in \<open>auto simp: first_def queue_message_def Let_def carries_def\<close>)
qed simp

section \<open>Identifiers\<close>

text \<open>What the thread's static variables guarantee for a clock that does not go back.\<close>

definition ids_ok :: "loader \<Rightarrow> bool" where
  "ids_ok st \<longleftrightarrow> distinct (map (\<lambda>m. (release_time m, message_id m)) (to_send_queue st)) \<and>
     (\<forall>m \<in> set (to_send_queue st). release_time m \<le> last_release_time st \<and>
        (release_time m = last_release_time st \<longrightarrow> message_id m \<le> last_id st))"

lemma queue_message_ids:
  assumes "ids_ok st" and "last_release_time st \<le> now"
  shows "ids_ok (queue_message now name bs st) \<and> last_release_time (queue_message now name bs st) = now"
proof -
  have "(now, next_id st now) \<notin> (\<lambda>m. (release_time m, message_id m)) ` set (to_send_queue st)"
  proof
    assume "(now, next_id st now) \<in> (\<lambda>m. (release_time m, message_id m)) ` set (to_send_queue st)"
    then obtain m where m: "m \<in> set (to_send_queue st)" "release_time m = now" "message_id m = next_id st now"
      by auto
    then show False using assms by (fastforce simp: ids_ok_def next_id_def split: if_splits)
  qed
  with assms show ?thesis
    by (fastforce simp: ids_ok_def queue_message_def Let_def next_id_def split: if_splits)
qed

lemma queue_files_flag: "\<not> new_message_available st \<Longrightarrow> \<not> new_message_available (queue_files content listing st)"
  by (induction content listing st rule: queue_files.induct) (auto simp: queue_message_def Let_def)

lemma load_data_messages_run:
  assumes "\<forall>p \<in> set ds. part p" and "ds \<noteq> []" and "node_at fs ds = Some Dir"
    and "expand_home home USER_NEW_MESSAGE_DIR = Inr (abs_path ds @ ''/'')"
    and "\<forall>(f, t) \<in> set listing. dot_name f \<or> in_dir home ds f \<and> t \<noteq> -1 \<and>
      node_at fs (ds @ [f]) = Some (File (content f))"
  shows "load_data_messages home listing (fs, st) =
    Inr (fs, queue_files content listing (st\<lparr>new_message_available := False\<rparr>))"
proof -
  have "load_dir home fs USER_NEW_MESSAGE_DIR = Inr (fs, Some ds)"
    using assms(3,4) locate_abs_path[OF assms(1,2), of "''/''" fs] init_dir_abs_path_slash[OF assms(1,2), of fs]
    by (simp add: load_dir_def Let_def)
  with fold_load_entry[OF assms(1,5)] show ?thesis by (simp add: load_data_messages_def)
qed

section \<open>The loading's guarantees\<close>

text \<open>C12: if the directory of new messages exists and everything \<open>readdir\<close> lists in it is \<^verbatim>\<open>.\<close>,
  \<^verbatim>\<open>..\<close> or a file, under paths below 4096 bytes, and if neither allocation nor \<open>time\<close> fails, then a turn
  of the loading thread turns every non-empty file of the listing, in its order, into one message behind those
  already queued, and nothing else; the blocks of a message are the consecutive pieces of 1002 bytes
  of its file, each cut at its first NUL byte, as many as it announces, and of a file without NUL bytes they are
  the whole content; the flag of the signal is reset, and the file system stays as it is.\<close>

theorem load_data_messages_queues_files:
  assumes "\<forall>p \<in> set ds. part p" and "ds \<noteq> []" and "node_at fs ds = Some Dir"
    and "expand_home home USER_NEW_MESSAGE_DIR = Inr (abs_path ds @ ''/'')"
    and "\<forall>(f, t) \<in> set listing. dot_name f \<or> in_dir home ds f \<and> t \<noteq> -1 \<and>
      node_at fs (ds @ [f]) = Some (File (content f))"
  shows "\<exists>st' new. load_data_messages home listing (fs, st) = Inr (fs, st') \<and>
    to_send_queue st' = to_send_queue st @ new \<and>
    map file_name new = filter (\<lambda>f. \<not> dot_name f \<and> content f \<noteq> []) (map fst listing) \<and>
    (\<forall>m \<in> set new. blocks m = map cstr (pieces 1002 (content (file_name m))) \<and>
       blocks_count m = length (blocks m) \<and>
       blocks_count m = (length (content (file_name m)) + 1001) div 1002 \<and>
       (NUL \<notin> set (content (file_name m)) \<longrightarrow> concat (blocks m) = content (file_name m))) \<and>
    \<not> new_message_available st'"
proof -
  let ?st = "st\<lparr>new_message_available := False\<rparr>"
  have blocks: "length (map cstr (pieces 1002 c)) = (length c + 1001) div 1002 \<and>
      (NUL \<notin> set c \<longrightarrow> concat (map cstr (pieces 1002 c)) = c)" for c
  proof -
    have "map cstr (pieces 1002 c) = pieces 1002 c" if "NUL \<notin> set c"
    proof (rule map_idI)
      fix p assume "p \<in> set (pieces 1002 c)"
      then have "set p \<subseteq> set (concat (pieces 1002 c))" by auto
      with that show "cstr p = p" by (intro cstr_NUL_free) (auto simp: concat_pieces)
    qed
    then show ?thesis using length_pieces[of 1002 c] concat_pieces[of 1002 c] by simp
  qed
  obtain new where "to_send_queue (queue_files content listing ?st) = to_send_queue ?st @ new"
    "map file_name new = filter (\<lambda>f. \<not> dot_name f \<and> content f \<noteq> []) (map fst listing)"
    "\<forall>m \<in> set new. carries content m"
    using queue_files_queue by blast
  with load_data_messages_run[OF assms] queue_files_flag[of ?st content listing] blocks show ?thesis
    by (auto simp: carries_def size_defs simp del: length_map map_eq_conv)
qed

lemma load_data_messages_queues_files_witness:
  "\<exists>st'. load_data_messages (Some ''/h'') [(''.'', 7), (''f'', 7), (''..'', 8), (''e'', 8)]
     (\<lparr>nodes = [[''h'', ''.config'', ''mtn'', ''server'', ''new_messages''] \<mapsto> Dir,
        [''h'', ''.config'', ''mtn'', ''server'', ''new_messages'', ''f''] \<mapsto> File ''hello'',
        [''h'', ''.config'', ''mtn'', ''server'', ''new_messages'', ''e''] \<mapsto> File []],
        cwd = [], may_change = \<lambda>_. True\<rparr>,
      \<lparr>last_id = 0, last_release_time = 0, new_message_available = True, to_send_queue = []\<rparr>) =
    Inr (\<lparr>nodes = [[''h'', ''.config'', ''mtn'', ''server'', ''new_messages''] \<mapsto> Dir,
        [''h'', ''.config'', ''mtn'', ''server'', ''new_messages'', ''f''] \<mapsto> File ''hello'',
        [''h'', ''.config'', ''mtn'', ''server'', ''new_messages'', ''e''] \<mapsto> File []],
        cwd = [], may_change = \<lambda>_. True\<rparr>, st') \<and> map file_name (to_send_queue st') = [''f'']"
proof -
  let ?ds = "[''h'', ''.config'', ''mtn'', ''server'', ''new_messages'']"
  let ?fs = "\<lparr>nodes = [?ds \<mapsto> Dir, ?ds @ [''f''] \<mapsto> File ''hello'', ?ds @ [''e''] \<mapsto> File []],
        cwd = [], may_change = \<lambda>_. True\<rparr>"
  let ?c = "\<lambda>f. if f = ''f'' then ''hello'' else []"
  have home: "expand_home (Some ''/h'') (USER_NEW_MESSAGE_DIR @ f) = Inr (abs_path (?ds @ [f]))"
    if "f = ''f'' \<or> f = ''e''" for f
    using that by (auto simp: expand_home_result replace_first_def replacement_text_def
        abs_path_def USER_NEW_MESSAGE_DIR_def)
  have dir: "expand_home (Some ''/h'') USER_NEW_MESSAGE_DIR = Inr (abs_path ?ds @ ''/'')"
    by (simp add: expand_home_result replace_first_def replacement_text_def abs_path_def
        USER_NEW_MESSAGE_DIR_def)
  have "in_dir (Some ''/h'') ?ds ''f''" "in_dir (Some ''/h'') ?ds ''e''"
    using home by (simp_all add: in_dir_def part_def abs_path_def USER_NEW_MESSAGE_DIR_def)
  then show ?thesis
    using load_data_messages_queues_files[of ?ds ?fs "Some ''/h''" "[(''.'', 7), (''f'', 7), (''..'', 8), (''e'', 8)]" ?c
        "\<lparr>last_id = 0, last_release_time = 0, new_message_available = True, to_send_queue = []\<rparr>"] dir
    by (auto simp: part_def node_at_def dot_name_def)
qed

lemma load_entry_ids:
  assumes "load_entry home (f, t) (fs, st) = Inr (fs', st')" and "ids_ok st" and "last_release_time st \<le> t"
  shows "ids_ok st' \<and> last_release_time st' \<in> {last_release_time st, t}"
  using assms queue_message_ids[OF assms(2,3)]
  by (auto simp: load_entry_def result_simps current_time_def Let_def split: if_splits option.splits)

lemma fold_load_entry_ids:
  "fold_result (load_entry home) listing (fs, st) = Inr (fs', st') \<Longrightarrow> ids_ok st \<Longrightarrow>
   sorted (last_release_time st # map snd listing) \<Longrightarrow> ids_ok st'"
proof (induction listing arbitrary: fs st)
  case (Cons e listing)
  obtain f t where e: "e = (f, t)" by (cases e)
  obtain fs1 st1 where step: "load_entry home (f, t) (fs, st) = Inr (fs1, st1)"
    "fold_result (load_entry home) listing (fs1, st1) = Inr (fs', st')"
    using Cons.prems(1) e by (auto simp: result_simps)
  have "ids_ok st1 \<and> last_release_time st1 \<in> {last_release_time st, t}"
    using load_entry_ids[OF step(1) Cons.prems(2)] Cons.prems(3) e by simp
  with Cons.IH[OF step(2)] Cons.prems(3) e show ?case by auto
qed simp

text \<open>Messages are told apart by their release time and identifier as long as the clock does not go
  back: over any listing of any directory, loaded at non-decreasing times, no two queued messages
  share both, and the static variables keep what makes it hold for the next listing.\<close>

lemma message_ids_are_unique:
  assumes "load_data_messages home listing (fs, st) = Inr (fs', st')" and "ids_ok st"
    and "sorted (last_release_time st # map snd listing)"
  shows "ids_ok st' \<and> distinct (map (\<lambda>m. (release_time m, message_id m)) (to_send_queue st'))"
proof -
  let ?st = "st\<lparr>new_message_available := False\<rparr>"
  have st: "ids_ok ?st" "sorted (last_release_time ?st # map snd listing)"
    using assms(2,3) by (simp_all add: ids_ok_def)
  obtain fs1 d where "load_dir home fs USER_NEW_MESSAGE_DIR = Inr (fs1, d)"
    using assms(1) by (auto simp: load_data_messages_def result_simps Let_def)
  with assms(1) st have "ids_ok st'"
    by (cases d) (auto simp: load_data_messages_def intro: fold_load_entry_ids[of home listing fs1 ?st])
  then show ?thesis by (simp add: ids_ok_def)
qed

lemma message_ids_are_unique_witness:
  "\<forall>fs. \<exists>fs' st'. load_data_messages None []
     (fs, \<lparr>last_id = 3, last_release_time = 5, new_message_available = True, to_send_queue =
       [\<lparr>release_time = 5, message_id = 3, file_name = ''f'', blocks_count = 1, blocks = [''x'']\<rparr>]\<rparr>) = Inr (fs', st') \<and> ids_ok st'"
proof
  fix fs
  let ?st = "\<lparr>last_id = 3, last_release_time = 5, new_message_available = True, to_send_queue =
       [\<lparr>release_time = 5, message_id = 3, file_name = ''f'', blocks_count = 1, blocks = [''x'']\<rparr>]\<rparr>"
  have "\<exists>fs' st'. load_data_messages None [] (fs, ?st) = Inr (fs', st')"
    by (auto simp: load_data_messages_def load_dir_def expand_home_result replace_first_def
        replacement_text_def USER_NEW_MESSAGE_DIR_def Let_def)
  then obtain fs' st' where run: "load_data_messages None [] (fs, ?st) = Inr (fs', st')" by blast
  have "ids_ok ?st" by (simp add: ids_ok_def)
  from message_ids_are_unique[OF run this] run
  show "\<exists>fs' st'. load_data_messages None [] (fs, ?st) = Inr (fs', st') \<and> ids_ok st'" by auto
qed

text \<open>A NUL byte in a file ends its block: the rest of the piece read is not sent, and the number of
  blocks does not show it.\<close>

lemma NUL_truncates_block:
  assumes "NUL \<notin> set a" and "length (a @ NUL # b) \<le> 1002" and "node_at fs loc = Some (File (a @ NUL # b))"
  shows "read_blocks (reads MTN_DM_BLOCK_DATA_LEN fs loc) = [a]"
proof -
  have "pieces 1002 (a @ NUL # b) = [a @ NUL # b]"
    using assms(2) by (subst pieces.simps) (simp add: pieces.simps)
  then show ?thesis
    using read_blocks_file[OF assms(3), of 1002] assms(1) by (simp add: size_defs)
qed

lemma NUL_truncates_block_witness:
  "read_blocks (reads MTN_DM_BLOCK_DATA_LEN
     \<lparr>nodes = [[''f''] \<mapsto> File (''ab'' @ NUL # ''cd'')], cwd = [], may_change = \<lambda>_. True\<rparr> [''f'']) = [''ab'']"
  using NUL_truncates_block[of "''ab''" "''cd''"] by (simp add: node_at_def)

text \<open>A file stays in the directory until its message has been transmitted, so a second signal
  before that queues it again: two turns over the same files queue every message twice.\<close>

lemma second_signal_queues_again:
  assumes "\<forall>p \<in> set ds. part p" and "ds \<noteq> []" and "node_at fs ds = Some Dir"
    and "expand_home home USER_NEW_MESSAGE_DIR = Inr (abs_path ds @ ''/'')"
    and "\<forall>(f, t) \<in> set listing. in_dir home ds f \<and> t \<noteq> -1 \<and>
      node_at fs (ds @ [f]) = Some (File (content f)) \<and> content f \<noteq> []"
  shows "\<exists>st'. result_bind (load_data_messages home listing (fs, st)) (load_data_messages home listing) =
      Inr (fs, st') \<and>
    map file_name (to_send_queue st') =
      map file_name (to_send_queue st) @ map fst listing @ map fst listing"
proof -
  have f: "filter (\<lambda>f. \<not> dot_name f \<and> content f \<noteq> []) (map fst listing) = map fst listing"
    using assms(5) in_dir_no_dot by (intro filter_True) fastforce
  have "map file_name (to_send_queue (queue_files content listing s)) =
      map file_name (to_send_queue s) @ map fst listing" for s
    using queue_files_queue[of content listing s] f by auto
  moreover have "load_data_messages home listing (fs, s) =
      Inr (fs, queue_files content listing (s\<lparr>new_message_available := False\<rparr>))" for s
    using assms(5) by (intro load_data_messages_run[OF assms(1-4)]) auto
  ultimately show ?thesis by simp
qed

lemma second_signal_queues_again_witness:
  "\<exists>st'. result_bind (load_data_messages (Some ''/h'') [(''f'', 7)]
     (\<lparr>nodes = [[''h'', ''.config'', ''mtn'', ''server'', ''new_messages''] \<mapsto> Dir,
        [''h'', ''.config'', ''mtn'', ''server'', ''new_messages'', ''f''] \<mapsto> File ''hello''],
        cwd = [], may_change = \<lambda>_. True\<rparr>,
      \<lparr>last_id = 0, last_release_time = 0, new_message_available = True, to_send_queue = []\<rparr>))
     (load_data_messages (Some ''/h'') [(''f'', 7)]) =
    Inr (\<lparr>nodes = [[''h'', ''.config'', ''mtn'', ''server'', ''new_messages''] \<mapsto> Dir,
        [''h'', ''.config'', ''mtn'', ''server'', ''new_messages'', ''f''] \<mapsto> File ''hello''],
        cwd = [], may_change = \<lambda>_. True\<rparr>, st') \<and> map file_name (to_send_queue st') = [''f'', ''f'']"
proof -
  let ?ds = "[''h'', ''.config'', ''mtn'', ''server'', ''new_messages'']"
  let ?fs = "\<lparr>nodes = [?ds \<mapsto> Dir, ?ds @ [''f''] \<mapsto> File ''hello''], cwd = [], may_change = \<lambda>_. True\<rparr>"
  have home: "expand_home (Some ''/h'') (USER_NEW_MESSAGE_DIR @ ''f'') = Inr (abs_path (?ds @ [''f'']))"
    and dir: "expand_home (Some ''/h'') USER_NEW_MESSAGE_DIR = Inr (abs_path ?ds @ ''/'')"
    by (simp_all add: expand_home_result replace_first_def replacement_text_def abs_path_def
        USER_NEW_MESSAGE_DIR_def)
  then have "in_dir (Some ''/h'') ?ds ''f''"
    by (simp add: in_dir_def part_def abs_path_def USER_NEW_MESSAGE_DIR_def)
  then show ?thesis
    using second_signal_queues_again[of ?ds ?fs "Some ''/h''" "[(''f'', 7)]" "\<lambda>_. ''hello''"
        "\<lparr>last_id = 0, last_release_time = 0, new_message_available = True, to_send_queue = []\<rparr>"] dir
    by (simp add: part_def node_at_def)
qed

end
