(* ===== verification/Transmitter.thy ===== *)
theory Transmitter
  imports ServerMessages
begin

text \<open>
  The sending of a data message to one client, and the round that sends it to every client, of
  \<open>mtn-server-transmitter.c\<close>. The round is a step relation: the transmission thread, one thread
  per client it sends to, and the two semaphores they share.
\<close>

section \<open>Sending a message to a client\<close>

text \<open>
  \<open>release_time_str[10]\<close> is filled by \<open>strftime\<close> with \<open>"%s"\<close>, the seconds since the epoch in decimal. A
  text that does not fit with its terminator leaves the contents of the array undefined; \<open>rest\<close> is the
  string then found at the array.
\<close>

definition release_time_str :: "string \<Rightarrow> int \<Rightarrow> string" where
  "release_time_str rest t =
     (let seconds = decimal (nat t) in if length seconds < 10 then seconds else rest)"

definition head_text :: "string \<Rightarrow> data_message \<Rightarrow> string" where
  "head_text time_str message =
     MTN_DM_HEAD_TXT @ [space] @ time_str @ [space] @ decimal_prec 3 (nat (message_id message)) @ [space] @
     decimal_prec 3 (blocks_count message)"

definition block_text :: "string \<Rightarrow> data_message \<Rightarrow> nat \<Rightarrow> string \<Rightarrow> string" where
  "block_text time_str message block_number block =
     MTN_DM_BLOCK_TXT @ [space] @ time_str @ [space] @ decimal_prec 3 (nat (message_id message)) @ [space] @
     decimal_prec 3 block_number @ [newline] @ block"

fun send_blocks :: "string \<Rightarrow> data_message \<Rightarrow> nat \<Rightarrow> string list \<Rightarrow> string list c_result" where
  "send_blocks time_str message block_number [] = Inr []"
| "send_blocks time_str message block_number (block # bs) =
     result_bind (send_printed (MTN_MSG_LEN + 1) (block_text time_str message block_number block))
       (\<lambda>d. result_bind (send_blocks time_str message block_number bs) (\<lambda>ds. Inr (d # ds)))"

text \<open>The datagrams handed to \<open>sendto\<close>, in order; its failures are only reported.\<close>

definition send_data_message :: "string \<Rightarrow> data_message \<Rightarrow> string list c_result" where
  "send_data_message rest message =
     (let time_str = release_time_str rest (release_time message) in
      result_bind (send_printed (MTN_MSG_LEN + 1) (head_text time_str message)) (\<lambda>h.
        result_bind (send_blocks time_str message 1 (blocks message)) (\<lambda>ds. Inr (h # ds))))"

text \<open>
  A text that is longer than its array makes \<open>sendto\<close> read behind the array. That may end the process;
  otherwise the datagram has the length of the text, and behind the terminator whatever lay there.
\<close>

fun block_texts :: "string \<Rightarrow> data_message \<Rightarrow> nat \<Rightarrow> string list \<Rightarrow> string list" where
  "block_texts time_str message block_number [] = []"
| "block_texts time_str message block_number (block # bs) =
     block_text time_str message block_number block # block_texts time_str message block_number bs"

definition message_texts :: "string \<Rightarrow> data_message \<Rightarrow> string list" where
  "message_texts rest message =
     (let time_str = release_time_str rest (release_time message) in
      head_text time_str message # block_texts time_str message 1 (blocks message))"

definition too_long :: "string \<Rightarrow> data_message \<Rightarrow> bool" where
  "too_long rest message = (\<exists>s \<in> set (message_texts rest message). MTN_MSG_LEN + 1 < length s)"

definition sent_as :: "string \<Rightarrow> string \<Rightarrow> bool" where
  "sent_as s d =
     (length d = length s \<and> take MTN_MSG_LEN d = take MTN_MSG_LEN s \<and>
      (MTN_MSG_LEN < length s \<longrightarrow> d ! MTN_MSG_LEN = NUL))"

section \<open>The round\<close>

definition MAX_ACTIVE_SENDINGS :: nat where "MAX_ACTIVE_SENDINGS = 3"

text \<open>
  Where the transmission thread is: waiting for a message; at the clients still to visit; in
  \<open>sending_done\<close> for an expired client, before and after its \<open>sem_wait\<close>; at the test of the final
  wait; in that wait; past \<open>sem_destroy\<close>. A sending thread: before its datagrams, after them,
  past its \<open>sem_post\<close>, past the \<open>sem_wait\<close> of \<open>sending_done\<close>.
\<close>

datatype trans_pc =
    Wait_message
  | Visit "sockaddr_in list"
  | Expired_wait "sockaddr_in list"
  | Expired_check "sockaddr_in list"
  | Done_check
  | Done_blocked
  | Finished

datatype sending_pc = Sending | Sent | Posted | Counted

text \<open>The logs say whom the current round is for, whom it was sent to, and who had expired.\<close>

record transmitter =
  queue :: "data_message list"
  sent_map :: "(int \<times> int, data_message) hash"
  clients :: client_map
  max_sendings :: nat
  sending_done :: nat
  pc :: trans_pc
  sendings :: "(sockaddr_in \<times> sending_pc) list"
  time_now :: int
  targets :: "sockaddr_in list"
  sent_log :: "sockaddr_in list"
  expired_log :: "sockaddr_in list"

definition transmission_control :: "data_message list \<Rightarrow> client_map \<Rightarrow> int \<Rightarrow> transmitter" where
  "transmission_control q m t =
     \<lparr>queue = q, sent_map = [], clients = m, max_sendings = MAX_ACTIVE_SENDINGS, sending_done = 0, pc = Wait_message,
      sendings = [], time_now = t, targets = [], sent_log = [], expired_log = []\<rparr>"

text \<open>
  A client that joins is appended to the table. \<open>HASH_ITER\<close> keeps a pointer to the client it visits
  and one to the next; the new client is visited if that next pointer was not yet at the end.
\<close>

fun see_new :: "trans_pc \<Rightarrow> sockaddr_in \<Rightarrow> trans_pc" where
  "see_new (Visit ks) k = Visit (if 2 \<le> length ks then ks @ [k] else ks)"
| "see_new (Expired_wait ks) k = Expired_wait (if ks \<noteq> [] then ks @ [k] else ks)"
| "see_new (Expired_check ks) k = Expired_check (if ks \<noteq> [] then ks @ [k] else ks)"
| "see_new p k = p"

definition expired :: "int \<Rightarrow> client_data \<Rightarrow> bool" where
  "expired now client = (last_update_time client + SUBSCR_EXPIRE_TIME < now)"

inductive transmission_thread :: "transmitter \<Rightarrow> transmitter \<Rightarrow> bool" where
  start_round: "pc s = Wait_message \<Longrightarrow> queue s \<noteq> [] \<Longrightarrow>
    transmission_thread s (s\<lparr>sending_done := hash_count (clients s), pc := Visit (hash_keys (clients s)),
      targets := hash_keys (clients s), sent_log := [], expired_log := []\<rparr>)"
| drop_expired: "pc s = Visit (k # ks) \<Longrightarrow> hash_find (clients s) k = Some c \<Longrightarrow> expired (time_now s) c \<Longrightarrow>
    transmission_thread s (s\<lparr>clients := hash_del (clients s) k, pc := Expired_wait ks,
      expired_log := k # expired_log s\<rparr>)"
| start_sending: "pc s = Visit (k # ks) \<Longrightarrow> hash_find (clients s) k = Some c \<Longrightarrow>
    \<not> expired (time_now s) c \<Longrightarrow> max_sendings s = Suc n \<Longrightarrow>
    transmission_thread s (s\<lparr>max_sendings := n, sendings := sendings s @ [(k, Sending)], pc := Visit ks\<rparr>)"
| all_visited: "pc s = Visit [] \<Longrightarrow> transmission_thread s (s\<lparr>pc := Done_check\<rparr>)"
| count_expired: "pc s = Expired_wait ks \<Longrightarrow> sending_done s = Suc n \<Longrightarrow>
    transmission_thread s (s\<lparr>sending_done := n, pc := Expired_check ks\<rparr>)"
| checked_expired: "pc s = Expired_check ks \<Longrightarrow> transmission_thread s (s\<lparr>pc := Visit ks\<rparr>)"
| all_done: "pc s = Done_check \<Longrightarrow> sending_done s = 0 \<Longrightarrow> transmission_thread s (s\<lparr>pc := Finished\<rparr>)"
| not_all_done: "pc s = Done_check \<Longrightarrow> sending_done s \<noteq> 0 \<Longrightarrow>
    transmission_thread s (s\<lparr>pc := Done_blocked\<rparr>)"
| woken_early: "pc s = Done_blocked \<Longrightarrow> transmission_thread s (s\<lparr>pc := Done_check\<rparr>)"
| end_round: "pc s = Finished \<Longrightarrow>
    transmission_thread s (s\<lparr>queue := tl (queue s), sent_map := hash_add (sent_map s)
        (release_time (hd (queue s)), message_id (hd (queue s))) (hd (queue s)), pc := Wait_message\<rparr>)"

text \<open>
  A sending thread. It reads the head of the queue when it starts; what it sends are the texts of
  that message (\<open>sent_as\<close>). Its last step signals the waiting thread if nothing is left to be done.
\<close>

inductive sending_thread :: "transmitter \<Rightarrow> transmitter \<Rightarrow> bool" where
  sent: "sendings s = xs @ (k, Sending) # ys \<Longrightarrow> queue s \<noteq> [] \<Longrightarrow>
    sending_thread s (s\<lparr>sendings := xs @ (k, Sent) # ys, sent_log := k # sent_log s\<rparr>)"
| posted: "sendings s = xs @ (k, Sent) # ys \<Longrightarrow>
    sending_thread s (s\<lparr>sendings := xs @ (k, Posted) # ys, max_sendings := Suc (max_sendings s)\<rparr>)"
| counted: "sendings s = xs @ (k, Posted) # ys \<Longrightarrow> sending_done s = Suc n \<Longrightarrow>
    sending_thread s (s\<lparr>sendings := xs @ (k, Counted) # ys, sending_done := n\<rparr>)"
| signalled: "sendings s = xs @ (k, Counted) # ys \<Longrightarrow>
    sending_thread s (s\<lparr>sendings := xs @ ys,
      pc := (if sending_done s = 0 \<and> pc s = Done_blocked then Done_check else pc s)\<rparr>)"

text \<open>
  The faults of a sending thread: the queue may be empty when it reads the head, and a text that is
  longer than its array is read past the end. \<open>rest\<close> is what \<open>release_time_str\<close> holds if the time does
  not fit.
\<close>

inductive sending_fault :: "transmitter \<Rightarrow> c_error \<Rightarrow> bool" where
  no_message: "sendings s = xs @ (k, Sending) # ys \<Longrightarrow> queue s = [] \<Longrightarrow> sending_fault s Null_pointer"
| text_too_long: "sendings s = xs @ (k, Sending) # ys \<Longrightarrow> queue s = m # q \<Longrightarrow>
    send_data_message rest m = Inl e \<Longrightarrow> sending_fault s e"

text \<open>
  The request thread, which does not take the mutex of the table: it renews and adds clients at any
  time. New messages are queued under the queue's mutex, which a round holds. The clock, which may also
  be set back; \<open>time\<close> does not fail.
\<close>

inductive environment :: "transmitter \<Rightarrow> transmitter \<Rightarrow> bool" where
  renewed: "hash_find (clients s) k = Some c \<Longrightarrow>
    environment s (s\<lparr>clients := hash_change (clients s) k (\<lambda>c. c\<lparr>last_update_time := time_now s\<rparr>)\<rparr>)"
| joined: "hash_find (clients s) k = None \<Longrightarrow>
    environment s (s\<lparr>clients := hash_add (clients s) k
      \<lparr>client_address = k, last_update_time = time_now s\<rparr>, pc := see_new (pc s) k\<rparr>)"
| queued: "pc s = Wait_message \<Longrightarrow> environment s (s\<lparr>queue := queue s @ [m]\<rparr>)"
| ticked: "t \<noteq> -1 \<Longrightarrow> environment s (s\<lparr>time_now := t\<rparr>)"

inductive server_step :: "transmitter \<Rightarrow> transmitter \<Rightarrow> bool" where
  transmit: "transmission_thread s s' \<Longrightarrow> server_step s s'"
| sending: "sending_thread s s' \<Longrightarrow> server_step s s'"
| outside: "environment s s' \<Longrightarrow> server_step s s'"

inductive server_run :: "transmitter \<Rightarrow> transmitter \<Rightarrow> bool" for s0 where
  run_start: "server_run s0 s0"
| run_step: "server_run s0 s \<Longrightarrow> server_step s s' \<Longrightarrow> server_run s0 s'"

fun to_visit :: "trans_pc \<Rightarrow> sockaddr_in list" where
  "to_visit (Visit ks) = ks"
| "to_visit (Expired_wait ks) = ks"
| "to_visit (Expired_check ks) = ks"
| "to_visit _ = []"

text \<open>A calm run is one in which no client joins in time to be visited by the round that is under way,
  after its number of clients was counted.\<close>

definition seen_join :: "transmitter \<Rightarrow> transmitter \<Rightarrow> bool" where
  "seen_join s s' \<longleftrightarrow> (\<exists>k \<in> set (to_visit (pc s')). hash_find (clients s) k = None)"

inductive calm_run :: "transmitter \<Rightarrow> transmitter \<Rightarrow> bool" for s0 where
  calm_start: "calm_run s0 s0"
| calm_step: "calm_run s0 s \<Longrightarrow> server_step s s' \<Longrightarrow> \<not> seen_join s s' \<Longrightarrow> calm_run s0 s'"

inductive_cases transmission_threadE: "transmission_thread s s'"
inductive_cases sending_threadE: "sending_thread s s'"
inductive_cases environmentE: "environment s s'"

section \<open>Accounting\<close>

fun owed :: "trans_pc \<Rightarrow> nat" where
  "owed (Expired_wait ks) = Suc (length ks)"
| "owed p = length (to_visit p)"

definition count_pc :: "sending_pc set \<Rightarrow> (sockaddr_in \<times> sending_pc) list \<Rightarrow> nat" where
  "count_pc P ss = length (filter (\<lambda>(k, p). p \<in> P) ss)"

definition at_pc :: "sending_pc \<Rightarrow> (sockaddr_in \<times> sending_pc) list \<Rightarrow> sockaddr_in multiset" where
  "at_pc p ss = mset (map fst (filter (\<lambda>(k, p'). p' = p) ss))"

lemma count_pc_simps [simp]:
  "count_pc P [] = 0"
  "count_pc P ((k, p) # ss) = (if p \<in> P then 1 else 0) + count_pc P ss"
  "count_pc P (xs @ ys) = count_pc P xs + count_pc P ys"
  by (auto simp: count_pc_def)

lemma at_pc_simps [simp]:
  "at_pc p [] = {#}"
  "at_pc p ((k, p') # ss) = (if p' = p then {#k#} else {#}) + at_pc p ss"
  "at_pc p (xs @ ys) = at_pc p xs + at_pc p ys"
  by (auto simp: at_pc_def)

abbreviation idle :: "transmitter \<Rightarrow> bool" where
  "idle s \<equiv> pc s \<in> {Wait_message, Finished}"

definition semaphores_ok :: "transmitter \<Rightarrow> bool" where
  "semaphores_ok s \<longleftrightarrow>
     max_sendings s + count_pc {Sending, Sent} (sendings s) = MAX_ACTIVE_SENDINGS \<and>
     sending_done s = owed (pc s) + count_pc {Sending, Sent, Posted} (sendings s) \<and>
     (idle s \<longrightarrow> sending_done s = 0)"

definition wakeup_ok :: "transmitter \<Rightarrow> bool" where
  "wakeup_ok s \<longleftrightarrow> (pc s = Done_blocked \<and> sending_done s = 0 \<longrightarrow> 0 < count_pc {Counted} (sendings s))"

definition clients_ok :: "transmitter \<Rightarrow> bool" where
  "clients_ok s \<longleftrightarrow> hash_ok (clients s) \<and> distinct (to_visit (pc s)) \<and>
     set (to_visit (pc s)) \<subseteq> set (hash_keys (clients s))"

definition logs_ok :: "transmitter \<Rightarrow> bool" where
  "logs_ok s \<longleftrightarrow> mset (targets s) =
     mset (to_visit (pc s)) + at_pc Sending (sendings s) + mset (sent_log s) + mset (expired_log s)"

definition server_ok :: "transmitter \<Rightarrow> bool" where
  "server_ok s \<longleftrightarrow> semaphores_ok s \<and> wakeup_ok s \<and> clients_ok s \<and> logs_ok s \<and>
     (pc s = Wait_message \<or> queue s \<noteq> [])"

lemma hash_count_keys: "hash_count m = length (hash_keys m)"
  by (simp add: hash_count_def hash_keys_def)

lemma sending_in_counts: "at_pc Sending ss = {#} \<longleftrightarrow> count_pc {Sending} ss = 0"
  by (induction ss) auto

lemma count_pc_mono: "P \<subseteq> Q \<Longrightarrow> count_pc P ss \<le> count_pc Q ss"
  unfolding count_pc_def by (induction ss) auto

lemma idle_no_sending: "semaphores_ok s \<Longrightarrow> idle s \<Longrightarrow> at_pc Sending (sendings s) = {#}"
  using count_pc_mono[of "{Sending}" "{Sending, Sent, Posted}" "sendings s"]
  by (auto simp: semaphores_ok_def sending_in_counts)

lemmas invariant_defs = semaphores_ok_def wakeup_ok_def clients_ok_def logs_ok_def

lemma transmission_thread_ok:
  assumes "transmission_thread s s'" and "server_ok s"
  shows "server_ok s'"
  using assms(1)
proof (cases rule: transmission_thread.cases)
  case start_round
  then show ?thesis
    using assms(2) idle_no_sending[of s]
    by (auto simp: server_ok_def invariant_defs hash_count_keys hash_ok_def)
qed (use assms(2) in \<open>auto simp: server_ok_def invariant_defs hash_ok_def\<close>)

lemma sending_thread_ok:
  assumes "sending_thread s s'" and "server_ok s"
  shows "server_ok s'"
  using assms(1)
  by (cases rule: sending_thread.cases) (use assms(2) in \<open>auto simp: server_ok_def invariant_defs\<close>)

lemma see_new_unseen: "k \<notin> set (to_visit (see_new p k)) \<Longrightarrow> see_new p k = p"
  by (cases "(p, k)" rule: see_new.cases) (auto split: if_splits)

lemma environment_ok:
  assumes "environment s s'" and "\<not> seen_join s s'" and "server_ok s"
  shows "server_ok s'"
  using assms(1)
proof (cases rule: environment.cases)
  case (joined k)
  then have "see_new (pc s) k = pc s"
    using assms(2) by (intro see_new_unseen) (auto simp: seen_join_def)
  with joined assms(3) show ?thesis
    by (auto simp: server_ok_def invariant_defs hash_ok_def hash_find_None_iff)
qed (use assms(3) in \<open>auto simp: server_ok_def invariant_defs hash_ok_def\<close>)

lemma calm_run_ok: "calm_run s0 s \<Longrightarrow> server_ok s0 \<Longrightarrow> server_ok s"
  by (induction rule: calm_run.induct)
    (auto elim!: server_step.cases intro: transmission_thread_ok sending_thread_ok environment_ok)

lemma transmission_control_ok: "hash_ok m \<Longrightarrow> server_ok (transmission_control q m t)"
  by (simp add: transmission_control_def server_ok_def invariant_defs)

section \<open>Progress\<close>

lemma sending_can_move:
  assumes "server_ok s" and "sendings s \<noteq> []"
  shows "\<exists>s'. sending_thread s s'"
proof -
  obtain k p ss where s: "sendings s = [] @ (k, p) # ss" using assms(2) by (cases "sendings s") auto
  show ?thesis
  proof (cases p)
    case Posted
    then have "sending_done s \<noteq> 0" using s assms(1) by (auto simp: server_ok_def semaphores_ok_def)
    then obtain n where "sending_done s = Suc n" by (cases "sending_done s") auto
    with s Posted show ?thesis by (blast intro: counted)
  next
    case Sending
    then have "queue s \<noteq> []" using s assms(1) by (auto simp: server_ok_def semaphores_ok_def)
    with s Sending show ?thesis by (blast intro: sent)
  qed (use s in \<open>blast intro: posted signalled\<close>)+
qed

lemma calm_no_null: "server_ok s \<Longrightarrow> (k, Sending) \<in> set (sendings s) \<Longrightarrow> queue s \<noteq> []"
  by (auto simp: server_ok_def semaphores_ok_def dest!: split_list)

text \<open>What the sending threads have left to do.\<close>

fun left_to_do :: "sending_pc \<Rightarrow> nat" where
  "left_to_do Sending = 4"
| "left_to_do Sent = 3"
| "left_to_do Posted = 2"
| "left_to_do Counted = 1"

definition work :: "transmitter \<Rightarrow> nat" where
  "work s = sum_list (map (\<lambda>(k, p). left_to_do p) (sendings s))"

lemma sending_thread_work: "sending_thread s s' \<Longrightarrow> work s' < work s"
  by (cases rule: sending_thread.cases) (auto simp: work_def)

lemma sending_thread_pc:
  "sending_thread s s' \<Longrightarrow>
   pc s' = pc s \<or> (pc s = Done_blocked \<and> pc s' = Done_check \<and> sending_done s' = 0)"
  by (cases rule: sending_thread.cases) (auto split: if_splits)

lemma blocked_progress:
  "server_ok s \<Longrightarrow> pc s = Done_blocked \<Longrightarrow>
   \<exists>s'. sending_thread\<^sup>*\<^sup>* s s' \<and> pc s' = Done_check \<and> sending_done s' = 0"
proof (induction "work s" arbitrary: s rule: less_induct)
  case less
  have "sendings s \<noteq> []"
    using less.prems by (auto simp: server_ok_def semaphores_ok_def wakeup_ok_def)
  then obtain s1 where s1: "sending_thread s s1" using sending_can_move less.prems(1) by blast
  show ?case
  proof (cases "pc s1 = Done_blocked")
    case True
    with less.hyps[OF sending_thread_work[OF s1]] sending_thread_ok[OF s1 less.prems(1)] s1 show ?thesis
      by (meson converse_rtranclp_into_rtranclp)
  next
    case False
    with sending_thread_pc[OF s1] less.prems(2) s1 show ?thesis by auto
  qed
qed

section \<open>The messages' guarantees\<close>

lemma send_printed_faults:
  "send_printed (Suc MTN_MSG_LEN) s = (if length s \<le> Suc MTN_MSG_LEN
     then Inr (if length s \<le> MTN_MSG_LEN then s else take MTN_MSG_LEN s @ [NUL])
     else Inl Out_of_bounds_read)"
  by (auto simp: send_printed_def snprintf_def)

lemma send_blocks_faults:
  "case send_blocks ts m n bs of
     Inl e \<Rightarrow> e = Out_of_bounds_read \<and> (\<exists>s \<in> set (block_texts ts m n bs). Suc MTN_MSG_LEN < length s)
   | Inr ds \<Rightarrow> (\<forall>s \<in> set (block_texts ts m n bs). length s \<le> Suc MTN_MSG_LEN) \<and>
       list_all2 sent_as (block_texts ts m n bs) ds"
proof (induction bs)
  case (Cons b bs)
  show ?case
  proof (cases "length (block_text ts m n b) \<le> Suc MTN_MSG_LEN")
    case True
    then show ?thesis
      using Cons by (cases "send_blocks ts m n bs")
        (auto simp: send_printed_faults sent_as_def nth_append not_le)
  next
    case False
    then show ?thesis by (auto simp: send_printed_faults)
  qed
qed simp

text \<open>Sending a message faults exactly when one of its texts does not fit; otherwise the texts are sent.\<close>

lemma send_data_message_result:
  "case send_data_message rest m of
     Inl e \<Rightarrow> e = Out_of_bounds_read \<and> too_long rest m
   | Inr ds \<Rightarrow> \<not> too_long rest m \<and> list_all2 sent_as (message_texts rest m) ds"
proof -
  let ?ts = "release_time_str rest (release_time m)"
  show ?thesis
  proof (cases "length (head_text ?ts m) \<le> Suc MTN_MSG_LEN")
    case True
    then show ?thesis
      using send_blocks_faults[of ?ts m 1 "blocks m"]
      by (cases "send_blocks ?ts m 1 (blocks m)")
        (auto simp: send_data_message_def message_texts_def too_long_def send_printed_faults Let_def
          sent_as_def nth_append not_le)
  next
    case False
    then show ?thesis
      by (auto simp: send_data_message_def message_texts_def too_long_def send_printed_faults Let_def)
  qed
qed

lemma sending_fault_cases:
  assumes "sending_fault s e"
  shows "(queue s = [] \<and> e = Null_pointer \<or>
      (\<exists>m q rest. queue s = m # q \<and> too_long rest m \<and> e = Out_of_bounds_read)) \<and>
    (\<exists>k. (k, Sending) \<in> set (sendings s))"
  using assms
proof (cases rule: sending_fault.cases)
  case (text_too_long xs k ys m q rest)
  then show ?thesis using send_data_message_result[of rest m] by auto
qed auto

lemma send_blocks_fit:
  "\<forall>b \<in> set bs. length (block_text time_str message n b) < MTN_MSG_LEN + 1 \<Longrightarrow>
   send_blocks time_str message n bs = Inr (map (block_text time_str message n) bs)"
  by (induction bs) (auto simp: send_printed_fits)

text \<open>A message whose texts fit is sent as its head and one datagram per block, in order; every block
  carries the number 1, since the loop never advances the block number: the same message with its
  blocks in any other order is sent as the same datagrams, differently ordered, so a receiver cannot
  restore the order.\<close>

lemma block_order_not_recoverable:
  assumes "length (head_text (release_time_str rest (release_time m)) m) \<le> MTN_MSG_LEN"
    and "\<forall>b \<in> set (blocks m). length (block_text (release_time_str rest (release_time m)) m 1 b) \<le> MTN_MSG_LEN"
    and "mset bs = mset (blocks m)"
  shows "\<exists>ds ds'. send_data_message rest m = Inr ds \<and>
    send_data_message rest (m\<lparr>blocks := bs\<rparr>) = Inr ds' \<and>
    length ds = Suc (length (blocks m)) \<and> hd ds = hd ds' \<and> mset ds = mset ds'"
proof -
  let ?t = "release_time_str rest (release_time m)"
  have same: "head_text ?t (m\<lparr>blocks := bs\<rparr>) = head_text ?t m"
    "block_text ?t (m\<lparr>blocks := bs\<rparr>) n = block_text ?t m n" for n
    by (simp_all add: head_text_def block_text_def fun_eq_iff)
  have "set bs = set (blocks m)" using assms(3) by (metis set_mset_mset)
  then have "send_blocks ?t (m\<lparr>blocks := bs\<rparr>) 1 bs = Inr (map (block_text ?t m 1) bs)"
    using assms(2) send_blocks_fit[of bs ?t "m\<lparr>blocks := bs\<rparr>" 1] by (simp add: same less_Suc_eq_le)
  moreover have "send_blocks ?t m 1 (blocks m) = Inr (map (block_text ?t m 1) (blocks m))"
    using assms(2) by (intro send_blocks_fit) (auto simp: less_Suc_eq_le)
  moreover have "send_printed (MTN_MSG_LEN + 1) (head_text ?t m) = Inr (head_text ?t m)"
    using assms(1) by (simp add: send_printed_fits)
  ultimately show ?thesis using assms(3) by (simp add: send_data_message_def same Let_def)
qed

lemma block_order_not_recoverable_witness:
  "\<exists>ds ds'. send_data_message [] \<lparr>release_time = 5, message_id = 0, file_name = ''f'', blocks_count = 2,
       blocks = [''a'', ''b'']\<rparr> = Inr ds \<and>
     send_data_message [] \<lparr>release_time = 5, message_id = 0, file_name = ''f'', blocks_count = 2,
       blocks = [''b'', ''a'']\<rparr> = Inr ds' \<and> mset ds = mset ds'"
proof -
  let ?m = "\<lparr>release_time = 5, message_id = 0, file_name = ''f'', blocks_count = 2, blocks = [''a'', ''b'']\<rparr>"
  have d: "decimal 5 = ''5''" "decimal 0 = ''0''" "decimal 1 = ''1''" "decimal 2 = ''2''" by code_simp+
  have "length (head_text (release_time_str [] (release_time ?m)) ?m) \<le> MTN_MSG_LEN"
    "\<forall>b \<in> set (blocks ?m). length (block_text (release_time_str [] (release_time ?m)) ?m 1 b) \<le> MTN_MSG_LEN"
    by (simp_all add: head_text_def block_text_def release_time_str_def decimal_prec_def d text_defs
        MTN_MSG_LEN_def Let_def del: One_nat_def)
  from block_order_not_recoverable[OF this, of "[''b'', ''a'']"] show ?thesis by auto
qed



text \<open>Every release time since September 2001 has ten digits, which do not fit the array of ten with
  their terminator: the message then carries whatever the array held, not the time.\<close>

lemma release_time_not_printed:
  assumes "1000000000 \<le> t"
  shows "release_time_str rest t = rest"
  using assms decimal_length[of 9 "nat t"] by (auto simp: release_time_str_def Let_def)

lemma release_time_not_printed_witness: "release_time_str ''?'' 1300000000 = ''?''"
  by (rule release_time_not_printed) simp

text \<open>Runs of a round for a single client.\<close>

definition lone_client :: "transmitter \<Rightarrow> sockaddr_in \<Rightarrow> bool" where
  "lone_client s k \<longleftrightarrow> (\<exists>c. clients s = [(k, c)] \<and> \<not> expired (time_now s) c) \<and>
     pc s = Wait_message \<and> queue s \<noteq> [] \<and> max_sendings s \<noteq> 0 \<and> sendings s = []"

lemma run_trans: "server_run s1 s2 \<Longrightarrow> server_run s0 s1 \<Longrightarrow> server_run s0 s2"
  by (induction rule: server_run.induct) (auto intro: run_step)

lemma calm_run_is_run: "calm_run s0 s \<Longrightarrow> server_run s0 s"
  by (induction rule: calm_run.induct) (auto intro: server_run.intros)

lemma calm_own_step: "to_visit (pc s') = [] \<Longrightarrow> calm_run s0 s \<Longrightarrow> server_step s s' \<Longrightarrow> calm_run s0 s'"
  by (erule calm_step) (auto simp: seen_join_def)

lemma calm_trans: "calm_run s1 s2 \<Longrightarrow> calm_run s0 s1 \<Longrightarrow> calm_run s0 s2"
  by (induction rule: calm_run.induct) (auto intro: calm_step)

text \<open>One sending thread runs until it has counted itself.\<close>

lemma sender_counts_itself:
  assumes "sendings s = xs @ (k, Sending) # ys" and "queue s \<noteq> []" and "sending_done s = Suc n"
    and "to_visit (pc s) = []"
  shows "\<exists>s'. calm_run s s' \<and> sendings s' = xs @ (k, Counted) # ys \<and> sending_done s' = n \<and>
    pc s' = pc s \<and> queue s' = queue s"
proof -
  define s2 where "s2 = s\<lparr>sendings := xs @ (k, Sent) # ys, sent_log := k # sent_log s\<rparr>"
  define s3 where "s3 = s2\<lparr>sendings := xs @ (k, Posted) # ys, max_sendings := Suc (max_sendings s2)\<rparr>"
  define s4 where "s4 = s3\<lparr>sendings := xs @ (k, Counted) # ys, sending_done := n\<rparr>"
  have "server_step s s2" unfolding s2_def using assms by (intro sending sent)
  moreover have "server_step s2 s3" unfolding s3_def by (intro sending posted) (simp add: s2_def)
  moreover have "server_step s3 s4"
    unfolding s4_def using assms by (intro sending counted) (simp_all add: s3_def s2_def)
  moreover have "to_visit (pc s2) = []" "to_visit (pc s3) = []" "to_visit (pc s4) = []"
    using assms(4) by (simp_all add: s2_def s3_def s4_def)
  ultimately have "calm_run s s4" by (meson calm_start calm_own_step)
  then show ?thesis by (intro exI[of _ s4]) (simp add: s4_def s3_def s2_def)
qed

lemma lone_client_visited:
  assumes "lone_client s k"
  shows "\<exists>s'. calm_run s s' \<and> pc s' = Done_check \<and> sendings s' = [(k, Sending)] \<and> sending_done s' = 1 \<and>
    queue s' \<noteq> []"
proof -
  obtain c n where s: "clients s = [(k, c)]" "\<not> expired (time_now s) c" "max_sendings s = Suc n"
    using assms by (auto simp: lone_client_def gr0_conv_Suc)
  define s1 where "s1 = s\<lparr>sending_done := hash_count (clients s), pc := Visit (hash_keys (clients s)),
      targets := hash_keys (clients s), sent_log := [], expired_log := []\<rparr>"
  define s2 where "s2 = s1\<lparr>max_sendings := n, sendings := sendings s1 @ [(k, Sending)], pc := Visit []\<rparr>"
  define s3 where "s3 = s2\<lparr>pc := Done_check\<rparr>"
  have "server_step s s1"
    unfolding s1_def using assms by (intro transmit start_round) (auto simp: lone_client_def)
  moreover have "\<not> seen_join s s1" using s by (simp add: seen_join_def s1_def hash_find_def)
  moreover have "server_step s1 s2"
    unfolding s2_def using s by (intro transmit start_sending[where c = c and ks = "[]"])
      (simp_all add: s1_def hash_find_def)
  moreover have "server_step s2 s3"
    unfolding s3_def by (intro transmit all_visited) (simp add: s2_def)
  moreover have "to_visit (pc s2) = []" "to_visit (pc s3) = []" by (simp_all add: s2_def s3_def)
  ultimately have "calm_run s s3" by (meson calm_start calm_step calm_own_step)
  then show ?thesis
    using assms s(1) by (intro exI[of _ s3]) (simp add: s3_def s2_def s1_def lone_client_def hash_count_def)
qed

lemma lone_client_blocked:
  assumes "lone_client s k"
  shows "\<exists>s'. calm_run s s' \<and> pc s' = Done_blocked \<and> sendings s' = [(k, Sending)]"
proof -
  obtain s1 where s1: "calm_run s s1" "pc s1 = Done_check" "sendings s1 = [(k, Sending)]"
    "sending_done s1 = 1" using lone_client_visited[OF assms] by blast
  then have "server_step s1 (s1\<lparr>pc := Done_blocked\<rparr>)" by (intro transmit not_all_done) auto
  with s1 show ?thesis by (intro exI[of _ "s1\<lparr>pc := Done_blocked\<rparr>"]) (auto intro: calm_own_step)
qed

lemma lone_client_finished:
  assumes "lone_client s k"
  shows "\<exists>s'. calm_run s s' \<and> pc s' = Finished \<and> sendings s' = [(k, Counted)]"
proof -
  obtain s1 where s1: "calm_run s s1" "pc s1 = Done_check" "sendings s1 = [(k, Sending)]"
    "sending_done s1 = 1" "queue s1 \<noteq> []" using lone_client_visited[OF assms] by blast
  then obtain s2 where s2: "calm_run s1 s2" "sendings s2 = [(k, Counted)]" "sending_done s2 = 0"
    "pc s2 = Done_check" using sender_counts_itself[of s1 "[]" k "[]" 0] by auto
  then have "server_step s2 (s2\<lparr>pc := Finished\<rparr>)" by (intro transmit all_done)
  with s1(1) s2 show ?thesis
    by (intro exI[of _ "s2\<lparr>pc := Finished\<rparr>"]) (auto intro: calm_own_step calm_trans)
qed

text \<open>A server with one message to send and one subscribed client.\<close>

definition example_client :: sockaddr_in where
  "example_client = \<lparr>sin_addr = [1, 2, 3, 4], sin_port = 5\<rparr>"

definition example_clients :: client_map where
  "example_clients = [(example_client, \<lparr>client_address = example_client, last_update_time = 9\<rparr>)]"

definition example_message :: data_message where
  "example_message = \<lparr>release_time = 8, message_id = 0, file_name = ''f'', blocks_count = 1, blocks = [''x'']\<rparr>"

lemma example_lone_client: "lone_client (transmission_control [example_message] example_clients 10) example_client"
  by (simp add: lone_client_def transmission_control_def example_clients_def expired_def
      SUBSCR_EXPIRE_TIME_def MAX_ACTIVE_SENDINGS_def)

lemma example_clients_ok: "hash_ok example_clients"
  by (simp add: hash_ok_def example_clients_def)

section \<open>The round's guarantees\<close>

lemma run_ok: "hash_ok m \<Longrightarrow> calm_run (transmission_control q m t) s \<Longrightarrow> server_ok s"
  using calm_run_ok transmission_control_ok by blast

text \<open>C17: in every state of a calm run, one in which no client joins in time to be visited by the round
  under way, at most three threads are sending, and \<open>sending_done_semaphore\<close> counts exactly the
  clients of the round that are still to be visited or whose thread has not yet counted itself; so no
  \<open>sem_wait\<close> of \<open>sending_done\<close> blocks for ever: while there are sending threads one can go on (unless
  the process ends by reading past a text's array).\<close>

theorem sending_semaphores_account:
  assumes "hash_ok m" and "calm_run (transmission_control q m t) s"
  shows "max_sendings s + count_pc {Sending, Sent} (sendings s) = 3 \<and>
    sending_done s = owed (pc s) + count_pc {Sending, Sent, Posted} (sendings s) \<and>
    (sendings s \<noteq> [] \<longrightarrow> (\<exists>s'. sending_thread s s'))"
proof -
  have ok: "server_ok s" using run_ok[OF assms] .
  have "\<exists>s'. sending_thread s s'" if "sendings s \<noteq> []" using that ok by (rule sending_can_move[rotated])
  with ok show ?thesis by (auto simp: server_ok_def semaphores_ok_def MAX_ACTIVE_SENDINGS_def)
qed

lemma sending_semaphores_account_witness:
  "\<exists>s. calm_run (transmission_control [example_message] example_clients 10) s \<and>
     sendings s = [(example_client, Sending)] \<and> max_sendings s = 2"
proof -
  obtain s where s: "calm_run (transmission_control [example_message] example_clients 10) s"
    "sendings s = [(example_client, Sending)]" using lone_client_blocked[OF example_lone_client] by blast
  with sending_semaphores_account[OF example_clients_ok s(1)] show ?thesis by auto
qed

text \<open>The final wait loses no wake-up: from every state of a calm run in which the transmission
  thread waits for the senders, the senders' own steps alone bring it back to its test.\<close>

lemma final_wait_ends:
  assumes "hash_ok m" and "calm_run (transmission_control q m t) s" and "pc s = Done_blocked"
  shows "\<exists>s'. sending_thread\<^sup>*\<^sup>* s s' \<and> pc s' = Done_check \<and> sending_done s' = 0"
  using blocked_progress[OF run_ok[OF assms(1,2)] assms(3)] .

lemma final_wait_ends_witness:
  "\<exists>s s'. calm_run (transmission_control [example_message] example_clients 10) s \<and>
     pc s = Done_blocked \<and> sending_thread\<^sup>*\<^sup>* s s' \<and> pc s' = Done_check"
proof -
  obtain s where "calm_run (transmission_control [example_message] example_clients 10) s"
    "pc s = Done_blocked" using lone_client_blocked[OF example_lone_client] by blast
  with final_wait_ends[OF example_clients_ok this] show ?thesis by blast
qed

text \<open>C6: in a calm run, one in which no client joins in time to be visited by the round under way: when a
  round has waited for its senders, every client that was subscribed at its start has either been
  sent the message exactly once or been found expired and removed, and nobody else.\<close>

theorem round_serves_each_client_once:
  assumes "hash_ok m" and "calm_run (transmission_control q m t) s" and "pc s = Finished"
  shows "mset (targets s) = mset (sent_log s) + mset (expired_log s) \<and>
    count_pc {Sending, Sent, Posted} (sendings s) = 0 \<and> queue s \<noteq> []"
proof -
  have ok: "server_ok s" using run_ok[OF assms(1,2)] .
  then show ?thesis
    using assms(3) idle_no_sending[of s] by (auto simp: server_ok_def logs_ok_def semaphores_ok_def)
qed

lemma round_serves_each_client_once_witness:
  "\<exists>s. calm_run (transmission_control [example_message] example_clients 10) s \<and>
     pc s = Finished \<and> mset (targets s) = mset (sent_log s) + mset (expired_log s)"
proof -
  obtain s where "calm_run (transmission_control [example_message] example_clients 10) s"
    "pc s = Finished" using lone_client_finished[OF example_lone_client] by blast
  with round_serves_each_client_once[OF example_clients_ok this] show ?thesis by blast
qed

text \<open>The transmission thread may destroy \<open>sending_done_semaphore\<close> while a sending thread that has
  counted itself is still about to read its value: with one subscribed client such a state is
  reached.\<close>

lemma semaphore_destroyed_in_use:
  assumes "lone_client s k"
  shows "\<exists>s'. server_run s s' \<and> pc s' = Finished \<and> sendings s' = [(k, Counted)]"
  using lone_client_finished[OF assms] calm_run_is_run by blast

lemma semaphore_destroyed_in_use_witness:
  "\<exists>s'. server_run (transmission_control [example_message] example_clients 10) s' \<and>
     pc s' = Finished \<and> sendings s' = [(example_client, Counted)]"
  using example_lone_client by (rule semaphore_destroyed_in_use)

text \<open>The run behind the next statement: a third client joins while the first of two is visited.\<close>

lemma late_client_run:
  assumes "hash_keys (clients s) = [k1, k2]" and "k3 \<notin> {k1, k2}" and "k1 \<noteq> k2"
    and "\<forall>k \<in> {k1, k2}. \<exists>c. hash_find (clients s) k = Some c \<and> \<not> expired (time_now s) c"
    and "pc s = Wait_message" and "queue s = [message]" and "max_sendings s = 3" and "sendings s = []"
  shows "\<exists>s'. server_run s s' \<and> pc s' = Finished \<and> queue s' = [message] \<and>
    sendings s' = [(k1, Counted), (k2, Counted), (k3, Sending)] \<and> sending_done s' = 0"
proof -
  obtain c1 c2 where c: "hash_find (clients s) k1 = Some c1" "\<not> expired (time_now s) c1"
      "hash_find (clients s) k2 = Some c2" "\<not> expired (time_now s) c2"
    using assms(4) by auto
  let ?c3 = "\<lparr>client_address = k3, last_update_time = time_now s\<rparr>"
  have k3: "hash_find (clients s) k3 = None" using assms(1,2) by (simp add: hash_find_None_iff)
  define s1 where "s1 = s\<lparr>sending_done := 2, pc := Visit [k1, k2], targets := [k1, k2], sent_log := [],
    expired_log := []\<rparr>"
  define s2 where "s2 = s1\<lparr>clients := hash_add (clients s) k3 ?c3, pc := Visit [k1, k2, k3]\<rparr>"
  define s3 where "s3 = s2\<lparr>max_sendings := 2, sendings := [(k1, Sending)], pc := Visit [k2, k3]\<rparr>"
  define s4 where "s4 = s3\<lparr>max_sendings := 1, sendings := [(k1, Sending), (k2, Sending)], pc := Visit [k3]\<rparr>"
  define s5 where "s5 = s4\<lparr>max_sendings := 0, sendings := [(k1, Sending), (k2, Sending), (k3, Sending)],
    pc := Visit []\<rparr>"
  have "hash_count (clients s) = 2" using assms(1) by (simp add: hash_count_keys)
  then have "server_step s s1"
    unfolding s1_def using start_round[of s] assms by (auto intro: transmit)
  moreover have "server_step s1 s2"
    using joined[of s1 k3] k3 by (auto intro: outside simp: s1_def s2_def)
  moreover have "server_step s2 s3"
    using start_sending[of s2 k1 "[k2, k3]" c1 2] assms c k3
    by (auto intro!: transmit simp: s1_def s2_def s3_def)
  moreover have "server_step s3 s4"
    using start_sending[of s3 k2 "[k3]" c2 1] assms c k3
    by (auto intro!: transmit simp: s1_def s2_def s3_def s4_def)
  moreover have "server_step s4 s5"
    using start_sending[of s4 k3 "[]" ?c3 0] assms c k3
    by (auto intro!: transmit simp: s1_def s2_def s3_def s4_def s5_def expired_def SUBSCR_EXPIRE_TIME_def)
  ultimately have run: "server_run s s5" by (meson run_start run_step)
  have s5: "sendings s5 = [] @ (k1, Sending) # [(k2, Sending), (k3, Sending)]" "queue s5 = [message]"
      "sending_done s5 = Suc 1" "pc s5 = Visit []"
    using assms by (simp_all add: s1_def s2_def s3_def s4_def s5_def)
  obtain s6 where s6: "calm_run s5 s6" "sendings s6 = [(k1, Counted)] @ (k2, Sending) # [(k3, Sending)]"
      "sending_done s6 = Suc 0" "pc s6 = Visit []" "queue s6 = [message]"
    using sender_counts_itself[OF s5(1) _ s5(3)] s5 by auto
  obtain s7 where s7: "calm_run s6 s7" "sendings s7 = [(k1, Counted), (k2, Counted), (k3, Sending)]"
      "sending_done s7 = 0" "pc s7 = Visit []" "queue s7 = [message]"
    using sender_counts_itself[OF s6(2) _ s6(3)] s6 by auto
  have "server_run s s7" using run run_trans calm_run_is_run[OF s6(1)] calm_run_is_run[OF s7(1)] by blast
  then have "server_run s (s7\<lparr>pc := Done_check\<rparr>)" using all_visited[OF s7(4)] by (auto intro: run_step transmit)
  then have "server_run s (s7\<lparr>pc := Finished\<rparr>)"
    using all_done[of "s7\<lparr>pc := Done_check\<rparr>"] s7(3) by (auto intro: run_step transmit)
  with s7 show ?thesis by (intro exI[of _ "s7\<lparr>pc := Finished\<rparr>"]) simp
qed

text \<open>C33: without the calm the count is wrong: the request thread does not take the mutex of the table,
  and a client that joins while the first of two is visited is sent the message but not counted.
  The round can end, and the message leave the queue, while that client's thread has not yet read the
  head of the queue, which is then empty.\<close>

theorem late_client_outlives_round:
  assumes "hash_keys m = [k1, k2]" and "k3 \<notin> {k1, k2}" and "k1 \<noteq> k2"
    and "\<forall>k \<in> {k1, k2}. \<exists>c. hash_find m k = Some c \<and> \<not> expired t c"
  shows "\<exists>s. server_run (transmission_control [message] m t) s \<and> pc s = Wait_message \<and> queue s = [] \<and>
    (k3, Sending) \<in> set (sendings s)"
proof -
  obtain s where s: "server_run (transmission_control [message] m t) s" "pc s = Finished" "queue s = [message]"
      "sendings s = [(k1, Counted), (k2, Counted), (k3, Sending)]"
    using late_client_run[of "transmission_control [message] m t" k1 k2 k3 message] assms
    by (auto simp: transmission_control_def MAX_ACTIVE_SENDINGS_def)
  then show ?thesis using run_step[OF s(1) transmit[OF end_round[OF s(2)]]]
    by (intro exI conjI) (assumption | simp)+
qed

lemma late_client_outlives_round_witness:
  "\<exists>s. server_run (transmission_control [example_message]
       (hash_add example_clients \<lparr>sin_addr = [1, 2, 3, 4], sin_port = 6\<rparr>
          \<lparr>client_address = \<lparr>sin_addr = [1, 2, 3, 4], sin_port = 6\<rparr>, last_update_time = 9\<rparr>) 10) s \<and>
     queue s = [] \<and> (\<lparr>sin_addr = [1, 2, 3, 4], sin_port = 7\<rparr>, Sending) \<in> set (sendings s)"
  using late_client_outlives_round[of "hash_add example_clients \<lparr>sin_addr = [1, 2, 3, 4], sin_port = 6\<rparr>
        \<lparr>client_address = \<lparr>sin_addr = [1, 2, 3, 4], sin_port = 6\<rparr>, last_update_time = 9\<rparr>" example_client
      "\<lparr>sin_addr = [1, 2, 3, 4], sin_port = 6\<rparr>" "\<lparr>sin_addr = [1, 2, 3, 4], sin_port = 7\<rparr>" 10 example_message]
  by (auto simp: example_clients_def example_client_def hash_add_def hash_find_def expired_def
      SUBSCR_EXPIRE_TIME_def)

end
