(* ===== verification/SentFiles.thy ===== *)
theory SentFiles
  imports ServerMessages
begin

text \<open>
  The last part of a round of \<open>mtn-server-transmitter.c\<close>: the file of a transmitted message is moved
  from the directory of new messages to the one of sent messages, under the first unused of the
  names \<open>name\<close>, \<open>name-1\<close>, \<open>name-2\<close>, and so on.
\<close>

definition USER_SENT_MESSAGE_DIR :: string where
  "USER_SENT_MESSAGE_DIR = ''~/.config/mtn/server/sent_messages/''"

text \<open>The loop that looks for an unused name; it may go on for ever, which is the value \<open>None\<close>. The
  index counts in a C \<open>int\<close>, which \<open>2 ^ 31\<close> files of the same name would be needed to overflow.\<close>

partial_function (option) free_name ::
    "string option \<Rightarrow> file_system \<Rightarrow> string \<Rightarrow> nat \<Rightarrow> string \<Rightarrow> (nat \<times> string) c_result option" where
  "free_name home fs dest_file index tmp_file =
     (case file_exists home fs tmp_file of
        Inl e \<Rightarrow> Some (Inl e)
      | Inr b \<Rightarrow>
          if b then
            free_name home fs dest_file (Suc index)
              (fst (snprintf 4096 (dest_file @ ''-'' @ decimal (Suc index))))
          else Some (Inr (index, tmp_file)))"

text \<open>The result is the file system, whether the copy was opened, and whether the source was removed.
  The source is removed in either case.\<close>

definition move_message_file ::
    "string option \<Rightarrow> file_system \<Rightarrow> string \<Rightarrow> (file_system \<times> bool \<times> bool) c_result option" where
  "move_message_file home fs name =
     (let src_file = USER_NEW_MESSAGE_DIR @ name; dest_file = USER_SENT_MESSAGE_DIR @ name in
      case free_name home fs dest_file 0 dest_file of
        None \<Rightarrow> None
      | Some r \<Rightarrow> Some (result_bind r (\<lambda>(index, tmp_file).
          let dest_file = (if index \<noteq> 0 then tmp_file else dest_file) in
          result_bind (load_file home fs dest_file O_WRONLY (Some src_file)) (\<lambda>(fs, file_fd).
            result_bind (rm_file home fs src_file) (\<lambda>(fs, removed).
              Inr (fs, file_fd \<noteq> None, removed))))))"

section \<open>Paths below the home directory\<close>

definition plain_parts :: "string list \<Rightarrow> bool" where
  "plain_parts ps \<longleftrightarrow> (\<forall>p \<in> set ps. part p \<and> NUL \<notin> set p)"

lemma NUL_notin_abs_path: "plain_parts ps \<Longrightarrow> NUL \<notin> set (abs_path ps)"
  by (auto simp: plain_parts_def abs_path_def)

lemma abs_path_append [simp]: "abs_path (ps @ qs) = abs_path ps @ abs_path qs"
  by (simp add: abs_path_def)

lemma expand_user_path:
  assumes "plain_parts hs" and "plain_parts ps" and "length (abs_path (hs @ ps)) < 4096"
  shows "expand_home (Some (abs_path hs)) (CHR ''~'' # abs_path ps) = Inr (abs_path (hs @ ps))"
proof -
  have "replace_first ''~'' (replacement_text (Some (abs_path hs))) (CHR ''~'' # abs_path ps) =
      abs_path (hs @ ps)"
    using NUL_notin_abs_path[OF assms(1)] by (simp add: replace_first_def replacement_text_def)
  then show ?thesis
    using assms(3) NUL_notin_abs_path[OF assms(2)] by (subst expand_home_result) auto
qed

definition new_dir :: "string list \<Rightarrow> string list" where
  "new_dir hs = hs @ [''.config'', ''mtn'', ''server'', ''new_messages'']"

definition sent_dir :: "string list \<Rightarrow> string list" where
  "sent_dir hs = hs @ [''.config'', ''mtn'', ''server'', ''sent_messages'']"

definition message_name :: "string \<Rightarrow> bool" where
  "message_name name \<longleftrightarrow> part name \<and> NUL \<notin> set name \<and> length name \<le> 400"

definition home_ok :: "string list \<Rightarrow> bool" where
  "home_ok hs \<longleftrightarrow> plain_parts hs \<and> length (abs_path hs) \<le> 3000"

lemma part_literals [simp]:
  "part ''.config''" "part ''mtn''" "part ''server''" "part ''new_messages''" "part ''sent_messages''"
  by (simp_all add: part_def)

lemma dir_plain:
  "home_ok hs \<Longrightarrow> message_name name \<Longrightarrow> \<forall>p \<in> set (new_dir hs @ [name]). part p"
  "home_ok hs \<Longrightarrow> message_name name \<Longrightarrow> \<forall>p \<in> set (sent_dir hs @ [name]). part p"
  by (auto simp: new_dir_def sent_dir_def home_ok_def plain_parts_def message_name_def)

lemma dir_length:
  "home_ok hs \<Longrightarrow> message_name name \<Longrightarrow> length (abs_path (new_dir hs @ [name])) < 4096"
  "home_ok hs \<Longrightarrow> message_name name \<Longrightarrow> length (abs_path (sent_dir hs @ [name])) < 4096"
  by (simp_all add: new_dir_def sent_dir_def home_ok_def message_name_def) (simp_all add: abs_path_def)

lemma expand_new:
  assumes "home_ok hs" and "message_name name"
  shows "expand_home (Some (abs_path hs)) (USER_NEW_MESSAGE_DIR @ name) = Inr (abs_path (new_dir hs @ [name]))"
  using expand_user_path[of hs "[''.config'', ''mtn'', ''server'', ''new_messages'', name]"]
    dir_length(1)[OF assms] assms
  by (simp add: home_ok_def message_name_def plain_parts_def abs_path_def new_dir_def
      USER_NEW_MESSAGE_DIR_def del: abs_path_append)

lemma expand_sent:
  assumes "home_ok hs" and "message_name name"
  shows "expand_home (Some (abs_path hs)) (USER_SENT_MESSAGE_DIR @ name) = Inr (abs_path (sent_dir hs @ [name]))"
  using expand_user_path[of hs "[''.config'', ''mtn'', ''server'', ''sent_messages'', name]"]
    dir_length(2)[OF assms] assms
  by (simp add: home_ok_def message_name_def plain_parts_def abs_path_def sent_dir_def
      USER_SENT_MESSAGE_DIR_def del: abs_path_append)

lemma file_exists_sent:
  assumes "home_ok hs" and "message_name name"
  shows "file_exists (Some (abs_path hs)) fs (USER_SENT_MESSAGE_DIR @ name) =
    Inr (node_at fs (sent_dir hs @ [name]) \<noteq> None)"
  using expand_sent[OF assms] access_abs_path(1)[OF dir_plain(2)[OF assms], of fs]
  by (simp add: file_exists_def del: abs_path_append abs_path_simps)

section \<open>The search for an unused name\<close>

definition candidate :: "string \<Rightarrow> nat \<Rightarrow> string" where
  "candidate name i = (if i = 0 then name else name @ ''-'' @ decimal i)"

lemma decimal_inj: "decimal i = decimal j \<Longrightarrow> i = j"
  by (metis digits_value_decimal)

lemma candidate_inj: "candidate name i = candidate name j \<Longrightarrow> i = j"
  by (auto simp: candidate_def dest: decimal_inj split: if_splits)

lemma candidate_name:
  assumes "part name" and "NUL \<notin> set name" and "length name \<le> 255" and "i < 2 ^ 31"
  shows "message_name (candidate name i)"
proof -
  have "length (decimal i) \<le> 10" using assms(4) decimal_length[of 10 i] by simp
  moreover have "CHR ''/'' \<notin> set (decimal i)" "NUL \<notin> set (decimal i)"
    using decimal_is_digit[of "CHR ''/''" i] decimal_is_digit[of NUL i] by (auto simp: is_digit_def)
  ultimately show ?thesis
    using assms(1-3) by (auto simp: message_name_def candidate_def part_def)
qed

lemma free_name_finds:
  assumes "home_ok hs" and "part name" and "NUL \<notin> set name" and "length name \<le> 255" and "n < 2 ^ 31"
    and free: "node_at fs (sent_dir hs @ [candidate name n]) = None"
  shows "i \<le> n \<Longrightarrow> \<forall>j. i \<le> j \<and> j < n \<longrightarrow> node_at fs (sent_dir hs @ [candidate name j]) \<noteq> None \<Longrightarrow>
    free_name (Some (abs_path hs)) fs (USER_SENT_MESSAGE_DIR @ name) i
      (USER_SENT_MESSAGE_DIR @ candidate name i) = Some (Inr (n, USER_SENT_MESSAGE_DIR @ candidate name n))"
proof (induction "n - i" arbitrary: i)
  case 0
  then have "i = n" by simp
  moreover have "file_exists (Some (abs_path hs)) fs (USER_SENT_MESSAGE_DIR @ candidate name n) = Inr False"
    using file_exists_sent[OF assms(1) candidate_name[OF assms(2-5)]] free by simp
  ultimately show ?case by (subst free_name.simps) simp
next
  case (Suc d)
  then have i: "i < n" "i < 2 ^ 31" "Suc i < 2 ^ 31" using assms(5) by linarith+
  have "file_exists (Some (abs_path hs)) fs (USER_SENT_MESSAGE_DIR @ candidate name i) = Inr True"
    using file_exists_sent[OF assms(1) candidate_name[OF assms(2-4) i(2)]] Suc.prems(2) i(1) by auto
  moreover have "length (candidate name (Suc i)) \<le> 400"
    using candidate_name[OF assms(2-4) i(3)] by (simp add: message_name_def)
  then have "fst (snprintf 4096 ((USER_SENT_MESSAGE_DIR @ name) @ ''-'' @ decimal (Suc i))) =
      USER_SENT_MESSAGE_DIR @ candidate name (Suc i)"
    by (simp add: snprintf_def candidate_def USER_SENT_MESSAGE_DIR_def)
  ultimately show ?case
    using Suc.hyps(1)[of "Suc i"] Suc.hyps(2) Suc.prems i(1) by (subst free_name.simps) auto
qed

lemma some_candidate_unused:
  assumes "finite (dom (nodes fs))" and "card (dom (nodes fs)) < 2 ^ 31"
  shows "\<exists>n < 2 ^ 31. node_at fs (sent_dir hs @ [candidate name n]) = None \<and>
    (\<forall>j < n. node_at fs (sent_dir hs @ [candidate name j]) \<noteq> None)"
proof -
  let ?loc = "\<lambda>i. sent_dir hs @ [candidate name i]" and ?N = "card (dom (nodes fs))"
  have "\<not> ?loc ` {..?N} \<subseteq> dom (nodes fs)"
  proof
    assume "?loc ` {..?N} \<subseteq> dom (nodes fs)"
    then have "card (?loc ` {..?N}) \<le> ?N" using assms(1) card_mono by blast
    moreover have "inj_on ?loc {..?N}" by (auto intro!: inj_onI dest: candidate_inj)
    ultimately show False by (simp add: card_image)
  qed
  then obtain i where i: "i \<le> ?N" "node_at fs (?loc i) = None"
    by (auto simp: node_at_def domIff subset_eq)
  define n where "n = (LEAST n. node_at fs (?loc n) = None)"
  have "node_at fs (?loc n) = None" "n \<le> i"
    unfolding n_def using i(2) by (auto intro: LeastI Least_le)
  moreover have "\<forall>j < n. node_at fs (?loc j) \<noteq> None" unfolding n_def using not_less_Least by blast
  ultimately show ?thesis using i(1) assms(2) by (intro exI[of _ n]) auto
qed

section \<open>The move\<close>

lemma rm_file_new:
  assumes "home_ok hs" and "message_name name" and "node_at fs (new_dir hs @ [name]) = Some (File content)"
    and "can_enter fs (new_dir hs @ [name])"
  shows "rm_file (Some (abs_path hs)) fs (USER_NEW_MESSAGE_DIR @ name) =
    Inr (put_node fs (new_dir hs @ [name]) None, True)"
proof -
  have "locate fs (abs_path (new_dir hs @ [name])) = new_dir hs @ [name]"
    using locate_abs_path[OF dir_plain(1)[OF assms(1,2)], of "[]" fs] by simp
  moreover have "abs_path (new_dir hs @ [name]) \<noteq> []" by (simp add: abs_path_def)
  moreover have "\<not> wants_dir (abs_path (new_dir hs @ [name]))"
    using dir_plain(1)[OF assms(1,2)] by (rule abs_path_not_dir)
  ultimately show ?thesis
    using expand_new[OF assms(1,2)] assms(3,4)
    by (simp add: rm_file_def unlink_def Let_def del: abs_path_append abs_path_simps)
qed

lemma load_sent_file:
  assumes "home_ok hs" and "message_name f" and "message_name name"
    and "node_at fs (new_dir hs @ [name]) = Some (File content)"
    and "node_at fs (sent_dir hs @ [f]) = None"
  shows "load_file (Some (abs_path hs)) fs (USER_SENT_MESSAGE_DIR @ f) O_WRONLY
      (Some (USER_NEW_MESSAGE_DIR @ name)) =
    (if can_enter fs (sent_dir hs @ [f])
     then Inr (put_node fs (sent_dir hs @ [f]) (Some (File content)), Some (sent_dir hs @ [f]))
     else Inr (fs, None))"
proof -
  have "init_file fs (abs_path (sent_dir hs @ [f])) (Some (abs_path (new_dir hs @ [name]))) =
    Inr (if can_enter fs (sent_dir hs @ [f])
         then put_node fs (sent_dir hs @ [f]) (Some (File content)) else fs)"
    using dir_plain[OF assms(1)] dir_length(2)[OF assms(1,2)] assms by (intro init_file_creates) auto
  moreover have "locate fs' (abs_path (sent_dir hs @ [f])) = sent_dir hs @ [f]" for fs'
    using locate_abs_path[OF dir_plain(2)[OF assms(1,2)], of "[]"] by simp
  moreover have "\<not> wants_dir (abs_path (sent_dir hs @ [f]))"
    using dir_plain(2)[OF assms(1,2)] by (rule abs_path_not_dir)
  moreover have "abs_path (sent_dir hs @ [f]) \<noteq> []" by (simp add: abs_path_def)
  ultimately show ?thesis
    using expand_new[OF assms(1,3)] expand_sent[OF assms(1,2)] assms(5)
    by (simp add: load_file_def open_file_def Let_def del: abs_path_append abs_path_simps)
qed

lemma dirs_differ: "new_dir hs @ [a] \<noteq> sent_dir hs @ [b]" "new_dir hs \<noteq> sent_dir hs @ [b]"
  by (auto simp: new_dir_def sent_dir_def dest: arg_cong[where f = length])

lemma move_message_file_result:
  assumes "home_ok hs" and "part name" and "NUL \<notin> set name" and "length name \<le> 255"
    and fin: "finite (dom (nodes fs))" "card (dom (nodes fs)) < 2 ^ 31"
    and new: "node_at fs (new_dir hs @ [name]) = Some (File content)" "node_at fs (new_dir hs) = Some Dir"
      "may_change fs (new_dir hs)"
  shows "\<exists>n. node_at fs (sent_dir hs @ [candidate name n]) = None \<and>
    (\<forall>j < n. node_at fs (sent_dir hs @ [candidate name j]) \<noteq> None) \<and>
    move_message_file (Some (abs_path hs)) fs name = Some (Inr
     (if can_enter fs (sent_dir hs @ [candidate name n])
      then (put_node (put_node fs (sent_dir hs @ [candidate name n]) (Some (File content)))
              (new_dir hs @ [name]) None, True, True)
      else (put_node fs (new_dir hs @ [name]) None, False, True)))"
proof -
  obtain n where n: "n < 2 ^ 31" "node_at fs (sent_dir hs @ [candidate name n]) = None"
    "\<forall>j < n. node_at fs (sent_dir hs @ [candidate name j]) \<noteq> None"
    using some_candidate_unused[OF fin] by blast
  have name: "message_name name" "message_name (candidate name n)"
    using candidate_name[OF assms(2-4), of 0] candidate_name[OF assms(2-4) n(1)]
    by (simp_all add: candidate_def)
  define fs1 where "fs1 = (if can_enter fs (sent_dir hs @ [candidate name n])
    then put_node fs (sent_dir hs @ [candidate name n]) (Some (File content)) else fs)"
  have free: "free_name (Some (abs_path hs)) fs (USER_SENT_MESSAGE_DIR @ name) 0 (USER_SENT_MESSAGE_DIR @ name) =
      Some (Inr (n, USER_SENT_MESSAGE_DIR @ candidate name n))"
    using free_name_finds[OF assms(1-4) n(1,2), of 0] n(3) by (simp add: candidate_def)
  have dest: "(if n \<noteq> 0 then USER_SENT_MESSAGE_DIR @ candidate name n else USER_SENT_MESSAGE_DIR @ name) =
      USER_SENT_MESSAGE_DIR @ candidate name n"
    by (simp add: candidate_def)
  have "rm_file (Some (abs_path hs)) fs1 (USER_NEW_MESSAGE_DIR @ name) =
      Inr (put_node fs1 (new_dir hs @ [name]) None, True)"
    using assms(1,4) name(1) new dirs_differ[of hs]
    by (intro rm_file_new[where content = content]) (auto simp: fs1_def put_node_def node_at_def NAME_MAX_def)
  then show ?thesis
    using n(2,3) free load_sent_file[OF assms(1) name(2,1) new(1) n(2)]
    unfolding move_message_file_def Let_def free option.case result_bind.simps prod.case dest
    by (intro exI[of _ n]) (auto simp: fs1_def)
qed

section \<open>The move's guarantees\<close>


text \<open>A server directory with one new message, with or without a directory for the sent ones.\<close>

definition example_files :: "bool \<Rightarrow> file_system" where
  "example_files with_sent =
     \<lparr>nodes = [new_dir [''h''] \<mapsto> Dir, new_dir [''h''] @ [''f''] \<mapsto> File ''hello'']
        (sent_dir [''h''] := if with_sent then Some Dir else None),
      cwd = [], may_change = \<lambda>_. True\<rparr>"

lemma example_files_simps:
  "home_ok [''h'']" "part ''f''" "finite (dom (nodes (example_files b)))"
  "card (dom (nodes (example_files b))) < 2 ^ 31"
  "node_at (example_files b) (new_dir [''h''] @ [''f'']) = Some (File ''hello'')"
  "node_at (example_files b) (new_dir [''h'']) = Some Dir"
  "may_change (example_files b) loc"
  "node_at (example_files b) (sent_dir [''h'']) = (if b then Some Dir else None)"
proof -
  let ?D = "{new_dir [''h''], new_dir [''h''] @ [''f''], sent_dir [''h'']}"
  have sub: "dom (nodes (example_files b)) \<subseteq> ?D" by (auto simp: example_files_def split: if_splits)
  then show "finite (dom (nodes (example_files b)))" by (rule finite_subset) simp
  have "card (dom (nodes (example_files b))) \<le> card ?D" using sub by (intro card_mono) auto
  also have "\<dots> \<le> 3" by (simp add: card_insert_if)
  finally show "card (dom (nodes (example_files b))) < 2 ^ 31" by simp
qed (simp_all add: example_files_def home_ok_def plain_parts_def part_def abs_path_def node_at_def
    new_dir_def sent_dir_def)


text \<open>The source file is removed whether or not the copy was made: when the directory of sent messages
  is missing, which the server never creates, every transmitted file is deleted and nothing else
  changes.\<close>

lemma sent_file_is_lost:
  assumes "home_ok hs" and "part name" and "NUL \<notin> set name" and "length name \<le> 255"
    and "finite (dom (nodes fs))" and "card (dom (nodes fs)) < 2 ^ 31"
    and "node_at fs (new_dir hs @ [name]) = Some (File content)" and "node_at fs (new_dir hs) = Some Dir"
    and "may_change fs (new_dir hs)" and "node_at fs (sent_dir hs) = None"
  shows "move_message_file (Some (abs_path hs)) fs name =
    Some (Inr (put_node fs (new_dir hs @ [name]) None, False, True))"
  using move_message_file_result[OF assms(1-9)] assms(10) by auto

lemma sent_file_is_lost_witness:
  "move_message_file (Some (abs_path [''h''])) (example_files False) ''f'' =
     Some (Inr (put_node (example_files False) (new_dir [''h''] @ [''f'']) None, False, True))"
  using sent_file_is_lost[OF example_files_simps(1,2) _ _ example_files_simps(3-7)[where b = False]]
  by (simp add: example_files_simps(8))

end
