(* ===== verification/Programs.thy ===== *)
theory Programs
  imports Updater Transmitter SentFiles Config
begin

text \<open>
  The two programs, \<open>mtn-client.c\<close> and \<open>mtn-server.c\<close>: their options, the set-up they do before
  their threads start, and the state the threads start from. The arguments are given as
  \<open>getopt_long\<close> sees them, an option with its argument; abbreviations of long options are left out.
\<close>

section \<open>Options\<close>

datatype cmd_arg = Short char string | Long string string

text \<open>The value \<open>getopt_long\<close> returns for an argument, given the short and the long options.\<close>

fun getopt_long :: "string \<Rightarrow> (string \<times> char) list \<Rightarrow> cmd_arg \<Rightarrow> char \<times> string" where
  "getopt_long shorts longs (Short c optarg) = (if c \<in> set shorts then c else CHR ''?'', optarg)"
| "getopt_long shorts longs (Long name optarg) =
     (case map_of longs name of Some c \<Rightarrow> (c, optarg) | None \<Rightarrow> (CHR ''?'', optarg))"

definition client_longopts :: "(string \<times> char) list" where
  "client_longopts = [(''config'', CHR ''c''), (''server-list'', CHR ''c'')]"

definition server_longopts :: "(string \<times> char) list" where
  "server_longopts = [(''config'', CHR ''c'')]"

text \<open>The configuration file and the server list file, if given.\<close>

fun client_options ::
    "cmd_arg list \<Rightarrow> string option \<Rightarrow> string option \<Rightarrow> (string option \<times> string option) c_result" where
  "client_options [] config_file server_list_file = Inr (config_file, server_list_file)"
| "client_options (a # args) config_file server_list_file =
     (case getopt_long ''cs'' client_longopts a of (opt, optarg) \<Rightarrow>
        if opt = CHR ''c'' then client_options args (Some optarg) server_list_file
        else if opt = CHR ''s'' then client_options args config_file (Some optarg)
        else if opt = CHR ''?'' then Inl (Exit 1)
        else client_options args config_file server_list_file)"

fun server_options :: "cmd_arg list \<Rightarrow> string option \<Rightarrow> string option c_result" where
  "server_options [] config_file = Inr config_file"
| "server_options (a # args) config_file =
     (case getopt_long ''c'' server_longopts a of (opt, optarg) \<Rightarrow>
        if opt = CHR ''c'' then server_options args (Some optarg)
        else if opt = CHR ''?'' then Inl (Exit 1)
        else server_options args config_file)"

section \<open>The client\<close>

text \<open>
  The client's set-up: the file system, the configuration and the state in which the threads start.
  \<open>recv\<close> is what the receiving thread's array holds at first; \<open>survives\<close> tells whether the process goes on
  after a read outside of the slots of the queue.
\<close>

definition client_main ::
    "nat \<Rightarrow> (nat \<Rightarrow> server_data) \<Rightarrow> sockaddr_in slot_cmp \<Rightarrow> bool \<Rightarrow> string option \<Rightarrow> string \<Rightarrow> int \<Rightarrow>
     cmd_arg list \<Rightarrow> file_system \<Rightarrow> (file_system \<times> config_map \<times> client) c_result" where
  "client_main usable alloc cmp survives home recv now args fs =
     result_bind (client_options args None None) (\<lambda>(config_file, server_list_file).
       result_bind (load_client_config usable home config_file fs [] []) (\<lambda>(fs, config, buffered).
         result_bind (load_client_server_list alloc home server_list_file fs buffered [])
           (\<lambda>(fs, m, buffered).
             if update_control_misreads cmp m \<and> \<not> survives then Inl Out_of_bounds_read
             else Inr (fs, config, update_control cmp m recv now))))"

section \<open>The server\<close>

definition SERVER_PID_FILE :: string where "SERVER_PID_FILE = ''~/.config/mtn/server/server.pid''"

text \<open>The address the server binds its socket to.\<close>

definition server_port :: "config_map \<Rightarrow> (16 word) c_result" where
  "server_port config =
     (case get_config_value config ''port'' of
        None \<Rightarrow> Inl Null_pointer
      | Some p \<Rightarrow> Inr (word_of_int (atoi p)))"

definition create_pid_file :: "string option \<Rightarrow> nat \<Rightarrow> file_system \<Rightarrow> file_system c_result" where
  "create_pid_file home pid fs =
     result_bind (load_file home fs SERVER_PID_FILE O_WRONLY_TRUNC None) (\<lambda>(fs, file_fd).
       case file_fd of
         None \<Rightarrow> Inr fs
       | Some fd \<Rightarrow>
           result_bind (send_printed 10 (decimal pid)) (\<lambda>pid_str. Inr (write_file fs fd pid_str)))"

definition server_main ::
    "nat \<Rightarrow> string option \<Rightarrow> nat \<Rightarrow> int \<Rightarrow> cmd_arg list \<Rightarrow> file_system \<Rightarrow>
     (file_system \<times> config_map \<times> transmitter) c_result" where
  "server_main usable home pid now args fs =
     result_bind (server_options args None) (\<lambda>config_file.
       result_bind (load_server_config usable home config_file fs [] []) (\<lambda>(fs, config, buffered).
         result_bind (create_pid_file home pid fs) (\<lambda>fs.
           Inr (fs, config, transmission_control [] [] now))))"

section \<open>The programs' guarantees\<close>

text \<open>The long option for the server list is declared with the letter of the configuration file: with
  long options only, no argument ever names a server list, and \<open>--server-list\<close> replaces the
  configuration file.\<close>

lemma long_option_never_sets_server_list:
  assumes "\<forall>a \<in> set args. \<exists>n v. a = Long n v" and "client_options args None None = Inr (c, l)"
  shows "l = None \<and> (\<forall>v. last args = Long ''server-list'' v \<and> args \<noteq> [] \<longrightarrow> c = Some v)"
proof -
  have "l = l0 \<and> (\<forall>v. args \<noteq> [] \<and> last args = Long ''server-list'' v \<longrightarrow> c = Some v)"
    if "\<forall>a \<in> set args. \<exists>n v. a = Long n v" "client_options args c0 l0 = Inr (c, l)" for c0 l0
    using that
  proof (induction args arbitrary: c0)
    case (Cons a args)
    from Cons.prems(1) obtain n v where a: "a = Long n v" by auto
    with Cons.prems(2) have n: "n = ''config'' \<or> n = ''server-list''"
      and rest: "client_options args (Some v) l0 = Inr (c, l)"
      by (auto simp: client_longopts_def split: if_splits)
    with Cons.IH[OF _ rest] Cons.prems(1) a show ?case by (cases "args = []") auto
  qed simp
  with assms show ?thesis by blast
qed

lemma long_option_never_sets_server_list_witness:
  "client_options [Long ''server-list'' ''f''] None None = Inr (Some ''f'', None)"
proof -
  obtain c l where o: "client_options [Long ''server-list'' ''f''] None None = Inr (c, l)"
    by (simp add: client_longopts_def)
  from long_option_never_sets_server_list[OF _ o] o show ?thesis by simp
qed

text \<open>The process writes its number to an existing PID file whatever the file held before, so that
  reading the file as a number gives the process again.\<close>

lemma pid_file_holds_pid:
  assumes "home_ok hs" and "pid < 10 ^ 9"
    and "node_at fs (hs @ [''.config'', ''mtn'', ''server'', ''server.pid'']) = Some (File old)"
  shows "\<exists>fs'. create_pid_file (Some (abs_path hs)) pid fs = Inr fs' \<and>
    (\<exists>s. node_at fs' (hs @ [''.config'', ''mtn'', ''server'', ''server.pid'']) = Some (File s) \<and> atoi s = int pid)"
proof -
  let ?ps = "hs @ [''.config'', ''mtn'', ''server'', ''server.pid'']"
  have ps: "\<forall>p \<in> set ?ps. part p" "?ps \<noteq> []" "length (abs_path ?ps) < 4096"
    using assms(1) by (auto simp: home_ok_def plain_parts_def part_def) (simp add: abs_path_def)
  have "expand_home (Some (abs_path hs)) (CHR ''~'' # abs_path [''.config'', ''mtn'', ''server'', ''server.pid'']) =
      Inr (abs_path ?ps)"
    using assms(1) ps(3) by (intro expand_user_path) (auto simp: home_ok_def plain_parts_def part_def)
  then have home: "expand_home (Some (abs_path hs)) SERVER_PID_FILE = Inr (abs_path ?ps)"
    by (simp add: SERVER_PID_FILE_def abs_path_def)
  have acc: "access_ok fs (abs_path ?ps)" using access_abs_path(1)[OF ps(1,2)] assms(3) by simp
  have loc: "locate fs (abs_path ?ps) = ?ps" using locate_abs_path[OF ps(1,2), of "[]"] by simp
  have ne: "abs_path ?ps \<noteq> []" by (simp add: abs_path_def)
  have "load_file (Some (abs_path hs)) fs SERVER_PID_FILE O_WRONLY_TRUNC None =
      Inr (put_node fs ?ps (Some (File [])), Some ?ps)"
    using home acc loc ne ps(3) assms(3) abs_path_not_dir[OF ps(1)]
    by (simp add: load_file_def init_file_def open_file_def Let_def del: abs_path_append)
  moreover have "length (decimal pid) < 10" using decimal_length[of 9 pid] assms(2) by simp
  ultimately show ?thesis
    by (simp add: create_pid_file_def send_printed_fits write_file_def atoi_decimal)
qed

lemma pid_file_holds_pid_witness:
  "\<exists>fs'. create_pid_file (Some (abs_path [''h''])) 4711
     \<lparr>nodes = [[''h'', ''.config'', ''mtn'', ''server'', ''server.pid''] \<mapsto> File ''123456''], cwd = [],
       may_change = \<lambda>_. True\<rparr> = Inr fs'"
  using pid_file_holds_pid[of "[''h'']" 4711 "\<lparr>nodes = [[''h'', ''.config'', ''mtn'', ''server'', ''server.pid''] \<mapsto>
      File ''123456''], cwd = [], may_change = \<lambda>_. True\<rparr>" "''123456''"]
  by (auto simp: home_ok_def plain_parts_def part_def node_at_def abs_path_def)

end
