(* ===== verification/ServerSystem.thy ===== *)
theory ServerSystem
  imports Transmitter SentFiles Programs
begin

text \<open>
  The server as a whole: the thread that answers requests, the thread that loads messages, and the
  transmission thread with its sending threads, all with the operations of their own theories, on the
  table of clients, the queue and the file system they share. Every run of the threads is shown to be
  a run of the round of \<open>Transmitter\<close>, and a calm run a calm one, whose guarantees therefore hold for the
  program.
\<close>

section \<open>The threads\<close>

text \<open>
  \<open>entries_left\<close> are the directory entries the loading thread still has to handle, \<open>None\<close> while it waits
  for a signal; the queue of \<open>loading\<close> holds the message whose \<open>DL_APPEND\<close> still waits for the queue's mutex, and
  the queue itself is the one of \<open>round\<close>. \<open>request_buf\<close> is the request thread's array, \<open>None\<close> once it has ended.
  \<open>moving\<close> is the message whose file the transmission thread moves after a round.
\<close>

record server =
  round :: transmitter
  loading :: loader
  entries_left :: "string list option"
  disk :: file_system
  request_buf :: "string option"
  moving :: "data_message option"
  replied :: "(sockaddr_in \<times> string) list"

text \<open>A client that joins is seen by a round that has not come to the end of the table.\<close>

definition seen_by_round :: "client_map \<Rightarrow> client_map \<Rightarrow> trans_pc \<Rightarrow> trans_pc" where
  "seen_by_round old new p =
     fold (\<lambda>k p. see_new p k) (filter (\<lambda>k. hash_find old k = None) (hash_keys new)) p"

text \<open>
  The loading thread appends under the queue's mutex, which the transmission thread holds from the
  start of a round until the message has left the queue. A directory entry is handled in one step, with the
  clock of that step; \<open>names\<close> is what \<open>readdir\<close> gives. A message is added to \<open>sent_map\<close>, which no thread reads,
  in the step in which it leaves the queue. The clock may be set to any time.
\<close>

inductive transmit_threads :: "string option \<Rightarrow> server \<Rightarrow> server c_result \<Rightarrow> bool" for home where
  sys_transmit: "moving s = None \<Longrightarrow> pc (round s) \<noteq> Finished \<Longrightarrow> transmission_thread (round s) t \<Longrightarrow>
    transmit_threads home s (Inr (s\<lparr>round := t\<rparr>))"
| sys_end_round: "pc (round s) = Finished \<Longrightarrow> queue (round s) = m # q \<Longrightarrow> transmission_thread (round s) t \<Longrightarrow>
    transmit_threads home s (Inr (s\<lparr>round := t, moving := Some m\<rparr>))"
| sys_end_null: "pc (round s) = Finished \<Longrightarrow> queue (round s) = [] \<Longrightarrow>
    transmit_threads home s (Inl Null_pointer)"
| sys_move: "moving s = Some m \<Longrightarrow>
    move_message_file home (disk s) (file_name m) = Some (Inr (fs, opened, gone)) \<Longrightarrow>
    transmit_threads home s (Inr (s\<lparr>disk := fs, moving := None\<rparr>))"
| sys_move_crash: "moving s = Some m \<Longrightarrow> move_message_file home (disk s) (file_name m) = Some (Inl e) \<Longrightarrow>
    transmit_threads home s (Inl e)"
| sys_send: "sending_thread (round s) t \<Longrightarrow> transmit_threads home s (Inr (s\<lparr>round := t\<rparr>))"
| sys_send_crash: "sending_fault (round s) e \<Longrightarrow> transmit_threads home s (Inl e)"

inductive loading_thread :: "string option \<Rightarrow> server \<Rightarrow> server c_result \<Rightarrow> bool" for home where
  sys_signal: "loading_thread home s (Inr (s\<lparr>loading := new_message_signal (loading s)\<rparr>))"
| sys_wake: "entries_left s = None \<Longrightarrow> new_message_available (loading s) \<Longrightarrow>
    load_dir home (disk s) USER_NEW_MESSAGE_DIR = Inr (fs, dir) \<Longrightarrow>
    loading_thread home s (Inr (s\<lparr>loading := (loading s)\<lparr>new_message_available := False\<rparr>, disk := fs,
      entries_left := (case dir of None \<Rightarrow> None | Some _ \<Rightarrow> Some names)\<rparr>))"
| sys_wake_crash: "entries_left s = None \<Longrightarrow> new_message_available (loading s) \<Longrightarrow>
    load_dir home (disk s) USER_NEW_MESSAGE_DIR = Inl e \<Longrightarrow> loading_thread home s (Inl e)"
| sys_entry: "entries_left s = Some (f # names) \<Longrightarrow> to_send_queue (loading s) = [] \<Longrightarrow>
    load_entry home (f, time_now (round s)) (disk s, loading s) = Inr (fs, l) \<Longrightarrow>
    loading_thread home s (Inr (s\<lparr>loading := l, entries_left := Some names, disk := fs\<rparr>))"
| sys_entry_crash: "entries_left s = Some (f # names) \<Longrightarrow> to_send_queue (loading s) = [] \<Longrightarrow>
    load_entry home (f, time_now (round s)) (disk s, loading s) = Inl e \<Longrightarrow>
    loading_thread home s (Inl e)"
| sys_append: "to_send_queue (loading s) = [m] \<Longrightarrow> pc (round s) = Wait_message \<Longrightarrow>
    loading_thread home s (Inr (s\<lparr>round := (round s)\<lparr>queue := queue (round s) @ [m]\<rparr>,
      loading := (loading s)\<lparr>to_send_queue := []\<rparr>\<rparr>))"
| sys_loaded: "entries_left s = Some [] \<Longrightarrow> to_send_queue (loading s) = [] \<Longrightarrow>
    loading_thread home s (Inr (s\<lparr>entries_left := None\<rparr>))"

text \<open>\<open>d\<close> is what \<open>recvfrom\<close> gives.\<close>

inductive request_thread :: "config_map \<Rightarrow> incoming \<Rightarrow> server \<Rightarrow> server c_result \<Rightarrow> bool" for config d where
  sys_request: "request_buf s = Some buf \<Longrightarrow>
    server_receive config (time_now (round s)) sent d buf (clients (round s)) = Inr (buf', m, replies, go) \<Longrightarrow>
    request_thread config d s (Inr (s\<lparr>request_buf := (if go then Some buf' else None),
      round := (round s)\<lparr>clients := m, pc := seen_by_round (clients (round s)) m (pc (round s))\<rparr>,
      replied := replied s @ replies\<rparr>))"
| sys_request_crash: "request_buf s = Some buf \<Longrightarrow>
    server_receive config (time_now (round s)) sent d buf (clients (round s)) = Inl e \<Longrightarrow>
    request_thread config d s (Inl e)"

inductive threads_step :: "config_map \<Rightarrow> string option \<Rightarrow> server \<Rightarrow> server c_result \<Rightarrow> bool" for config home where
  by_transmitter: "transmit_threads home s r \<Longrightarrow> threads_step config home s r"
| by_loader: "loading_thread home s r \<Longrightarrow> threads_step config home s r"
| by_request: "request_thread config d s r \<Longrightarrow> threads_step config home s r"
| sys_tick: "t \<noteq> -1 \<Longrightarrow> threads_step config home s (Inr (s\<lparr>round := (round s)\<lparr>time_now := t\<rparr>\<rparr>))"

inductive threads_run :: "config_map \<Rightarrow> string option \<Rightarrow> server \<Rightarrow> server \<Rightarrow> bool" for config home s0 where
  threads_start: "threads_run config home s0 s0"
| threads_next: "threads_run config home s0 s \<Longrightarrow> threads_step config home s (Inr s') \<Longrightarrow>
    threads_run config home s0 s'"

text \<open>A run in which no client joins while the round that is under way can still see it.\<close>

inductive calm_threads_run :: "config_map \<Rightarrow> string option \<Rightarrow> server \<Rightarrow> server \<Rightarrow> bool" for config home s0 where
  calm_threads_start: "calm_threads_run config home s0 s0"
| calm_threads_next: "calm_threads_run config home s0 s \<Longrightarrow> threads_step config home s (Inr s') \<Longrightarrow>
    \<not> seen_join (round s) (round s') \<Longrightarrow> calm_threads_run config home s0 s'"

text \<open>A run in which the clock is never set back.\<close>

inductive steady_threads_run :: "config_map \<Rightarrow> string option \<Rightarrow> server \<Rightarrow> server \<Rightarrow> bool" for config home s0 where
  steady_start: "steady_threads_run config home s0 s0"
| steady_next: "steady_threads_run config home s0 s \<Longrightarrow> threads_step config home s (Inr s') \<Longrightarrow>
    time_now (round s) \<le> time_now (round s') \<Longrightarrow> steady_threads_run config home s0 s'"

text \<open>The state in which the server's main function has started the threads.\<close>

definition server_start :: "file_system \<Rightarrow> transmitter \<Rightarrow> string \<Rightarrow> server" where
  "server_start fs t buf =
     \<lparr>round = t, loading = \<lparr>last_id = 0, last_release_time = 0, new_message_available = False, to_send_queue = []\<rparr>,
      entries_left = None, disk = fs, request_buf = Some buf, moving = None, replied = []\<rparr>"

section \<open>The threads run the round\<close>

lemma server_receive_clients:
  assumes "server_receive config t sent d buf m = Inr (buf', m', replies, go)"
  shows "m' = m \<or>
    (\<exists>a c. hash_find m a = Some c \<and> m' = hash_change m a (\<lambda>c. c\<lparr>last_update_time := t\<rparr>)) \<or>
    (\<exists>a. hash_find m a = None \<and> m' = hash_add m a \<lparr>client_address = a, last_update_time = t\<rparr>)"
proof (cases d)
  case (Datagram dg a)
  have subscribed: "subscribe t a m = Inr m2 \<Longrightarrow>
    (\<exists>a c. hash_find m a = Some c \<and> m2 = hash_change m a (\<lambda>c. c\<lparr>last_update_time := t\<rparr>)) \<or>
    (\<exists>a. hash_find m a = None \<and> m2 = hash_add m a \<lparr>client_address = a, last_update_time = t\<rparr>)" for m2
    by (auto simp: subscribe_def current_time_def split: option.splits if_splits)
  have dispatched: "m2 = m \<or>
    (\<exists>a c. hash_find m a = Some c \<and> m2 = hash_change m a (\<lambda>c. c\<lparr>last_update_time := t\<rparr>)) \<or>
    (\<exists>a. hash_find m a = None \<and> m2 = hash_add m a \<lparr>client_address = a, last_update_time = t\<rparr>)"
    if "server_dispatch config t sent b a m = Inr (m2, reply)" for b m2 reply
  proof -
    have "m2 = m \<or> subscribe t a m = Inr m2"
      using that by (auto simp: server_dispatch_def receive_subscription_def receive_resend_def result_simps
        split: mtn_message_type.splits mtn_request_type.splits)
    then show ?thesis using subscribed by blast
  qed
  consider "m' = m" | b reply where "server_dispatch config t sent b a m = Inr (m', reply)"
    using assms Datagram by (auto simp: result_simps Let_def split: if_splits)
  then show ?thesis
  proof cases
    case 2
    then show ?thesis by (rule dispatched)
  qed simp
qed (use assms in simp)

lemma load_entry_loader:
  "load_entry home (f, t) (fs, st) = Inr (fs', st') \<Longrightarrow> st' = st \<or> (\<exists>bs. st' = queue_message t f bs st)"
  by (auto simp: load_entry_def result_simps current_time_def Let_def split: if_splits option.splits)

lemma seen_by_round_same:
  "hash_keys m' = hash_keys m \<Longrightarrow> seen_by_round m m' p = p"
  by (simp add: seen_by_round_def hash_find_None_iff)

lemma seen_by_round_add:
  "hash_find m a = None \<Longrightarrow> seen_by_round m (hash_add m a c) p = see_new p a"
  by (simp add: seen_by_round_def hash_find_None_iff)

lemma threads_step_round:
  assumes "threads_step config home s (Inr s')"
  shows "round s' = round s \<or> server_step (round s) (round s')"
  using assms
proof (cases rule: threads_step.cases)
  case (by_request d)
  then show ?thesis
  proof (cases rule: request_thread.cases)
    case (sys_request buf sent buf' m replies go)
    let ?r = "(round s)\<lparr>clients := m, pc := seen_by_round (clients (round s)) m (pc (round s))\<rparr>"
    consider "m = clients (round s)"
      | a c where "hash_find (clients (round s)) a = Some c"
          "m = hash_change (clients (round s)) a (\<lambda>c. c\<lparr>last_update_time := time_now (round s)\<rparr>)"
      | a where "hash_find (clients (round s)) a = None"
          "m = hash_add (clients (round s)) a \<lparr>client_address = a, last_update_time = time_now (round s)\<rparr>"
      using server_receive_clients[OF sys_request(3)] by blast
    then have "?r = round s \<or> server_step (round s) ?r"
    proof cases
      case 2
      then show ?thesis by (auto intro: outside renewed simp: seen_by_round_same)
    next
      case 3
      then show ?thesis using joined[of "round s" a] by (auto intro: outside simp: seen_by_round_add)
    qed (simp add: seen_by_round_same)
    with sys_request show ?thesis by simp
  qed
next
  case by_transmitter
  then show ?thesis by (cases rule: transmit_threads.cases) (auto intro: transmit sending)
next
  case by_loader
  then show ?thesis by (cases rule: loading_thread.cases) (auto intro: outside queued)
qed (auto intro: outside ticked)

lemma threads_run_round: "threads_run config home s0 s \<Longrightarrow> server_run (round s0) (round s)"
proof (induction rule: threads_run.induct)
  case (threads_next s s')
  with threads_step_round[OF threads_next(2)] show ?case by (auto intro: run_step)
qed (rule run_start)


lemma calm_threads_run_is_run: "calm_threads_run config home s0 s \<Longrightarrow> threads_run config home s0 s"
  by (induction rule: calm_threads_run.induct) (auto intro: threads_run.intros)

section \<open>The order of messages\<close>

definition message_key :: "data_message \<Rightarrow> int \<times> int" where
  "message_key m = (release_time m, message_id m)"

fun before :: "int \<times> int \<Rightarrow> int \<times> int \<Rightarrow> bool" where
  "before (t, i) (t', i') \<longleftrightarrow> t < t' \<or> t = t' \<and> i < i'"

text \<open>The keys of the messages that were sent, then of those queued, then of the one about to be.\<close>

definition keys_in_order :: "server \<Rightarrow> (int \<times> int) list" where
  "keys_in_order s = hash_keys (sent_map (round s)) @ map message_key (queue (round s)) @
     map message_key (to_send_queue (loading s))"

text \<open>The static variables of the loading thread bound all keys given so far.\<close>

definition order_ok :: "server \<Rightarrow> bool" where
  "order_ok s \<longleftrightarrow> sorted_wrt before (keys_in_order s) \<and>
     (\<forall>k \<in> set (keys_in_order s). before k (last_release_time (loading s), last_id (loading s) + 1)) \<and>
     0 \<le> last_release_time (loading s) \<and> last_release_time (loading s) \<le> time_now (round s)"

lemma before_next:
  "before k (last_release_time st, last_id st + 1) \<Longrightarrow> last_release_time st \<le> now \<Longrightarrow> before k (now, next_id st now)"
  by (cases k) (auto simp: next_id_def)

lemma before_trans: "before a b \<Longrightarrow> before b c \<Longrightarrow> before a c"
  by (cases a; cases b; cases c) auto

lemma before_distinct: "sorted_wrt before ks \<Longrightarrow> distinct ks"
  by (induction ks) auto

lemma keys_in_order_same:
  "keys_in_order s' = keys_in_order s \<Longrightarrow> last_release_time (loading s') = last_release_time (loading s) \<Longrightarrow>
   last_id (loading s') = last_id (loading s) \<Longrightarrow> time_now (round s) \<le> time_now (round s') \<Longrightarrow>
   order_ok s \<Longrightarrow> order_ok s'"
  by (simp add: order_ok_def)

text \<open>What the threads of a round leave alone.\<close>

lemma sending_thread_keeps:
  "sending_thread t t' \<Longrightarrow> queue t' = queue t \<and> sent_map t' = sent_map t \<and> time_now t' = time_now t"
  by (auto elim: sending_threadE)

lemma transmission_thread_keeps:
  "transmission_thread t t' \<Longrightarrow> pc t \<noteq> Finished \<Longrightarrow>
   queue t' = queue t \<and> sent_map t' = sent_map t \<and> time_now t' = time_now t"
  by (auto elim: transmission_threadE)

lemma round_ends:
  "transmission_thread t t' \<Longrightarrow> pc t = Finished \<Longrightarrow> queue t = m # q \<Longrightarrow>
   queue t' = q \<and> sent_map t' = hash_add (sent_map t) (message_key m) m \<and> time_now t' = time_now t"
  by (auto elim: transmission_threadE simp: message_key_def)

lemma order_ok_entry:
  assumes ok: "order_ok s" and free: "to_send_queue (loading s) = []"
    and entry: "load_entry home (f, time_now (round s)) (disk s, loading s) = Inr (fs, l)"
  shows "order_ok (s\<lparr>loading := l, entries_left := names, disk := fs\<rparr>)"
proof -
  let ?now = "time_now (round s)"
  consider "l = loading s" | bs where "l = queue_message ?now f bs (loading s)"
    using load_entry_loader[OF entry] by blast
  then show ?thesis
  proof cases
    case 1
    then show ?thesis using keys_in_order_same[OF _ _ _ _ ok] by (simp add: keys_in_order_def)
  next
    case 2
    let ?k = "(?now, next_id (loading s) ?now)"
    have keys: "keys_in_order (s\<lparr>loading := l, entries_left := names, disk := fs\<rparr>) = keys_in_order s @ [?k]"
      using 2 free by (simp add: keys_in_order_def queue_message_def message_key_def Let_def)
    have below: "\<forall>k \<in> set (keys_in_order s). before k ?k"
      using ok before_next by (auto simp: order_ok_def)
    moreover have "\<forall>k \<in> set (keys_in_order s). before k (?now, next_id (loading s) ?now + 1)"
      using below by (auto intro: before_trans[of _ ?k])
    ultimately show ?thesis
      using 2 ok unfolding order_ok_def keys
      by (simp add: sorted_wrt_append queue_message_def Let_def)
  qed
qed

lemma order_ok_step:
  assumes "threads_step config home s (Inr s')" and "order_ok s" and "time_now (round s) \<le> time_now (round s')"
  shows "order_ok s'"
proof -
  note same = keys_in_order_same[OF _ _ _ _ assms(2)]
  show ?thesis
    using assms(1)
  proof (cases rule: threads_step.cases)
    case by_transmitter
    then show ?thesis
    proof (cases rule: transmit_threads.cases)
      case (sys_transmit t)
      then show ?thesis using transmission_thread_keeps[OF sys_transmit(4)] same by (simp add: keys_in_order_def)
    next
      case (sys_end_round m q t)
      then show ?thesis using round_ends[OF sys_end_round(4) sys_end_round(2,3)] same by (simp add: keys_in_order_def)
    next
      case (sys_send t)
      then show ?thesis using sending_thread_keeps[OF sys_send(2)] same by (simp add: keys_in_order_def)
    qed (use same in \<open>simp add: keys_in_order_def\<close>)
  next
    case by_loader
    then show ?thesis
    proof (cases rule: loading_thread.cases)
      case (sys_entry f names fs l)
      then show ?thesis using order_ok_entry[OF assms(2)] by simp
    qed (use same in \<open>simp_all add: keys_in_order_def new_message_signal_def\<close>)
  next
    case (by_request d)
    then show ?thesis
      by (cases rule: request_thread.cases) (use same in \<open>simp add: keys_in_order_def\<close>)
  qed (use same assms(3) in \<open>simp add: keys_in_order_def\<close>)
qed

lemma order_ok_run: "steady_threads_run config home s0 s \<Longrightarrow> order_ok s0 \<Longrightarrow> order_ok s"
  by (induction rule: steady_threads_run.induct) (auto intro: order_ok_step)

lemma steady_run_is_run: "steady_threads_run config home s0 s \<Longrightarrow> threads_run config home s0 s"
  by (induction rule: steady_threads_run.induct) (auto intro: threads_run.intros)

lemma order_ok_start: "0 \<le> t \<Longrightarrow> order_ok (server_start fs (transmission_control [] m t) buf)"
  by (simp add: order_ok_def keys_in_order_def server_start_def transmission_control_def)

section \<open>Example runs\<close>

definition two_files :: file_system where
  "two_files = \<lparr>nodes = [[''h'', ''.config'', ''mtn'', ''server'', ''new_messages''] \<mapsto> Dir,
      [''h'', ''.config'', ''mtn'', ''server'', ''new_messages'', ''f''] \<mapsto> File ''hello'',
      [''h'', ''.config'', ''mtn'', ''server'', ''new_messages'', ''g''] \<mapsto> File ''world''],
    cwd = [], may_change = \<lambda>_. True\<rparr>"

lemma two_files_entry:
  assumes "t \<noteq> -1"
  shows "load_entry (Some ''/h'') (''f'', t) (two_files, st) = Inr (two_files, queue_message t ''f'' [''hello''] st)"
    and "load_entry (Some ''/h'') (''g'', t) (two_files, st) = Inr (two_files, queue_message t ''g'' [''world''] st)"
proof -
  let ?ds = "[''h'', ''.config'', ''mtn'', ''server'', ''new_messages'']"
  have ds: "\<forall>p \<in> set ?ds. part p" by (simp add: part_def)
  have "expand_home (Some ''/h'') (USER_NEW_MESSAGE_DIR @ f) = Inr (abs_path (?ds @ [f]))"
    if "f = ''f'' \<or> f = ''g''" for f
    using that by (auto simp: expand_home_result replace_first_def replacement_text_def
        abs_path_def USER_NEW_MESSAGE_DIR_def)
  then have d: "in_dir (Some ''/h'') ?ds ''f''" "in_dir (Some ''/h'') ?ds ''g''"
    by (simp_all add: in_dir_def part_def abs_path_def USER_NEW_MESSAGE_DIR_def)
  have p: "map cstr (pieces MTN_DM_BLOCK_DATA_LEN ''hello'') = [''hello'']"
      "map cstr (pieces MTN_DM_BLOCK_DATA_LEN ''world'') = [''world'']"
    by (simp_all add: pieces.simps size_defs)
  have n: "node_at two_files (?ds @ [''f'']) = Some (File ''hello'')"
      "node_at two_files (?ds @ [''g'']) = Some (File ''world'')"
    by (simp_all add: two_files_def node_at_def)
  show "load_entry (Some ''/h'') (''f'', t) (two_files, st) = Inr (two_files, queue_message t ''f'' [''hello''] st)"
    using load_entry_file[OF ds d(1) n(1) assms] p by simp
  show "load_entry (Some ''/h'') (''g'', t) (two_files, st) = Inr (two_files, queue_message t ''g'' [''world''] st)"
    using load_entry_file[OF ds d(2) n(2) assms] p by simp
qed

lemma two_files_dir:
  "load_dir (Some ''/h'') two_files USER_NEW_MESSAGE_DIR =
     Inr (two_files, Some [''h'', ''.config'', ''mtn'', ''server'', ''new_messages''])"
proof -
  let ?ds = "[''h'', ''.config'', ''mtn'', ''server'', ''new_messages'']"
  have ds: "\<forall>p \<in> set ?ds. part p" "?ds \<noteq> []" by (simp_all add: part_def)
  have "expand_home (Some ''/h'') USER_NEW_MESSAGE_DIR = Inr (abs_path ?ds @ ''/'')"
    by (simp add: expand_home_result replace_first_def replacement_text_def abs_path_def USER_NEW_MESSAGE_DIR_def)
  then show ?thesis
    using locate_abs_path[OF ds, of "''/''" two_files] init_dir_abs_path_slash[OF ds, of two_files]
    by (simp add: load_dir_def Let_def two_files_def node_at_def)
qed

text \<open>A signal, two files loaded in the same second, the first of them in the queue.\<close>

lemma two_files_run:
  "\<exists>s. steady_threads_run [] (Some ''/h'') (server_start two_files (transmission_control [] [] 7) []) s \<and>
     keys_in_order s = [(7, 0), (7, 1)] \<and> length (queue (round s)) = 1"
proof -
  let ?step = "\<lambda>s s'. threads_step [] (Some ''/h'') s (Inr s')"
  define s0 where "s0 = server_start two_files (transmission_control [] [] 7) []"
  define s1 where "s1 = s0\<lparr>loading := new_message_signal (loading s0)\<rparr>"
  define s2 where "s2 = s1\<lparr>loading := (loading s1)\<lparr>new_message_available := False\<rparr>, disk := two_files,
    entries_left := Some [''f'', ''g'']\<rparr>"
  define s3 where "s3 = s2\<lparr>loading := queue_message 7 ''f'' [''hello''] (loading s2), entries_left := Some [''g''],
    disk := two_files\<rparr>"
  define s4 where "s4 = s3\<lparr>round := (round s3)\<lparr>queue := queue (round s3) @
    [\<lparr>release_time = 7, message_id = 0, file_name = ''f'', blocks_count = 1, blocks = [''hello'']\<rparr>]\<rparr>,
    loading := (loading s3)\<lparr>to_send_queue := []\<rparr>\<rparr>"
  define s5 where "s5 = s4\<lparr>loading := queue_message 7 ''g'' [''world''] (loading s4), entries_left := Some [],
    disk := two_files\<rparr>"
  note defs = s0_def s1_def s2_def s3_def s4_def s5_def
    server_start_def transmission_control_def new_message_signal_def queue_message_def next_id_def
  have "?step s0 s1" unfolding s1_def by (intro by_loader sys_signal)
  moreover have "?step s1 s2"
    using sys_wake[of s1 "Some ''/h''" two_files _ "[''f'', ''g'']"] two_files_dir
    by (intro by_loader) (simp add: defs)
  moreover have "?step s2 s3"
    using sys_entry[of s2 "''f''" "[''g'']" "Some ''/h''" two_files] two_files_entry(1)[of 7]
    by (intro by_loader) (simp add: defs)
  moreover have "?step s3 s4" unfolding s4_def by (intro by_loader sys_append) (simp_all add: defs)
  moreover have "?step s4 s5"
    using sys_entry[of s4 "''g''" "[]" "Some ''/h''" two_files] two_files_entry(2)[of 7]
    by (intro by_loader) (simp add: defs)
  moreover have "time_now (round s0) = 7" "time_now (round s1) = 7" "time_now (round s2) = 7" "time_now (round s3) = 7"
    "time_now (round s4) = 7" "time_now (round s5) = 7" by (simp_all add: defs)
  ultimately have "steady_threads_run [] (Some ''/h'') s0 s5"
    by (metis steady_start steady_next order_refl)
  moreover have "keys_in_order s5 = [(7, 0), (7, 1)] \<and> length (queue (round s5)) = 1"
    by (simp add: defs keys_in_order_def message_key_def hash_keys_def)
  ultimately show ?thesis unfolding s0_def by blast
qed

text \<open>Three loads, with the clock set back for the second: the first and the last message have the same
  release time and identifier.\<close>

lemma set_back_clock_repeats_key:
  "\<exists>s. threads_run [] (Some ''/h'') (server_start two_files (transmission_control [] [] 7) []) s \<and>
     keys_in_order s = [(7, 0), (6, 0), (7, 0)]"
proof -
  let ?step = "\<lambda>s s'. threads_step [] (Some ''/h'') s (Inr s')"
  let ?msg = "\<lambda>t. \<lparr>release_time = t, message_id = 0, file_name = ''f'', blocks_count = 1, blocks = [''hello'']\<rparr>"
  let ?appended = "\<lambda>t s. s\<lparr>round := (round s)\<lparr>queue := queue (round s) @ [?msg t]\<rparr>,
    loading := (loading s)\<lparr>to_send_queue := []\<rparr>\<rparr>"
  let ?loaded = "\<lambda>t names s. s\<lparr>loading := queue_message t ''f'' [''hello''] (loading s), entries_left := Some names,
    disk := two_files\<rparr>"
  let ?at = "\<lambda>t s. s\<lparr>round := (round s)\<lparr>time_now := t\<rparr>\<rparr>"
  define s0 where "s0 = server_start two_files (transmission_control [] [] 7) []"
  define s1 where "s1 = s0\<lparr>loading := new_message_signal (loading s0)\<rparr>"
  define s2 where "s2 = s1\<lparr>loading := (loading s1)\<lparr>new_message_available := False\<rparr>, disk := two_files,
    entries_left := Some [''f'', ''f'', ''f'']\<rparr>"
  define s3 where "s3 = ?loaded 7 [''f'', ''f''] s2"
  define s4 where "s4 = ?appended 7 s3"
  define s5 where "s5 = ?at 6 s4"
  define s6 where "s6 = ?loaded 6 [''f''] s5"
  define s7 where "s7 = ?appended 6 s6"
  define s8 where "s8 = ?at 7 s7"
  define s9 where "s9 = ?loaded 7 [] s8"
  note defs = s0_def s1_def s2_def s3_def s4_def s5_def s6_def s7_def s8_def s9_def
    server_start_def transmission_control_def new_message_signal_def queue_message_def next_id_def
  have entry: "?step s (?loaded (time_now (round s)) names s)"
    if "entries_left s = Some (''f'' # names)" "to_send_queue (loading s) = []" "disk s = two_files"
      "time_now (round s) \<noteq> -1" for s names
    using sys_entry[OF that(1,2), of "Some ''/h''" two_files] two_files_entry(1)[OF that(4)] that(3)
    by (intro by_loader) simp
  have "?step s0 s1" unfolding s1_def by (intro by_loader sys_signal)
  moreover have "?step s1 s2"
    using sys_wake[of s1 "Some ''/h''" two_files _ "[''f'', ''f'', ''f'']"] two_files_dir
    by (intro by_loader) (simp add: defs)
  moreover have "?step s2 s3" using entry[of s2 "[''f'', ''f'']"] unfolding s3_def by (simp add: defs)
  moreover have "?step s3 s4" unfolding s4_def by (intro by_loader sys_append) (simp_all add: defs)
  moreover have "?step s4 s5" unfolding s5_def by (rule sys_tick) simp
  moreover have "?step s5 s6" using entry[of s5 "[''f'']"] unfolding s6_def by (simp add: defs)
  moreover have "?step s6 s7" unfolding s7_def by (intro by_loader sys_append) (simp_all add: defs)
  moreover have "?step s7 s8" unfolding s8_def by (rule sys_tick) simp
  moreover have "?step s8 s9" using entry[of s8 "[]"] unfolding s9_def by (simp add: defs)
  ultimately have "threads_run [] (Some ''/h'') s0 s9" by (meson threads_start threads_next)
  moreover have "keys_in_order s9 = [(7, 0), (6, 0), (7, 0)]"
    by (simp add: defs keys_in_order_def message_key_def hash_keys_def)
  ultimately show ?thesis unfolding s0_def by blast
qed



section \<open>The server's guarantees\<close>

text \<open>C9: as long as the clock is not set back, whatever the interleaving of the server's threads, the
  signals, the contents of the directory and the requests, the messages are sent in the order in which
  they were loaded: the pairs of release time and identifier of the messages sent, of those in the
  queue and of the one about to be queued are strictly increasing in this order; in particular no two
  messages the server ever sends share both, so the keys of the table of sent messages are distinct as
  \<open>HASH_ADD\<close> requires.\<close>

theorem messages_sent_in_order:
  assumes "0 \<le> t" and "steady_threads_run config home (server_start fs (transmission_control [] m t) buf) s"
  shows "sorted_wrt before (keys_in_order s) \<and> distinct (keys_in_order s) \<and> hash_ok (sent_map (round s))"
proof -
  have "sorted_wrt before (keys_in_order s)"
    using order_ok_run[OF assms(2) order_ok_start[OF assms(1)]] by (simp add: order_ok_def)
  then show ?thesis using before_distinct[of "keys_in_order s"] by (simp add: keys_in_order_def hash_ok_def)
qed

lemma messages_sent_in_order_witness:
  "\<exists>s. steady_threads_run [] (Some ''/h'') (server_start two_files (transmission_control [] [] 7) []) s \<and>
     keys_in_order s = [(7, 0), (7, 1)] \<and> length (queue (round s)) = 1 \<and> distinct (keys_in_order s)"
proof -
  obtain s where s: "steady_threads_run [] (Some ''/h'') (server_start two_files (transmission_control [] [] 7) []) s"
    "keys_in_order s = [(7, 0), (7, 1)]" "length (queue (round s)) = 1" using two_files_run by blast
  with messages_sent_in_order[OF _ s(1)] show ?thesis by auto
qed



end
