(* ===== verification/ClientTypes.thy ===== *)
theory ClientTypes
  imports Updater
begin

text \<open>
  The types of the client's data, which C does not enforce: a map node is stored under the address it
  is for, the arrays keep their sizes, and every field holds what \<open>malloc\<close> left in it or a value of
  its type: a value of the enumeration, a string that ends inside its array. Every handler keeps this.
\<close>

section \<open>Well-typed data\<close>

text \<open>\<open>s\<close> is what became of a server's block that held \<open>a\<close>.\<close>

definition keeps_types :: "server_data \<Rightarrow> server_data \<Rightarrow> bool" where
  "keeps_types a s \<longleftrightarrow>
     (state s = state a \<or> state s \<noteq> Not_a_state) \<and>
     length (srv_response s) = length (srv_response a) \<and>
     (srv_name s = srv_name a \<or> length (srv_name s) < SRV_NAME_LEN) \<and>
     (srv_descr s = srv_descr a \<or> length (srv_descr s) < SRV_DESCR_LEN)"

text \<open>The \<open>i\<close>-th server of the table has the block of the \<open>i\<close>-th allocation.\<close>

definition servers_typed :: "(nat \<Rightarrow> server_data) \<Rightarrow> server_map \<Rightarrow> bool" where
  "servers_typed alloc m \<longleftrightarrow> hash_ok m \<and>
     (\<forall>i < length m. address (snd (m ! i)) = fst (m ! i) \<and> keeps_types (alloc i) (snd (m ! i)))"

definition client_typed :: "(nat \<Rightarrow> server_data) \<Rightarrow> client \<Rightarrow> bool" where
  "client_typed alloc c \<longleftrightarrow> servers_typed alloc (servers c) \<and>
     (\<forall>buf. recv_array c = Some buf \<longrightarrow> length buf = MTN_MSG_LEN + 1)"

lemma keeps_types_refl [simp]: "keeps_types s s"
  by (simp add: keeps_types_def)

lemma keeps_types_trans: "keeps_types a s \<Longrightarrow> keeps_types s s' \<Longrightarrow> keeps_types a s'"
  by (auto simp: keeps_types_def)

lemma hash_find_unique:
  assumes "hash_ok m" and "hash_find m k = Some s" and "i < length m" and "fst (m ! i) = k"
  shows "snd (m ! i) = s"
  using assms map_of_eq_Some_iff[of m k s] map_of_eq_Some_iff[of m k "snd (m ! i)"] nth_mem[of i m]
  by (auto simp: hash_ok_def hash_keys_def hash_find_def prod_eq_iff)

lemma servers_typed_change:
  assumes "servers_typed alloc m" and "hash_find m k = Some s" and "keeps_types s (f s)" and "address (f s) = address s"
  shows "servers_typed alloc (hash_change m k f)"
proof -
  have "address (snd (hash_change m k f ! i)) = fst (hash_change m k f ! i) \<and>
      keeps_types (alloc i) (snd (hash_change m k f ! i))" if i: "i < length m" for i
  proof -
    have old: "address (snd (m ! i)) = fst (m ! i)" "keeps_types (alloc i) (snd (m ! i))"
      using assms(1) i by (simp_all add: servers_typed_def)
    show ?thesis
    proof (cases "fst (m ! i) = k")
      case True
      then have "snd (m ! i) = s"
        using hash_find_unique[OF _ assms(2) i] assms(1) by (simp add: servers_typed_def)
      with True old assms(3,4) i keeps_types_trans show ?thesis
        by (auto simp: hash_change_def split_def)
    qed (use old i in \<open>simp add: hash_change_def split_def\<close>)
  qed
  then show ?thesis
    using assms(1) by (simp add: servers_typed_def hash_ok_def) (simp add: hash_change_def)
qed

section \<open>The handlers keep the types\<close>

lemma strcpy_length: "strcpy dest src = Inr mem \<Longrightarrow> length mem = length dest"
  by (auto simp: strcpy_def split: if_splits)

lemma parse_response_line_typed:
  "parse_response_line line s = Inr s' \<Longrightarrow> keeps_types s s' \<and> address s' = address s"
  by (auto simp: parse_response_line_def result_simps Let_def keeps_types_def split: if_splits)

lemma parse_response_lines_typed:
  "parse_response_lines line p s = Inr s' \<Longrightarrow> keeps_types s s' \<and> address s' = address s"
proof (induction "length p" arbitrary: line p s rule: less_induct)
  case less
  from less.prems obtain n l r where tok: "get_token_into line p [newline] = Inr (n, l, r)"
    and rest: "(if n \<noteq> 0 then result_bind (parse_response_line l s) (parse_response_lines l r) else Inr s) = Inr s'"
    by (subst (asm) parse_response_lines.simps) (auto simp: result_simps)
  show ?case
  proof (cases "n = 0")
    case False
    then obtain s1 where "parse_response_line l s = Inr s1" "parse_response_lines l r s1 = Inr s'"
      using rest by (auto simp: result_simps)
    moreover have "length r < length p"
      using tok False by (auto simp: get_token_into_def result_simps dest!: get_token_Inr(6))
    ultimately show ?thesis
      using parse_response_line_typed[of l s s1] less.hyps[of r l s1] keeps_types_trans by metis
  qed (use rest in simp)
qed

lemma handle_response_typed:
  assumes "handle_response line s = Inr s'"
  shows "keeps_types s s' \<and> address s' = address s"
proof -
  obtain s1 mem where s1: "(if get_response_type (srv_response s) = MTN_RES_ACCEPT
        then let server = s\<lparr>state := SUBSCR\<rparr>
          in result_bind (get_token_into line (cstr (srv_response server)) [newline])
            (\<lambda>(_, line, response_ptr). parse_response_lines line response_ptr server)
        else Inr (s\<lparr>state := WAIT\<rparr>)) = Inr s1"
    and mem: "strcpy (srv_response s1) [] = Inr mem" "s' = s1\<lparr>srv_response := mem\<rparr>"
    using assms unfolding handle_response_def result_bind_Inr_iff by auto
  have "keeps_types s (s\<lparr>state := SUBSCR\<rparr>)" "keeps_types s (s\<lparr>state := WAIT\<rparr>)"
    by (simp_all add: keeps_types_def)
  moreover have "keeps_types (s\<lparr>state := SUBSCR\<rparr>) s1 \<and> address s1 = address s \<or> s1 = s\<lparr>state := WAIT\<rparr>"
    using s1 parse_response_lines_typed[of _ _ "s\<lparr>state := SUBSCR\<rparr>" s1]
    by (auto simp: result_simps Let_def split: if_splits)
  ultimately have "keeps_types s s1 \<and> address s1 = address s"
    using keeps_types_trans by auto
  then show ?thesis
    using mem strcpy_length[OF mem(1)] by (auto simp: keeps_types_def)
qed

lemma sender_move_typed:
  assumes "sender_move now s pc (Inr (s', pc'))"
  shows "keeps_types s s' \<and> address s' = address s"
  using assms
proof (cases rule: sender_move.cases)
  case (handled line)
  then show ?thesis using handle_response_typed by simp
qed (auto simp: keeps_types_def request_answered_def request_timed_out_def result_simps Let_def split: if_splits)

lemma receive_response_typed:
  assumes "receive_response r a m = Inr m'" and "servers_typed alloc m"
  shows "servers_typed alloc m'"
proof -
  from assms(1) obtain s mem where s: "hash_find m a = Some s" "strcpy (srv_response s) r = Inr mem"
    "m' = hash_change m a (\<lambda>s. s\<lparr>srv_response := mem, state := RESP\<rparr>)"
    by (auto simp: receive_response_def result_simps split: option.splits)
  show ?thesis
    unfolding s(3) using strcpy_length[OF s(2)]
    by (intro servers_typed_change[OF assms(2) s(1)]) (simp_all add: keeps_types_def)
qed

lemma client_dispatch_typed:
  assumes "client_dispatch r a m = Inr m'" and "servers_typed alloc m"
  shows "servers_typed alloc m'"
  using assms receive_response_typed
  by (cases "get_message_type r")
    (auto simp: client_dispatch_def receive_data_message_head_def Let_def result_simps split: option.splits)

lemma client_receive_typed:
  assumes "client_receive d buf m = Inr (buf', m', go)" and "servers_typed alloc m" and "length buf = MTN_MSG_LEN + 1"
  shows "servers_typed alloc m' \<and> length buf' = MTN_MSG_LEN + 1"
proof (cases d)
  case (Datagram dg a)
  then show ?thesis
    using assms client_dispatch_typed
    by (auto simp: result_simps Let_def length_receive_into split: if_splits)
qed (use assms(1) in simp)

lemma client_step_typed:
  assumes "client_step c (Inr c')" and "client_typed alloc c"
  shows "client_typed alloc c'"
  using assms(1)
proof (cases rule: client_step.cases)
  case subscribe
  then show ?thesis
    using assms(2)
    by (cases rule: subscription_thread.cases)
      (auto simp: client_typed_def set_server_def keeps_types_def intro!: servers_typed_change)
next
  case update
  then show ?thesis
    using assms(2) by (cases rule: update_thread.cases) (auto simp: client_typed_def)
next
  case send
  then show ?thesis
  proof (cases rule: sender_thread.cases)
    case (move xs k pc ys s s' pc')
    with sender_move_typed[OF move(4)] assms(2) show ?thesis
      by (auto simp: client_typed_def set_server_def intro!: servers_typed_change)
  qed (use assms(2) in \<open>auto simp: client_typed_def\<close>)
next
  case (receive buf d buf' m go)
  with client_receive_typed[OF receive(3)] assms(2) show ?thesis by (auto simp: client_typed_def)
next
  case (receive_on buf d a)
  with assms(2) show ?thesis by (auto simp: client_typed_def length_receive_into)
next
  case (tick n)
  with assms(2) show ?thesis by (simp add: client_typed_def)
qed

lemma client_run_typed: "client_run c0 c \<Longrightarrow> client_typed alloc c0 \<Longrightarrow> client_typed alloc c"
  by (induction rule: client_run.induct) (auto intro: client_step_typed)

section \<open>The loaded list\<close>

lemma add_server_typed: "servers_typed alloc m \<Longrightarrow> servers_typed alloc (add_server alloc a m)"
  by (auto simp: add_server_def servers_typed_def hash_add_def hash_count_def hash_ok_def hash_find_None_iff
      keeps_types_def nth_append less_Suc_eq hash_keys_def split: option.splits)

lemma parse_server_line_typed:
  "parse_server_line alloc l m = Inr m' \<Longrightarrow> servers_typed alloc m \<Longrightarrow> servers_typed alloc m'"
  by (auto simp: parse_server_line_def result_simps Let_def add_server_typed split: if_splits option.splits)

end
