(* ===== verification/NetSystem.thy ===== *)
theory NetSystem
  imports ServerSystem ClientTypes
begin

text \<open>
  A client and its servers on a network: the client's threads and the threads of every server, each
  with the steps of their own theories, exchange datagrams over a network that loses, repeats and
  reorders them, as UDP may, and on which other hosts send whatever they like from their own
  addresses. A client or server whose process ends makes no more steps. Shown is what the two sides know of each other in every reachable state.
\<close>

section \<open>The network\<close>

text \<open>
  A datagram is on the wire with its sender, its receiver and its bytes, from when it is sent on; one
  that is never taken is lost, one that is taken twice was duplicated. The network does not change
  the sender's address.
\<close>

record net =
  net_client :: client
  net_server :: "sockaddr_in \<Rightarrow> server"
  wire :: "(sockaddr_in \<times> sockaddr_in \<times> string) set"

text \<open>What a step of a sender thread of the client, of the server's sending threads and of its request thread
  hands to \<open>sendto\<close>; a text that is longer than its array goes out with what lay behind the array, if
  the process survives. \<open>rest\<close> is what \<open>release_time_str\<close> holds if the time does not fit.\<close>

definition requests_sent :: "sockaddr_in \<Rightarrow> client \<Rightarrow> client \<Rightarrow> (sockaddr_in \<times> sockaddr_in \<times> string) set" where
  "requests_sent cl c c' = {(cl, k, subscription_request) | k.
     \<exists>xs ys t. senders c = xs @ (k, Request) # ys \<and> senders c' = xs @ (k, Check t) # ys}"

definition data_sent :: "sockaddr_in \<Rightarrow> server \<Rightarrow> server \<Rightarrow> (sockaddr_in \<times> sockaddr_in \<times> string) set" where
  "data_sent srv s s' = {(srv, a, d) | a d.
     \<exists>rest. sent_log (round s') = a # sent_log (round s) \<and>
       (\<exists>printed \<in> set (message_texts rest (hd (queue (round s)))). sent_as printed d)}"

definition replies_sent :: "sockaddr_in \<Rightarrow> server \<Rightarrow> server \<Rightarrow> (sockaddr_in \<times> sockaddr_in \<times> string) set" where
  "replies_sent srv s s' = {(srv, a, d) | a d. (a, d) \<in> set (drop (length (replied s)) (replied s'))}"

inductive net_step ::
    "(sockaddr_in \<Rightarrow> config_map) \<Rightarrow> (sockaddr_in \<Rightarrow> string option) \<Rightarrow> sockaddr_in \<Rightarrow> sockaddr_in set \<Rightarrow>
     net \<Rightarrow> net \<Rightarrow> bool" for conf home cl srvs where
  net_subscription: "subscription_thread (net_client n) (Inr c) \<Longrightarrow>
    net_step conf home cl srvs n (n\<lparr>net_client := c\<rparr>)"
| net_update: "update_thread (net_client n) (Inr c) \<Longrightarrow>
    net_step conf home cl srvs n (n\<lparr>net_client := c\<rparr>)"
| net_sender: "sender_thread (net_client n) (Inr c) \<Longrightarrow>
    net_step conf home cl srvs n (n\<lparr>net_client := c, wire := wire n \<union> requests_sent cl (net_client n) c\<rparr>)"
| net_receive: "(a, cl, d) \<in> wire n \<Longrightarrow> recv_array (net_client n) = Some buf \<Longrightarrow>
    client_receive (Datagram d a) buf (servers (net_client n)) = Inr (buf', m, go) \<Longrightarrow>
    net_step conf home cl srvs n (n\<lparr>net_client := (net_client n)\<lparr>servers := m,
      recv_array := (if go then Some buf' else None)\<rparr>\<rparr>)"
| net_receive_on: "(a, cl, d) \<in> wire n \<Longrightarrow> recv_array (net_client n) = Some buf \<Longrightarrow>
    client_receive (Datagram d a) buf (servers (net_client n)) = Inl Out_of_bounds_read \<Longrightarrow>
    net_step conf home cl srvs n (n\<lparr>net_client := (net_client n)\<lparr>
      recv_array := Some (receive_into MTN_MSG_LEN buf d)\<rparr>\<rparr>)"
| net_client_clock: "t \<noteq> -1 \<Longrightarrow>
    net_step conf home cl srvs n (n\<lparr>net_client := (net_client n)\<lparr>clock := t\<rparr>\<rparr>)"
| net_transmit: "k \<in> srvs \<Longrightarrow> transmit_threads (home k) (net_server n k) (Inr s) \<Longrightarrow>
    net_step conf home cl srvs n (n\<lparr>net_server := (net_server n)(k := s),
      wire := wire n \<union> data_sent k (net_server n k) s\<rparr>)"
| net_load: "k \<in> srvs \<Longrightarrow> loading_thread (home k) (net_server n k) (Inr s) \<Longrightarrow>
    net_step conf home cl srvs n (n\<lparr>net_server := (net_server n)(k := s)\<rparr>)"
| net_request: "k \<in> srvs \<Longrightarrow> (a, k, d) \<in> wire n \<Longrightarrow>
    request_thread (conf k) (Datagram d a) (net_server n k) (Inr s) \<Longrightarrow>
    net_step conf home cl srvs n (n\<lparr>net_server := (net_server n)(k := s),
      wire := wire n \<union> replies_sent k (net_server n k) s\<rparr>)"
| net_server_clock: "k \<in> srvs \<Longrightarrow> t \<noteq> -1 \<Longrightarrow>
    net_step conf home cl srvs n (n\<lparr>net_server := (net_server n)(k := (net_server n k)\<lparr>round :=
      (round (net_server n k))\<lparr>time_now := t\<rparr>\<rparr>)\<rparr>)"
| net_other: "a \<notin> srvs \<Longrightarrow> a \<noteq> cl \<Longrightarrow> net_step conf home cl srvs n (n\<lparr>wire := insert (a, b, d) (wire n)\<rparr>)"

inductive net_run ::
    "(sockaddr_in \<Rightarrow> config_map) \<Rightarrow> (sockaddr_in \<Rightarrow> string option) \<Rightarrow> sockaddr_in \<Rightarrow> sockaddr_in set \<Rightarrow>
     net \<Rightarrow> net \<Rightarrow> bool" for conf home cl srvs n0 where
  net_begin: "net_run conf home cl srvs n0 n0"
| net_next: "net_run conf home cl srvs n0 n \<Longrightarrow> net_step conf home cl srvs n n' \<Longrightarrow> net_run conf home cl srvs n0 n'"

definition net_start :: "client \<Rightarrow> (sockaddr_in \<Rightarrow> server) \<Rightarrow> net" where
  "net_start c s = \<lparr>net_client = c, net_server = s, wire = {}\<rparr>"

section \<open>The parts of a run\<close>

lemma net_run_trans:
  "net_run conf home cl srvs n1 n2 \<Longrightarrow> net_run conf home cl srvs n0 n1 \<Longrightarrow> net_run conf home cl srvs n0 n2"
  by (induction rule: net_run.induct) (auto intro: net_next)

text \<open>A step of the network is a step of the client, of one server, or of neither.\<close>

lemma net_step_client:
  assumes "net_step conf home cl srvs n n'"
  shows "net_client n' = net_client n \<or> client_step (net_client n) (Inr (net_client n'))"
  using assms
proof (cases rule: net_step.cases)
  case (net_receive a d buf buf' m go)
  then show ?thesis using client_step.receive[OF net_receive(3,4)] by (simp del: client_receive.simps)
next
  case (net_receive_on a d buf)
  then show ?thesis using client_step.receive_on[OF net_receive_on(3,4)] by (simp del: client_receive.simps)
qed (auto intro: client_step.intros)

lemma net_step_server:
  assumes "net_step conf home cl srvs n n'"
  shows "net_server n' k = net_server n k \<or> threads_step (conf k) (home k) (net_server n k) (Inr (net_server n' k))"
  using assms by (cases rule: net_step.cases) (auto intro: threads_step.intros)

lemma net_step_wire: "net_step conf home cl srvs n n' \<Longrightarrow> wire n \<subseteq> wire n'"
  by (cases rule: net_step.cases) auto

lemma net_run_client: "net_run conf home cl srvs n0 n \<Longrightarrow> client_run (net_client n0) (net_client n)"
proof (induction rule: net_run.induct)
  case (net_next n n')
  then show ?case using net_step_client[OF net_next(2)] by (auto intro: client_run.run_step)
qed (rule client_run.run_start)

lemma net_run_server: "net_run conf home cl srvs n0 n \<Longrightarrow> threads_run (conf k) (home k) (net_server n0 k) (net_server n k)"
proof (induction rule: net_run.induct)
  case (net_next n n')
  then show ?case using net_step_server[OF net_next(2), of k] by (auto intro: threads_run.threads_next)
qed (rule threads_run.threads_start)

section \<open>A subscription\<close>

lemma accept_response_text:
  "get_config_value config ''name'' = Some n \<Longrightarrow> get_config_value config ''descr'' = Some d \<Longrightarrow>
   accept_response config = Inr (accept_text n d)"
  by (simp add: accept_response_def accept_text_def)

lemma subscription_request_text: "subscription_request = ''RQST SUBSCR''"
  by (simp add: subscription_request_def snprintf_def text_defs MTN_MSG_LEN_def)

lemma client_stores_accept:
  assumes "hash_find m srv = Some s" and "responses_sized m" and "NUL \<notin> set n" and "NUL \<notin> set d"
    and "length (accept_text n d) \<le> MTN_MSG_LEN"
  shows "\<exists>cbuf' m' s' rest. client_receive (Datagram (accept_text n d) srv) cbuf m = Inr (cbuf', m', True) \<and>
    hash_find m' srv = Some s' \<and> s' = s\<lparr>srv_response := accept_text n d @ NUL # rest, state := RESP\<rparr>"
proof -
  let ?b = "receive_into MTN_MSG_LEN cbuf (accept_text n d)"
  have b: "?b = accept_text n d @ NUL # drop (Suc (length (accept_text n d))) cbuf"
    using assms(5) by (simp add: receive_into_split)
  have nul: "NUL \<notin> set (accept_text n d)" using assms(3,4) by (simp add: accept_text_def text_defs)
  then have c: "cstr ?b = accept_text n d" unfolding b by (rule cstr_terminated)
  have "length (srv_response s) = MTN_MSG_LEN + 1"
    using assms(1,2) map_of_SomeD[of m srv s] by (auto simp: responses_sized_def hash_find_def)
  then have "strcpy (srv_response s) ?b =
      Inr (accept_text n d @ NUL # drop (Suc (length (accept_text n d))) (srv_response s))"
    using assms(5) by (simp add: strcpy_def c)
  moreover have "get_message_type ?b = MTN_RESPONSE"
    unfolding b by (simp add: get_message_type_iff accept_text_def text_defs)
  moreover have "accept_text n d \<noteq> []" "MTN_MSG_TYPE_LEN \<le> length (take MTN_MSG_LEN (accept_text n d))"
    using assms(5) by (simp_all add: accept_text_def text_defs size_defs)
  ultimately show ?thesis
    using assms(1) by (simp add: client_dispatch_def receive_response_def Let_def) (rule exI, rule refl)
qed

text \<open>A configuration whose name and description can be sent and stored.\<close>

definition presentable :: "config_map \<Rightarrow> string \<Rightarrow> string \<Rightarrow> bool" where
  "presentable config name descr \<longleftrightarrow>
     get_config_value config ''name'' = Some name \<and> get_config_value config ''descr'' = Some descr \<and>
     set name \<inter> {NUL, newline} = {} \<and> set descr \<inter> {NUL, newline} = {} \<and>
     length name < SRV_NAME_LEN \<and> length descr < SRV_DESCR_LEN"

lemma accept_text_fits:
  "presentable config name descr \<Longrightarrow> length (accept_text name descr) \<le> MTN_MSG_LEN \<and> NUL \<notin> set (accept_text name descr)"
  by (auto simp: presentable_def accept_text_def text_defs SRV_NAME_LEN_def SRV_DESCR_LEN_def MTN_MSG_LEN_def)

text \<open>A client that knows one server, which has not been asked yet.\<close>

definition example_server :: sockaddr_in where
  "example_server = \<lparr>sin_addr = [127, 0, 0, 1], sin_port = 48888\<rparr>"

definition example_servers :: server_map where
  "example_servers = [(example_server, \<lparr>address = example_server, state = SEND_REQ, not_connect_count = 0,
     last_connect_attempt_time = 0, srv_response = replicate 1025 NUL, srv_name = [], srv_descr = []\<rparr>)]"

text \<open>A run in which the client gets its subscription.\<close>

definition waiting_server :: "server_data \<Rightarrow> bool" where
  "waiting_server s \<longleftrightarrow> state s = SEND_REQ \<and> length (srv_response s) = MTN_MSG_LEN + 1"

lemma request_run:
  assumes "waiting_server s"
  shows "\<exists>c. net_run conf home cl srvs (net_start (update_control cmp [(k, s)] recv now) servers_at)
      \<lparr>net_client = c, net_server = servers_at, wire = {(cl, k, subscription_request)}\<rparr> \<and>
    servers c = [(k, s)] \<and> senders c = [(k, Check now)] \<and> clock c = now \<and> recv_array c = Some recv"
proof -
  let ?step = "net_step conf home cl srvs"
  define c0 where "c0 = update_control cmp [(k, s)] recv now"
  have same: "hash_change [(k, s)] k (\<lambda>_. s) = [(k, s)]" by (simp add: hash_change_def)
  have found: "hash_find [(k, s)] k = Some s" by (simp add: hash_find_def)
  have q: "array (not_subscribed_queue c0) = [k]"
    using heap_build_keeps[of "\<lparr>array = [k], is_greater = cmp\<rparr>"] by (simp add: c0_def update_control_def hash_keys_def)
  define c1 where "c1 = c0\<lparr>subscr_pc := Scan True\<rparr>"
  define c2 where "c2 = c1\<lparr>not_subscribed_queue := heap_pop (not_subscribed_queue c1), subscr_pc := Popped k\<rparr>"
  define c3 where "c3 = c2\<lparr>semaphore := 2, senders := [(k, Request)], subscr_pc := Start\<rparr>"
  define c4 where "c4 = set_server k s (c3\<lparr>senders := [(k, Check now)]\<rparr>)"
  note defs = c1_def c2_def c3_def c4_def
  have f: "servers c0 = [(k, s)]" "senders c0 = []" "clock c0 = now" "recv_array c0 = Some recv" "semaphore c0 = 3" "subscr_pc c0 = Start"
    by (simp_all add: c0_def update_control_def MAX_ACTIVE_REQUESTS_def)
  have "subscription_thread c0 (Inr c1)"
    using sub_nonempty[of c0] q f by (simp add: defs heap_is_empty_def)
  moreover have "subscription_thread c1 (Inr c2)"
  proof -
    have "s\<lparr>state := SEND_REQ\<rparr> = s" using assms by (simp add: waiting_server_def)
    then have "set_server k (s\<lparr>state := SEND_REQ\<rparr>) c2 = c2" using same f by (simp add: set_server_def defs)
    then show ?thesis
      using sub_pop[of c1 True k s] q f found assms
      by (simp add: c1_def heap_first_Some_iff connect_due_def waiting_server_def) (simp add: c2_def c1_def)
  qed
  moreover have "subscription_thread c2 (Inr c3)"
    using sub_send[of c2 k 2] f by (simp add: defs)
  moreover have "sender_thread c3 (Inr c4)"
    using sender_thread.move[of c3 "[]" k Request "[]" s s "Check now"] f found sender_move.sent[of now s] by (simp add: defs)
  moreover have "requests_sent cl c3 c4 = {(cl, k, subscription_request)}"
    by (auto simp: requests_sent_def defs Cons_eq_append_conv)
  ultimately have "?step (net_start c0 servers_at) (net_start c1 servers_at)"
    "?step (net_start c1 servers_at) (net_start c2 servers_at)"
    "?step (net_start c2 servers_at) (net_start c3 servers_at)"
    "?step (net_start c3 servers_at) \<lparr>net_client = c4, net_server = servers_at, wire = {(cl, k, subscription_request)}\<rparr>"
    using net_subscription[of "net_start c0 servers_at" c1] net_subscription[of "net_start c1 servers_at" c2]
      net_subscription[of "net_start c2 servers_at" c3] net_sender[of "net_start c3 servers_at" c4, where cl = cl]
    by (simp_all add: net_start_def)
  then have "net_run conf home cl srvs (net_start c0 servers_at)
      \<lparr>net_client = c4, net_server = servers_at, wire = {(cl, k, subscription_request)}\<rparr>"
    by (meson net_begin net_next)
  then show ?thesis unfolding c0_def[symmetric] using f same by (intro exI[of _ c4]) (simp add: defs set_server_def)
qed

lemma answer_run:
  assumes "waiting_server s" and "presentable (conf k) name descr" and "k \<in> srvs" and "time_now t = now" and "now \<noteq> -1"
    and "clients t = []"
  shows "\<exists>n s'. net_run conf home cl srvs (net_start (update_control cmp [(k, s)] recv now)
      (\<lambda>k. server_start (fs k) t buf)) n \<and>
    hash_find (servers (net_client n)) k = Some s' \<and> state s' = SUBSCR \<and> srv_name s' = name \<and>
    cl \<in> set (hash_keys (clients (round (net_server n k)))) \<and> (k, cl, accept_text name descr) \<in> wire n"
proof -
  let ?step = "net_step conf home cl srvs" and ?servers = "\<lambda>k. server_start (fs k) t buf"
  obtain c where run: "net_run conf home cl srvs (net_start (update_control cmp [(k, s)] recv now) ?servers)
      \<lparr>net_client = c, net_server = ?servers, wire = {(cl, k, subscription_request)}\<rparr>"
    and c: "servers c = [(k, s)]" "senders c = [(k, Check now)]" "clock c = now" "recv_array c = Some recv"
    using request_run[OF assms(1)] by blast
  define n4 where "n4 = \<lparr>net_client = c, net_server = ?servers, wire = {(cl, k, subscription_request)}\<rparr>"
  have r: "accept_response (conf k) = Inr (accept_text name descr)" "length (accept_text name descr) \<le> MTN_MSG_LEN"
    using assms(2) accept_text_fits[OF assms(2)] accept_response_text by (auto simp: presentable_def)
  have "asks_subscription subscription_request" "ordinary (now, True, Datagram subscription_request cl)" "hash_ok ([] :: client_map)"
    using assms(5) by (simp_all add: asks_subscription_def subscription_request_text get_message_type_iff
        get_request_type_iff MTN_MSG_LEN_def hash_ok_def)
  then obtain buf' table where got: "server_receive (conf k) now True (Datagram subscription_request cl) buf [] =
      Inr (buf', table, [(cl, accept_text name descr)], True)" "last_update table cl = Some now"
    using server_receive_ordinary[OF _ _ r, of now True subscription_request cl "[]" buf] by auto
  define s1 where "s1 = (?servers k)\<lparr>request_buf := Some buf', round := t\<lparr>clients := table,
      pc := seen_by_round [] table (pc t)\<rparr>, replied := [(cl, accept_text name descr)]\<rparr>"
  define n5 where "n5 = n4\<lparr>net_server := (net_server n4)(k := s1), wire := wire n4 \<union> replies_sent k (net_server n4 k) s1\<rparr>"
  have "request_thread (conf k) (Datagram subscription_request cl) (?servers k) (Inr s1)"
    using sys_request[of "?servers k" buf "conf k" True "Datagram subscription_request cl" buf' table
        "[(cl, accept_text name descr)]" True] got(1) assms(4,6)
    by (simp add: server_start_def s1_def del: server_receive.simps)
  then have step5: "?step n4 n5"
    unfolding n5_def by (intro net_request assms(3)) (simp_all add: n4_def)
  have w5: "(k, cl, accept_text name descr) \<in> wire n5" "net_client n5 = c"
    by (simp_all add: n5_def n4_def replies_sent_def s1_def server_start_def)
  have "hash_find [(k, s)] k = Some s" "responses_sized [(k, s)]"
    using assms(1) by (simp_all add: hash_find_def responses_sized_def waiting_server_def)
  then obtain cbuf m rest where rec: "client_receive (Datagram (accept_text name descr) k) recv [(k, s)] = Inr (cbuf, m, True)"
    and m: "hash_find m k = Some (s\<lparr>srv_response := accept_text name descr @ NUL # rest, state := RESP\<rparr>)"
    using client_stores_accept[of "[(k, s)]" k s name descr recv] r(2) assms(2) by (auto simp: presentable_def)
  define s6 where "s6 = s\<lparr>srv_response := accept_text name descr @ NUL # rest, state := RESP\<rparr>"
  define n6 where "n6 = n5\<lparr>net_client := c\<lparr>servers := m, recv_array := Some cbuf\<rparr>\<rparr>"
  have step6: "?step n5 n6"
    using net_receive[OF w5(1), of recv cbuf m True] w5(2) rec c(1,4) by (simp add: n6_def del: client_receive.simps)
  have "get_response_type (srv_response s6) = MTN_RES_ACCEPT"
    by (simp add: s6_def get_response_type_iff accept_text_def text_defs)
  then obtain s7 where s7: "request_answered now s6 = Inr s7" "srv_response s7 = srv_response s6"
    using assms(5) by (simp add: request_answered_def get_response_type_str_def response_type_name_def text_defs size_defs)
  obtain s8 where s8: "handle_response (replicate 4096 NUL) s7 = Inr s8" "state s8 = SUBSCR" "srv_name s8 = name"
    using handle_accept[of s7 name descr rest "replicate 4096 NUL"] s7(2) assms(2)
    by (auto simp: s6_def presentable_def)
  define n7 where "n7 = n6\<lparr>net_client := set_server k s7 ((net_client n6)\<lparr>senders := [(k, Answered)]\<rparr>)\<rparr>"
  define n8 where "n8 = n7\<lparr>net_client := set_server k s8 ((net_client n7)\<lparr>senders := [(k, Finish)]\<rparr>)\<rparr>"
  have n6: "senders (net_client n6) = [(k, Check now)]" "hash_find (servers (net_client n6)) k = Some s6" "clock (net_client n6) = now"
    using c m by (simp_all add: n6_def s6_def)
  have "sender_thread (net_client n6) (Inr (net_client n7))"
    using sender_thread.move[of "net_client n6" "[]" k "Check now" "[]" s6 s7 Answered] n6
      sender_move.answered[of s6 now s7 now] s7 by (simp add: n7_def s6_def)
  then have step7: "?step n6 n7"
    using net_sender[of n6 "net_client n7"] by (simp add: requests_sent_def n7_def Cons_eq_append_conv)
  have n7: "senders (net_client n7) = [(k, Answered)]" "hash_find (servers (net_client n7)) k = Some s7"
    using n6 by (simp_all add: n7_def set_server_find)
  then have "sender_thread (net_client n7) (Inr (net_client n8))"
    using sender_thread.move[of "net_client n7" "[]" k Answered "[]" s7 s8 Finish]
      sender_move.handled[of "replicate 4096 NUL" s7 s8] s8 by (simp add: n8_def)
  then have step8: "?step n7 n8"
    using net_sender[of n7 "net_client n8"] by (simp add: requests_sent_def n8_def Cons_eq_append_conv)
  have "net_run conf home cl srvs (net_start (update_control cmp [(k, s)] recv now) ?servers) n8"
    using run step5 step6 step7 step8 unfolding n4_def by (meson net_next)
  moreover have "hash_find (servers (net_client n8)) k = Some s8" using n7 by (simp add: n8_def set_server_find)
  moreover have "cl \<in> set (hash_keys (clients (round (net_server n8 k))))"
    using got(2) hash_find_None_iff[of table cl]
    by (auto simp: n8_def n7_def n6_def n5_def s1_def last_update_def)
  moreover have "(k, cl, accept_text name descr) \<in> wire n8" using w5 by (simp add: n8_def n7_def n6_def)
  ultimately show ?thesis using s8 by blast
qed

lemma example_run:
  "\<exists>n s'. net_run (\<lambda>_. server_defaults) (\<lambda>_. None) example_client {example_server}
      (net_start (update_control (\<lambda>_ _ _. True) example_servers (replicate 1025 NUL) 7)
        (\<lambda>k. server_start two_files (transmission_control [] [] 7) (replicate 1025 NUL))) n \<and>
    hash_find (servers (net_client n)) example_server = Some s' \<and> state s' = SUBSCR \<and> srv_name s' = ''MTN server'' \<and>
    example_client \<in> set (hash_keys (clients (round (net_server n example_server))))"
proof -
  obtain s where s: "example_servers = [(example_server, s)]" "waiting_server s"
    by (simp add: example_servers_def waiting_server_def MTN_MSG_LEN_def)
  have p: "presentable server_defaults ''MTN server'' []"
    by (simp add: presentable_def get_config_value_def hash_find_def server_defaults_def SRV_NAME_LEN_def SRV_DESCR_LEN_def)
  have t: "time_now (transmission_control [] [] 7) = 7" "clients (transmission_control [] [] 7) = []"
    by (simp_all add: transmission_control_def)
  from answer_run[OF s(2), where conf = "\<lambda>_. server_defaults" and k = example_server and srvs = "{example_server}"
      and t = "transmission_control [] [] 7" and home = "\<lambda>_. None" and cl = example_client and cmp = "\<lambda>_ _ _. True"
      and recv = "replicate 1025 NUL" and fs = "\<lambda>_. two_files" and buf = "replicate 1025 NUL", OF p _ t(1) _ t(2)]
  obtain n s' where "net_run (\<lambda>_. server_defaults) (\<lambda>_. None) example_client {example_server}
      (net_start (update_control (\<lambda>_ _ _. True) [(example_server, s)] (replicate 1025 NUL) 7)
        (\<lambda>k. server_start two_files (transmission_control [] [] 7) (replicate 1025 NUL))) n"
    "hash_find (servers (net_client n)) example_server = Some s'" "state s' = SUBSCR" "srv_name s' = ''MTN server''"
    "example_client \<in> set (hash_keys (clients (round (net_server n example_server))))"
    by auto
  then show ?thesis unfolding s(1) by (intro exI conjI)
qed

section \<open>Servers answer only those who asked\<close>

text \<open>The addresses a server may send to.\<close>

definition round_addresses :: "transmitter \<Rightarrow> sockaddr_in set" where
  "round_addresses t = set (hash_keys (clients t)) \<union> set (to_visit (pc t)) \<union> fst ` set (sendings t)"

lemma hash_keys_del: "set (hash_keys (hash_del m k)) \<subseteq> set (hash_keys m)"
  by (auto simp: hash_keys_def hash_del_def)

lemma transmission_thread_addresses:
  "transmission_thread t t' \<Longrightarrow> round_addresses t' \<subseteq> round_addresses t \<and> (\<forall>a. sent_log t' \<noteq> a # sent_log t)"
  by (cases rule: transmission_thread.cases) (use hash_keys_del in \<open>auto simp: round_addresses_def\<close>)

lemma sending_thread_addresses:
  assumes "sending_thread t t'"
  shows "round_addresses t' \<subseteq> round_addresses t \<and> (\<forall>a. sent_log t' = a # sent_log t \<longrightarrow> a \<in> round_addresses t)"
proof -
  have "clients t' = clients t" "set (to_visit (pc t')) \<subseteq> set (to_visit (pc t))"
    "fst ` set (sendings t') \<subseteq> fst ` set (sendings t)"
    "\<forall>a. sent_log t' = a # sent_log t \<longrightarrow> a \<in> fst ` set (sendings t)"
    using assms by (cases rule: sending_thread.cases; auto simp: image_Un)+
  then show ?thesis by (auto simp: round_addresses_def)
qed

lemma transmit_threads_addresses:
  assumes "transmit_threads home s (Inr s')"
  shows "round_addresses (round s') \<subseteq> round_addresses (round s) \<and> replied s' = replied s \<and>
    (\<forall>a. sent_log (round s') = a # sent_log (round s) \<longrightarrow> a \<in> round_addresses (round s))"
  using assms transmission_thread_addresses sending_thread_addresses
  by (cases rule: transmit_threads.cases) fastforce+

lemma loading_thread_addresses:
  "loading_thread home s (Inr s') \<Longrightarrow> round_addresses (round s') = round_addresses (round s) \<and> replied s' = replied s \<and>
     clients (round s') = clients (round s)"
  by (cases rule: loading_thread.cases) (auto simp: round_addresses_def)

definition reply_of :: "config_map \<Rightarrow> sockaddr_in \<Rightarrow> sockaddr_in \<times> string \<Rightarrow> bool" where
  "reply_of config a x \<longleftrightarrow> fst x = a \<and>
     (\<exists>r. accept_response config = Inr r \<and> send_printed (MTN_MSG_LEN + 1) r = Inr (snd x))"

lemma server_receive_from:
  assumes "server_receive config t sent (Datagram d a) buf m = Inr (buf', m', replies, go)"
  shows "set (hash_keys m) \<subseteq> set (hash_keys m') \<and> set (hash_keys m') \<subseteq> insert a (set (hash_keys m)) \<and>
    (\<forall>x \<in> set replies. reply_of config a x \<and> a \<in> set (hash_keys m'))"
proof -
  have sub: "hash_keys m2 = (if a \<in> set (hash_keys m) then hash_keys m else hash_keys m @ [a])"
    if "subscribe t a m = Inr m2" for m2
    using that hash_find_None_iff[of m a] by (auto simp: subscribe_def result_simps split: option.splits)
  have reply: "reply_of config a (a, r) \<and> subscribe t a m = Inr m2"
    if "receive_subscription config t sent a m = Inr (m2, Some r)" for m2 r
    using that by (auto simp: receive_subscription_def send_response_def reply_of_def result_simps split: if_splits)
  have dispatch: "m2 = m \<and> rep = None \<or>
      subscribe t a m = Inr m2 \<and> (\<forall>r. rep = Some r \<longrightarrow> reply_of config a (a, r))"
    if "server_dispatch config t sent b a m = Inr (m2, rep)" for b m2 rep
    using that reply
    by (cases rep) (auto simp: server_dispatch_def receive_resend_def receive_subscription_def result_simps
        split: mtn_message_type.splits mtn_request_type.splits)
  consider "m' = m" "replies = []"
    | b rep where "server_dispatch config t sent b a m = Inr (m', rep)" "set replies \<subseteq> {(a, r) | r. rep = Some r}"
    using assms by (auto simp: result_simps Let_def split: if_splits option.splits)
  then show ?thesis
  proof cases
    case 2
    then show ?thesis using dispatch[OF 2(1)] sub by (auto split: if_splits)
  qed auto
qed

lemma see_new_addresses: "set (to_visit (see_new p k)) \<subseteq> insert k (set (to_visit p))"
  by (cases p) auto

lemma seen_by_round_addresses:
  assumes "set (hash_keys new) \<subseteq> A \<union> set (hash_keys old)"
  shows "set (to_visit (seen_by_round old new p)) \<subseteq> A \<union> set (to_visit p)"
proof -
  have "set (to_visit (fold (\<lambda>k p. see_new p k) ks p)) \<subseteq> set ks \<union> set (to_visit p)" for ks
    by (induction ks arbitrary: p) (use see_new_addresses in fastforce)+
  moreover have "set (filter (\<lambda>k. hash_find old k = None) (hash_keys new)) \<subseteq> A"
    using assms by (auto simp: hash_find_None_iff)
  ultimately show ?thesis unfolding seen_by_round_def by blast
qed

lemma request_thread_addresses:
  assumes "request_thread config (Datagram d a) s (Inr s')"
  shows "round_addresses (round s') \<subseteq> insert a (round_addresses (round s)) \<and>
    set (hash_keys (clients (round s))) \<subseteq> set (hash_keys (clients (round s'))) \<and>
    (\<exists>replies. replied s' = replied s @ replies \<and>
      (\<forall>x \<in> set replies. reply_of config a x \<and> a \<in> set (hash_keys (clients (round s')))))"
  using assms
proof (cases rule: request_thread.cases)
  case (sys_request buf sent buf' m replies go)
  note from_a = server_receive_from[OF sys_request(3)]
  have "set (to_visit (seen_by_round (clients (round s)) m (pc (round s)))) \<subseteq> {a} \<union> set (to_visit (pc (round s)))"
    using from_a by (intro seen_by_round_addresses) auto
  then show ?thesis using from_a sys_request(1) by (fastforce simp: round_addresses_def)
qed

definition all_asked :: "sockaddr_in set \<Rightarrow> net \<Rightarrow> bool" where
  "all_asked srvs n \<longleftrightarrow> (\<forall>k \<in> srvs.
     (\<forall>a \<in> round_addresses (round (net_server n k)). \<exists>d. (a, k, d) \<in> wire n) \<and>
     (\<forall>a d. (k, a, d) \<in> wire n \<longrightarrow> (\<exists>d'. (a, k, d') \<in> wire n)))"

lemma all_asked_step:
  assumes step: "net_step conf home cl srvs n n'" and inv: "all_asked srvs n" and cl: "cl \<notin> srvs"
  shows "all_asked srvs n'"
proof -
  have asked: "\<exists>d. (a, k, d) \<in> wire n'"
    if "k \<in> srvs" "a \<in> round_addresses (round (net_server n k)) \<or> (k, a, d) \<in> wire n" for a k d
    using that inv net_step_wire[OF step] unfolding all_asked_def by blast
  have "(\<forall>a \<in> round_addresses (round (net_server n' k)). \<exists>d. (a, k, d) \<in> wire n') \<and>
      (\<forall>a d. (k, a, d) \<in> wire n' \<longrightarrow> (\<exists>d'. (a, k, d') \<in> wire n'))" if "k \<in> srvs" for k
    using step
  proof (cases rule: net_step.cases)
    case (net_transmit j s)
    have "(j, a, d) \<in> wire n' \<Longrightarrow> (j, a, d) \<in> wire n \<or> a \<in> round_addresses (round (net_server n j))" for a d
      using transmit_threads_addresses[OF net_transmit(3)] net_transmit(1) by (auto simp: data_sent_def)
    moreover have "(k, a, d) \<in> wire n' \<Longrightarrow> k \<noteq> j \<Longrightarrow> (k, a, d) \<in> wire n" for a d
      using net_transmit(1) by (auto simp: data_sent_def)
    moreover have "round_addresses (round (net_server n' k)) \<subseteq> round_addresses (round (net_server n k))"
      using transmit_threads_addresses[OF net_transmit(3)] net_transmit(1) by auto
    ultimately show ?thesis using asked[OF that] by blast
  next
    case (net_request j a d s)
    have from_a: "(a, j, d) \<in> wire n'" using net_request(1,3) by simp
    have "(k, b, e) \<in> wire n' \<Longrightarrow> (k, b, e) \<in> wire n \<or> b = a \<and> k = j" for b e
      using request_thread_addresses[OF net_request(4)] net_request(1)
      by (fastforce simp: replies_sent_def reply_of_def)
    moreover have "b \<in> round_addresses (round (net_server n' k)) \<Longrightarrow>
        b \<in> round_addresses (round (net_server n k)) \<or> b = a \<and> k = j" for b
      using request_thread_addresses[OF net_request(4)] net_request(1) by (cases "k = j") auto
    ultimately show ?thesis using asked[OF that] from_a by blast
  next
    case (net_load j s)
    then show ?thesis using loading_thread_addresses[OF net_load(3)] asked[OF that] by (cases "k = j") auto
  next
    case (net_server_clock j t)
    then show ?thesis using asked[OF that] by (cases "k = j") (auto simp: round_addresses_def)
  next
    case (net_sender c)
    then have "net_server n' = net_server n" "(k, a, d) \<in> wire n' \<Longrightarrow> (k, a, d) \<in> wire n" for a d
      using cl that by (auto simp: requests_sent_def)
    then show ?thesis using asked[OF that] by metis
  next
    case (net_other a b d)
    then show ?thesis using asked[OF that] that by auto
  qed (use asked[OF that] in auto)
  then show ?thesis by (auto simp: all_asked_def)
qed

lemma all_asked_run:
  "net_run conf home cl srvs n0 n \<Longrightarrow> all_asked srvs n0 \<Longrightarrow> cl \<notin> srvs \<Longrightarrow> all_asked srvs n"
  by (induction rule: net_run.induct) (auto intro: all_asked_step)

definition client_asks :: "sockaddr_in \<Rightarrow> sockaddr_in list \<Rightarrow> net \<Rightarrow> bool" where
  "client_asks cl ks n \<longleftrightarrow> (\<forall>k d. (cl, k, d) \<in> wire n \<longrightarrow> k \<in> set ks \<and> d = subscription_request)"

lemma sender_is_listed:
  assumes "client_ok ks c" and "senders c = xs @ (k, p) # ys" and "p \<noteq> Post"
  shows "k \<in> set ks"
proof -
  have "k \<in># places c" using assms(2,3) by (simp add: places_def)
  with assms(1) show ?thesis by (simp add: client_ok_def)
qed

lemma client_asks_run:
  assumes "net_run conf home cl srvs n0 n" and "client_asks cl ks n0" and "client_ok ks (net_client n0)" and "cl \<notin> srvs"
  shows "client_asks cl ks n"
  using assms(1)
proof (induction rule: net_run.induct)
  case (net_next n n')
  have ok: "client_ok ks (net_client n)" using client_run_ok[OF net_run_client[OF net_next(1)] assms(3)] .
  from net_next(2) show ?case
  proof (cases rule: net_step.cases)
    case (net_sender c)
    then show ?thesis
      using net_next(3) sender_is_listed[OF ok] by (fastforce simp: client_asks_def requests_sent_def)
  qed (use net_next(3) assms(4) in \<open>auto simp: client_asks_def data_sent_def replies_sent_def\<close>)
qed (rule assms(2))

text \<open>C5: a server holds in its table, and sends to, only those who sent it something: nothing it does, with its
  rounds, its expiries and its replies in any order, reaches a host that did not ask. The client asks only the
  servers of its list, and with a subscription request.\<close>

theorem served_has_asked:
  assumes "net_run conf home cl srvs (net_start (update_control cmp m recv now)
      (\<lambda>k. server_start (fs k) (transmission_control [] [] (t k)) (buf k))) n"
    and "cl \<notin> srvs" and "k \<in> srvs"
    and "a \<in> set (hash_keys (clients (round (net_server n k)))) \<or> (k, a, d) \<in> wire n"
  shows "\<exists>d'. (a, k, d') \<in> wire n \<and> (a = cl \<longrightarrow> d' = subscription_request \<and> k \<in> set (hash_keys m))"
proof -
  let ?n0 = "net_start (update_control cmp m recv now) (\<lambda>k. server_start (fs k) (transmission_control [] [] (t k)) (buf k))"
  have "all_asked srvs ?n0"
    by (simp add: all_asked_def net_start_def server_start_def transmission_control_def round_addresses_def hash_keys_def)
  from all_asked_run[OF assms(1) this assms(2)] obtain d' where d': "(a, k, d') \<in> wire n"
    using assms(3,4) unfolding all_asked_def round_addresses_def by blast
  have "client_asks cl (hash_keys m) ?n0" "client_ok (hash_keys m) (net_client ?n0)"
    using update_control_ok by (simp_all add: client_asks_def net_start_def)
  from client_asks_run[OF assms(1) this assms(2)] d' show ?thesis by (auto simp: client_asks_def)
qed

lemma served_has_asked_witness:
  "\<exists>n d. net_run (\<lambda>_. server_defaults) (\<lambda>_. None) example_client {example_server}
      (net_start (update_control (\<lambda>_ _ _. True) example_servers (replicate 1025 NUL) 7)
        (\<lambda>k. server_start two_files (transmission_control [] [] 7) (replicate 1025 NUL))) n \<and>
    example_client \<in> set (hash_keys (clients (round (net_server n example_server)))) \<and>
    (example_client, example_server, d) \<in> wire n \<and> d = subscription_request"
proof -
  obtain n where run: "net_run (\<lambda>_. server_defaults) (\<lambda>_. None) example_client {example_server}
      (net_start (update_control (\<lambda>_ _ _. True) example_servers (replicate 1025 NUL) 7)
        (\<lambda>k. server_start two_files (transmission_control [] [] 7) (replicate 1025 NUL))) n"
    and known: "example_client \<in> set (hash_keys (clients (round (net_server n example_server))))"
    using example_run by blast
  have "example_client \<notin> {example_server}" by (simp add: example_client_def example_server_def)
  from served_has_asked[OF run this, of example_server example_client] known run show ?thesis by blast
qed

section \<open>What the client knows of a server\<close>

lemma reply_of_presentable:
  assumes "presentable config name descr"
  shows "reply_of config a x \<longleftrightarrow> x = (a, accept_text name descr)"
proof -
  have "accept_response config = Inr (accept_text name descr)"
    using assms by (simp add: presentable_def accept_response_def accept_text_def)
  then show ?thesis using accept_text_fits[OF assms] by (cases x) (auto simp: reply_of_def send_printed_fits)
qed

text \<open>What a server's threads send besides replies is not taken for a reply.\<close>

definition no_response :: "string \<Rightarrow> bool" where
  "no_response d \<longleftrightarrow> take 4 d \<in> {MTN_DM_HEAD_TXT, MTN_DM_BLOCK_TXT}"

lemma no_response_type: "no_response d \<Longrightarrow> get_message_type (receive_into MTN_MSG_LEN buf d) \<noteq> MTN_RESPONSE"
  unfolding receive_into_types get_message_type_iff
  by (auto simp: no_response_def MTN_MSG_LEN_def text_defs)

lemma block_texts_no_response: "s \<in> set (block_texts ts m n bs) \<Longrightarrow> take 4 s = MTN_DM_BLOCK_TXT"
  by (induction bs) (auto simp: block_text_def text_defs)

lemma sent_text_no_response: "s \<in> set (message_texts rest m) \<Longrightarrow> sent_as s d \<Longrightarrow> no_response d"
proof -
  assume s: "s \<in> set (message_texts rest m)" and d: "sent_as s d"
  have "take 4 s \<in> {MTN_DM_HEAD_TXT, MTN_DM_BLOCK_TXT}"
    using s block_texts_no_response by (auto simp: message_texts_def Let_def head_text_def text_defs)
  moreover have "take 4 (take MTN_MSG_LEN d) = take 4 (take MTN_MSG_LEN s)" using d by (simp add: sent_as_def)
  then have "take 4 d = take 4 s" by (simp add: MTN_MSG_LEN_def)
  ultimately show ?thesis by (simp add: no_response_def)
qed

text \<open>
  What holds of a server's entry of the client: a response, read or not, is the one the server prints, and the
  name and the description of a subscribed server are the server's. \<open>seen\<close> says what must have happened before.
\<close>

definition holds_response :: "bool \<Rightarrow> string \<Rightarrow> string \<Rightarrow> server_data \<Rightarrow> bool" where
  "holds_response seen name descr s \<longleftrightarrow> seen \<and> (\<exists>rest. srv_response s = accept_text name descr @ NUL # rest)"

definition entry_known :: "bool \<Rightarrow> string \<Rightarrow> string \<Rightarrow> server_data \<Rightarrow> bool" where
  "entry_known seen name descr s \<longleftrightarrow>
     (state s = RESP \<longrightarrow> holds_response seen name descr s) \<and>
     (state s = SUBSCR \<longrightarrow> seen \<and> srv_name s = name \<and> srv_descr s = descr)"

definition server_known :: "bool \<Rightarrow> string \<Rightarrow> string \<Rightarrow> sockaddr_in \<Rightarrow> client \<Rightarrow> bool" where
  "server_known seen name descr k c \<longleftrightarrow> (\<forall>s. hash_find (servers c) k = Some s \<longrightarrow>
     entry_known seen name descr s \<and> ((k, Answered) \<in> set (senders c) \<longrightarrow> holds_response seen name descr s))"

definition wire_known :: "bool \<Rightarrow> string \<Rightarrow> string \<Rightarrow> sockaddr_in \<Rightarrow> sockaddr_in \<Rightarrow> net \<Rightarrow> bool" where
  "wire_known seen name descr k cl n \<longleftrightarrow>
     (\<forall>d. (k, cl, d) \<in> wire n \<longrightarrow> no_response d \<or> seen \<and> d = accept_text name descr)"

lemmas known_defs = holds_response_def entry_known_def server_known_def

lemma sender_move_known:
  assumes "sender_move now s p (Inr (s', p'))" and "entry_known seen name descr s"
    and "p = Answered \<Longrightarrow> holds_response seen name descr s" and "presentable config name descr"
  shows "entry_known seen name descr s' \<and> (p' = Answered \<longrightarrow> holds_response seen name descr s')"
  using assms(1)
proof (cases rule: sender_move.cases)
  case (answered t)
  then show ?thesis using assms(2) by (auto simp: request_answered_def result_simps known_defs split: if_splits)
next
  case (timed_out t)
  then show ?thesis using assms(2) by (auto simp: request_timed_out_def Let_def known_defs)
next
  case (handled line)
  then obtain rest where "seen" "srv_response s = accept_text name descr @ NUL # rest"
    using assms(3) by (auto simp: holds_response_def)
  with handled handle_accept[OF this(2), of line] assms(4) have "seen" "s' = s\<lparr>state := SUBSCR, srv_name := name,
      srv_descr := descr, srv_response := NUL # tl (srv_response s)\<rparr>" "p' = Finish"
    by (auto simp: presentable_def)
  then show ?thesis by (simp add: entry_known_def)
qed (use assms(2) in auto)

lemma only_sender:
  assumes "client_ok ks c" and "distinct ks" and "senders c = xs @ (k, p) # ys" and "p \<noteq> Post" and "q \<noteq> Post"
  shows "(k, q) \<notin> set (xs @ ys)"
proof
  assume "(k, q) \<in> set (xs @ ys)"
  then have "(k, q) \<in> set (filter (\<lambda>(k, pc). pc \<noteq> Post) xs) \<or> (k, q) \<in> set (filter (\<lambda>(k, pc). pc \<noteq> Post) ys)"
    using assms(5) by auto
  then have "\<not> distinct (map fst (filter (\<lambda>(k, pc). pc \<noteq> Post) (senders c)))"
    using assms(3,4) by (force simp: image_iff)
  moreover have "senders_hold (senders c) \<subseteq># mset ks"
    using assms(1) unfolding client_ok_def places_def by (metis mset_subset_eq_add_right)
  ultimately show False using assms(2) distinct_sub_mset unfolding senders_hold_def by blast
qed

lemma sender_thread_known:
  assumes "sender_thread c (Inr c')" and "server_known seen name descr k c" and "presentable config name descr"
    and "client_ok ks c" and "distinct ks"
  shows "server_known seen name descr k c'"
  using assms(1)
proof (cases rule: sender_thread.cases)
  case (move xs j p ys s s' p')
  show ?thesis
  proof (cases "j = k")
    case True
    have "p \<noteq> Post" using sender_move_not_post[OF move(4)] by simp
    then have "(k, Answered) \<notin> set (xs @ ys)" using only_sender[OF assms(4,5), of xs k p ys Answered] move(2) True by simp
    moreover have "entry_known seen name descr s'" "p' = Answered \<longrightarrow> holds_response seen name descr s'"
      using sender_move_known[OF move(4) _ _ assms(3)] assms(2) move(2,3) True by (auto simp: server_known_def)
    ultimately show ?thesis using move(1,3) True by (auto simp: server_known_def set_server_find)
  next
    case False
    then show ?thesis using move assms(2) by (auto simp: server_known_def set_server_find)
  qed
qed (use assms(2) in \<open>auto simp: server_known_def\<close>)

lemma subscription_thread_known:
  "subscription_thread c (Inr c') \<Longrightarrow> server_known seen name descr k c \<Longrightarrow> server_known seen name descr k c'"
  by (cases rule: subscription_thread.cases) (auto simp: known_defs set_server_find split: if_splits)

lemma update_thread_known:
  "update_thread c (Inr c') \<Longrightarrow> server_known seen name descr k c \<Longrightarrow> server_known seen name descr k c'"
  by (cases rule: update_thread.cases) (auto simp: server_known_def)

lemma client_receive_known_entry:
  assumes "client_receive (Datagram d a) buf m = Inr (buf', m', go)"
    and "a = k \<longrightarrow> no_response d \<or> seen \<and> d = accept_text name descr" and "presentable config name descr"
  shows "hash_find m' k = hash_find m k \<or>
    (\<exists>s mem. hash_find m k = Some s \<and> hash_find m' k = Some (s\<lparr>srv_response := mem, state := RESP\<rparr>) \<and>
       seen \<and> (\<exists>rest. mem = accept_text name descr @ NUL # rest))"
proof -
  let ?b = "receive_into MTN_MSG_LEN buf d"
  consider "m' = m"
    | s mem where "get_message_type ?b = MTN_RESPONSE" "hash_find m a = Some s" "strcpy (srv_response s) ?b = Inr mem"
        "m' = hash_change m a (\<lambda>s. s\<lparr>srv_response := mem, state := RESP\<rparr>)"
  proof -
    from assms(1) have "m' = m \<or> client_dispatch ?b a m = Inr m'"
      by (auto simp: result_simps Let_def split: if_splits)
    then have "m' = m \<or> get_message_type ?b = MTN_RESPONSE \<and> receive_response ?b a m = Inr m'"
      by (cases "get_message_type ?b")
        (auto simp: client_dispatch_def receive_data_message_head_def result_simps Let_def split: option.splits)
    then show thesis using that by (auto simp: receive_response_def result_simps split: option.splits)
  qed
  then show ?thesis
  proof cases
    case (2 s mem)
    show ?thesis
    proof (cases "a = k")
      case True
      have d: "seen" "d = accept_text name descr" using assms(2) True no_response_type[of d buf] 2(1) by auto
      have "cstr ?b = accept_text name descr"
        using accept_text_fits[OF assms(3)] cstr_terminated[of "accept_text name descr"] d(2)
        by (simp add: receive_into_split)
      then have "\<exists>rest. mem = accept_text name descr @ NUL # rest"
        using 2(3) by (auto simp: strcpy_def split: if_splits)
      then show ?thesis using 2 True d by auto
    qed (use 2 in simp)
  qed simp
qed

definition recorded ::
    "(sockaddr_in \<Rightarrow> config_map) \<Rightarrow> (sockaddr_in \<Rightarrow> string option) \<Rightarrow> sockaddr_in \<Rightarrow> sockaddr_in set \<Rightarrow>
     net \<Rightarrow> sockaddr_in \<Rightarrow> net \<Rightarrow> bool" where
  "recorded conf home cl srvs n0 k n \<longleftrightarrow> (\<exists>n1. net_run conf home cl srvs n0 n1 \<and> net_run conf home cl srvs n1 n \<and>
     cl \<in> set (hash_keys (clients (round (net_server n1 k)))))"

lemma recorded_later: "recorded conf home cl srvs n0 k n \<Longrightarrow> net_step conf home cl srvs n n' \<Longrightarrow> recorded conf home cl srvs n0 k n'"
  unfolding recorded_def by (blast intro: net_next)

lemma known_later:
  "server_known seen name descr k c \<Longrightarrow> (seen \<Longrightarrow> seen') \<Longrightarrow> server_known seen' name descr k c"
  "wire_known seen name descr k cl n \<Longrightarrow> (seen \<Longrightarrow> seen') \<Longrightarrow> wire_known seen' name descr k cl n"
  by (auto simp: known_defs wire_known_def)

lemma known_step:
  assumes run: "net_run conf home cl srvs n0 n" and step: "net_step conf home cl srvs n n'"
    and ok: "client_ok ks (net_client n)" "distinct ks" and cl: "cl \<notin> srvs" "k \<in> srvs"
    and conf: "presentable (conf k) name descr"
    and known: "server_known (recorded conf home cl srvs n0 k n) name descr k (net_client n)"
    and wired: "wire_known (recorded conf home cl srvs n0 k n) name descr k cl n"
  shows "server_known (recorded conf home cl srvs n0 k n') name descr k (net_client n') \<and>
    wire_known (recorded conf home cl srvs n0 k n') name descr k cl n'"
proof -
  let ?seen = "recorded conf home cl srvs n0 k n'"
  have later: "server_known ?seen name descr k (net_client n)" "wire_known ?seen name descr k cl n"
    by (rule known_later(1)[OF known], rule recorded_later[OF _ step], assumption,
        rule known_later(2)[OF wired], rule recorded_later[OF _ step], assumption)
  show ?thesis
    using step
  proof (cases rule: net_step.cases)
    case (net_subscription c)
    then show ?thesis using later subscription_thread_known by (auto simp: wire_known_def)
  next
    case (net_update c)
    then show ?thesis using later update_thread_known by (auto simp: wire_known_def)
  next
    case (net_sender c)
    then show ?thesis
      using later sender_thread_known[OF net_sender(2) later(1) conf ok] cl
      by (auto simp: wire_known_def requests_sent_def)
  next
    case (net_receive a d buf buf' m go)
    have "a = k \<longrightarrow> no_response d \<or> ?seen \<and> d = accept_text name descr"
      using later(2) net_receive(2) by (auto simp: wire_known_def)
    from client_receive_known_entry[OF net_receive(4) this conf] have "server_known ?seen name descr k (net_client n')"
      using later(1) net_receive(1) unfolding known_defs by (elim disjE) (simp, fastforce)
    then show ?thesis using later(2) net_receive(1) by (simp add: wire_known_def)
  next
    case (net_transmit j s)
    then show ?thesis
      using later sent_text_no_response by (auto simp: wire_known_def data_sent_def)
  next
    case (net_request j a d s)
    have "?seen" if "(cl, e) \<in> set (drop (length (replied (net_server n k))) (replied s))" "j = k" for e
    proof -
      have "cl \<in> set (hash_keys (clients (round (net_server n' k))))"
        using request_thread_addresses[OF net_request(4)] that net_request(1) by (fastforce simp: reply_of_def)
      then show ?thesis using run step net_next net_begin unfolding recorded_def by metis
    qed
    moreover have "e = accept_text name descr"
      if "(cl, e) \<in> set (drop (length (replied (net_server n k))) (replied s))" "j = k" for e
      using request_thread_addresses[OF net_request(4)] that reply_of_presentable[OF conf] by fastforce
    ultimately show ?thesis
      using later net_request(1) by (auto simp: wire_known_def replies_sent_def)
  qed (use later cl in \<open>auto simp: wire_known_def server_known_def\<close>)
qed

lemma known_run:
  assumes "net_run conf home cl srvs n0 n" and "client_ok ks (net_client n0)" "distinct ks" and "cl \<notin> srvs" "k \<in> srvs"
    and "presentable (conf k) name descr" and "wire n0 = {}"
    and "server_known False name descr k (net_client n0)"
  shows "server_known (recorded conf home cl srvs n0 k n) name descr k (net_client n) \<and>
    wire_known (recorded conf home cl srvs n0 k n) name descr k cl n"
  using assms(1)
proof (induction rule: net_run.induct)
  case net_begin
  then show ?case using assms(7) known_later(1)[OF assms(8)] by (simp add: wire_known_def)
next
  case (net_next n n')
  have "client_ok ks (net_client n)" using client_run_ok[OF net_run_client[OF net_next(1)] assms(2)] .
  from known_step[OF net_next(1,2) this assms(3-6)] net_next(3) show ?case by blast
qed

text \<open>C4: other hosts send what they like but only from their own addresses, the server's name and
  description are without line ends and fit the client's arrays, and the state field of the server's
  entry, which the loader of the list does not set, did not come from \<open>malloc\<close> with the value of RESP
  or SUBSCR. Then, when the client holds the server to be subscribed, that server has recorded the
  client in its table at some earlier point of the run, and the name and the description the client
  shows are those of the server's configuration: whatever the network loses, repeats or reorders,
  whatever other hosts send, and whatever the clocks show.\<close>

theorem subscribed_is_recorded:
  assumes "net_run conf home cl srvs (net_start (update_control cmp m recv now) servers_at) n"
    and "hash_ok m" and "cl \<notin> srvs" and "k \<in> srvs" and "presentable (conf k) name descr"
    and "\<forall>s. hash_find m k = Some s \<longrightarrow> state s \<noteq> RESP \<and> state s \<noteq> SUBSCR"
    and "hash_find (servers (net_client n)) k = Some s" and "state s = SUBSCR"
  shows "srv_name s = name \<and> srv_descr s = descr \<and>
    recorded conf home cl srvs (net_start (update_control cmp m recv now) servers_at) k n"
proof -
  let ?n0 = "net_start (update_control cmp m recv now) servers_at"
  have "client_ok (hash_keys m) (net_client ?n0)" "distinct (hash_keys m)"
    using update_control_ok assms(2) by (simp_all add: net_start_def hash_ok_def)
  moreover have "server_known False name descr k (net_client ?n0)" "wire ?n0 = {}"
    using assms(6) by (auto simp: known_defs net_start_def update_control_def)
  ultimately show ?thesis
    using known_run[OF assms(1) _ _ assms(3-5)] assms(7,8) by (auto simp: known_defs)
qed

lemma subscribed_is_recorded_witness:
  "\<exists>n s. hash_find (servers (net_client n)) example_server = Some s \<and> state s = SUBSCR \<and> srv_descr s = [] \<and>
    recorded (\<lambda>_. server_defaults) (\<lambda>_. None) example_client {example_server}
      (net_start (update_control (\<lambda>_ _ _. True) example_servers (replicate 1025 NUL) 7)
        (\<lambda>k. server_start two_files (transmission_control [] [] 7) (replicate 1025 NUL))) example_server n"
proof -
  obtain n s where run: "net_run (\<lambda>_. server_defaults) (\<lambda>_. None) example_client {example_server}
      (net_start (update_control (\<lambda>_ _ _. True) example_servers (replicate 1025 NUL) 7)
        (\<lambda>k. server_start two_files (transmission_control [] [] 7) (replicate 1025 NUL))) n"
    and s: "hash_find (servers (net_client n)) example_server = Some s" "state s = SUBSCR"
    using example_run by blast
  have "hash_ok example_servers" "example_client \<notin> {example_server}" "example_server \<in> {example_server}"
    "presentable server_defaults ''MTN server'' []"
    "\<forall>s. hash_find example_servers example_server = Some s \<longrightarrow> state s \<noteq> RESP \<and> state s \<noteq> SUBSCR"
    by (simp_all add: hash_ok_def example_servers_def example_client_def example_server_def presentable_def
        get_config_value_def hash_find_def server_defaults_def SRV_NAME_LEN_def SRV_DESCR_LEN_def)
  from subscribed_is_recorded[OF run this s] s show ?thesis by blast
qed

end
