(* ===== verification/Logging.thy ===== *)
theory Logging
  imports Config Network
begin

text \<open>
  The output functions of \<open>mtn-common.c\<close>: \<open>print\<close> to \<open>debug\<close> write one line each to the standard output or
  the standard error stream, under a mutex, so that lines of different threads do not mix. What
  \<open>vfprintf\<close> makes of a format and its arguments is the argument \<open>message\<close>; the text of \<open>strerror(errno)\<close>
  is the argument of the functions that print it. \<open>get_sem_value\<close> ends the process when the value
  cannot be read.
\<close>

section \<open>The functions\<close>

record console =
  std_out :: string
  std_err :: string

datatype out_stream = Stdout | Stderr

definition print_message :: "out_stream \<Rightarrow> string \<Rightarrow> string \<Rightarrow> string option \<Rightarrow> console \<Rightarrow> console" where
  "print_message out prefix message strerror con =
     (let line = prefix @ message @ (case strerror of Some e \<Rightarrow> '': '' @ e | None \<Rightarrow> []) @ [newline] in
      case out of
        Stdout \<Rightarrow> con\<lparr>std_out := std_out con @ line\<rparr>
      | Stderr \<Rightarrow> con\<lparr>std_err := std_err con @ line\<rparr>)"

definition print :: "string \<Rightarrow> console \<Rightarrow> console" where
  "print message = print_message Stdout [] message None"

definition info :: "string \<Rightarrow> console \<Rightarrow> console" where
  "info message = print_message Stdout ''Info: '' message None"

definition warning :: "string \<Rightarrow> console \<Rightarrow> console" where
  "warning message = print_message Stderr ''Warning: '' message None"

definition warning_errno :: "string \<Rightarrow> string \<Rightarrow> console \<Rightarrow> console" where
  "warning_errno message e = print_message Stderr ''Warning: '' message (Some e)"

definition error :: "string \<Rightarrow> console \<Rightarrow> console" where
  "error message = print_message Stderr ''Error: '' message None"

definition error_errno :: "string \<Rightarrow> string \<Rightarrow> console \<Rightarrow> console" where
  "error_errno message e = print_message Stderr ''Error: '' message (Some e)"

text \<open>What is on the console when the process ends, and how it ends.\<close>

definition fatal_error :: "int \<Rightarrow> string \<Rightarrow> console \<Rightarrow> console \<times> 'a c_result" where
  "fatal_error eval message con = (print_message Stderr ''Fatal error: '' message None con, Inl (Exit eval))"

definition fatal_error_errno :: "int \<Rightarrow> string \<Rightarrow> string \<Rightarrow> console \<Rightarrow> console \<times> 'a c_result" where
  "fatal_error_errno eval message e con =
     (print_message Stderr ''Fatal error: '' message (Some e) con, Inl (Exit eval))"

text \<open>\<open>"Debug[%d]: "\<close> is printed into an array of 15 bytes, the unsigned level as a signed number. The
  comparison of the unsigned level with the value of \<open>atoi\<close> converts the latter to unsigned.\<close>

definition signed_decimal :: "int \<Rightarrow> string" where
  "signed_decimal n = (if n < 0 then CHR ''-'' # decimal (nat (- n)) else decimal (nat n))"

definition debug_prefix :: "32 word \<Rightarrow> string" where
  "debug_prefix level = ''Debug['' @ signed_decimal (sint level) @ '']: ''"

definition debug :: "config_map \<Rightarrow> 32 word \<Rightarrow> string \<Rightarrow> console \<Rightarrow> console c_result" where
  "debug config level message con =
     (case get_config_value config ''debug'' of
        None \<Rightarrow>
          let q = [CHR 0x27]; name = q @ ''debug'' @ q
          in Inr (warning (''cannot get config '' @ name @ '': unknown config name '' @ name) con)
      | Some level_str \<Rightarrow>
          if level \<le> word_of_int (atoi level_str) then
            result_bind (strcpy (replicate 15 NUL) (debug_prefix level)) (\<lambda>prefix.
              Inr (print_message Stderr (cstr prefix) message None con))
          else Inr con)"

definition get_sem_value :: "int option \<Rightarrow> string \<Rightarrow> console \<Rightarrow> console \<times> int c_result" where
  "get_sem_value sem_value e con =
     (case sem_value of
        None \<Rightarrow> fatal_error_errno 1 ''cannot get value of a semaphore'' e con
      | Some val \<Rightarrow> (con, Inr val))"

section \<open>The level of a debug message\<close>

lemma signed_decimal_plain: "c \<in> set (signed_decimal n) \<Longrightarrow> c \<noteq> NUL"
  using decimal_is_digit digit_not_special by (fastforce simp: signed_decimal_def split: if_splits)

lemma debug_prefix_terminated: "NUL \<notin> set (debug_prefix level)"
  using signed_decimal_plain by (auto simp: debug_prefix_def)

lemma length_debug_prefix: "length (debug_prefix level) = 9 + length (signed_decimal (sint level))"
  by (simp add: debug_prefix_def)

text \<open>A level that prints in up to five digits fits the array.\<close>

lemma sint_of_small:
  assumes "unat w < 2 ^ 31"
  shows "sint (w :: 32 word) = int (unat w)"
proof -
  have "uint w < 2 ^ 31" using assms by (metis of_nat_less_iff of_nat_numeral of_nat_power of_nat_unat)
  moreover have "- (2 ^ 31) \<le> uint w" by (rule order.trans[of _ 0]) simp_all
  ultimately have "signed_take_bit 31 (uint w) = uint w" by (intro signed_take_bit_int_eq_self) simp_all
  then show ?thesis by (simp add: sint_uint)
qed

lemma level_below_iff:
  assumes "0 \<le> n" and "n < 2 ^ 31"
  shows "(level :: 32 word) \<le> word_of_int n \<longleftrightarrow> int (unat level) \<le> n"
  using assms by (simp add: word_le_def unsigned_of_int take_bit_int_eq_self)

lemma level_below_negative:
  assumes "n < 0" and "- (2 ^ 31) \<le> n" and "unat (level :: 32 word) < 2 ^ 31"
  shows "level \<le> word_of_int n"
proof -
  have "uint (word_of_int n :: 32 word) = n mod 2 ^ 32" by (simp add: unsigned_of_int take_bit_eq_mod)
  also have "\<dots> = n + 2 ^ 32" using assms(1,2) mod_pos_pos_trivial[of "n + 2 ^ 32" "2 ^ 32"] by simp
  finally have "2 ^ 31 \<le> uint (word_of_int n :: 32 word)" using assms(2) by simp
  moreover have "uint level < 2 ^ 31" using assms(3) by (metis of_nat_less_iff of_nat_numeral of_nat_power of_nat_unat)
  ultimately show ?thesis by (simp add: word_le_def)
qed

lemma strcpy_debug_prefix:
  assumes "unat level < 2 ^ 31"
  shows "strcpy (replicate 15 NUL) (debug_prefix level) =
    (if unat level < 100000 then Inr (debug_prefix level @ NUL # drop (Suc (length (debug_prefix level))) (replicate 15 NUL))
     else Inl Buffer_overflow)"
proof -
  have "length (debug_prefix level) = 9 + length (decimal (unat level))"
    using sint_of_small[OF assms] by (simp add: length_debug_prefix signed_decimal_def)
  moreover have "length (decimal (unat level)) \<le> 5 \<longleftrightarrow> unat level < 100000"
    using decimal_length[of 5 "unat level"] by simp
  ultimately show ?thesis
    using debug_prefix_terminated[of level] by (auto simp: strcpy_def cstr_NUL_free)
qed

text \<open>Which debug messages are printed: with a non-negative level in the configuration, exactly those of
  that level or below, on a line of their own on the standard error stream and with the level in
  front; and the level's text fits the 15 bytes reserved for it exactly if it has up to five digits.\<close>

lemma debug_prints_up_to_level:
  assumes "get_config_value config ''debug'' = Some v" and "0 \<le> atoi v" and "atoi v < 2 ^ 31"
    and "unat level < 2 ^ 31"
  shows "debug config level message con =
    (if int (unat level) \<le> atoi v then
       if unat level < 100000
       then Inr (con\<lparr>std_err := std_err con @ ''Debug['' @ decimal (unat level) @ '']: '' @ message @ [newline]\<rparr>)
       else Inl Buffer_overflow
     else Inr con)"
proof -
  have "cstr (debug_prefix level @ NUL # r) = debug_prefix level" for r
    by (rule cstr_terminated[OF debug_prefix_terminated])
  moreover have "debug_prefix level = ''Debug['' @ decimal (unat level) @ '']: ''"
    using sint_of_small[OF assms(4)] by (simp add: debug_prefix_def signed_decimal_def)
  ultimately show ?thesis
    using assms level_below_iff[OF assms(2,3)] strcpy_debug_prefix[OF assms(4)]
    by (simp add: debug_def print_message_def)
qed

lemma debug_prints_up_to_level_witness:
  "debug [(''debug'', ''2'')] 1 ''loading'' \<lparr>std_out = [], std_err = []\<rparr> =
     Inr \<lparr>std_out = [], std_err = ''Debug[1]: loading'' @ [newline]\<rparr> \<and>
   debug [(''debug'', ''2'')] 5 ''waiting'' \<lparr>std_out = [], std_err = []\<rparr> = Inr \<lparr>std_out = [], std_err = []\<rparr>"
proof -
  have "atoi ''2'' = 2" "decimal (Suc 0) = ''1''" by code_simp+
  moreover have "get_config_value [(''debug'', ''2'')] ''debug'' = Some ''2''"
    by (simp add: get_config_value_def hash_find_def)
  ultimately show ?thesis
    using debug_prints_up_to_level[of "[(''debug'', ''2'')]" "''2''" 1 "''loading''" "\<lparr>std_out = [], std_err = []\<rparr>"]
      debug_prints_up_to_level[of "[(''debug'', ''2'')]" "''2''" 5 "''waiting''" "\<lparr>std_out = [], std_err = []\<rparr>"]
    by simp
qed

text \<open>A negative level in the configuration does not silence the messages, it prints them all: the
  comparison is unsigned.\<close>

lemma negative_debug_level_prints_all:
  assumes "get_config_value config ''debug'' = Some v" and "atoi v < 0" and "- (2 ^ 31) \<le> atoi v"
    and "unat level < 100000"
  shows "\<exists>con'. debug config level message con = Inr con' \<and>
    std_err con' = std_err con @ ''Debug['' @ decimal (unat level) @ '']: '' @ message @ [newline]"
proof -
  have small: "unat level < 2 ^ 31" using assms(4) by simp
  have "cstr (debug_prefix level @ NUL # r) = debug_prefix level" for r
    by (rule cstr_terminated[OF debug_prefix_terminated])
  moreover have "debug_prefix level = ''Debug['' @ decimal (unat level) @ '']: ''"
    using sint_of_small[OF small] by (simp add: debug_prefix_def signed_decimal_def)
  ultimately show ?thesis
    using assms level_below_negative[OF assms(2,3) small] strcpy_debug_prefix[OF small]
    by (simp add: debug_def print_message_def)
qed

end
