(* ===== verification/Refinement.thy ===== *)
theory Refinement
  imports Prelude
begin

text \<open>
  What it means that a data structure of C code implements an abstract one: a relation between the
  two that every allowed operation of the code preserves, doing to the abstract value what its
  specification says, without a fault and in finite time. Whole sequences of operations follow.
\<close>

fun run_ops :: "('op \<Rightarrow> 'c \<Rightarrow> ('e + 'c) option) \<Rightarrow> 'op list \<Rightarrow> 'c \<Rightarrow> ('e + 'c) option" where
  "run_ops cstep [] c = Some (Inr c)"
| "run_ops cstep (op # ops) c = loop_bind (cstep op c) (run_ops cstep ops)"

fun ops_allowed :: "('op \<Rightarrow> 'a \<Rightarrow> bool) \<Rightarrow> ('op \<Rightarrow> 'a \<Rightarrow> 'a) \<Rightarrow> 'op list \<Rightarrow> 'a \<Rightarrow> bool" where
  "ops_allowed allowed astep [] a = True"
| "ops_allowed allowed astep (op # ops) a = (allowed op a \<and> ops_allowed allowed astep ops (astep op a))"

locale simulation =
  fixes rel :: "'c \<Rightarrow> 'a \<Rightarrow> bool"
    and cstep :: "'op \<Rightarrow> 'c \<Rightarrow> ('e + 'c) option"
    and astep :: "'op \<Rightarrow> 'a \<Rightarrow> 'a"
    and allowed :: "'op \<Rightarrow> 'a \<Rightarrow> bool"
  assumes simulates: "rel c a \<Longrightarrow> allowed op a \<Longrightarrow> \<exists>c'. cstep op c = Some (Inr c') \<and> rel c' (astep op a)"
begin

lemma run_simulates:
  "rel c a \<Longrightarrow> ops_allowed allowed astep ops a \<Longrightarrow>
   \<exists>c'. run_ops cstep ops c = Some (Inr c') \<and> rel c' (fold astep ops a)"
proof (induction ops arbitrary: c a)
  case (Cons op ops)
  then obtain c1 where "cstep op c = Some (Inr c1)" "rel c1 (astep op a)" using simulates by fastforce
  with Cons show ?case by fastforce
qed simp

end

text \<open>The same for operations that may also fail in a way that ends the run, such as lack of memory.\<close>

locale partial_simulation =
  fixes rel :: "'c \<Rightarrow> 'a \<Rightarrow> bool"
    and cstep :: "'op \<Rightarrow> 'c \<Rightarrow> ('e + 'c) option"
    and astep :: "'op \<Rightarrow> 'a \<Rightarrow> 'a"
    and allowed :: "'op \<Rightarrow> 'a \<Rightarrow> bool"
    and gives_up :: "'e \<Rightarrow> bool"
  assumes simulates_or_gives_up: "rel c a \<Longrightarrow> allowed op a \<Longrightarrow>
    (\<exists>e. cstep op c = Some (Inl e) \<and> gives_up e) \<or>
    (\<exists>c'. cstep op c = Some (Inr c') \<and> rel c' (astep op a))"
begin

lemma run_simulates_or_gives_up:
  "rel c a \<Longrightarrow> ops_allowed allowed astep ops a \<Longrightarrow>
   (\<exists>e. run_ops cstep ops c = Some (Inl e) \<and> gives_up e) \<or>
   (\<exists>c'. run_ops cstep ops c = Some (Inr c') \<and> rel c' (fold astep ops a))"
proof (induction ops arbitrary: c a)
  case (Cons op ops)
  then have "rel c a" "allowed op a" by auto
  from simulates_or_gives_up[OF this] show ?case
  proof (elim disjE exE conjE)
    fix c' assume c': "cstep op c = Some (Inr c')" "rel c' (astep op a)"
    have "ops_allowed allowed astep ops (astep op a)" using Cons.prems(2) by simp
    from Cons.IH[OF c'(2) this] c'(1) show ?thesis by simp
  qed simp
qed simp

end

sublocale simulation \<subseteq> never_gives_up: partial_simulation rel cstep astep allowed "\<lambda>_. False"
  by unfold_locales (use simulates in simp)

text \<open>A sequence of operations may be cut anywhere.\<close>

lemma ops_allowed_append [simp]:
  "ops_allowed allowed astep (ops @ ops') a \<longleftrightarrow>
   ops_allowed allowed astep ops a \<and> ops_allowed allowed astep ops' (fold astep ops a)"
  by (induction ops arbitrary: a) auto

end
