(* ===== verification/UtArray.thy ===== *)
theory UtArray
  imports ArrayHeap Refinement
begin

text \<open>
  The dynamic array of \<open>utarray.h\<close>, in which the program's heaps keep their elements: the record and
  the macros, with the counters at their width of 32 bits and the storage as slots that are
  uninitialised until they are written. The second part shows that the macros implement the
  operations of a list, and that the growing loop ends exactly as long as no more than \<open>2 ^ 31\<close> slots
  are needed. The array of a heap in \<open>ArrayHeap\<close> is the list its dynamic array holds.
\<close>

section \<open>The structure\<close>

text \<open>
  \<open>icd_init\<close> is what the initialiser writes, \<open>icd_copy\<close> what the copying function stores for a source,
  where they are not NULL, and \<open>icd_zero\<close> an element of zero bytes. The effect of a destructor is
  outside of the array; \<open>ua_destroyed\<close> lists what it was called on.
\<close>

record 'a ut_icd =
  icd_zero :: 'a
  icd_init :: "'a option"
  icd_copy :: "('a \<Rightarrow> 'a) option"
  icd_dtor :: bool

record 'a ut_array =
  ua_i :: "32 word"
  ua_n :: "32 word"
  ua_d :: "'a option list"
  ua_destroyed :: "'a option list"

definition utarray_new :: "'a ut_array" where
  "utarray_new = \<lparr>ua_i = 0, ua_n = 0, ua_d = [], ua_destroyed = []\<rparr>"

definition copied_elem :: "'a ut_icd \<Rightarrow> 'a \<Rightarrow> 'a" where
  "copied_elem icd p = (case icd_copy icd of Some f \<Rightarrow> f p | None \<Rightarrow> p)"

definition initial_elem :: "'a ut_icd \<Rightarrow> 'a" where
  "initial_elem icd = (case icd_init icd of Some x \<Rightarrow> x | None \<Rightarrow> icd_zero icd)"

section \<open>The macros\<close>

text \<open>The loop that doubles the number of slots; \<open>None\<close> if it does not end.\<close>

partial_function (option) grow :: "32 word \<Rightarrow> 32 word \<Rightarrow> 32 word option" where
  "grow need n = (if need > n then grow need (if n \<noteq> 0 then 2 * n else 8) else Some n)"

text \<open>\<open>mem\<close> says for how many slots \<open>realloc\<close> finds memory; \<open>oom()\<close> is \<open>exit(-1)\<close>. New slots are uninitialised.\<close>

definition utarray_reserve ::
    "(nat \<Rightarrow> bool) \<Rightarrow> 32 word \<Rightarrow> 'a ut_array \<Rightarrow> 'a ut_array c_result option" where
  "utarray_reserve mem by a =
     (if ua_i a + by > ua_n a then
        case grow (ua_i a + by) (ua_n a) of
          None \<Rightarrow> None
        | Some n \<Rightarrow>
            if mem (unat n) then
              Some (Inr (a\<lparr>ua_n := n,
                ua_d := take (unat n) (ua_d a) @ replicate (unat n - length (ua_d a)) None\<rparr>))
            else Some (Inl (Exit (-1)))
      else Some (Inr a))"

definition put_slot :: "nat \<Rightarrow> 'a option \<Rightarrow> 'a ut_array \<Rightarrow> 'a ut_array c_result" where
  "put_slot j x a =
     (if j < length (ua_d a) then Inr (a\<lparr>ua_d := (ua_d a)[j := x]\<rparr>) else Inl Buffer_overflow)"

definition utarray_push_back ::
    "(nat \<Rightarrow> bool) \<Rightarrow> 'a ut_icd \<Rightarrow> 'a \<Rightarrow> 'a ut_array \<Rightarrow> 'a ut_array c_result option" where
  "utarray_push_back mem icd p a =
     loop_bind (utarray_reserve mem 1 a) (\<lambda>a. Some (
       result_bind (put_slot (unat (ua_i a)) (Some (copied_elem icd p)) a) (\<lambda>a.
         Inr (a\<lparr>ua_i := ua_i a + 1\<rparr>))))"

definition utarray_pop_back :: "'a ut_icd \<Rightarrow> 'a ut_array \<Rightarrow> 'a ut_array c_result" where
  "utarray_pop_back icd a =
     (let a = a\<lparr>ua_i := ua_i a - 1\<rparr> in
      if icd_dtor icd then
        if unat (ua_i a) < length (ua_d a)
        then Inr (a\<lparr>ua_destroyed := ua_destroyed a @ [ua_d a ! unat (ua_i a)]\<rparr>)
        else Inl Out_of_bounds_read
      else Inr a)"

definition utarray_extend_back ::
    "(nat \<Rightarrow> bool) \<Rightarrow> 'a ut_icd \<Rightarrow> 'a ut_array \<Rightarrow> 'a ut_array c_result option" where
  "utarray_extend_back mem icd a =
     loop_bind (utarray_reserve mem 1 a) (\<lambda>a. Some (
       result_bind (put_slot (unat (ua_i a)) (Some (initial_elem icd)) a) (\<lambda>a.
         Inr (a\<lparr>ua_i := ua_i a + 1\<rparr>))))"

definition utarray_len :: "'a ut_array \<Rightarrow> 32 word" where
  "utarray_len a = ua_i a"

text \<open>A pointer to an element is the number of its slot.\<close>

definition utarray_eltptr :: "'a ut_array \<Rightarrow> 32 word \<Rightarrow> nat option" where
  "utarray_eltptr a j = (if j < ua_i a then Some (unat j) else None)"

definition utarray_front :: "'a ut_array \<Rightarrow> nat option" where
  "utarray_front a = (if ua_i a \<noteq> 0 then Some 0 else None)"

definition utarray_back :: "'a ut_array \<Rightarrow> nat option" where
  "utarray_back a = (if ua_i a \<noteq> 0 then Some (unat (ua_i a - 1)) else None)"

definition utarray_next :: "'a ut_array \<Rightarrow> nat option \<Rightarrow> nat option" where
  "utarray_next a e =
     (case e of
        None \<Rightarrow> utarray_front a
      | Some j \<Rightarrow> if unat (ua_i a) > j + 1 then Some (j + 1) else None)"

text \<open>Copying and moving whole slots, and the destructor on a range of them.\<close>

definition put_slots :: "nat \<Rightarrow> 'a option list \<Rightarrow> 'a ut_array \<Rightarrow> 'a ut_array c_result" where
  "put_slots j ys a =
     (if j + length ys \<le> length (ua_d a)
      then Inr (a\<lparr>ua_d := take j (ua_d a) @ ys @ drop (j + length ys) (ua_d a)\<rparr>)
      else Inl Buffer_overflow)"

definition move_slots :: "nat \<Rightarrow> nat \<Rightarrow> nat \<Rightarrow> 'a ut_array \<Rightarrow> 'a ut_array c_result" where
  "move_slots dst src cnt a =
     (if src + cnt \<le> length (ua_d a) then put_slots dst (take cnt (drop src (ua_d a))) a
      else Inl Out_of_bounds_read)"

definition destroy :: "'a ut_icd \<Rightarrow> nat \<Rightarrow> nat \<Rightarrow> 'a ut_array \<Rightarrow> 'a ut_array c_result" where
  "destroy icd start stop a =
     (if \<not> icd_dtor icd \<or> stop \<le> start then Inr a
      else if stop \<le> unat (ua_i a) then
        (if stop \<le> length (ua_d a)
         then Inr (a\<lparr>ua_destroyed := ua_destroyed a @ take (stop - start) (drop start (ua_d a))\<rparr>)
         else Inl Out_of_bounds_read)
      else Inl Null_pointer)"

definition utarray_insert ::
    "(nat \<Rightarrow> bool) \<Rightarrow> 'a ut_icd \<Rightarrow> 'a \<Rightarrow> 32 word \<Rightarrow> 'a ut_array \<Rightarrow> 'a ut_array c_result option" where
  "utarray_insert mem icd p j a =
     loop_bind (utarray_reserve mem 1 a) (\<lambda>a. Some (
       if j > ua_i a then Inr a
       else
         result_bind (if j < ua_i a then move_slots (unat j + 1) (unat j) (unat (ua_i a - j)) a else Inr a) (\<lambda>a.
           result_bind (put_slot (unat j) (Some (copied_elem icd p)) a) (\<lambda>a.
             Inr (a\<lparr>ua_i := ua_i a + 1\<rparr>)))))"

definition utarray_inserta ::
    "(nat \<Rightarrow> bool) \<Rightarrow> 'a ut_icd \<Rightarrow> 'a ut_array \<Rightarrow> 32 word \<Rightarrow> 'a ut_array \<Rightarrow> 'a ut_array c_result option" where
  "utarray_inserta mem icd w j a =
     (if utarray_len w = 0 then Some (Inr a)
      else if j > ua_i a then Some (Inr a)
      else
        loop_bind (utarray_reserve mem (utarray_len w) a) (\<lambda>a. Some (
          result_bind
            (if j < ua_i a
             then move_slots (unat j + unat (utarray_len w)) (unat j) (unat (ua_i a - j)) a else Inr a) (\<lambda>a.
            result_bind
              (put_slots (unat j) (map (map_option (copied_elem icd)) (take (unat (utarray_len w)) (ua_d w))) a)
              (\<lambda>a. Inr (a\<lparr>ua_i := ua_i a + utarray_len w\<rparr>))))))"

definition utarray_concat ::
    "(nat \<Rightarrow> bool) \<Rightarrow> 'a ut_icd \<Rightarrow> 'a ut_array \<Rightarrow> 'a ut_array \<Rightarrow> 'a ut_array c_result option" where
  "utarray_concat mem icd src dst = utarray_inserta mem icd src (utarray_len dst) dst"

text \<open>
  A growing \<open>utarray_resize\<close> looks up the new elements with \<open>utarray_eltptr\<close> before it has advanced the
  count, so an initialiser is called on NULL.
\<close>

definition utarray_resize ::
    "(nat \<Rightarrow> bool) \<Rightarrow> 'a ut_icd \<Rightarrow> 32 word \<Rightarrow> 'a ut_array \<Rightarrow> 'a ut_array c_result option" where
  "utarray_resize mem icd num dst =
     loop_bind
       (if ua_i dst > num then Some (destroy icd (unat num) (unat (ua_i dst)) dst)
        else if ua_i dst < num then
          loop_bind (utarray_reserve mem (num - ua_i dst) dst) (\<lambda>dst. Some (
            if icd_init icd \<noteq> None then Inl Null_pointer
            else put_slots (unat (ua_i dst)) (replicate (unat (num - ua_i dst)) (Some (icd_zero icd))) dst))
        else Some (Inr dst))
       (\<lambda>dst. Some (Inr (dst\<lparr>ua_i := num\<rparr>)))"

definition utarray_erase ::
    "'a ut_icd \<Rightarrow> 32 word \<Rightarrow> 32 word \<Rightarrow> 'a ut_array \<Rightarrow> 'a ut_array c_result" where
  "utarray_erase icd pos len a =
     result_bind (destroy icd (unat pos) (unat pos + unat len) a) (\<lambda>a.
       result_bind
         (if ua_i a > pos + len
          then move_slots (unat pos) (unat (pos + len)) (unat (ua_i a - (pos + len))) a else Inr a)
         (\<lambda>a. Inr (a\<lparr>ua_i := ua_i a - len\<rparr>)))"

definition utarray_clear :: "'a ut_icd \<Rightarrow> 'a ut_array \<Rightarrow> 'a ut_array c_result" where
  "utarray_clear icd a =
     (if ua_i a > 0 then
        result_bind (destroy icd 0 (unat (ua_i a)) a) (\<lambda>a. Inr (a\<lparr>ua_i := 0\<rparr>))
      else Inr a)"

definition utarray_done :: "'a ut_icd \<Rightarrow> 'a ut_array \<Rightarrow> 'a ut_array c_result" where
  "utarray_done icd a =
     result_bind
       (if ua_n a \<noteq> 0
        then result_bind (destroy icd 0 (unat (ua_i a)) a) (\<lambda>a. Inr (a\<lparr>ua_d := []\<rparr>)) else Inr a)
       (\<lambda>a. Inr (a\<lparr>ua_n := 0\<rparr>))"

section \<open>Allocation, sorting and the ready-made element types\<close>

text \<open>\<open>got\<close> says whether \<open>malloc\<close> finds room for the structure; what it returns is not checked.\<close>

definition utarray_alloc :: "bool \<Rightarrow> 'a ut_array c_result" where
  "utarray_alloc got = (if got then Inr utarray_new else Inl Null_pointer)"

text \<open>After \<open>utarray_free\<close> the structure is gone; what is left is what the destructor was called on.\<close>

definition utarray_free :: "'a ut_icd \<Rightarrow> 'a ut_array \<Rightarrow> 'a option list c_result" where
  "utarray_free icd a = result_bind (utarray_done icd a) (\<lambda>a. Inr (ua_destroyed a))"

text \<open>\<open>qsort\<close> is the library's, called with a comparison of elements on the slots in use.\<close>

definition utarray_sort ::
    "(('a \<Rightarrow> 'a \<Rightarrow> int) \<Rightarrow> 'a list \<Rightarrow> 'a list) \<Rightarrow> ('a \<Rightarrow> 'a \<Rightarrow> int) \<Rightarrow> 'a ut_array \<Rightarrow> 'a ut_array c_result" where
  "utarray_sort qsort cmp a =
     (case those (take (unat (ua_i a)) (ua_d a)) of
        None \<Rightarrow> Inl Out_of_bounds_read
      | Some xs \<Rightarrow> put_slots 0 (map Some (qsort cmp xs)) a)"

text \<open>Pointers to strings, NULL or a copy of its own; \<open>dup\<close> is \<open>strdup\<close>, NULL without memory.\<close>

definition utarray_str_cpy :: "(string \<Rightarrow> string option) \<Rightarrow> string option \<Rightarrow> string option" where
  "utarray_str_cpy dup src = (case src of None \<Rightarrow> None | Some s \<Rightarrow> dup s)"

text \<open>The blocks that the destructor frees.\<close>

definition utarray_str_dtor :: "string option \<Rightarrow> string list" where
  "utarray_str_dtor elt = (case elt of None \<Rightarrow> [] | Some s \<Rightarrow> [s])"

definition ut_str_icd :: "(string \<Rightarrow> string option) \<Rightarrow> string option ut_icd" where
  "ut_str_icd dup = \<lparr>icd_zero = None, icd_init = None, icd_copy = Some (utarray_str_cpy dup), icd_dtor = True\<rparr>"

definition ut_int_icd :: "int ut_icd" where
  "ut_int_icd = \<lparr>icd_zero = 0, icd_init = None, icd_copy = None, icd_dtor = False\<rparr>"

section \<open>The growing loop\<close>

definition slots_ok :: "32 word \<Rightarrow> bool" where
  "slots_ok n \<longleftrightarrow> n = 0 \<or> (\<exists>k. 3 \<le> k \<and> k < 32 \<and> unat n = 2 ^ k)"

lemma slots_ok_next: "slots_ok n \<Longrightarrow> slots_ok (if n \<noteq> 0 then 2 * n else 8)"
proof (cases "n = 0")
  case True
  then show ?thesis by (simp add: slots_ok_def) (intro exI[of _ 3], simp)
next
  case False
  assume "slots_ok n"
  then obtain k where k: "3 \<le> k" "k < 32" "unat n = 2 ^ k" using False by (auto simp: slots_ok_def)
  have "word_of_nat (unat n) = n" by simp
  then have "n = word_of_nat (2 ^ k)" unfolding k(3) by (rule sym)
  then have n: "2 * n = word_of_nat (2 ^ Suc k)" by simp
  show ?thesis
  proof (cases "k = 31")
    case True
    then have "2 * n = 0" unfolding n by simp
    with False show ?thesis by (simp add: slots_ok_def)
  next
    case nk: False
    then have "k < 31" using k(2) by simp
    moreover have "(2::nat) ^ Suc k < 2 ^ 32" using calculation by (intro power_strict_increasing) auto
    ultimately have "unat (2 * n) = 2 ^ Suc k"
      unfolding n by (simp add: unsigned_of_nat take_bit_nat_eq_self del: of_nat_power power_Suc)
    with False k nk show ?thesis unfolding slots_ok_def by (intro disjI2 exI[of _ "Suc k"]) auto
  qed
qed

lemma slots_ok_bound: "slots_ok n \<Longrightarrow> unat n \<le> 2 ^ 31"
proof -
  assume "slots_ok n"
  moreover have "(2::nat) ^ k \<le> 2 ^ 31" if "k < 32" for k using that by (intro power_increasing) auto
  ultimately show ?thesis by (auto simp: slots_ok_def)
qed

text \<open>As long as the slots needed are at most \<open>2 ^ 31\<close>, doubling does not wrap before they are reached.\<close>

lemma unat_double: "unat (n :: 32 word) < 2 ^ 31 \<Longrightarrow> unat (2 * n) = 2 * unat n"
  by (simp add: unat_word_ariths)

lemma grow_reaches:
  "unat need \<le> 2 ^ 31 \<Longrightarrow> slots_ok n \<Longrightarrow>
   \<exists>n'. grow need n = Some n' \<and> need \<le> n' \<and> n \<le> n' \<and> slots_ok n'"
proof (induction "2 ^ 32 - unat n" arbitrary: n rule: less_induct)
  case less
  let ?n = "if n \<noteq> 0 then 2 * n else 8"
  show ?case
  proof (cases "need > n")
    case False
    with less.prems show ?thesis by (subst grow.simps) auto
  next
    case True
    then have small: "unat n < 2 ^ 31" using less.prems(1) by (simp add: word_less_nat_alt)
    have bigger: "unat n < unat ?n" using unat_double[OF small] by (auto simp: unat_gt_0)
    moreover have "unat n < 2 ^ LENGTH(32)" by (rule unsigned_less)
    ultimately have "2 ^ 32 - unat ?n < 2 ^ 32 - unat n" by simp
    from less.hyps[OF this less.prems(1) slots_ok_next[OF less.prems(2)]]
    obtain n' where n': "grow need ?n = Some n'" "need \<le> n'" "?n \<le> n'" "slots_ok n'" by blast
    moreover have "n \<le> ?n" using bigger by (simp add: word_le_nat_alt)
    ultimately show ?thesis using True by (subst grow.simps) auto
  qed
qed

text \<open>Beyond that the number of slots wraps to 0 and starts again: the loop does not end.\<close>

lemma grow_Some_bound: "grow need n = Some n' \<Longrightarrow> slots_ok n \<Longrightarrow> unat need \<le> 2 ^ 31"
proof -
  assume g: "grow need n = Some n'" and ok: "slots_ok n"
  have "slots_ok n \<longrightarrow> unat need \<le> 2 ^ 31"
  proof (rule grow.raw_induct[where P = "\<lambda>need n n'. slots_ok n \<longrightarrow> unat need \<le> 2 ^ 31", OF _ g])
    fix rec need n n'
    assume rec: "\<And>need n n'. rec need n = Some n' \<Longrightarrow> slots_ok n \<longrightarrow> unat need \<le> 2 ^ 31"
      and step: "(if n < need then rec need (if n \<noteq> 0 then 2 * n else 8) else Some n) = Some n'"
    show "slots_ok n \<longrightarrow> unat need \<le> 2 ^ 31"
    proof (intro impI, cases "n < need")
      case True
      assume ok: "slots_ok n"
      have "rec need (if n \<noteq> 0 then 2 * n else 8) = Some n'" using step True by simp
      from mp[OF rec[OF this] slots_ok_next[OF ok]] show "unat need \<le> 2 ^ 31" .
    next
      case False
      assume "slots_ok n"
      with False slots_ok_bound show "unat need \<le> 2 ^ 31" by (meson leI le_trans word_le_nat_alt)
    qed
  qed
  with ok show ?thesis by blast
qed

section \<open>The list an array holds\<close>

definition holds :: "'a ut_array \<Rightarrow> 'a list \<Rightarrow> bool" where
  "holds a xs \<longleftrightarrow> unat (ua_i a) = length xs \<and> (\<exists>spare. ua_d a = map Some xs @ spare) \<and>
     length (ua_d a) = unat (ua_n a) \<and> slots_ok (ua_n a)"

definition enough :: "(nat \<Rightarrow> bool) \<Rightarrow> bool" where
  "enough mem \<longleftrightarrow> (\<forall>n. n \<le> 2 ^ 31 \<longrightarrow> mem n)"

named_theorems holds_simps

lemma holds_bound: "holds a xs \<Longrightarrow> length xs \<le> 2 ^ 31"
  using slots_ok_bound[of "ua_n a"] by (auto simp: holds_def)

lemma unat_less_length [holds_simps]: "holds a xs \<Longrightarrow> j < ua_i a \<longleftrightarrow> unat j < length xs"
  by (simp add: holds_def word_less_nat_alt)

lemma unat_greater_length [holds_simps]: "holds a xs \<Longrightarrow> ua_i a < j \<longleftrightarrow> length xs < unat j"
  by (simp add: holds_def word_less_nat_alt)

lemma unat_add_small: "unat (i :: 32 word) + unat j \<le> 2 ^ 31 \<Longrightarrow> unat (i + j) = unat i + unat j"
  by (simp add: unat_word_ariths)

lemma holds_new: "holds utarray_new []"
  by (simp add: holds_def utarray_new_def slots_ok_def)

lemma reserve_holds:
  assumes "holds a xs" and "length xs + unat by \<le> 2 ^ 31" and "enough mem"
  shows "\<exists>a'. utarray_reserve mem by a = Some (Inr a') \<and> holds a' xs \<and> ua_i a' = ua_i a \<and>
    length xs + unat by \<le> length (ua_d a') \<and> ua_destroyed a' = ua_destroyed a"
proof -
  obtain spare where d: "unat (ua_i a) = length xs" "ua_d a = map Some xs @ spare"
      "length (ua_d a) = unat (ua_n a)" "slots_ok (ua_n a)"
    using assms(1) by (auto simp: holds_def)
  have need: "unat (ua_i a + by) = length xs + unat by" using unat_add_small assms(2) d(1) by simp
  show ?thesis
  proof (cases "ua_i a + by > ua_n a")
    case False
    with assms(1) d need show ?thesis
      by (auto simp: utarray_reserve_def word_less_nat_alt not_less)
  next
    case True
    have "unat (ua_i a + by) \<le> 2 ^ 31" using need assms(2) by simp
    from grow_reaches[OF this d(4)] obtain n where n: "grow (ua_i a + by) (ua_n a) = Some n"
      "ua_i a + by \<le> n" "ua_n a \<le> n" "slots_ok n" by blast
    then have "unat (ua_n a) \<le> unat n" "length xs + unat by \<le> unat n" "mem (unat n)"
      using need slots_ok_bound[OF n(4)] assms(3) by (simp_all add: word_le_nat_alt enough_def)
    with n d True show ?thesis by (auto simp: utarray_reserve_def holds_def)
  qed
qed

lemma put_slot_slots: "put_slot j x a = put_slots j [x] a"
  by (auto simp: put_slot_def put_slots_def upd_conv_take_nth_drop)

text \<open>Room is made by moving the elements behind the place of insertion, and then filled.\<close>

lemma make_room:
  assumes "holds a xs" and "j \<le> length xs" and "length xs + length ys \<le> length (ua_d a)"
  shows "result_bind (if j < length xs then move_slots (j + length ys) j (length xs - j) a else Inr a)
      (put_slots j (map Some ys)) =
    Inr (a\<lparr>ua_d := map Some (take j xs @ ys @ drop j xs) @ drop (length xs + length ys) (ua_d a)\<rparr>)"
proof -
  obtain spare where d: "ua_d a = map Some xs @ spare" using assms(1) by (auto simp: holds_def)
  show ?thesis
  proof (cases "j < length xs")
    case True
    let ?d = "map Some (take (j + length ys) xs) @ take (j + length ys - length xs) spare @
      map Some (drop j xs) @ drop (length ys) spare"
    have "move_slots (j + length ys) j (length xs - j) a = Inr (a\<lparr>ua_d := ?d\<rparr>)"
      using True assms(2,3) d by (simp add: move_slots_def put_slots_def take_map drop_map)
    moreover have "put_slots j (map Some ys) (a\<lparr>ua_d := ?d\<rparr>) =
        Inr (a\<lparr>ua_d := map Some (take j xs @ ys @ drop j xs) @ drop (length xs + length ys) (ua_d a)\<rparr>)"
      using True assms(2,3) d by (simp add: put_slots_def take_map drop_map min_def) linarith
    ultimately show ?thesis using True by simp
  next
    case False
    then show ?thesis using assms(2,3) d by (simp add: put_slots_def)
  qed
qed

lemma holds_rewritten:
  assumes "holds a xs" and "length zs \<le> length (ua_d a)" and "length zs = unat i"
  shows "holds (a\<lparr>ua_d := map Some zs @ drop (length zs) (ua_d a), ua_i := i\<rparr>) zs"
  using assms by (simp add: holds_def)

lemma insert_holds:
  assumes "holds a xs" and "unat j \<le> length xs" and "length xs < 2 ^ 31" and "enough mem"
  shows "\<exists>a'. utarray_insert mem icd p j a = Some (Inr a') \<and>
    holds a' (take (unat j) xs @ copied_elem icd p # drop (unat j) xs) \<and> ua_destroyed a' = ua_destroyed a"
proof -
  have "length xs + unat (1 :: 32 word) \<le> 2 ^ 31" using assms(3) by simp
  from reserve_holds[OF assms(1) this assms(4)] obtain b where
    b: "utarray_reserve mem 1 a = Some (Inr b)" "holds b xs" "length xs + 1 \<le> length (ua_d b)"
      "ua_destroyed b = ua_destroyed a" by auto
  let ?zs = "take (unat j) xs @ [copied_elem icd p] @ drop (unat j) xs"
  have i: "unat (ua_i b) = length xs" using b(2) by (simp add: holds_def)
  have "unat (ua_i b - j) = length xs - unat j"
    using assms(2) i by (simp add: unat_sub word_le_nat_alt)
  moreover have "unat (ua_i b + 1) = length ?zs"
    using assms(2,3) i unat_add_small[of "ua_i b" 1] by simp
  moreover have "\<not> ua_i b < j" using assms(2) b(2) by (simp add: holds_simps)
  ultimately show ?thesis
    using make_room[OF b(2) assms(2), of "[copied_elem icd p]"] b
      holds_rewritten[OF b(2), of ?zs "ua_i b + 1"] assms(2)
    by (auto simp: utarray_insert_def put_slot_slots holds_simps result_bind_assoc[symmetric])
qed

lemma inserta_holds:
  assumes "holds a xs" and "holds w ws" and "unat j \<le> length xs" and "length xs + length ws \<le> 2 ^ 31"
    and "enough mem"
  shows "\<exists>a'. utarray_inserta mem icd w j a = Some (Inr a') \<and>
    holds a' (take (unat j) xs @ map (copied_elem icd) ws @ drop (unat j) xs) \<and>
    ua_destroyed a' = ua_destroyed a"
proof (cases "ws = []")
  case True
  then have "utarray_len w = 0" using assms(2) by (simp add: utarray_len_def holds_def unat_eq_0)
  with True assms(1) show ?thesis by (simp add: utarray_inserta_def)
next
  case False
  have w: "unat (ua_i w) = length ws" using assms(2) by (simp add: holds_def)
  then have "ua_i w \<noteq> 0" using False by auto
  have "length xs + unat (ua_i w) \<le> 2 ^ 31" using assms(4) w by simp
  from reserve_holds[OF assms(1) this assms(5)] obtain b where
    b: "utarray_reserve mem (ua_i w) a = Some (Inr b)" "holds b xs" "length xs + length ws \<le> length (ua_d b)"
      "ua_destroyed b = ua_destroyed a" using w by auto
  let ?ys = "map (copied_elem icd) ws"
  let ?zs = "take (unat j) xs @ ?ys @ drop (unat j) xs"
  have i: "unat (ua_i b) = length xs" using b(2) by (simp add: holds_def)
  have ys: "map (map_option (copied_elem icd)) (take (length ws) (ua_d w)) = map Some ?ys"
    using assms(2) by (auto simp: holds_def)
  have "unat (ua_i b - j) = length xs - unat j"
    using assms(3) i by (simp add: unat_sub word_le_nat_alt)
  moreover have "unat (ua_i b + ua_i w) = length ?zs"
    using assms(3,4) i w unat_add_small[of "ua_i b" "ua_i w"] by simp
  moreover have "\<not> ua_i a < j" using assms(1,3) by (simp add: holds_simps)
  ultimately show ?thesis
    using make_room[OF b(2) assms(3), of ?ys] b \<open>ua_i w \<noteq> 0\<close> ys w
      holds_rewritten[OF b(2), of ?zs "ua_i b + ua_i w"] assms(3)
    by (auto simp: utarray_inserta_def utarray_len_def holds_simps result_bind_assoc[symmetric] add.commute
        simp del: map_map)
qed

lemma concat_holds:
  assumes "holds a xs" and "holds w ws" and "length xs + length ws \<le> 2 ^ 31" and "enough mem"
  shows "\<exists>a'. utarray_concat mem icd w a = Some (Inr a') \<and> holds a' (xs @ map (copied_elem icd) ws) \<and>
    ua_destroyed a' = ua_destroyed a"
proof -
  have "unat (ua_i a) = length xs" using assms(1) by (simp add: holds_def)
  with inserta_holds[OF assms(1,2) _ assms(3,4), of "ua_i a" icd] show ?thesis
    by (simp add: utarray_concat_def utarray_len_def)
qed

lemma append_holds:
  assumes "holds b xs" and "length xs + length ys \<le> length (ua_d b)" and "unat i = length xs + length ys"
  shows "\<exists>b'. put_slots (length xs) (map Some ys) b = Inr b' \<and> ua_i b' = ua_i b \<and>
    holds (b'\<lparr>ua_i := i\<rparr>) (xs @ ys) \<and> ua_destroyed b' = ua_destroyed b"
  using make_room[OF assms(1), of "length xs" ys] holds_rewritten[OF assms(1), of "xs @ ys" i] assms(2,3)
  by simp

lemma push_back_holds:
  assumes "holds a xs" and "length xs < 2 ^ 31" and "enough mem"
  shows "\<exists>a'. utarray_push_back mem icd p a = Some (Inr a') \<and> holds a' (xs @ [copied_elem icd p]) \<and>
    ua_destroyed a' = ua_destroyed a"
proof -
  have "length xs + unat (1 :: 32 word) \<le> 2 ^ 31" using assms(2) by simp
  from reserve_holds[OF assms(1) this assms(3)] obtain b where
    b: "utarray_reserve mem 1 a = Some (Inr b)" "holds b xs" "length xs + length [copied_elem icd p] \<le> length (ua_d b)"
      "ua_destroyed b = ua_destroyed a" by auto
  have i: "unat (ua_i b) = length xs" using b(2) by (simp add: holds_def)
  have "unat (ua_i b + 1) = length xs + length [copied_elem icd p]"
    using assms(2) i unat_add_small[of "ua_i b" 1] by simp
  from append_holds[OF b(2,3) this] b(1,4) i show ?thesis
    by (auto simp: utarray_push_back_def put_slot_slots)
qed

lemma extend_back_is_push:
  "icd_copy icd = None \<Longrightarrow> utarray_extend_back mem icd a = utarray_push_back mem icd (initial_elem icd) a"
  by (simp add: utarray_extend_back_def utarray_push_back_def copied_elem_def)

text \<open>Removing: the destructor is called on exactly the elements that leave the array.\<close>

definition destroyed_by :: "'a ut_icd \<Rightarrow> 'a list \<Rightarrow> 'a ut_array \<Rightarrow> 'a option list" where
  "destroyed_by icd xs a = ua_destroyed a @ (if icd_dtor icd then map Some xs else [])"

lemma destroy_holds:
  assumes "holds a xs" and "start \<le> stop" and "stop \<le> length xs"
  shows "destroy icd start stop a =
    Inr (a\<lparr>ua_destroyed := destroyed_by icd (take (stop - start) (drop start xs)) a\<rparr>)"
  using assms by (auto simp: destroy_def holds_def destroyed_by_def take_map drop_map)

lemma holds_destroyed [simp]: "holds (a\<lparr>ua_destroyed := l\<rparr>) xs = holds a xs"
  by (simp add: holds_def)

lemma holds_prefix:
  assumes "holds a xs" and "unat i \<le> length xs"
  shows "holds (a\<lparr>ua_i := i\<rparr>) (take (unat i) xs)"
proof -
  obtain spare where "ua_d a = map Some xs @ spare" using assms(1) by (auto simp: holds_def)
  then have "ua_d a = map Some (take (unat i) xs) @ map Some (drop (unat i) xs) @ spare"
    by (simp flip: map_append append_assoc)
  with assms show ?thesis by (auto simp: holds_def)
qed

lemma pop_back_holds:
  assumes "holds a xs" and "xs \<noteq> []"
  shows "\<exists>a'. utarray_pop_back icd a = Inr a' \<and> holds a' (butlast xs) \<and>
    ua_destroyed a' = destroyed_by icd [last xs] a"
proof -
  obtain spare where d: "ua_d a = map Some xs @ spare" "unat (ua_i a) = length xs"
    using assms(1) by (auto simp: holds_def)
  then have i: "unat (ua_i a - 1) = length xs - 1"
    using assms(2) by (simp add: unat_sub word_le_nat_alt Suc_le_eq)
  then have "holds (a\<lparr>ua_i := ua_i a - 1\<rparr>) (butlast xs)"
    using holds_prefix[OF assms(1), of "ua_i a - 1"] assms(2) by (simp add: butlast_conv_take)
  moreover have "ua_d a ! (length xs - 1) = Some (last xs)" "length xs - 1 < length (ua_d a)"
    using d(1) assms(2) by (cases xs rule: rev_cases; simp add: nth_append)+
  ultimately show ?thesis using i by (simp add: utarray_pop_back_def Let_def destroyed_by_def)
qed

lemma clear_holds:
  assumes "holds a xs"
  shows "\<exists>a'. utarray_clear icd a = Inr a' \<and> holds a' [] \<and> ua_destroyed a' = destroyed_by icd xs a"
proof (cases "xs = []")
  case True
  with assms show ?thesis by (simp add: utarray_clear_def holds_def unat_eq_0 destroyed_by_def)
next
  case False
  then have "ua_i a > 0" using assms by (simp add: holds_simps)
  moreover have "destroy icd 0 (unat (ua_i a)) a = Inr (a\<lparr>ua_destroyed := destroyed_by icd xs a\<rparr>)"
    using destroy_holds[OF assms, of 0 "length xs"] assms by (simp add: holds_def)
  ultimately show ?thesis using holds_prefix[OF assms, of 0]
    by (simp add: utarray_clear_def) (simp add: holds_def)
qed

lemma erase_holds:
  assumes "holds a xs" and "unat pos + unat len \<le> length xs"
  shows "\<exists>a'. utarray_erase icd pos len a = Inr a' \<and>
    holds a' (take (unat pos) xs @ drop (unat pos + unat len) xs) \<and>
    ua_destroyed a' = destroyed_by icd (take (unat len) (drop (unat pos) xs)) a"
proof -
  let ?p = "unat pos" and ?l = "unat len"
  let ?zs = "take ?p xs @ drop (?p + ?l) xs"
  obtain spare where d: "ua_d a = map Some xs @ spare" "unat (ua_i a) = length xs"
    using assms(1) by (auto simp: holds_def)
  have pl: "unat (pos + len) = ?p + ?l"
    using holds_bound[OF assms(1)] assms(2) by (intro unat_add_small) simp
  define b where "b = a\<lparr>ua_destroyed := destroyed_by icd (take ?l (drop ?p xs)) a\<rparr>"
  have b: "destroy icd ?p (?p + ?l) a = Inr b" "holds b xs" "ua_i b = ua_i a" "ua_d b = ua_d a"
    using destroy_holds[OF assms(1), of ?p "?p + ?l"] assms by (simp_all add: b_def)
  have i: "unat (ua_i a - len) = length ?zs"
    using assms(2) d(2) by (simp add: unat_sub word_le_nat_alt)
  have "\<exists>b' r. (if ua_i b > pos + len
      then move_slots ?p (unat (pos + len)) (unat (ua_i b - (pos + len))) b else Inr b) = Inr b' \<and>
    ua_d b' = map Some ?zs @ r \<and> length (ua_d b') = length (ua_d b) \<and> ua_n b' = ua_n b \<and>
    ua_i b' = ua_i b \<and> ua_destroyed b' = ua_destroyed b"
  proof (cases "ua_i b > pos + len")
    case True
    have n: "unat (ua_i b - (pos + len)) = length xs - (?p + ?l)"
      using assms(2) b(3) d(2) pl by (simp add: unat_sub word_le_nat_alt)
    have "move_slots ?p (unat (pos + len)) (unat (ua_i b - (pos + len))) b =
      Inr (b\<lparr>ua_d := map Some ?zs @ drop (length ?zs) (ua_d b)\<rparr>)"
      unfolding pl n using assms(2) b(4) d(1) by (simp add: move_slots_def put_slots_def take_map drop_map)
    then show ?thesis using True assms(2) b(4) d(1) by simp
  next
    case False
    then have "?zs = take ?p xs" using b(2) pl by (simp add: holds_simps)
    then have "ua_d b = map Some ?zs @ map Some (drop ?p xs) @ spare"
      using b(4) d(1) by (simp flip: map_append append_assoc)
    then show ?thesis using False by auto
  qed
  then obtain b' r where "(if ua_i b > pos + len
      then move_slots ?p (unat (pos + len)) (unat (ua_i b - (pos + len))) b else Inr b) = Inr b'"
    "ua_d b' = map Some ?zs @ r" "length (ua_d b') = length (ua_d b)" "ua_n b' = ua_n b"
    "ua_i b' = ua_i b" "ua_destroyed b' = ua_destroyed b" by blast
  then show ?thesis
    using b i by (auto simp: utarray_erase_def holds_def b_def)
qed

lemma resize_holds:
  assumes "holds a xs" and "unat num \<le> 2 ^ 31" and "enough mem"
    and init: "icd_init icd = None \<or> unat num \<le> length xs"
  shows "\<exists>a'. utarray_resize mem icd num a = Some (Inr a') \<and>
    holds a' (take (unat num) xs @ replicate (unat num - length xs) (icd_zero icd)) \<and>
    ua_destroyed a' = destroyed_by icd (drop (unat num) xs) a"
proof -
  have i: "unat (ua_i a) = length xs" using assms(1) by (simp add: holds_def)
  consider "unat num < length xs" | "unat num = length xs" | "length xs < unat num" by linarith
  then show ?thesis
  proof cases
    case 1
    then have "utarray_resize mem icd num a = Some (Inr (a\<lparr>ua_destroyed := destroyed_by icd (drop (unat num) xs) a,
        ua_i := num\<rparr>))"
      using destroy_holds[OF assms(1), of "unat num" "length xs"] assms(1) i
      by (simp add: utarray_resize_def holds_simps)
    with 1 holds_prefix[of "a\<lparr>ua_destroyed := destroyed_by icd (drop (unat num) xs) a\<rparr>" xs num] assms(1)
    show ?thesis by simp
  next
    case 2
    then have "num = ua_i a" using i by (simp add: word_unat_eq_iff)
    with 2 assms(1) show ?thesis by (simp add: utarray_resize_def destroyed_by_def)
  next
    case 3
    have n: "unat (num - ua_i a) = unat num - length xs"
      using 3 i by (simp add: unat_sub word_le_nat_alt)
    with 3 assms(2) have "length xs + unat (num - ua_i a) \<le> 2 ^ 31" by simp
    from reserve_holds[OF assms(1) this assms(3)] obtain b where
      b: "utarray_reserve mem (num - ua_i a) a = Some (Inr b)" "holds b xs" "ua_i b = ua_i a"
        "unat num \<le> length (ua_d b)" "ua_destroyed b = ua_destroyed a" using 3 n by auto
    let ?ys = "replicate (unat num - length xs) (icd_zero icd)"
    have "length xs + length ?ys \<le> length (ua_d b)" "unat num = length xs + length ?ys"
      using 3 b(4) by simp_all
    from append_holds[OF b(2) this] 3 b n i assms(1) init show ?thesis
      by (auto simp: utarray_resize_def holds_simps destroyed_by_def)
  qed
qed

lemma resize_with_initialiser_faults:
  assumes "holds a xs" and "length xs < unat num" and "unat num \<le> 2 ^ 31" and "enough mem"
    and "icd_init icd \<noteq> None"
  shows "utarray_resize mem icd num a = Some (Inl Null_pointer)"
proof -
  have i: "unat (ua_i a) = length xs" using assms(1) by (simp add: holds_def)
  then have "unat (num - ua_i a) = unat num - length xs"
    using assms(2) by (simp add: unat_sub word_le_nat_alt)
  then have "length xs + unat (num - ua_i a) \<le> 2 ^ 31" using assms(2,3) by simp
  from reserve_holds[OF assms(1) this assms(4)] assms(2,5) assms(1) show ?thesis
    by (auto simp: utarray_resize_def holds_simps)
qed

text \<open>Reading: the pointers the macros give are those of the list's elements.\<close>

definition slot_value :: "'a ut_array \<Rightarrow> nat option \<Rightarrow> 'a option" where
  "slot_value a e = (case e of None \<Rightarrow> None | Some j \<Rightarrow> ua_d a ! j)"

lemma slot_value_holds: "holds a xs \<Longrightarrow> j < length xs \<Longrightarrow> slot_value a (Some j) = Some (xs ! j)"
  by (auto simp: slot_value_def holds_def nth_append)

lemma accessors_hold:
  assumes "holds a xs"
  shows "slot_value a (utarray_eltptr a j) = (if unat j < length xs then Some (xs ! unat j) else None)"
    and "slot_value a (utarray_front a) = (if xs = [] then None else Some (hd xs))"
    and "slot_value a (utarray_back a) = (if xs = [] then None else Some (last xs))"
    and "unat (utarray_len a) = length xs"
proof -
  have i: "unat (ua_i a) = length xs" using assms by (simp add: holds_def)
  then have z: "ua_i a = 0 \<longleftrightarrow> xs = []" by (auto simp: unat_eq_0)
  have b: "unat (ua_i a - 1) = length xs - 1" if "xs \<noteq> []"
    using that i by (simp add: unat_sub word_le_nat_alt Suc_le_eq)
  show "slot_value a (utarray_eltptr a j) = (if unat j < length xs then Some (xs ! unat j) else None)"
    using slot_value_holds[OF assms, of "unat j"] assms
    by (simp add: utarray_eltptr_def holds_simps) (simp add: slot_value_def)
  show "slot_value a (utarray_front a) = (if xs = [] then None else Some (hd xs))"
    using slot_value_holds[OF assms, of 0] z
    by (simp add: utarray_front_def hd_conv_nth) (simp add: slot_value_def)
  show "slot_value a (utarray_back a) = (if xs = [] then None else Some (last xs))"
    using slot_value_holds[OF assms, of "length xs - 1"] z b
    by (simp add: utarray_back_def last_conv_nth) (simp add: slot_value_def)
  show "unat (utarray_len a) = length xs" using i by (simp add: utarray_len_def)
qed

lemma sort_holds:
  assumes "holds a xs" and "length (qsort cmp xs) = length xs"
  shows "\<exists>a'. utarray_sort qsort cmp a = Inr a' \<and> holds a' (qsort cmp xs) \<and> ua_destroyed a' = ua_destroyed a"
proof -
  obtain spare where d: "ua_d a = map Some xs @ spare" using assms(1) by (auto simp: holds_def)
  have "those (map Some xs) = Some xs" by (induction xs) auto
  then show ?thesis using assms d by (simp add: utarray_sort_def put_slots_def holds_def)
qed

section \<open>Sequences of operations\<close>

text \<open>The operations, what the code does for each, and what it means for the list.\<close>

datatype 'a array_op =
    Push_back 'a
  | Extend_back
  | Pop_back
  | Insert 'a "32 word"
  | Insert_array "'a list" "32 word"
  | Erase "32 word" "32 word"
  | Resize "32 word"
  | Clear

text \<open>An array made by pushing the elements of a list.\<close>

fun pushed :: "(nat \<Rightarrow> bool) \<Rightarrow> 'a list \<Rightarrow> 'a ut_array \<Rightarrow> 'a ut_array c_result option" where
  "pushed mem [] a = Some (Inr a)"
| "pushed mem (x # xs) a =
     loop_bind (utarray_push_back mem \<lparr>icd_zero = x, icd_init = None, icd_copy = None, icd_dtor = False\<rparr> x a)
       (pushed mem xs)"

fun array_step ::
    "(nat \<Rightarrow> bool) \<Rightarrow> 'a ut_icd \<Rightarrow> 'a array_op \<Rightarrow> 'a ut_array \<Rightarrow> 'a ut_array c_result option" where
  "array_step mem icd (Push_back x) a = utarray_push_back mem icd x a"
| "array_step mem icd Extend_back a = utarray_extend_back mem icd a"
| "array_step mem icd Pop_back a = Some (utarray_pop_back icd a)"
| "array_step mem icd (Insert x j) a = utarray_insert mem icd x j a"
| "array_step mem icd (Insert_array ws j) a =
     loop_bind (pushed mem ws utarray_new) (\<lambda>w. utarray_inserta mem icd w j a)"
| "array_step mem icd (Erase pos len) a = Some (utarray_erase icd pos len a)"
| "array_step mem icd (Resize n) a = utarray_resize mem icd n a"
| "array_step mem icd Clear a = Some (utarray_clear icd a)"

fun list_step :: "'a ut_icd \<Rightarrow> 'a array_op \<Rightarrow> 'a list \<Rightarrow> 'a list" where
  "list_step icd (Push_back x) xs = xs @ [copied_elem icd x]"
| "list_step icd Extend_back xs = xs @ [initial_elem icd]"
| "list_step icd Pop_back xs = butlast xs"
| "list_step icd (Insert x j) xs = take (unat j) xs @ copied_elem icd x # drop (unat j) xs"
| "list_step icd (Insert_array ws j) xs = take (unat j) xs @ map (copied_elem icd) ws @ drop (unat j) xs"
| "list_step icd (Erase pos len) xs = take (unat pos) xs @ drop (unat pos + unat len) xs"
| "list_step icd (Resize n) xs = take (unat n) xs @ replicate (unat n - length xs) (icd_zero icd)"
| "list_step icd Clear xs = []"

fun array_allowed :: "'a ut_icd \<Rightarrow> 'a array_op \<Rightarrow> 'a list \<Rightarrow> bool" where
  "array_allowed icd (Push_back x) xs = (length xs < 2 ^ 31)"
| "array_allowed icd Extend_back xs = (length xs < 2 ^ 31)"
| "array_allowed icd Pop_back xs = (xs \<noteq> [])"
| "array_allowed icd (Insert x j) xs = (unat j \<le> length xs \<and> length xs < 2 ^ 31)"
| "array_allowed icd (Insert_array ws j) xs = (unat j \<le> length xs \<and> length xs + length ws \<le> 2 ^ 31)"
| "array_allowed icd (Erase pos len) xs = (unat pos + unat len \<le> length xs)"
| "array_allowed icd (Resize n) xs = (unat n \<le> 2 ^ 31 \<and> (icd_init icd = None \<or> unat n \<le> length xs))"
| "array_allowed icd Clear xs = True"

lemma pushed_holds:
  "holds a xs \<Longrightarrow> length xs + length ys \<le> 2 ^ 31 \<Longrightarrow> enough mem \<Longrightarrow>
   \<exists>a'. pushed mem ys a = Some (Inr a') \<and> holds a' (xs @ ys)"
proof (induction ys arbitrary: a xs)
  case (Cons y ys)
  then have "length xs < 2 ^ 31" by simp
  from push_back_holds[OF Cons.prems(1) this Cons.prems(3)] obtain b where
    "utarray_push_back mem \<lparr>icd_zero = y, icd_init = None, icd_copy = None, icd_dtor = False\<rparr> y a = Some (Inr b)"
    "holds b (xs @ [y])"
    by (metis copied_elem_def option.simps(4) ut_icd.select_convs(3))
  with Cons.IH[of b "xs @ [y]"] Cons.prems show ?case by simp
qed simp

lemma extend_back_holds:
  assumes "holds a xs" and "length xs < 2 ^ 31" and "enough mem"
  shows "\<exists>a'. utarray_extend_back mem icd a = Some (Inr a') \<and> holds a' (xs @ [initial_elem icd]) \<and>
    ua_destroyed a' = ua_destroyed a"
  using push_back_holds[OF assms, of "icd\<lparr>icd_copy := None\<rparr>" "initial_elem icd"]
  by (auto simp: utarray_extend_back_def utarray_push_back_def copied_elem_def)

lemma array_step_simulates:
  assumes "enough mem" and "holds a xs" and "array_allowed icd op xs"
  shows "\<exists>a'. array_step mem icd op a = Some (Inr a') \<and> holds a' (list_step icd op xs)"
proof (cases op)
  case (Push_back x)
  then show ?thesis using push_back_holds[OF assms(2) _ assms(1)] assms(3) by fastforce
next
  case Extend_back
  then show ?thesis using extend_back_holds[OF assms(2) _ assms(1), of icd] assms(3) by auto
next
  case Pop_back
  then show ?thesis using pop_back_holds[OF assms(2), of icd] assms(3) by auto
next
  case (Insert x j)
  then show ?thesis using insert_holds[OF assms(2) _ _ assms(1), of j icd x] assms(3) by auto
next
  case (Insert_array ws j)
  then obtain w where "pushed mem ws utarray_new = Some (Inr w)" "holds w ws"
    using pushed_holds[OF holds_new, of ws mem] assms by auto
  with inserta_holds[OF assms(2), of w ws j mem icd] Insert_array assms show ?thesis by auto
next
  case (Erase pos len)
  then show ?thesis using erase_holds[OF assms(2), of pos len icd] assms(3) by auto
next
  case (Resize n)
  then show ?thesis using resize_holds[OF assms(2) _ assms(1), of n icd] assms(3) by auto
next
  case Clear
  then show ?thesis using clear_holds[OF assms(2), of icd] by auto
qed

interpretation array: simulation holds "array_step (\<lambda>n. n \<le> 2 ^ 31) icd" "list_step icd" "array_allowed icd" for icd
  by unfold_locales (rule array_step_simulates, simp_all add: enough_def)

section \<open>Who owns an element\<close>

text \<open>What an operation stores; an array with a destructor hands each of these to it exactly once.\<close>

fun stored :: "'a ut_icd \<Rightarrow> 'a array_op \<Rightarrow> 'a list \<Rightarrow> 'a list" where
  "stored icd (Push_back x) xs = [copied_elem icd x]"
| "stored icd Extend_back xs = [initial_elem icd]"
| "stored icd (Insert x j) xs = [copied_elem icd x]"
| "stored icd (Insert_array ws j) xs = map (copied_elem icd) ws"
| "stored icd (Resize n) xs = replicate (unat n - length xs) (icd_zero icd)"
| "stored icd _ xs = []"

fun stored_by :: "'a ut_icd \<Rightarrow> 'a array_op list \<Rightarrow> 'a list \<Rightarrow> 'a list" where
  "stored_by icd [] xs = []"
| "stored_by icd (op # ops) xs = stored icd op xs @ stored_by icd ops (list_step icd op xs)"

definition owns :: "'a ut_array \<Rightarrow> 'a list \<Rightarrow> 'a list \<Rightarrow> bool" where
  "owns a xs ys \<longleftrightarrow> holds a xs \<and> mset (ua_destroyed a) + mset (map Some xs) = mset (map Some ys)"

lemma image_parts: "image_mset f (mset xs) = image_mset f (mset (take i xs)) + image_mset f (mset (drop i xs))"
  by (metis append_take_drop_id image_mset_union mset_append)

lemma image_around:
  "A + (image_mset f (mset (take i xs)) + image_mset f (mset (drop i xs))) = A + image_mset f (mset xs)"
  "A + image_mset f (mset (drop i xs)) + image_mset f (mset (take i xs)) = A + image_mset f (mset xs)"
  using image_parts[of f xs i] by (simp_all add: ac_simps)

lemma image_cut:
  "A + image_mset f (mset (take j (drop i xs))) + (image_mset f (mset (take i xs)) +
     image_mset f (mset (drop (i + j) xs))) = A + image_mset f (mset xs)"
  using image_parts[of f xs i] image_parts[of f "drop i xs" j] by (simp add: ac_simps)

lemma array_step_owns:
  assumes "enough mem" and "owns a xs ys" and "array_allowed icd op xs" and "icd_dtor icd"
  shows "\<exists>a'. array_step mem icd op a = Some (Inr a') \<and> owns a' (list_step icd op xs) (ys @ stored icd op xs)"
proof -
  have h: "holds a xs" and o: "mset (ua_destroyed a) + image_mset Some (mset xs) = image_mset Some (mset ys)"
    using assms(2) by (simp_all add: owns_def)
  note mem = assms(1)
  show ?thesis
  proof (cases op)
    case (Push_back x)
    then obtain b where "utarray_push_back mem icd x a = Some (Inr b)" "holds b (xs @ [copied_elem icd x])"
      "ua_destroyed b = ua_destroyed a" using push_back_holds[OF h _ mem, of icd x] assms(3) by auto
    with Push_back o show ?thesis by (simp add: owns_def)
  next
    case Extend_back
    then obtain b where "utarray_extend_back mem icd a = Some (Inr b)" "holds b (xs @ [initial_elem icd])"
      "ua_destroyed b = ua_destroyed a" using extend_back_holds[OF h _ mem, of icd] assms(3) by auto
    with Extend_back o show ?thesis by (simp add: owns_def)
  next
    case Pop_back
    then obtain b where b: "utarray_pop_back icd a = Inr b" "holds b (butlast xs)"
      "ua_destroyed b = destroyed_by icd [last xs] a" using pop_back_holds[OF h, of icd] assms(3) by auto
    have "mset xs = mset (butlast xs @ [last xs])" using Pop_back assms(3) by simp
    with Pop_back b o assms(4) show ?thesis by (simp add: owns_def destroyed_by_def del: append_butlast_last_id)
  next
    case (Insert x j)
    then obtain b where "utarray_insert mem icd x j a = Some (Inr b)"
      "holds b (take (unat j) xs @ copied_elem icd x # drop (unat j) xs)" "ua_destroyed b = ua_destroyed a"
      using insert_holds[OF h _ _ mem, of j icd x] assms(3) by auto
    with Insert o show ?thesis by (simp add: owns_def image_around)
  next
    case (Insert_array ws j)
    then obtain w where "pushed mem ws utarray_new = Some (Inr w)" "holds w ws"
      using pushed_holds[OF holds_new, of ws mem] assms by auto
    with inserta_holds[OF h, of w ws j mem icd] Insert_array assms o show ?thesis
      by (auto simp: owns_def image_around)
  next
    case (Erase pos len)
    then obtain b where b: "utarray_erase icd pos len a = Inr b"
      "holds b (take (unat pos) xs @ drop (unat pos + unat len) xs)"
      "ua_destroyed b = destroyed_by icd (take (unat len) (drop (unat pos) xs)) a"
      using erase_holds[OF h, of pos len icd] assms(3) by auto
    with Erase o assms(4) show ?thesis by (simp add: owns_def destroyed_by_def image_cut)
  next
    case (Resize n)
    then obtain b where b: "utarray_resize mem icd n a = Some (Inr b)"
      "holds b (take (unat n) xs @ replicate (unat n - length xs) (icd_zero icd))"
      "ua_destroyed b = destroyed_by icd (drop (unat n) xs) a"
      using resize_holds[OF h _ mem, of n icd] assms(3) by auto
    with Resize o assms(4) show ?thesis by (simp add: owns_def destroyed_by_def image_around)
  next
    case Clear
    with clear_holds[OF h, of icd] o assms(4) show ?thesis by (auto simp: owns_def destroyed_by_def)
  qed
qed

lemma done_holds:
  assumes "holds a xs"
  shows "utarray_free icd a = Inr (destroyed_by icd xs a)"
proof (cases "ua_n a = 0")
  case True
  then have "xs = []" using assms by (auto simp: holds_def)
  with True show ?thesis by (simp add: utarray_free_def utarray_done_def destroyed_by_def)
next
  case False
  then show ?thesis using destroy_holds[OF assms, of 0 "length xs"] assms
    by (simp add: utarray_free_def utarray_done_def holds_def destroyed_by_def)
qed

lemma run_owns:
  "enough mem \<Longrightarrow> icd_dtor icd \<Longrightarrow> owns a xs ys \<Longrightarrow> ops_allowed (array_allowed icd) (list_step icd) ops xs \<Longrightarrow>
   \<exists>a'. run_ops (array_step mem icd) ops a = Some (Inr a') \<and>
     owns a' (fold (list_step icd) ops xs) (ys @ stored_by icd ops xs)"
proof (induction ops arbitrary: a xs ys)
  case (Cons op ops)
  then obtain b where "array_step mem icd op a = Some (Inr b)" "owns b (list_step icd op xs) (ys @ stored icd op xs)"
    using array_step_owns[of mem a xs ys icd op] by auto
  with Cons.IH[of b "list_step icd op xs" "ys @ stored icd op xs"] Cons.prems show ?case by simp
qed simp

text \<open>An array with a destructor that is freed at the end of any allowed run has handed each element it
  stored to the destructor exactly once, so an array of strings frees all its copies and nothing twice.\<close>

lemma array_frees_what_it_stores:
  assumes "ops_allowed (array_allowed icd) (list_step icd) ops []" and "icd_dtor icd" and "enough mem"
  shows "\<exists>a freed. run_ops (array_step mem icd) ops utarray_new = Some (Inr a) \<and>
    utarray_free icd a = Inr freed \<and> mset freed = mset (map Some (stored_by icd ops []))"
proof -
  have "owns utarray_new [] []" by (simp add: owns_def holds_new) (simp add: utarray_new_def)
  from run_owns[OF assms(3,2) this assms(1)] obtain a where
    "run_ops (array_step mem icd) ops utarray_new = Some (Inr a)"
    "owns a (fold (list_step icd) ops []) (stored_by icd ops [])" by auto
  moreover from this(2) done_holds[of a _ icd] assms(2) show ?thesis
    using calculation by (auto simp: owns_def destroyed_by_def)
qed

text \<open>C14: the dynamic array implements a list: every sequence of operations that stays within \<open>2 ^ 31\<close>
  elements and existing positions, and never uses \<^verbatim>\<open>utarray_resize\<close> to grow an array whose elements have
  an initialiser (which calls the initialiser on the null pointer, \<^verbatim>\<open>resize_with_initialiser_faults\<close>), runs
  without a fault where memory for \<open>2 ^ 31\<close> elements can be allocated, and the array then holds the
  list that the operations make.\<close>

theorem utarray_implements_list:
  assumes "ops_allowed (array_allowed icd) (list_step icd) ops []"
  shows "\<exists>a. run_ops (array_step (\<lambda>n. n \<le> 2 ^ 31) icd) ops utarray_new = Some (Inr a) \<and>
    holds a (fold (list_step icd) ops [])"
  using array.run_simulates[OF holds_new assms] .

lemma utarray_implements_list_witness:
  "\<exists>a. run_ops (array_step (\<lambda>n. n \<le> 2 ^ 31) \<lparr>icd_zero = 0, icd_init = None, icd_copy = None, icd_dtor = True\<rparr>)
     [Push_back (1 :: int), Push_back 2, Insert 3 1, Pop_back, Resize 4, Erase 0 1] utarray_new = Some (Inr a) \<and>
   holds a [3, 0, 0]"
proof -
  let ?icd = "\<lparr>icd_zero = 0, icd_init = None, icd_copy = None, icd_dtor = True\<rparr> :: int ut_icd"
  let ?ops = "[Push_back 1, Push_back 2, Insert 3 1, Pop_back, Resize 4, Erase 0 1]"
  have "replicate 2 (0 :: int) = [0, 0]" by (simp add: numeral_2_eq_2)
  then have "fold (list_step ?icd) ?ops [] = [3, 0, 0]"
    by (simp add: copied_elem_def initial_elem_def)
  moreover have "ops_allowed (array_allowed ?icd) (list_step ?icd) ?ops []"
    by (simp add: copied_elem_def initial_elem_def)
  ultimately show ?thesis using utarray_implements_list[of ?icd ?ops] by metis
qed

text \<open>Room can be made exactly for up to \<open>2 ^ 31\<close> elements: the loop that doubles the number of slots
  ends if and only if no more are needed, on a counter of 32 bits.\<close>

lemma reserve_ends_iff:
  assumes "holds a xs" and "length xs + unat by < 2 ^ 32"
  shows "utarray_reserve mem by a \<noteq> None \<longleftrightarrow> length xs + unat by \<le> 2 ^ 31"
proof -
  have a: "unat (ua_i a) = length xs" "slots_ok (ua_n a)" using assms(1) by (simp_all add: holds_def)
  have need: "unat (ua_i a + by) = length xs + unat by"
    using assms(2) a(1) by (simp add: unat_word_ariths)
  have "grow (ua_i a + by) (ua_n a) \<noteq> None \<longleftrightarrow> length xs + unat by \<le> 2 ^ 31"
    using grow_reaches[of "ua_i a + by" "ua_n a"] grow_Some_bound[of "ua_i a + by" "ua_n a"] a(2) need by auto
  moreover have "unat (ua_i a + by) \<le> 2 ^ 31" if "\<not> ua_i a + by > ua_n a"
    using that slots_ok_bound[OF a(2)] by (meson leI le_trans word_le_nat_alt)
  ultimately show ?thesis using need by (auto simp: utarray_reserve_def split: option.splits)
qed

lemma reserve_ends_iff_witness:
  "utarray_reserve (\<lambda>_. True) 2147483649 (utarray_new :: int ut_array) = None \<and>
   utarray_reserve (\<lambda>_. True) 2147483648 (utarray_new :: int ut_array) \<noteq> None"
  using reserve_ends_iff[OF holds_new[where 'a = int], of 2147483649 "\<lambda>_. True"]
    reserve_ends_iff[OF holds_new[where 'a = int], of 2147483648 "\<lambda>_. True"] by simp

end
