(* ===== verification/UtList.thy ===== *)
theory UtList
  imports Refinement
begin

text \<open>
  The linked lists of \<open>utlist.h\<close>: the server queues its messages and keeps their blocks in doubly
  linked ones. A pointer is a value of some type \<open>'p\<close>, NULL is \<open>None\<close>, and the two link fields of all
  nodes are two functions on pointers. The singly linked, doubly linked and circular macros are
  translated one by one; a loop over a list that may be circular is \<open>None\<close> when it does not end.
  Each kind of list is shown to implement sequences of pointers.
\<close>

section \<open>The macros\<close>

record 'p ut_list =
  ul_head :: "'p option"
  ul_next :: "'p \<Rightarrow> 'p option"
  ul_prev :: "'p \<Rightarrow> 'p option"

definition null_list :: "('p \<Rightarrow> 'p option) \<Rightarrow> ('p \<Rightarrow> 'p option) \<Rightarrow> 'p ut_list" where
  "null_list nx pv = \<lparr>ul_head = None, ul_next = nx, ul_prev = pv\<rparr>"

definition set_next :: "'p \<Rightarrow> 'p option \<Rightarrow> 'p ut_list \<Rightarrow> 'p ut_list" where
  "set_next p q l = l\<lparr>ul_next := (ul_next l)(p := q)\<rparr>"

definition set_prev :: "'p \<Rightarrow> 'p option \<Rightarrow> 'p ut_list \<Rightarrow> 'p ut_list" where
  "set_prev p q l = l\<lparr>ul_prev := (ul_prev l)(p := q)\<rparr>"

text \<open>An assignment to a field of a pointer that is read from the heap.\<close>

definition at_pointer :: "'p option \<Rightarrow> ('p \<Rightarrow> 'p ut_list \<Rightarrow> 'p ut_list) \<Rightarrow> 'p ut_list \<Rightarrow> 'p ut_list c_result" where
  "at_pointer p f l = (case p of None \<Rightarrow> Inl Null_pointer | Some p \<Rightarrow> Inr (f p l))"

subsection \<open>Singly linked\<close>

definition ll_prepend :: "'p \<Rightarrow> 'p ut_list \<Rightarrow> 'p ut_list" where
  "ll_prepend add l = (set_next add (ul_head l) l)\<lparr>ul_head := Some add\<rparr>"

partial_function (option) ll_last :: "('p \<Rightarrow> 'p option) \<Rightarrow> 'p \<Rightarrow> 'p option" where
  "ll_last nx tmp = (case nx tmp of None \<Rightarrow> Some tmp | Some q \<Rightarrow> ll_last nx q)"

definition ll_append :: "'p \<Rightarrow> 'p ut_list \<Rightarrow> 'p ut_list c_result option" where
  "ll_append add l =
     (let l = set_next add None l in
      case ul_head l of
        Some h \<Rightarrow>
          (case ll_last (ul_next l) h of
             None \<Rightarrow> None
           | Some tmp \<Rightarrow> Some (Inr (set_next tmp (Some add) l)))
      | None \<Rightarrow> Some (Inr (l\<lparr>ul_head := Some add\<rparr>)))"

partial_function (option) ll_before :: "('p \<Rightarrow> 'p option) \<Rightarrow> 'p \<Rightarrow> 'p \<Rightarrow> 'p option" where
  "ll_before nx del tmp =
     (case nx tmp of
        None \<Rightarrow> Some tmp
      | Some q \<Rightarrow> if q \<noteq> del then ll_before nx del q else Some tmp)"

definition ll_delete :: "'p \<Rightarrow> 'p ut_list \<Rightarrow> 'p ut_list c_result option" where
  "ll_delete del l =
     (case ul_head l of
        None \<Rightarrow> Some (Inl Null_pointer)
      | Some h \<Rightarrow>
          if h = del then Some (Inr (l\<lparr>ul_head := ul_next l h\<rparr>))
          else case ll_before (ul_next l) del h of
                 None \<Rightarrow> None
               | Some tmp \<Rightarrow>
                   (case ul_next l tmp of
                      None \<Rightarrow> Some (Inr l)
                    | Some _ \<Rightarrow> Some (Inr (set_next tmp (ul_next l del) l))))"

text \<open>The nodes \<open>LL_FOREACH\<close> visits, for a body that leaves the links alone, and the node a search stops at.\<close>

partial_function (option) ll_foreach :: "('p \<Rightarrow> 'p option) \<Rightarrow> 'p option \<Rightarrow> 'p list option" where
  "ll_foreach nx el =
     (case el of
        None \<Rightarrow> Some []
      | Some p \<Rightarrow> Option.bind (ll_foreach nx (nx p)) (\<lambda>ps. Some (p # ps)))"

partial_function (option) ll_search ::
    "('p \<Rightarrow> 'p option) \<Rightarrow> ('p \<Rightarrow> bool) \<Rightarrow> 'p option \<Rightarrow> 'p option option" where
  "ll_search nx found out =
     (case out of
        None \<Rightarrow> Some None
      | Some p \<Rightarrow> if found p then Some (Some p) else ll_search nx found (nx p))"

subsection \<open>Doubly linked\<close>

definition dl_prepend :: "'p \<Rightarrow> 'p ut_list \<Rightarrow> 'p ut_list" where
  "dl_prepend add l =
     (let l = set_next add (ul_head l) l;
          l = (case ul_head l of
                 Some h \<Rightarrow> set_prev h (Some add) (set_prev add (ul_prev l h) l)
               | None \<Rightarrow> set_prev add (Some add) l)
      in l\<lparr>ul_head := Some add\<rparr>)"

definition dl_append :: "'p \<Rightarrow> 'p ut_list \<Rightarrow> 'p ut_list c_result" where
  "dl_append add l =
     (case ul_head l of
        Some h \<Rightarrow>
          let l = set_prev add (ul_prev l h) l in
          result_bind (at_pointer (ul_prev l h) (\<lambda>t. set_next t (Some add)) l) (\<lambda>l.
            Inr (set_next add None (set_prev h (Some add) l)))
      | None \<Rightarrow>
          let l = l\<lparr>ul_head := Some add\<rparr> in
          Inr (set_next add None (set_prev add (Some add) l)))"

definition dl_delete :: "'p \<Rightarrow> 'p ut_list \<Rightarrow> 'p ut_list c_result" where
  "dl_delete del l =
     (if ul_prev l del = Some del then Inr (l\<lparr>ul_head := None\<rparr>)
      else if Some del = ul_head l then
        result_bind (at_pointer (ul_next l del) (\<lambda>q. set_prev q (ul_prev l del)) l) (\<lambda>l.
          Inr (l\<lparr>ul_head := ul_next l del\<rparr>))
      else
        result_bind (at_pointer (ul_prev l del) (\<lambda>p. set_next p (ul_next l del)) l) (\<lambda>l.
          case ul_next l del of
            Some q \<Rightarrow> Inr (set_prev q (ul_prev l del) l)
          | None \<Rightarrow> at_pointer (ul_head l) (\<lambda>h. set_prev h (ul_prev l del)) l))"

subsection \<open>Circular\<close>

definition cdl_prepend :: "'p \<Rightarrow> 'p ut_list \<Rightarrow> 'p ut_list c_result" where
  "cdl_prepend add l =
     result_bind
       (case ul_head l of
          Some h \<Rightarrow>
            let l = set_prev h (Some add) (set_next add (Some h) (set_prev add (ul_prev l h) l)) in
            at_pointer (ul_prev l add) (\<lambda>t. set_next t (Some add)) l
        | None \<Rightarrow> Inr (set_next add (Some add) (set_prev add (Some add) l)))
       (\<lambda>l. Inr (l\<lparr>ul_head := Some add\<rparr>))"

definition cdl_delete :: "'p \<Rightarrow> 'p ut_list \<Rightarrow> 'p ut_list c_result" where
  "cdl_delete del l =
     (if ul_head l = Some del \<and> ul_next l del = Some del then Inr (l\<lparr>ul_head := None\<rparr>)
      else
        result_bind (at_pointer (ul_next l del) (\<lambda>q. set_prev q (ul_prev l del)) l) (\<lambda>l.
          result_bind (at_pointer (ul_prev l del) (\<lambda>p. set_next p (ul_next l del)) l) (\<lambda>l.
            Inr (if Some del = ul_head l then l\<lparr>ul_head := ul_next l del\<rparr> else l))))"

partial_function (option) cdl_foreach ::
    "('p \<Rightarrow> 'p option) \<Rightarrow> 'p option \<Rightarrow> 'p option \<Rightarrow> 'p list option" where
  "cdl_foreach nx first el =
     (case el of
        None \<Rightarrow> Some []
      | Some p \<Rightarrow>
          Option.bind (cdl_foreach nx first (if nx p = first then None else nx p)) (\<lambda>ps. Some (p # ps)))"

section \<open>Paths in the heap\<close>

fun path :: "('p \<Rightarrow> 'p option) \<Rightarrow> 'p option \<Rightarrow> 'p list \<Rightarrow> 'p option \<Rightarrow> bool" where
  "path nx p [] q \<longleftrightarrow> p = q"
| "path nx p (x # xs) q \<longleftrightarrow> p = Some x \<and> path nx (nx x) xs q"

fun rpath :: "('p \<Rightarrow> 'p option) \<Rightarrow> 'p option \<Rightarrow> 'p list \<Rightarrow> bool" where
  "rpath pv q [] \<longleftrightarrow> True"
| "rpath pv q (x # xs) \<longleftrightarrow> pv x = q \<and> rpath pv (Some x) xs"

named_theorems path_simps

lemma path_append [path_simps]: "path nx p (xs @ ys) q \<longleftrightarrow> (\<exists>r. path nx p xs r \<and> path nx r ys q)"
  by (induction xs arbitrary: p) auto

lemma path_frame [path_simps]: "u \<notin> set xs \<Longrightarrow> path (nx(u := v)) p xs q \<longleftrightarrow> path nx p xs q"
  by (induction xs arbitrary: p) auto

lemma rpath_append [path_simps]:
  "rpath pv q (xs @ ys) \<longleftrightarrow> rpath pv q xs \<and> rpath pv (if xs = [] then q else Some (last xs)) ys"
  by (induction xs arbitrary: q) auto

lemma rpath_frame [path_simps]: "u \<notin> set xs \<Longrightarrow> rpath (pv(u := v)) q xs \<longleftrightarrow> rpath pv q xs"
  by (induction xs arbitrary: q) auto

lemma path_snoc: "path nx p (xs @ [x]) q \<longleftrightarrow> path nx p xs (Some x) \<and> nx x = q"
  by (auto simp: path_append)

lemma path_start: "path nx p xs q \<Longrightarrow> p = (if xs = [] then q else Some (hd xs))"
  by (cases xs) auto

section \<open>Singly linked lists\<close>

definition ll_holds :: "'p ut_list \<Rightarrow> 'p list \<Rightarrow> bool" where
  "ll_holds l xs \<longleftrightarrow> distinct xs \<and> path (ul_next l) (ul_head l) xs None"

lemmas link_defs = set_next_def set_prev_def at_pointer_def

lemma ll_last_path: "path nx (Some x) (xs @ [t]) None \<Longrightarrow> ll_last nx x = Some t"
proof (induction xs arbitrary: x)
  case Nil
  then show ?case by (subst ll_last.simps) simp
next
  case (Cons y xs)
  then obtain z where "nx x = Some z" "path nx (Some z) (xs @ [t]) None"
    by (cases xs) auto
  with Cons show ?case by (subst ll_last.simps) simp
qed

lemma ll_before_path:
  "path nx (Some x) (xs @ t # d # ys) None \<Longrightarrow> d \<notin> set (tl (xs @ [t])) \<Longrightarrow> ll_before nx d x = Some t"
proof (induction xs arbitrary: x)
  case Nil
  then show ?case by (subst ll_before.simps) simp
next
  case (Cons y xs)
  then obtain z where z: "nx x = Some z" "path nx (Some z) (xs @ t # d # ys) None" "z \<noteq> d"
    by (cases xs) auto
  moreover have "d \<notin> set (tl (xs @ [t]))" using Cons.prems(2) by (cases xs) auto
  ultimately show ?case using Cons.IH by (subst ll_before.simps) simp
qed

lemma ll_foreach_path: "path nx p xs None \<Longrightarrow> ll_foreach nx p = Some xs"
proof (induction xs arbitrary: p)
  case Nil
  then show ?case by (subst ll_foreach.simps) simp
next
  case (Cons x xs)
  then show ?case by (subst ll_foreach.simps) simp
qed

lemma ll_search_path: "path nx p xs None \<Longrightarrow> ll_search nx found p = Some (find found xs)"
proof (induction xs arbitrary: p)
  case Nil
  then show ?case by (subst ll_search.simps) simp
next
  case (Cons x xs)
  then show ?case by (subst ll_search.simps) simp
qed

lemma ll_prepend_holds: "ll_holds l xs \<Longrightarrow> p \<notin> set xs \<Longrightarrow> ll_holds (ll_prepend p l) (p # xs)"
  by (simp add: ll_holds_def ll_prepend_def set_next_def path_frame)

lemma ll_append_holds:
  assumes "ll_holds l xs" and "p \<notin> set xs"
  shows "\<exists>l'. ll_append p l = Some (Inr l') \<and> ll_holds l' (xs @ [p])"
proof (cases xs rule: rev_cases)
  case Nil
  with assms show ?thesis by (auto simp: ll_holds_def ll_append_def set_next_def)
next
  case (snoc ys t)
  let ?nx = "(ul_next l)(p := None)"
  have path: "path ?nx (ul_head l) (ys @ [t]) None"
    using assms snoc by (simp add: ll_holds_def path_simps)
  then obtain h where h: "ul_head l = Some h" by (cases ys) auto
  then have "ll_last ?nx h = Some t" using ll_last_path path by metis
  moreover have "path (?nx(t := Some p)) (Some h) (ys @ [t] @ [p]) None"
    using path h assms snoc by (auto simp: path_simps ll_holds_def)
  ultimately show ?thesis
    using assms snoc h by (auto simp: ll_append_def Let_def set_next_def ll_holds_def)
qed

lemma ll_delete_holds:
  assumes "ll_holds l xs" and "p \<in> set xs"
  shows "\<exists>l'. ll_delete p l = Some (Inr l') \<and> ll_holds l' (remove1 p xs)"
proof -
  from assms(2) obtain ys zs where xs: "xs = ys @ p # zs" "p \<notin> set ys" by (meson split_list_first)
  have d: "distinct (ys @ p # zs)" and path: "path (ul_next l) (ul_head l) (ys @ p # zs) None"
    using assms(1) xs by (simp_all add: ll_holds_def)
  have rm: "remove1 p xs = ys @ zs" using xs by (simp add: remove1_append)
  show ?thesis
  proof (cases ys rule: rev_cases)
    case Nil
    with path d rm show ?thesis by (auto simp: ll_delete_def ll_holds_def)
  next
    case (snoc us t)
    then obtain h where h: "ul_head l = Some h" "h \<noteq> p" using path xs(2) by (cases us) auto
    have "path (ul_next l) (Some h) (us @ t # p # zs) None" using path snoc h by simp
    moreover have "p \<notin> set (tl (us @ [t]))" using d snoc by (cases us) auto
    ultimately have "ll_before (ul_next l) p h = Some t" by (rule ll_before_path)
    moreover have "ul_next l t = Some p" using path snoc by (auto simp: path_simps)
    moreover have "path ((ul_next l)(t := ul_next l p)) (Some h) (us @ [t] @ zs) None"
      using path d snoc h by (auto simp: path_simps)
    ultimately show ?thesis
      using h d rm snoc by (auto simp: ll_delete_def ll_holds_def set_next_def)
  qed
qed

section \<open>Doubly linked lists\<close>

text \<open>The first node's \<open>prev\<close> points to the last node, the last node's \<open>next\<close> is NULL.\<close>

definition dl_holds :: "'p ut_list \<Rightarrow> 'p list \<Rightarrow> bool" where
  "dl_holds l xs \<longleftrightarrow> distinct xs \<and> path (ul_next l) (ul_head l) xs None \<and>
     rpath (ul_prev l) (if xs = [] then None else Some (last xs)) xs"

lemma dl_prepend_holds:
  assumes "dl_holds l xs" and "p \<notin> set xs"
  shows "dl_holds (dl_prepend p l) (p # xs)"
proof (cases xs)
  case Nil
  with assms show ?thesis by (simp add: dl_holds_def dl_prepend_def link_defs Let_def)
next
  case (Cons h r)
  with assms show ?thesis by (auto simp: dl_holds_def dl_prepend_def link_defs Let_def path_simps)
qed

lemma dl_append_holds:
  assumes "dl_holds l xs" and "p \<notin> set xs"
  shows "\<exists>l'. dl_append p l = Inr l' \<and> dl_holds l' (xs @ [p])"
proof (cases xs rule: rev_cases)
  case Nil
  with assms show ?thesis by (simp add: dl_holds_def dl_append_def link_defs Let_def)
next
  case (snoc ys t)
  have "xs \<noteq> []" using snoc by simp
  then obtain h r where hr: "xs = h # r" by (meson neq_Nil_conv)
  have last: "last (h # r) = t" using snoc hr by (metis last_snoc)
  have all: "distinct xs" "path (ul_next l) (ul_head l) xs None" "rpath (ul_prev l) (Some (last xs)) xs"
    using assms(1) snoc by (auto simp: dl_holds_def)
  have head: "ul_head l = Some h" using all(2) unfolding hr by simp
  have prev: "ul_prev l h = Some t" "rpath (ul_prev l) (Some h) r"
    using all(3) snoc unfolding hr by (metis last_snoc rpath.simps(2))+
  have h: "h \<notin> set r" "p \<noteq> h" "p \<notin> set r" using all(1) assms(2) unfolding hr by auto
  have t: "t \<notin> set ys" "p \<noteq> t" "p \<notin> set ys" using all(1) assms(2) snoc by auto
  have "path ((ul_next l)(t := Some p, p := None)) (Some h) ((ys @ [t]) @ [p]) None"
    using all(2) snoc head t by (auto simp: path_simps)
  then have "path ((ul_next l)(t := Some p, p := None)) (Some h) (xs @ [p]) None"
    unfolding snoc .
  moreover have "rpath ((ul_prev l)(p := Some t, h := Some p)) (Some p) ((h # r) @ [p])"
    using prev h last by (auto simp: path_simps)
  then have "rpath ((ul_prev l)(p := Some t, h := Some p)) (Some p) (xs @ [p])" unfolding hr .
  moreover have "dl_append p l = Inr (l\<lparr>ul_prev := (ul_prev l)(p := Some t, h := Some p),
      ul_next := (ul_next l)(t := Some p, p := None)\<rparr>)"
    using head prev h by (simp add: dl_append_def link_defs Let_def)
  ultimately show ?thesis
    using assms(2) all(1) head by (simp add: dl_holds_def)
qed

lemma dl_delete_holds:
  assumes "dl_holds l xs" and "p \<in> set xs"
  shows "\<exists>l'. dl_delete p l = Inr l' \<and> dl_holds l' (remove1 p xs)"
proof -
  from assms(2) obtain ys zs where xs: "xs = ys @ p # zs" "p \<notin> set ys" by (meson split_list_first)
  have d: "distinct (ys @ p # zs)" and path: "path (ul_next l) (ul_head l) (ys @ p # zs) None"
    and rpath: "rpath (ul_prev l) (Some (last (p # zs))) (ys @ p # zs)"
    using assms(1) xs by (auto simp: dl_holds_def)
  have rm: "remove1 p xs = ys @ zs" using xs by (simp add: remove1_append)
  have nx: "path (ul_next l) (ul_next l p) zs None" using path by (auto simp: path_simps)
  show ?thesis
  proof (cases ys rule: rev_cases)
    case Nil
    show ?thesis
    proof (cases zs)
      case Nil
      with \<open>ys = []\<close> rpath rm show ?thesis by (simp add: dl_delete_def dl_holds_def)
    next
      case (Cons q ws)
      have "ul_prev l p = Some (last zs)" using rpath \<open>ys = []\<close> Cons by simp
      moreover have "last zs \<noteq> p" using d Cons by (metis distinct.simps(2) distinct_append last_in_set list.discI)
      ultimately show ?thesis
        using \<open>ys = []\<close> Cons d path rpath nx rm
        by (auto simp: dl_delete_def dl_holds_def link_defs path_simps)
    qed
  next
    case (snoc us t)
    have pv: "ul_prev l p = Some t" using rpath snoc by (simp add: path_simps)
    have head: "ul_head l = Some (hd ys)" "hd ys \<noteq> p" "p \<noteq> t"
      using path snoc xs(2) by (cases us; auto)+
    have pathl: "path ((ul_next l)(t := ul_next l p)) (ul_head l) (us @ [t] @ zs) None"
      using path d snoc nx by (auto simp: path_simps)
    show ?thesis
    proof (cases zs)
      case Nil
      let ?pv = "(ul_prev l)(hd ys := Some t)"
      have "rpath ?pv (Some t) (us @ [t])"
        using rpath d snoc Nil by (cases us) (auto simp: path_simps)
      with Nil snoc pv head nx d pathl rm show ?thesis
        by (auto simp: dl_delete_def dl_holds_def link_defs)
    next
      case (Cons q ws)
      let ?pv = "(ul_prev l)(q := Some t)"
      have "rpath ?pv (Some (last zs)) (us @ [t] @ zs)"
        using rpath d snoc Cons by (auto simp: path_simps)
      with Cons snoc pv head nx d pathl rm show ?thesis
        by (auto simp: dl_delete_def dl_holds_def link_defs)
    qed
  qed
qed

section \<open>Circular lists\<close>

definition cdl_holds :: "'p ut_list \<Rightarrow> 'p list \<Rightarrow> bool" where
  "cdl_holds l xs \<longleftrightarrow> distinct xs \<and>
     (if xs = [] then ul_head l = None
      else path (ul_next l) (ul_head l) xs (ul_head l) \<and> rpath (ul_prev l) (Some (last xs)) xs)"

lemma cdl_prepend_holds:
  assumes "cdl_holds l xs" and "p \<notin> set xs"
  shows "\<exists>l'. cdl_prepend p l = Inr l' \<and> cdl_holds l' (p # xs)"
proof (cases "xs = []")
  case True
  with assms show ?thesis by (simp add: cdl_holds_def cdl_prepend_def link_defs)
next
  case False
  then obtain h r where hr: "xs = h # r" by (meson neq_Nil_conv)
  from False obtain ys t where yt: "xs = ys @ [t]" by (meson rev_exhaust)
  have last: "last (h # r) = t" using yt hr by (metis last_snoc)
  have all: "distinct xs" "path (ul_next l) (ul_head l) xs (ul_head l)" "rpath (ul_prev l) (Some (last xs)) xs"
    using assms(1) False by (auto simp: cdl_holds_def)
  have head: "ul_head l = Some h" using all(2) unfolding hr by simp
  have prev: "ul_prev l h = Some t" "rpath (ul_prev l) (Some h) r"
    using all(3) last unfolding hr by auto
  have h: "h \<notin> set r" "p \<noteq> h" "p \<notin> set r" using all(1) assms(2) unfolding hr by auto
  have t: "t \<notin> set ys" "p \<noteq> t" "p \<notin> set ys" using all(1) assms(2) yt by auto
  let ?nx = "(ul_next l)(p := Some h, t := Some p)" and ?pv = "(ul_prev l)(p := Some t, h := Some p)"
  have "path ?nx (Some h) (ys @ [t]) (Some p)"
    using all(2) yt head t by (auto simp: path_simps)
  then have "path ?nx (Some h) (h # r) (Some p)" unfolding yt[symmetric] hr .
  moreover have "rpath ?pv (Some p) (h # r)" using prev h by (simp add: path_simps)
  moreover have "cdl_prepend p l = Inr (l\<lparr>ul_prev := ?pv, ul_next := ?nx, ul_head := Some p\<rparr>)"
    using head prev h by (simp add: cdl_prepend_def link_defs Let_def)
  ultimately show ?thesis
    using h t last all(1) unfolding hr by (auto simp: cdl_holds_def)
qed

lemma cdl_delete_holds:
  assumes "cdl_holds l xs" and "p \<in> set xs"
  shows "\<exists>l'. cdl_delete p l = Inr l' \<and> cdl_holds l' (remove1 p xs)"
proof -
  from assms(2) obtain ys zs where xs: "xs = ys @ p # zs" "p \<notin> set ys" by (meson split_list_first)
  have d: "distinct (ys @ p # zs)" and path: "path (ul_next l) (ul_head l) (ys @ p # zs) (ul_head l)"
    and rpath: "rpath (ul_prev l) (Some (last (p # zs))) (ys @ p # zs)"
    using assms(1) xs by (auto simp: cdl_holds_def)
  have rm: "remove1 p xs = ys @ zs" using xs by (simp add: remove1_append)
  have nx: "path (ul_next l) (ul_next l p) zs (ul_head l)" using path by (auto simp: path_simps)
  show ?thesis
  proof (cases ys rule: rev_cases)
    case Nil
    then have head: "ul_head l = Some p" using path by simp
    show ?thesis
    proof (cases zs)
      case Nil
      then have "ul_next l p = Some p" using nx head by simp
      with \<open>ys = []\<close> Nil head rm show ?thesis by (simp add: cdl_delete_def cdl_holds_def)
    next
      case (Cons q ws)
      obtain us t where ut: "zs = us @ [t]" using Cons by (meson list.discI rev_exhaust)
      have pv: "ul_prev l p = Some t" using rpath \<open>ys = []\<close> ut by simp
      have np: "ul_next l p = Some q" using nx Cons by simp
      have "t \<noteq> p" "t \<notin> set us" using d \<open>ys = []\<close> unfolding ut by auto
      moreover have "q \<noteq> p" using d Cons by auto
      moreover have "path ((ul_next l)(t := Some q)) (Some q) (us @ [t]) (Some q)"
        using nx np ut d \<open>t \<notin> set us\<close> by (auto simp: path_simps)
      then have "path ((ul_next l)(t := Some q)) (Some q) zs (Some q)" unfolding ut .
      moreover have "rpath ((ul_prev l)(q := Some t)) (Some t) (q # ws)"
        using rpath \<open>ys = []\<close> Cons d by (simp add: path_simps)
      then have "rpath ((ul_prev l)(q := Some t)) (Some (last zs)) zs" using Cons ut by (metis last_snoc)
      ultimately show ?thesis
        using head pv np rm \<open>ys = []\<close> d Cons
        by (auto simp: cdl_delete_def cdl_holds_def link_defs)
    qed
  next
    case (snoc us t)
    have pv: "ul_prev l p = Some t" using rpath snoc by (simp add: path_simps)
    have tp: "ul_next l t = Some p" "t \<noteq> p" using path snoc xs(2) by (auto simp: path_simps)
    have "ys \<noteq> []" using snoc by simp
    then obtain h r where hr: "ys = h # r" by (meson neq_Nil_conv)
    have head: "ul_head l = Some h" "h \<noteq> p" using path hr xs(2) by auto
    let ?q = "if zs = [] then h else hd zs"
    have np: "ul_next l p = Some ?q" using nx head path_start[OF nx] by auto
    have "path ((ul_next l)(t := Some ?q)) (Some h) (us @ [t] @ zs) (Some h)"
      using path d snoc nx np head by (auto simp: path_simps)
    then have 1: "path ((ul_next l)(t := Some ?q)) (Some h) (ys @ zs) (Some h)" using snoc by simp
    have 2: "rpath ((ul_prev l)(?q := Some t)) (Some (last (ys @ zs))) (ys @ zs)"
    proof (cases zs)
      case Nil
      then have "rpath (ul_prev l) (Some p) (h # r)" using rpath hr by (simp add: rpath_append)
      moreover have "h \<notin> set r" using d hr by simp
      moreover have "last (h # r) = t" using hr snoc by (metis last_snoc)
      ultimately show ?thesis using Nil hr by (simp add: path_simps)
    next
      case (Cons q ws)
      then show ?thesis using rpath d snoc by (auto simp: path_simps)
    qed
    from 1 2 show ?thesis
      using head tp pv np rm d hr by (auto simp: cdl_delete_def cdl_holds_def link_defs)
  qed
qed

lemma cdl_foreach_path:
  "path nx p xs (Some f) \<Longrightarrow> f \<notin> set (tl xs) \<Longrightarrow> xs \<noteq> [] \<Longrightarrow> cdl_foreach nx (Some f) p = Some xs"
proof (induction xs arbitrary: p)
  case (Cons x xs)
  show ?case
  proof (cases xs)
    case Nil
    then show ?thesis
      using Cons.prems by (subst cdl_foreach.simps) (simp, subst cdl_foreach.simps, simp)
  next
    case (Cons y ys)
    then have "nx x = Some y" "y \<noteq> f" using Cons.prems by auto
    moreover have "cdl_foreach nx (Some f) (Some y) = Some xs"
      using Cons.prems Cons.IH[of "Some y"] Cons by auto
    ultimately show ?thesis using Cons.prems by (subst cdl_foreach.simps) simp
  qed
qed simp

section \<open>Sequences of operations\<close>

datatype 'p list_op = Prepend 'p | Append 'p | Delete 'p

fun sequence_step :: "'p list_op \<Rightarrow> 'p list \<Rightarrow> 'p list" where
  "sequence_step (Prepend p) xs = p # xs"
| "sequence_step (Append p) xs = xs @ [p]"
| "sequence_step (Delete p) xs = remove1 p xs"

text \<open>A node is added only if it is not in the list, and deleted only if it is.\<close>

fun list_allowed :: "'p list_op \<Rightarrow> 'p list \<Rightarrow> bool" where
  "list_allowed (Prepend p) xs = (p \<notin> set xs)"
| "list_allowed (Append p) xs = (p \<notin> set xs)"
| "list_allowed (Delete p) xs = (p \<in> set xs)"

fun ll_step :: "'p list_op \<Rightarrow> 'p ut_list \<Rightarrow> 'p ut_list c_result option" where
  "ll_step (Prepend p) l = Some (Inr (ll_prepend p l))"
| "ll_step (Append p) l = ll_append p l"
| "ll_step (Delete p) l = ll_delete p l"

fun dl_step :: "'p list_op \<Rightarrow> 'p ut_list \<Rightarrow> 'p ut_list c_result option" where
  "dl_step (Prepend p) l = Some (Inr (dl_prepend p l))"
| "dl_step (Append p) l = Some (dl_append p l)"
| "dl_step (Delete p) l = Some (dl_delete p l)"

lemma ll_step_simulates:
  "ll_holds l xs \<Longrightarrow> list_allowed op xs \<Longrightarrow> \<exists>l'. ll_step op l = Some (Inr l') \<and> ll_holds l' (sequence_step op xs)"
  by (cases op) (auto simp: ll_prepend_holds ll_append_holds ll_delete_holds)

lemma dl_step_simulates:
  "dl_holds l xs \<Longrightarrow> list_allowed op xs \<Longrightarrow> \<exists>l'. dl_step op l = Some (Inr l') \<and> dl_holds l' (sequence_step op xs)"
  using dl_append_holds[of l xs] dl_delete_holds[of l xs] by (cases op) (fastforce simp: dl_prepend_holds)+

interpretation ll: simulation ll_holds ll_step sequence_step list_allowed
  by unfold_locales (rule ll_step_simulates)

interpretation dl: simulation dl_holds dl_step sequence_step list_allowed
  by unfold_locales (rule dl_step_simulates)

lemma dl_holds_empty: "dl_holds (null_list nx pv) []"
  by (simp add: dl_holds_def null_list_def)

lemma ll_holds_empty: "ll_holds (null_list nx pv) []"
  by (simp add: ll_holds_def null_list_def)

text \<open>C16: the doubly linked lists of the server implement queues: whatever nodes are appended,
  prepended and deleted, in whatever order, no NULL pointer is followed, and a traversal afterwards
  visits exactly the nodes that are left, in the order of the sequence they stand for.\<close>

theorem doubly_linked_implements_sequence:
  assumes "ops_allowed list_allowed sequence_step ops []"
  shows "\<exists>l. run_ops dl_step ops (null_list nx pv) = Some (Inr l) \<and>
    ll_foreach (ul_next l) (ul_head l) = Some (fold sequence_step ops []) \<and>
    ll_search (ul_next l) found (ul_head l) = Some (find found (fold sequence_step ops []))"
  using dl.run_simulates[OF dl_holds_empty assms, of nx pv] ll_foreach_path ll_search_path
  by (fastforce simp: dl_holds_def)

lemma doubly_linked_implements_sequence_witness:
  "\<exists>l. run_ops dl_step [Append (1 :: nat), Append 2, Prepend 3, Delete 1, Append 1]
     (null_list (\<lambda>_. Some 7) (\<lambda>_. Some 7)) = Some (Inr l) \<and>
   ll_foreach (ul_next l) (ul_head l) = Some [3, 2, 1]"
proof -
  let ?ops = "[Append (1 :: nat), Append 2, Prepend 3, Delete 1, Append 1]"
  have "ops_allowed list_allowed sequence_step ?ops []" "fold sequence_step ?ops [] = [3, 2, 1]" by simp_all
  with doubly_linked_implements_sequence[of ?ops "\<lambda>_. Some 7" "\<lambda>_. Some 7"] show ?thesis by metis
qed

text \<open>The same operations on a singly linked list give the same sequence.\<close>

lemma singly_linked_implements_sequence:
  assumes "ops_allowed list_allowed sequence_step ops []"
  shows "\<exists>l. run_ops ll_step ops (null_list nx pv) = Some (Inr l) \<and>
    ll_foreach (ul_next l) (ul_head l) = Some (fold sequence_step ops [])"
  using ll.run_simulates[OF ll_holds_empty assms, of nx pv] ll_foreach_path
  by (fastforce simp: ll_holds_def)

lemma cdl_foreach_holds:
  "cdl_holds l xs \<Longrightarrow> cdl_foreach (ul_next l) (ul_head l) (ul_head l) = Some xs"
proof (cases xs)
  case Nil
  moreover assume "cdl_holds l xs"
  ultimately show ?thesis by (simp add: cdl_holds_def cdl_foreach.simps)
next
  case (Cons x ys)
  moreover assume "cdl_holds l xs"
  ultimately show ?thesis
    using cdl_foreach_path[of "ul_next l" "Some x" xs x] by (auto simp: cdl_holds_def)
qed

end
