(* ===== verification/UtHash.thy ===== *)
theory UtHash
  imports UtList HashTable
begin

unbundle bit_operations_syntax

text \<open>
  The hash tables of \<open>uthash.h\<close>, in which both programs keep their servers, clients, configuration and
  messages: the hash function, the buckets with their doubly linked chains, the list that links the
  elements in the order they were added, and the doubling of the buckets. An element and its hash
  handle are one pointer \<open>'p\<close>, since the handle's offset in the element is fixed, and the fields of all
  handles are functions on pointers. Counters have their 32 bits. \<open>mem n\<close> says whether \<open>malloc\<close> finds
  memory for a table with \<open>n\<close> buckets; without it \<open>uthash_fatal\<close> ends the process.
\<close>

section \<open>The hash function\<close>

text \<open>A key is a sequence of fewer than \<open>2 ^ 32\<close> bytes, read as \<open>char\<close>, which is signed; \<open>byte k i n\<close> is the \<open>i\<close>-th of them
  shifted left by \<open>n\<close>.\<close>

type_synonym hash_key = "8 word list"

definition byte :: "hash_key \<Rightarrow> nat \<Rightarrow> nat \<Rightarrow> 32 word" where
  "byte k i n = push_bit n (scast (k ! i))"

definition jen_mix :: "32 word \<times> 32 word \<times> 32 word \<Rightarrow> 32 word \<times> 32 word \<times> 32 word" where
  "jen_mix = (\<lambda>(a, b, c).
     let a = (a - b - c) XOR drop_bit 13 c;
         b = (b - c - a) XOR push_bit 8 a;
         c = (c - a - b) XOR drop_bit 13 b;
         a = (a - b - c) XOR drop_bit 12 c;
         b = (b - c - a) XOR push_bit 16 a;
         c = (c - a - b) XOR drop_bit 5 b;
         a = (a - b - c) XOR drop_bit 3 c;
         b = (b - c - a) XOR push_bit 10 a;
         c = (c - a - b) XOR drop_bit 15 b
     in (a, b, c))"

fun jen_blocks :: "hash_key \<Rightarrow> 32 word \<times> 32 word \<times> 32 word \<Rightarrow> hash_key \<times> 32 word \<times> 32 word \<times> 32 word" where
  "jen_blocks k (i, j, h) =
     (if length k \<ge> 12 then
        jen_blocks (drop 12 k) (jen_mix
          (i + (byte k 0 0 + byte k 1 8 + byte k 2 16 + byte k 3 24),
           j + (byte k 4 0 + byte k 5 8 + byte k 6 16 + byte k 7 24),
           h + (byte k 8 0 + byte k 9 8 + byte k 10 16 + byte k 11 24)))
      else (k, i, j, h))"

declare jen_blocks.simps [simp del]

text \<open>The cases of the switch fall through: a byte is added if the rest is long enough to have it.\<close>

definition jen_rest :: "hash_key \<Rightarrow> 32 word \<times> 32 word \<times> 32 word \<Rightarrow> 32 word \<times> 32 word \<times> 32 word" where
  "jen_rest k = (\<lambda>(i, j, h).
     let b = (\<lambda>m n. if m < length k then byte k m n else 0);
         h = h + b 10 24 + b 9 16 + b 8 8;
         j = j + b 7 24 + b 6 16 + b 5 8 + b 4 0;
         i = i + b 3 24 + b 2 16 + b 1 8 + b 0 0
     in (i, j, h))"

definition hash_jen :: "hash_key \<Rightarrow> 32 word" where
  "hash_jen key =
     (case jen_blocks key (0x9e3779b9, 0x9e3779b9, 0xfeedbeef) of
        (k, i, j, h) \<Rightarrow>
          case jen_mix (jen_rest k (i, j, h + word_of_nat (length key))) of (_, _, h) \<Rightarrow> h)"

definition hash_to_bkt :: "32 word \<Rightarrow> 32 word \<Rightarrow> nat" where
  "hash_to_bkt hashv num_bkts = unat (hashv AND (num_bkts - 1))"

section \<open>The structures\<close>

record 'p ut_bucket =
  bkt_head :: "'p option"
  bkt_count :: "32 word"
  bkt_expand_mult :: "32 word"

record 'p ut_table =
  tbl_buckets :: "'p ut_bucket list"
  num_buckets :: "32 word"
  log2_num_buckets :: "32 word"
  num_items :: "32 word"
  tbl_tail :: 'p
  ideal_chain_maxlen :: "32 word"
  nonideal_items :: "32 word"
  ineff_expands :: "32 word"
  noexpand :: "32 word"

record 'p ut_hash =
  uh_head :: "'p option"
  uh_tbl :: "'p ut_table option"
  app_next :: "'p \<Rightarrow> 'p option"
  app_prev :: "'p \<Rightarrow> 'p option"
  hh_next :: "'p \<Rightarrow> 'p option"
  hh_prev :: "'p \<Rightarrow> 'p option"
  hh_key :: "'p \<Rightarrow> hash_key"
  hh_hashv :: "'p \<Rightarrow> 32 word"

definition zero_bucket :: "'p ut_bucket" where
  "zero_bucket = \<lparr>bkt_head = None, bkt_count = 0, bkt_expand_mult = 0\<rparr>"

definition the_table :: "'p ut_hash \<Rightarrow> 'p ut_table c_result" where
  "the_table h = (case uh_tbl h of None \<Rightarrow> Inl Null_pointer | Some t \<Rightarrow> Inr t)"

definition get_bucket :: "'p ut_bucket list \<Rightarrow> nat \<Rightarrow> 'p ut_bucket c_result" where
  "get_bucket bs i = (if i < length bs then Inr (bs ! i) else Inl Out_of_bounds_read)"

section \<open>Finding\<close>

partial_function (option) hash_find_in_bkt ::
    "('p \<Rightarrow> hash_key) \<Rightarrow> ('p \<Rightarrow> 'p option) \<Rightarrow> hash_key \<Rightarrow> 'p option \<Rightarrow> 'p option option" where
  "hash_find_in_bkt ky nx k out =
     (case out of
        None \<Rightarrow> Some None
      | Some p \<Rightarrow>
          if length (ky p) = length k \<and> take (length k) (ky p) = k then Some (Some p)
          else hash_find_in_bkt ky nx k (nx p))"

definition uthash_find :: "'p ut_hash \<Rightarrow> hash_key \<Rightarrow> 'p option c_result option" where
  "uthash_find h k =
     (if uh_head h = None then Some (Inr None)
      else loop_bind (Some (the_table h)) (\<lambda>t.
        loop_bind (Some (get_bucket (tbl_buckets t) (hash_to_bkt (hash_jen k) (num_buckets t)))) (\<lambda>b.
          map_option Inr (hash_find_in_bkt (hh_key h) (hh_next h) k (bkt_head b)))))"

section \<open>Expanding\<close>

text \<open>Linking a handle in at the front of a chain, as adding and expanding do.\<close>

definition link_front :: "'p \<Rightarrow> 'p option \<Rightarrow> 'p ut_hash \<Rightarrow> 'p ut_hash" where
  "link_front p hd_hh h =
     (let h = h\<lparr>hh_next := (hh_next h)(p := hd_hh), hh_prev := (hh_prev h)(p := None)\<rparr> in
      case hd_hh of None \<Rightarrow> h | Some q \<Rightarrow> h\<lparr>hh_prev := (hh_prev h)(q := Some p)\<rparr>)"

text \<open>The new buckets, the number of non-ideal items, and the handles, after one handle was moved.\<close>

definition rehash_handle ::
    "32 word \<Rightarrow> 32 word \<Rightarrow> 'p \<Rightarrow> 'p ut_hash \<times> 'p ut_bucket list \<times> 32 word \<Rightarrow>
     ('p ut_hash \<times> 'p ut_bucket list \<times> 32 word) c_result" where
  "rehash_handle ideal num p = (\<lambda>(h, bs, nonideal).
     let bkt = hash_to_bkt (hh_hashv h p) num in
     result_bind (get_bucket bs bkt) (\<lambda>b.
       let cnt = bkt_count b + 1; b = b\<lparr>bkt_count := cnt\<rparr> in
       if cnt > ideal \<and> ideal = 0 then Inl Division_by_zero
       else
         let nonideal = (if cnt > ideal then nonideal + 1 else nonideal);
             b = (if cnt > ideal then b\<lparr>bkt_expand_mult := cnt div ideal\<rparr> else b)
         in Inr (link_front p (bkt_head b) h, bs[bkt := b\<lparr>bkt_head := Some p\<rparr>], nonideal)))"

text \<open>One chain: the successor is read before the handle is moved.\<close>

partial_function (option) rehash_chain ::
    "32 word \<Rightarrow> 32 word \<Rightarrow> 'p option \<Rightarrow> 'p ut_hash \<times> 'p ut_bucket list \<times> 32 word \<Rightarrow>
     ('p ut_hash \<times> 'p ut_bucket list \<times> 32 word) c_result option" where
  "rehash_chain ideal num thh st =
     (case thh of
        None \<Rightarrow> Some (Inr st)
      | Some p \<Rightarrow>
          (case rehash_handle ideal num p st of
             Inl e \<Rightarrow> Some (Inl e)
           | Inr st' \<Rightarrow> rehash_chain ideal num (hh_next (fst st) p) st'))"

fun rehash_buckets ::
    "32 word \<Rightarrow> 32 word \<Rightarrow> 'p ut_bucket list \<Rightarrow> nat list \<Rightarrow> 'p ut_hash \<times> 'p ut_bucket list \<times> 32 word \<Rightarrow>
     ('p ut_hash \<times> 'p ut_bucket list \<times> 32 word) c_result option" where
  "rehash_buckets ideal num old [] st = Some (Inr st)"
| "rehash_buckets ideal num old (i # is) st =
     loop_bind (Some (get_bucket old i)) (\<lambda>b.
       loop_bind (rehash_chain ideal num (bkt_head b) st) (rehash_buckets ideal num old is))"

text \<open>The ideal length of a chain once there are twice as many buckets.\<close>

definition ideal_maxlen :: "'p ut_table \<Rightarrow> 32 word" where
  "ideal_maxlen t =
     drop_bit (unat (log2_num_buckets t + 1)) (num_items t) +
     (if num_items t AND (num_buckets t * 2 - 1) \<noteq> 0 then 1 else 0)"

definition hash_expand_buckets ::
    "(nat \<Rightarrow> bool) \<Rightarrow> 'p ut_table \<Rightarrow> 'p ut_hash \<Rightarrow> 'p ut_hash c_result option" where
  "hash_expand_buckets mem t h =
     (let new = unat (2 * num_buckets t); ideal = ideal_maxlen t in
      if \<not> mem new then Some (Inl (Exit (-1)))
      else
        loop_bind
          (rehash_buckets ideal (num_buckets t * 2) (tbl_buckets t) [0..<unat (num_buckets t)]
            (h, replicate new zero_bucket, 0))
          (\<lambda>(h, bs, nonideal).
            let ineff = (if nonideal > drop_bit 1 (num_items t) then ineff_expands t + 1 else 0) in
            Some (Inr (h\<lparr>uh_tbl := Some (t\<lparr>
              ideal_chain_maxlen := ideal, nonideal_items := nonideal,
              num_buckets := num_buckets t * 2, log2_num_buckets := log2_num_buckets t + 1,
              tbl_buckets := bs, ineff_expands := ineff,
              noexpand := (if ineff > 1 then 1 else noexpand t)\<rparr>)\<rparr>))))"

section \<open>Adding\<close>

definition hash_add_to_bkt ::
    "(nat \<Rightarrow> bool) \<Rightarrow> nat \<Rightarrow> 'p \<Rightarrow> 'p ut_hash \<Rightarrow> 'p ut_hash c_result option" where
  "hash_add_to_bkt mem i p h =
     loop_bind (Some (the_table h)) (\<lambda>t.
       loop_bind (Some (get_bucket (tbl_buckets t) i)) (\<lambda>b.
         let b = b\<lparr>bkt_count := bkt_count b + 1\<rparr>;
             h = link_front p (bkt_head b) h;
             b = b\<lparr>bkt_head := Some p\<rparr>;
             t = t\<lparr>tbl_buckets := (tbl_buckets t)[i := b]\<rparr>;
             h = h\<lparr>uh_tbl := Some t\<rparr>
         in if bkt_count b \<ge> (bkt_expand_mult b + 1) * 10 \<and> noexpand t \<noteq> 1
            then hash_expand_buckets mem t h
            else Some (Inr h)))"

definition hash_make_table :: "(nat \<Rightarrow> bool) \<Rightarrow> 'p \<Rightarrow> 'p ut_table c_result" where
  "hash_make_table mem p =
     (if \<not> mem 32 then Inl (Exit (-1))
      else Inr \<lparr>tbl_buckets = replicate 32 zero_bucket, num_buckets = 32, log2_num_buckets = 5,
        num_items = 0, tbl_tail = p, ideal_chain_maxlen = 0, nonideal_items = 0,
        ineff_expands = 0, noexpand = 0\<rparr>)"

definition uthash_add ::
    "(nat \<Rightarrow> bool) \<Rightarrow> hash_key \<Rightarrow> 'p \<Rightarrow> 'p ut_hash \<Rightarrow> 'p ut_hash c_result option" where
  "uthash_add mem k p h =
     (let h = h\<lparr>app_next := (app_next h)(p := None), hh_key := (hh_key h)(p := k)\<rparr> in
      loop_bind
        (Some
          (case uh_head h of
             None \<Rightarrow>
               let h = h\<lparr>uh_head := Some p, app_prev := (app_prev h)(p := None)\<rparr> in
               result_bind (hash_make_table mem p) (\<lambda>t. Inr (t, h))
           | Some _ \<Rightarrow>
               result_bind (the_table h) (\<lambda>t.
                 Inr (t\<lparr>tbl_tail := p\<rparr>,
                   h\<lparr>app_next := (app_next h)(tbl_tail t := Some p),
                     app_prev := (app_prev h)(p := Some (tbl_tail t))\<rparr>))))
        (\<lambda>(t, h).
          let t = t\<lparr>num_items := num_items t + 1\<rparr>;
              hashv = hash_jen k;
              h = h\<lparr>uh_tbl := Some t, hh_hashv := (hh_hashv h)(p := hashv)\<rparr>
          in hash_add_to_bkt mem (hash_to_bkt hashv (num_buckets t)) p h))"

section \<open>Deleting\<close>

text \<open>An assignment through a handle pointer that may be NULL, in which case it is left out.\<close>

definition unless_null :: "'p option \<Rightarrow> ('p \<Rightarrow> 'a \<Rightarrow> 'a) \<Rightarrow> 'a \<Rightarrow> 'a" where
  "unless_null q f h = (case q of None \<Rightarrow> h | Some q \<Rightarrow> f q h)"

definition unlink_handle :: "'p \<Rightarrow> 'p ut_hash \<Rightarrow> 'p ut_hash" where
  "unlink_handle p h =
     (let h = unless_null (hh_prev h p) (\<lambda>q h. h\<lparr>hh_next := (hh_next h)(q := hh_next h p)\<rparr>) h
      in unless_null (hh_next h p) (\<lambda>q h. h\<lparr>hh_prev := (hh_prev h)(q := hh_prev h p)\<rparr>) h)"

definition hash_del_in_bkt :: "nat \<Rightarrow> 'p \<Rightarrow> 'p ut_hash \<Rightarrow> 'p ut_hash c_result" where
  "hash_del_in_bkt i p h =
     result_bind (the_table h) (\<lambda>t.
       result_bind (get_bucket (tbl_buckets t) i) (\<lambda>b.
         let b = b\<lparr>bkt_count := bkt_count b - 1\<rparr>;
             b = (if bkt_head b = Some p then b\<lparr>bkt_head := hh_next h p\<rparr> else b);
             h = unlink_handle p h
         in Inr (h\<lparr>uh_tbl := Some (t\<lparr>tbl_buckets := (tbl_buckets t)[i := b]\<rparr>)\<rparr>)))"

text \<open>The list in application order loses the element.\<close>

definition unlink_app :: "'p \<Rightarrow> 'p ut_hash \<Rightarrow> 'p ut_hash" where
  "unlink_app p h =
     (let h = (case app_prev h p of
                 Some q \<Rightarrow> h\<lparr>app_next := (app_next h)(q := app_next h p)\<rparr>
               | None \<Rightarrow> h\<lparr>uh_head := app_next h p\<rparr>)
      in unless_null (app_next h p) (\<lambda>q h. h\<lparr>app_prev := (app_prev h)(q := app_prev h p)\<rparr>) h)"

text \<open>The last element takes the table with it. If the deleted element is the tail of a longer table
  but has no predecessor, the new tail would be computed from NULL.\<close>

definition uthash_del :: "'p \<Rightarrow> 'p ut_hash \<Rightarrow> 'p ut_hash c_result" where
  "uthash_del p h =
     (if app_prev h p = None \<and> app_next h p = None then
        result_bind (the_table h) (\<lambda>_. Inr (h\<lparr>uh_head := None, uh_tbl := None\<rparr>))
      else
        result_bind (the_table h) (\<lambda>t.
          result_bind
            (if p = tbl_tail t then
               case app_prev h p of None \<Rightarrow> Inl Null_pointer | Some q \<Rightarrow> Inr (t\<lparr>tbl_tail := q\<rparr>)
             else Inr t)
            (\<lambda>t.
              let h = unlink_app p (h\<lparr>uh_tbl := Some t\<rparr>)
              in result_bind (hash_del_in_bkt (hash_to_bkt (hh_hashv h p) (num_buckets t)) p h) (\<lambda>h.
                   result_bind (the_table h) (\<lambda>t.
                     Inr (h\<lparr>uh_tbl := Some (t\<lparr>num_items := num_items t - 1\<rparr>)\<rparr>))))))"

section \<open>Counting, clearing and visiting\<close>

definition uthash_count :: "'p ut_hash \<Rightarrow> 32 word c_result" where
  "uthash_count h = (case uh_head h of None \<Rightarrow> Inr 0 | Some _ \<Rightarrow> result_bind (the_table h) (\<lambda>t. Inr (num_items t)))"

definition uthash_clear :: "'p ut_hash \<Rightarrow> 'p ut_hash c_result" where
  "uthash_clear h =
     (case uh_head h of None \<Rightarrow> Inr h
      | Some _ \<Rightarrow> result_bind (the_table h) (\<lambda>_. Inr (h\<lparr>uh_head := None, uh_tbl := None\<rparr>)))"

text \<open>\<open>HASH_ITER\<close>: the successor \<open>tmp\<close> of the visited element is known before the body runs, which may
  therefore delete the element. The body also works on a state \<open>s\<close> of the program.\<close>

partial_function (option) hash_iter_from ::
    "('p \<Rightarrow> 'p ut_hash \<times> 's \<Rightarrow> ('p ut_hash \<times> 's) c_result) \<Rightarrow> 'p option \<Rightarrow> 'p option \<Rightarrow>
     'p ut_hash \<times> 's \<Rightarrow> ('p ut_hash \<times> 's) c_result option" where
  "hash_iter_from body el tmp st =
     (case el of
        None \<Rightarrow> Some (Inr st)
      | Some p \<Rightarrow>
          (case body p st of
             Inl e \<Rightarrow> Some (Inl e)
           | Inr st' \<Rightarrow>
               hash_iter_from body tmp (case tmp of None \<Rightarrow> None | Some q \<Rightarrow> app_next (fst st') q) st'))"

definition hash_iter ::
    "('p \<Rightarrow> 'p ut_hash \<times> 's \<Rightarrow> ('p ut_hash \<times> 's) c_result) \<Rightarrow> 'p ut_hash \<times> 's \<Rightarrow>
     ('p ut_hash \<times> 's) c_result option" where
  "hash_iter body st =
     hash_iter_from body (uh_head (fst st))
       (case uh_head (fst st) of None \<Rightarrow> None | Some p \<Rightarrow> app_next (fst st) p) st"

text \<open>A body that may delete the element it visits, as the server does with messages that are complete or
  too old.\<close>

definition deleting_body :: "('p \<Rightarrow> 's \<Rightarrow> bool \<times> 's) \<Rightarrow> 'p \<Rightarrow> 'p ut_hash \<times> 's \<Rightarrow> ('p ut_hash \<times> 's) c_result" where
  "deleting_body act p = (\<lambda>(h, s).
     case act p s of (del, s') \<Rightarrow>
       if del then result_bind (uthash_del p h) (\<lambda>h. Inr (h, s')) else Inr (h, s'))"

section \<open>The integrity check\<close>

text \<open>\<open>HASH_FSCK\<close> ends the process if a link or a count is wrong.\<close>

partial_function (option) fsck_links ::
    "('p \<Rightarrow> 'p option) \<Rightarrow> ('p \<Rightarrow> 'p option) \<Rightarrow> 'p option \<Rightarrow> 'p option \<Rightarrow> 32 word \<Rightarrow> 32 word c_result option" where
  "fsck_links nx pv prv thh n =
     (case thh of
        None \<Rightarrow> Some (Inr n)
      | Some p \<Rightarrow>
          if prv \<noteq> pv p then Some (Inl (Exit (-1)))
          else fsck_links nx pv (Some p) (nx p) (n + 1))"

fun fsck_buckets :: "'p ut_hash \<Rightarrow> 'p ut_bucket list \<Rightarrow> nat list \<Rightarrow> 32 word \<Rightarrow> 32 word c_result option" where
  "fsck_buckets h bs [] n = Some (Inr n)"
| "fsck_buckets h bs (i # is) n =
     loop_bind (Some (get_bucket bs i)) (\<lambda>b.
       loop_bind (fsck_links (hh_next h) (hh_prev h) None (bkt_head b) 0) (\<lambda>m.
         if bkt_count b \<noteq> m then Some (Inl (Exit (-1)))
         else fsck_buckets h bs is (n + m)))"

definition hash_fsck :: "'p ut_hash \<Rightarrow> unit c_result option" where
  "hash_fsck h =
     (case uh_head h of
        None \<Rightarrow> Some (Inr ())
      | Some p \<Rightarrow>
          loop_bind (Some (the_table h)) (\<lambda>t.
            loop_bind (fsck_buckets h (tbl_buckets t) [0..<unat (num_buckets t)] 0) (\<lambda>n.
              if n \<noteq> num_items t then Some (Inl (Exit (-1)))
              else
                loop_bind (fsck_links (app_next h) (app_prev h) None (Some p) 0) (\<lambda>n.
                  if n \<noteq> num_items t then Some (Inl (Exit (-1))) else Some (Inr ())))))"

section \<open>Chains\<close>

definition chain :: "'p ut_hash \<Rightarrow> 'p ut_bucket \<Rightarrow> 'p list \<Rightarrow> bool" where
  "chain h b ps \<longleftrightarrow> distinct ps \<and> path (hh_next h) (bkt_head b) ps None \<and>
     rpath (hh_prev h) None ps \<and> bkt_count b = of_nat (length ps)"

text \<open>The elements that belong into a bucket, and buckets that hold the elements of a set.\<close>

definition bkt_elems :: "'p ut_hash \<Rightarrow> 32 word \<Rightarrow> 'p set \<Rightarrow> nat \<Rightarrow> 'p set" where
  "bkt_elems h num M i = {p \<in> M. hash_to_bkt (hh_hashv h p) num = i}"

definition chains_hold :: "'p ut_hash \<Rightarrow> 'p ut_bucket list \<Rightarrow> 32 word \<Rightarrow> 'p set \<Rightarrow> bool" where
  "chains_hold h bs num M \<longleftrightarrow> length bs = unat num \<and>
     (\<forall>i < length bs. \<exists>ps. chain h (bs ! i) ps \<and> set ps = bkt_elems h num M i)"

text \<open>What moving handles between chains leaves alone.\<close>

definition same_app :: "'p ut_hash \<Rightarrow> 'p ut_hash \<Rightarrow> bool" where
  "same_app h h' \<longleftrightarrow> uh_head h' = uh_head h \<and> app_next h' = app_next h \<and> app_prev h' = app_prev h \<and>
     hh_key h' = hh_key h \<and> hh_hashv h' = hh_hashv h"

lemma path_cong: "(\<And>x. x \<in> set xs \<Longrightarrow> nx' x = nx x) \<Longrightarrow> path nx' p xs q \<longleftrightarrow> path nx p xs q"
  by (induction xs arbitrary: p) auto

lemma rpath_cong: "(\<And>x. x \<in> set xs \<Longrightarrow> pv' x = pv x) \<Longrightarrow> rpath pv' q xs \<longleftrightarrow> rpath pv q xs"
  by (induction xs arbitrary: q) auto

lemma hash_to_bkt_less: "num \<noteq> 0 \<Longrightarrow> hash_to_bkt v num < unat num"
proof -
  assume num: "num \<noteq> 0"
  have "v AND (num - 1) \<le> num - 1" by (rule word_and_le1)
  then have "unat (v AND (num - 1)) \<le> unat (num - 1)" by (simp add: word_le_nat_alt)
  also have "unat (num - 1) < unat num" using num by (metis measure_unat)
  finally show ?thesis by (simp add: hash_to_bkt_def)
qed

lemma bkt_elems_simps [simp]:
  "bkt_elems h num (insert p M) i =
     (if hash_to_bkt (hh_hashv h p) num = i then insert p (bkt_elems h num M i) else bkt_elems h num M i)"
  "bkt_elems h num {} i = {}"
  by (auto simp: bkt_elems_def)

lemma bkt_elems_subset: "bkt_elems h num M i \<subseteq> M"
  by (auto simp: bkt_elems_def)

lemma bkt_elems_disjoint: "i \<noteq> j \<Longrightarrow> bkt_elems h num M i \<inter> bkt_elems h num M j = {}"
  by (auto simp: bkt_elems_def)

lemma link_front_simps [simp]:
  "uh_head (link_front p q h) = uh_head h" "uh_tbl (link_front p q h) = uh_tbl h"
  "app_next (link_front p q h) = app_next h" "app_prev (link_front p q h) = app_prev h"
  "hh_key (link_front p q h) = hh_key h" "hh_hashv (link_front p q h) = hh_hashv h"
  "hh_next (link_front p q h) = (hh_next h)(p := q)"
  by (simp_all add: link_front_def Let_def split: option.splits)

lemma hh_prev_link_front:
  "x \<noteq> p \<Longrightarrow> q \<noteq> Some x \<Longrightarrow> hh_prev (link_front p q h) x = hh_prev h x"
  by (auto simp: link_front_def Let_def split: option.splits)

lemma chain_link_front:
  assumes "chain h b ps" and "p \<notin> set ps"
  shows "chain (link_front p (bkt_head b) h) (b'\<lparr>bkt_head := Some p, bkt_count := bkt_count b + 1\<rparr>) (p # ps)"
  using assms by (cases ps) (auto simp: chain_def link_front_def Let_def path_simps)

lemma chain_other_link_front:
  assumes "chain h b ps" and "p \<notin> set ps" and "\<And>q. hd_hh = Some q \<Longrightarrow> q \<notin> set ps"
  shows "chain (link_front p hd_hh h) b ps"
proof -
  have "rpath (hh_prev (link_front p hd_hh h)) None ps = rpath (hh_prev h) None ps"
    using assms(2,3) by (intro rpath_cong hh_prev_link_front) auto
  with assms show ?thesis by (simp add: chain_def path_simps)
qed

lemma chain_head: "chain h b ps \<Longrightarrow> bkt_head b = Some q \<Longrightarrow> q \<in> set ps"
  by (cases ps) (auto simp: chain_def)

lemma chain_cong: "bkt_head b' = bkt_head b \<Longrightarrow> bkt_count b' = bkt_count b \<Longrightarrow> chain h b' ps = chain h b ps"
  by (simp add: chain_def)

lemma chains_hold_link_front:
  assumes hold: "chains_hold h bs num M" and p: "p \<notin> M"
    and i: "i = hash_to_bkt (hh_hashv h p) num" "i < length bs"
    and b': "bkt_head b' = Some p" "bkt_count b' = bkt_count (bs ! i) + 1"
  shows "chains_hold (link_front p (bkt_head (bs ! i)) h) (bs[i := b']) num (insert p M)"
proof -
  let ?h = "link_front p (bkt_head (bs ! i)) h"
  from hold i obtain ps where ps: "chain h (bs ! i) ps" "set ps = bkt_elems h num M i"
    by (auto simp: chains_hold_def)
  have elems: "bkt_elems ?h num (insert p M) j = bkt_elems h num (insert p M) j" for j
    by (simp add: bkt_elems_def)
  have "\<exists>qs. chain ?h (bs[i := b'] ! j) qs \<and> set qs = bkt_elems ?h num (insert p M) j"
    if j: "j < length bs" for j
  proof (cases "j = i")
    case True
    have "p \<notin> set ps" using p ps(2) bkt_elems_subset by fastforce
    from chain_link_front[OF ps(1) this, of b'] have "chain ?h b' (p # ps)"
      by (subst chain_cong[of b' "b'\<lparr>bkt_head := Some p, bkt_count := bkt_count (bs ! i) + 1\<rparr>"]) (simp_all add: b')
    then show ?thesis using True i ps(2) unfolding elems by (intro exI[of _ "p # ps"]) simp
  next
    case False
    from hold j obtain qs where qs: "chain h (bs ! j) qs" "set qs = bkt_elems h num M j"
      by (auto simp: chains_hold_def)
    have "p \<notin> set qs" using p qs(2) bkt_elems_subset by fastforce
    moreover have "q \<notin> set qs" if "bkt_head (bs ! i) = Some q" for q
      using chain_head[OF ps(1) that] ps(2) qs(2) bkt_elems_disjoint[of i j h num M] False by auto
    ultimately have "chain ?h (bs ! j) qs" by (rule chain_other_link_front[OF qs(1)])
    then show ?thesis using False i(1) qs(2) unfolding elems by (intro exI[of _ qs]) simp
  qed
  then show ?thesis using hold by (simp add: chains_hold_def)
qed

section \<open>Moving all elements into twice as many buckets\<close>

lemma rehash_handle_holds:
  assumes "chains_hold h bs num M" and "p \<notin> M" and "num \<noteq> 0" and "ideal \<noteq> 0"
  shows "\<exists>h' bs' n'. rehash_handle ideal num p (h, bs, n) = Inr (h', bs', n') \<and>
    chains_hold h' bs' num (insert p M) \<and> same_app h h' \<and> uh_tbl h' = uh_tbl h \<and>
    (\<forall>q. q \<noteq> p \<longrightarrow> hh_next h' q = hh_next h q)"
proof -
  let ?i = "hash_to_bkt (hh_hashv h p) num"
  have i: "?i < length bs"
    using hash_to_bkt_less[OF assms(3)] assms(1) by (auto simp: chains_hold_def)
  then show ?thesis
    using assms(4) chains_hold_link_front[OF assms(1,2) refl i]
    by (auto simp: rehash_handle_def get_bucket_def Let_def same_app_def)
qed

lemma rehash_chain_holds:
  assumes "chains_hold h bs num M" and "path (hh_next h) thh ps None" and "distinct ps"
    and "set ps \<inter> M = {}" and "num \<noteq> 0" and "ideal \<noteq> 0"
  shows "\<exists>h' bs' n'. rehash_chain ideal num thh (h, bs, n) = Some (Inr (h', bs', n')) \<and>
    chains_hold h' bs' num (M \<union> set ps) \<and> same_app h h' \<and> uh_tbl h' = uh_tbl h \<and>
    (\<forall>q. q \<notin> set ps \<longrightarrow> hh_next h' q = hh_next h q)"
  using assms(1-4)
proof (induction ps arbitrary: thh h bs n M)
  case Nil
  then show ?case by (subst rehash_chain.simps) (auto simp: same_app_def)
next
  case (Cons p ps)
  have thh: "thh = Some p" and pM: "p \<notin> M" using Cons.prems by auto
  from rehash_handle_holds[OF Cons.prems(1) pM assms(5,6), of n] obtain h' bs' n'
    where 1: "rehash_handle ideal num p (h, bs, n) = Inr (h', bs', n')"
      "chains_hold h' bs' num (insert p M)" "same_app h h'" "uh_tbl h' = uh_tbl h"
      "\<forall>q. q \<noteq> p \<longrightarrow> hh_next h' q = hh_next h q" by blast
  have "path (hh_next h') (hh_next h p) ps None = path (hh_next h) (hh_next h p) ps None"
    using Cons.prems(3) 1(5) by (intro path_cong) auto
  then have "path (hh_next h') (hh_next h p) ps None" using Cons.prems(2) by simp
  moreover have "distinct ps" "set ps \<inter> insert p M = {}" using Cons.prems by auto
  ultimately obtain h2 bs2 n2
    where 2: "rehash_chain ideal num (hh_next h p) (h', bs', n') = Some (Inr (h2, bs2, n2))"
      "chains_hold h2 bs2 num (insert p M \<union> set ps)" "same_app h' h2" "uh_tbl h2 = uh_tbl h'"
      "\<forall>q. q \<notin> set ps \<longrightarrow> hh_next h2 q = hh_next h' q"
    using Cons.IH[OF 1(2)] by blast
  have "rehash_chain ideal num thh (h, bs, n) = Some (Inr (h2, bs2, n2))"
    using thh 1(1) 2(1) by (subst rehash_chain.simps) simp
  moreover have "same_app h h2" using 1(3) 2(3) by (simp add: same_app_def)
  ultimately show ?case using 1 2 by (intro exI[of _ h2] exI[of _ bs2] exI[of _ n2]) simp
qed

lemma rehash_buckets_holds:
  assumes "chains_hold h bs num M" and "num \<noteq> 0" and "ideal \<noteq> 0" and "distinct is"
    and "\<And>i. i \<in> set is \<Longrightarrow> i < length old \<and> E i \<inter> M = {} \<and>
      (\<exists>ps. distinct ps \<and> path (hh_next h) (bkt_head (old ! i)) ps None \<and> set ps = E i)"
    and "\<And>i j. i \<noteq> j \<Longrightarrow> E i \<inter> E j = {}"
  shows "\<exists>h' bs' n'. rehash_buckets ideal num old is (h, bs, n) = Some (Inr (h', bs', n')) \<and>
    chains_hold h' bs' num (M \<union> (\<Union>i \<in> set is. E i)) \<and> same_app h h' \<and> uh_tbl h' = uh_tbl h"
  using assms(1,4,5)
proof (induction "is" arbitrary: h bs n M)
  case Nil
  then show ?case by (auto simp: same_app_def)
next
  case (Cons i "is")
  from Cons.prems(3)[of i] obtain ps where i: "i < length old" "E i \<inter> M = {}"
    and ps: "distinct ps" "path (hh_next h) (bkt_head (old ! i)) ps None" "set ps = E i" by auto
  from rehash_chain_holds[OF Cons.prems(1) ps(2,1) _ assms(2,3), of n] i(2) ps(3)
  obtain h1 bs1 n1 where 1: "rehash_chain ideal num (bkt_head (old ! i)) (h, bs, n) = Some (Inr (h1, bs1, n1))"
      "chains_hold h1 bs1 num (M \<union> E i)" "same_app h h1" "uh_tbl h1 = uh_tbl h"
      "\<forall>q. q \<notin> E i \<longrightarrow> hh_next h1 q = hh_next h q" by auto
  have others: "j < length old \<and> E j \<inter> (M \<union> E i) = {} \<and>
      (\<exists>ps. distinct ps \<and> path (hh_next h1) (bkt_head (old ! j)) ps None \<and> set ps = E j)"
    if j: "j \<in> set is" for j
  proof -
    have "j \<noteq> i" using Cons.prems(2) j by auto
    then have disj: "E j \<inter> E i = {}" by (rule assms(6))
    from Cons.prems(3)[of j] j obtain qs where qs: "j < length old" "E j \<inter> M = {}" "distinct qs"
      "path (hh_next h) (bkt_head (old ! j)) qs None" "set qs = E j" by auto
    have "path (hh_next h1) (bkt_head (old ! j)) qs None = path (hh_next h) (bkt_head (old ! j)) qs None"
      using 1(5) disj qs(5) by (intro path_cong) auto
    then show ?thesis using qs disj by blast
  qed
  have "distinct is" using Cons.prems(2) by simp
  from Cons.IH[OF 1(2) this others, of n1] obtain h2 bs2 n2
    where 2: "rehash_buckets ideal num old is (h1, bs1, n1) = Some (Inr (h2, bs2, n2))"
      "chains_hold h2 bs2 num (M \<union> E i \<union> (\<Union>i \<in> set is. E i))" "same_app h1 h2" "uh_tbl h2 = uh_tbl h1"
    by blast
  have "rehash_buckets ideal num old (i # is) (h, bs, n) = Some (Inr (h2, bs2, n2))"
    using i(1) 1(1) 2(1) by (simp add: get_bucket_def)
  moreover have "same_app h h2" using 1(3) 2(3) by (simp add: same_app_def)
  moreover have "M \<union> E i \<union> (\<Union>i \<in> set is. E i) = M \<union> (\<Union>i \<in> set (i # is). E i)" by auto
  ultimately show ?case using 1(4) 2(2,4) by (intro exI[of _ h2] exI[of _ bs2] exI[of _ n2]) simp
qed

text \<open>With at least one element and a power of two of buckets, the ideal length is not zero, so the
  division by it is defined.\<close>

definition size_ok :: "'p ut_table \<Rightarrow> bool" where
  "size_ok t \<longleftrightarrow> (\<exists>lb \<le> 30. num_buckets t = 2 ^ lb \<and> log2_num_buckets t = of_nat lb)"

lemma unat_exp: "n < 32 \<Longrightarrow> unat (2 ^ n :: 32 word) = 2 ^ n"
proof -
  assume "n < 32"
  then have "(2 :: nat) ^ n < 2 ^ 32" by (rule power_strict_increasing) simp
  then have "unat (word_of_nat (2 ^ n) :: 32 word) = 2 ^ n"
    by (subst unsigned_of_nat, subst take_bit_nat_eq_self) simp_all
  then show ?thesis by simp
qed

lemma size_ok_nonzero: "size_ok t \<Longrightarrow> num_buckets t \<noteq> 0"
proof
  assume "size_ok t" and zero: "num_buckets t = 0"
  then obtain lb where lb: "lb \<le> 30" "(0 :: 32 word) = 2 ^ lb" by (auto simp: size_ok_def)
  then have "unat (0 :: 32 word) = 2 ^ lb" using unat_exp[of lb] by simp
  then show False by simp
qed

lemma ceiling_div:
  assumes "0 < (b :: nat)"
  shows "(n + b - 1) div b = n div b + (if n mod b = 0 then 0 else 1)"
proof -
  define q r where "q = n div b" and "r = n mod b"
  have n: "n = q * b + r" "r < b" using assms by (simp_all add: q_def r_def)
  have "(n + b - 1) div b = q + (r + b - 1) div b"
    using assms n(1) div_mult_self1[of b "r + b - 1" q] by (simp add: ac_simps)
  also have "(r + b - 1) div b = (if r = 0 then 0 else 1)"
  proof (cases r)
    case (Suc r')
    then have "(r + b - 1) div b = (r' + b) div b" by simp
    then show ?thesis using Suc n(2) div_add_self2[of b r'] assms by simp
  qed (use assms in simp)
  finally show ?thesis by (simp add: q_def r_def)
qed

lemma ideal_maxlen_ceiling:
  assumes "size_ok t"
  shows "unat (ideal_maxlen t) = (unat (num_items t) + 2 * unat (num_buckets t) - 1) div (2 * unat (num_buckets t))"
proof -
  from assms obtain lb where lb: "lb \<le> 30" "num_buckets t = 2 ^ lb" "log2_num_buckets t = of_nat lb"
    by (auto simp: size_ok_def)
  let ?n = "unat (num_items t)" and ?d = "drop_bit (Suc lb) (num_items t)"
  have b: "2 * unat (num_buckets t) = 2 ^ Suc lb" using lb unat_exp[of lb] by simp
  have "unat (1 + word_of_nat lb :: 32 word) = Suc lb"
    using lb(1) by (simp add: unat_word_ariths unsigned_of_nat take_bit_nat_eq_self)
  then have log: "unat (log2_num_buckets t + 1) = Suc lb" using lb(3) by (simp add: add.commute)
  have mask: "num_buckets t * 2 - 1 = mask (Suc lb)" using lb(2) by (simp add: mask_eq_exp_minus_1)
  have lt: "?n < 2 ^ 32" by (rule order_less_le_trans[OF unsigned_less]) simp
  have "unat ?d = drop_bit (Suc lb) ?n"
    using lt by (subst unsigned_drop_bit_eq, subst take_bit_nat_eq_self) (simp_all del: drop_bit_Suc)
  then have d: "unat ?d = ?n div 2 ^ Suc lb" by (simp only: drop_bit_eq_div)
  have "?n div 2 ^ Suc lb \<le> ?n div 2" by (rule div_le_mono2) simp_all
  then have "unat ?d < 2 ^ 31" using lt unfolding d by simp
  then have plus: "unat (?d + 1) = unat ?d + 1" by (simp add: unat_word_ariths)
  have "unat (num_items t AND (num_buckets t * 2 - 1)) = ?n mod 2 ^ Suc lb"
    using lb(1) by (simp add: mask unsigned_take_bit_eq flip: take_bit_eq_mask take_bit_eq_mod del: take_bit_Suc power_Suc)
  then have "num_items t AND (num_buckets t * 2 - 1) = 0 \<longleftrightarrow> ?n mod 2 ^ Suc lb = 0"
    by (metis unsigned_0 unsigned_word_eqI)
  then have "unat (ideal_maxlen t) = ?n div 2 ^ Suc lb + (if ?n mod 2 ^ Suc lb = 0 then 0 else 1)"
    using plus d unfolding ideal_maxlen_def log by (auto simp del: power_Suc)
  then show ?thesis unfolding b by (simp only: ceiling_div zero_less_power zero_less_numeral)
qed

lemma ideal_maxlen_nonzero:
  assumes "size_ok t" and n: "num_items t \<noteq> 0"
  shows "ideal_maxlen t \<noteq> 0"
proof
  assume "ideal_maxlen t = 0"
  then have zero: "(unat (num_items t) + 2 * unat (num_buckets t) - 1) div (2 * unat (num_buckets t)) = 0"
    using ideal_maxlen_ceiling[OF assms(1)] by simp
  have "0 < unat (num_items t)" "0 < unat (num_buckets t)"
    using n size_ok_nonzero[OF assms(1)] by (simp_all add: unat_gt_0)
  with zero show False by (simp add: div_eq_0_iff)
qed

lemma chains_hold_congs [simp]:
  "chains_hold (h\<lparr>uh_tbl := t\<rparr>) = chains_hold h"
  "chains_hold (h\<lparr>uh_head := p\<rparr>) = chains_hold h"
  "chains_hold (h\<lparr>app_next := nx\<rparr>) = chains_hold h"
  "chains_hold (h\<lparr>app_prev := pv\<rparr>) = chains_hold h"
  "chains_hold (h\<lparr>hh_key := ky\<rparr>) = chains_hold h"
  by (simp_all add: fun_eq_iff chains_hold_def chain_def bkt_elems_def)

lemma chains_hold_empty: "chains_hold h (replicate (unat num) zero_bucket) num {}"
  by (simp add: chains_hold_def chain_def zero_bucket_def)

definition table_holds :: "'p ut_hash \<Rightarrow> 'p ut_table \<Rightarrow> 'p set \<Rightarrow> bool" where
  "table_holds h t M \<longleftrightarrow> size_ok t \<and> chains_hold h (tbl_buckets t) (num_buckets t) M"

lemma hash_expand_buckets_holds:
  assumes t: "table_holds h t M" and n: "num_items t \<noteq> 0" and mem: "\<not> mem (2 ^ 31)"
  shows "hash_expand_buckets mem t h = Some (Inl (Exit (-1))) \<or>
    (\<exists>h' t'. hash_expand_buckets mem t h = Some (Inr h') \<and> uh_tbl h' = Some t' \<and> same_app h h' \<and>
       table_holds h' t' M \<and> num_items t' = num_items t \<and> tbl_tail t' = tbl_tail t)"
proof (cases "mem (unat (2 * num_buckets t))")
  case False
  then show ?thesis by (simp add: hash_expand_buckets_def Let_def)
next
  case True
  let ?num = "num_buckets t * 2" and ?old = "tbl_buckets t"
  let ?E = "bkt_elems h (num_buckets t) M"
  from t obtain lb where lb: "lb \<le> 30" "num_buckets t = 2 ^ lb" "log2_num_buckets t = of_nat lb"
    by (auto simp: size_ok_def table_holds_def)
  have "lb \<noteq> 30" using True mem lb(2) by auto
  then have small: "Suc lb \<le> 30" using lb(1) by simp
  have "unat ?num = 2 ^ Suc lb" using unat_exp[of "Suc lb"] small lb(2) by (simp add: mult.commute)
  then have num: "?num \<noteq> 0" by (metis power_not_zero unsigned_0 zero_neq_numeral)
  have size: "size_ok (t\<lparr>num_buckets := ?num, log2_num_buckets := log2_num_buckets t + 1\<rparr>)"
    unfolding size_ok_def using small lb by (intro exI[of _ "Suc lb"]) (simp add: add.commute)
  have old: "length ?old = unat (num_buckets t)" using t by (simp add: table_holds_def chains_hold_def)
  have "\<exists>h' bs' n'. rehash_buckets (ideal_maxlen t) ?num ?old [0..<unat (num_buckets t)]
      (h, replicate (unat ?num) zero_bucket, 0) = Some (Inr (h', bs', n')) \<and>
    chains_hold h' bs' ?num ({} \<union> (\<Union>i \<in> set [0..<unat (num_buckets t)]. ?E i)) \<and> same_app h h' \<and> uh_tbl h' = uh_tbl h"
  proof (rule rehash_buckets_holds)
    fix i assume "i \<in> set [0..<unat (num_buckets t)]"
    then show "i < length ?old \<and> ?E i \<inter> {} = {} \<and>
        (\<exists>ps. distinct ps \<and> path (hh_next h) (bkt_head (?old ! i)) ps None \<and> set ps = ?E i)"
      using t old by (auto simp: table_holds_def chains_hold_def chain_def)
  next
    show "ideal_maxlen t \<noteq> 0" using t n ideal_maxlen_nonzero by (auto simp: table_holds_def)
  qed (simp_all add: chains_hold_empty num bkt_elems_disjoint)
  moreover have "(\<Union>i \<in> set [0..<unat (num_buckets t)]. ?E i) = M"
    using hash_to_bkt_less[OF size_ok_nonzero] t by (auto simp: bkt_elems_def table_holds_def)
  ultimately obtain h' bs' n' where "rehash_buckets (ideal_maxlen t) ?num ?old [0..<unat (num_buckets t)]
      (h, replicate (unat ?num) zero_bucket, 0) = Some (Inr (h', bs', n'))"
    "chains_hold h' bs' ?num M" "same_app h h'" by auto
  with True size show ?thesis
    by (auto simp: hash_expand_buckets_def Let_def table_holds_def size_ok_def same_app_def mult.commute)
qed

section \<open>What a hash table holds\<close>

text \<open>The abstract value is the association list of the keys and their elements in the order they were added.\<close>

definition hash_holds :: "'p ut_hash \<Rightarrow> (hash_key, 'p) hash \<Rightarrow> bool" where
  "hash_holds h m \<longleftrightarrow> distinct (map snd m) \<and> hash_ok m \<and>
     (\<forall>(k, p) \<in> set m. hh_key h p = k \<and> hh_hashv h p = hash_jen k) \<and>
     path (app_next h) (uh_head h) (map snd m) None \<and> rpath (app_prev h) None (map snd m) \<and>
     (m \<noteq> [] \<longrightarrow> length m < 2 ^ 32 \<and> (\<exists>t. uh_tbl h = Some t \<and> tbl_tail t = snd (last m) \<and>
        num_items t = of_nat (length m) \<and> table_holds h t (snd ` set m)))"

definition empty_hash :: "'p ut_hash \<Rightarrow> 'p ut_hash" where
  "empty_hash h = h\<lparr>uh_head := None, uh_tbl := None\<rparr>"

lemma hash_holds_empty: "hash_holds (empty_hash h) []"
  by (simp add: hash_holds_def empty_hash_def hash_ok_def)

lemma chains_hold_hashv [simp]:
  "p \<notin> M \<Longrightarrow> g = hh_hashv h \<Longrightarrow> chains_hold (h\<lparr>hh_hashv := g(p := v)\<rparr>) bs num M = chains_hold h bs num M"
proof -
  assume p: "p \<notin> M" "g = hh_hashv h"
  have "bkt_elems (h\<lparr>hh_hashv := g(p := v)\<rparr>) num M i = bkt_elems h num M i" for i
    using p by (auto simp: bkt_elems_def)
  then show ?thesis by (simp add: chains_hold_def chain_def)
qed

lemma hash_add_to_bkt_holds:
  assumes t: "uh_tbl h = Some t" "table_holds h t M" and p: "p \<notin> M"
    and n: "num_items t \<noteq> 0 \<or>
      bkt_count (tbl_buckets t ! i) + 1 < (bkt_expand_mult (tbl_buckets t ! i) + 1) * 10"
    and mem: "\<not> mem (2 ^ 31)" and i: "i = hash_to_bkt (hh_hashv h p) (num_buckets t)"
  shows "hash_add_to_bkt mem i p h = Some (Inl (Exit (-1))) \<or>
    (\<exists>h' t'. hash_add_to_bkt mem i p h = Some (Inr h') \<and> uh_tbl h' = Some t' \<and> same_app h h' \<and>
       table_holds h' t' (insert p M) \<and> num_items t' = num_items t \<and> tbl_tail t' = tbl_tail t)"
proof -
  let ?b = "tbl_buckets t ! i"
  let ?b' = "?b\<lparr>bkt_count := bkt_count ?b + 1, bkt_head := Some p\<rparr>"
  let ?t = "t\<lparr>tbl_buckets := (tbl_buckets t)[i := ?b']\<rparr>"
  let ?h = "(link_front p (bkt_head ?b) h)\<lparr>uh_tbl := Some ?t\<rparr>"
  have size: "size_ok t" and chains: "chains_hold h (tbl_buckets t) (num_buckets t) M"
    using t(2) by (auto simp: table_holds_def)
  have len: "i < length (tbl_buckets t)"
    using hash_to_bkt_less[OF size_ok_nonzero[OF size]] chains i by (simp add: chains_hold_def)
  have "size_ok ?t" using size by (simp add: size_ok_def)
  moreover have "chains_hold ?h (tbl_buckets ?t) (num_buckets ?t) (insert p M)"
    using chains_hold_link_front[OF chains p i len, of ?b'] by simp
  ultimately have table: "table_holds ?h ?t (insert p M)" by (simp add: table_holds_def)
  have same: "same_app h ?h" by (simp add: same_app_def)
  show ?thesis
  proof (cases "bkt_count ?b + 1 \<ge> (bkt_expand_mult ?b + 1) * 10 \<and> noexpand t \<noteq> 1")
    case False
    then have "hash_add_to_bkt mem i p h = Some (Inr ?h)"
      using t(1) len by (auto simp: hash_add_to_bkt_def the_table_def get_bucket_def Let_def)
    with table same show ?thesis by (intro disjI2 exI[of _ ?h] exI[of _ ?t]) simp
  next
    case True
    then have "hash_add_to_bkt mem i p h = hash_expand_buckets mem ?t ?h"
      using t(1) len by (simp add: hash_add_to_bkt_def the_table_def get_bucket_def Let_def)
    moreover have "num_items ?t \<noteq> 0" using n True by (auto simp: not_less[symmetric])
    ultimately show ?thesis
      using hash_expand_buckets_holds[OF table, of mem] mem same by (auto simp: same_app_def)
  qed
qed

lemma unat_of_small: "n < 2 ^ 32 \<Longrightarrow> unat (word_of_nat n :: 32 word) = n"
  by (simp add: unsigned_of_nat take_bit_nat_eq_self)

text \<open>Once the element is linked in application order and counted, its bucket follows.\<close>

lemma hash_add_to_bkt_completes:
  assumes m': "m' = m @ [(k, p)]" "distinct (map snd m')" "hash_ok m'"
      "\<forall>(k, p) \<in> set m'. hh_key h p = k \<and> hh_hashv h p = hash_jen k" "length m' < 2 ^ 32"
    and app: "path (app_next h) (uh_head h) (map snd m') None" "rpath (app_prev h) None (map snd m')"
    and t: "uh_tbl h = Some t" "tbl_tail t = p" "num_items t = of_nat (length m')" "table_holds h t (snd ` set m)"
    and mem: "\<not> mem (2 ^ 31)"
  shows "hash_add_to_bkt mem (hash_to_bkt (hash_jen k) (num_buckets t)) p h = Some (Inl (Exit (-1))) \<or>
    (\<exists>h'. hash_add_to_bkt mem (hash_to_bkt (hash_jen k) (num_buckets t)) p h = Some (Inr h') \<and> hash_holds h' m')"
proof -
  have "num_items t \<noteq> 0"
    using unat_of_small[OF m'(5)] unfolding t(3) m'(1) by (metis length_append_singleton nat.distinct(1) unsigned_0)
  moreover have "p \<notin> snd ` set m" using m'(1,2) by auto
  moreover have "hash_to_bkt (hash_jen k) (num_buckets t) = hash_to_bkt (hh_hashv h p) (num_buckets t)"
    using m'(1,4) by simp
  ultimately have "hash_add_to_bkt mem (hash_to_bkt (hash_jen k) (num_buckets t)) p h = Some (Inl (Exit (-1))) \<or>
    (\<exists>h' t'. hash_add_to_bkt mem (hash_to_bkt (hash_jen k) (num_buckets t)) p h = Some (Inr h') \<and>
       uh_tbl h' = Some t' \<and> same_app h h' \<and> table_holds h' t' (insert p (snd ` set m)) \<and>
       num_items t' = num_items t \<and> tbl_tail t' = tbl_tail t)"
    using hash_add_to_bkt_holds[OF t(1,4)] mem by blast
  moreover have "insert p (snd ` set m) = snd ` set m'" using m'(1) by simp
  ultimately show ?thesis
    using m' app t by (elim disjE exE conjE) (simp_all add: hash_holds_def same_app_def)
qed

lemma path_head: "path nx p xs None \<Longrightarrow> p = None \<longleftrightarrow> xs = []"
  by (cases xs) auto

lemma uthash_add_holds:
  assumes m: "hash_holds h m" and k: "k \<notin> set (hash_keys m)" and p: "p \<notin> snd ` set m"
    and len: "length m < 2 ^ 32 - 1" and mem: "\<not> mem (2 ^ 31)"
  shows "uthash_add mem k p h = Some (Inl (Exit (-1))) \<or>
    (\<exists>h'. uthash_add mem k p h = Some (Inr h') \<and> hash_holds h' (hash_add m k p))"
proof -
  let ?m = "m @ [(k, p)]"
  have m': "distinct (map snd ?m)" "hash_ok ?m" "length ?m < 2 ^ 32"
    using m k p len by (auto simp: hash_holds_def hash_ok_def hash_keys_def)
  have np: "(a, p) \<notin> set m" for a using p by force
  have fields: "\<forall>(k', p') \<in> set ?m. ((hh_key h)(p := k)) p' = k' \<and> ((hh_hashv h)(p := hash_jen k)) p' = hash_jen k'"
    using m np by (auto simp: hash_holds_def)
  show ?thesis
  proof (cases "m = []")
    case True
    let ?t = "\<lparr>tbl_buckets = replicate 32 zero_bucket, num_buckets = 32, log2_num_buckets = 5,
        num_items = 1, tbl_tail = p, ideal_chain_maxlen = 0, nonideal_items = 0,
        ineff_expands = 0, noexpand = 0\<rparr>"
    let ?h = "h\<lparr>app_next := (app_next h)(p := None), hh_key := (hh_key h)(p := k), uh_head := Some p,
      app_prev := (app_prev h)(p := None), uh_tbl := Some ?t, hh_hashv := (hh_hashv h)(p := hash_jen k)\<rparr>"
    have "size_ok ?t" unfolding size_ok_def by (intro exI[of _ 5]) simp
    moreover have "chains_hold ?h (replicate 32 zero_bucket) 32 {}"
      using chains_hold_empty[of ?h 32] by simp
    ultimately have "table_holds ?h ?t (snd ` set m)" using True by (simp add: table_holds_def)
    then have "hash_add_to_bkt mem (hash_to_bkt (hash_jen k) 32) p ?h = Some (Inl (Exit (-1))) \<or>
      (\<exists>h'. hash_add_to_bkt mem (hash_to_bkt (hash_jen k) 32) p ?h = Some (Inr h') \<and> hash_holds h' ?m)"
      using hash_add_to_bkt_completes[OF refl m'(1,2) _ m'(3), of ?h ?t mem] fields True mem by simp
    moreover have "uh_head h = None" using m True by (simp add: hash_holds_def)
    ultimately show ?thesis
      by (auto simp: uthash_add_def hash_make_table_def hash_add_def Let_def)
  next
    case False
    with m obtain t where t: "uh_tbl h = Some t" "tbl_tail t = snd (last m)"
      "num_items t = of_nat (length m)" "table_holds h t (snd ` set m)" by (auto simp: hash_holds_def)
    from False obtain m0 k0 q where m0: "m = m0 @ [(k0, q)]" by (metis rev_exhaust surj_pair)
    then have q: "tbl_tail t = q" "q \<noteq> p" "q \<notin> snd ` set m0"
      using t(2) p m by (auto simp: hash_holds_def)
    let ?t = "t\<lparr>tbl_tail := p, num_items := num_items t + 1\<rparr>"
    let ?h = "h\<lparr>hh_key := (hh_key h)(p := k), app_next := (app_next h)(p := None, q := Some p),
      app_prev := (app_prev h)(p := Some q), uh_tbl := Some ?t, hh_hashv := (hh_hashv h)(p := hash_jen k)\<rparr>"
    have "table_holds ?h ?t (snd ` set m)" using t(4) p by (simp add: table_holds_def size_ok_def)
    moreover have "path (app_next ?h) (uh_head ?h) (map snd ?m) None" "rpath (app_prev ?h) None (map snd ?m)"
      using m m0 p q by (auto simp: hash_holds_def path_simps)
    ultimately have "hash_add_to_bkt mem (hash_to_bkt (hash_jen k) (num_buckets t)) p ?h = Some (Inl (Exit (-1))) \<or>
      (\<exists>h'. hash_add_to_bkt mem (hash_to_bkt (hash_jen k) (num_buckets t)) p ?h = Some (Inr h') \<and> hash_holds h' ?m)"
      using hash_add_to_bkt_completes[OF refl m'(1,2) _ m'(3), of ?h ?t mem] fields t(3) mem by (simp add: add.commute)
    moreover obtain hd where "uh_head h = Some hd"
      using m False path_head by (fastforce simp: hash_holds_def)
    ultimately show ?thesis
      using t(1) q by (simp add: uthash_add_def the_table_def hash_add_def Let_def)
  qed
qed

section \<open>Deleting keeps the table\<close>

lemma unlink_handle_simps [simp]:
  "uh_head (unlink_handle p h) = uh_head h" "uh_tbl (unlink_handle p h) = uh_tbl h"
  "app_next (unlink_handle p h) = app_next h" "app_prev (unlink_handle p h) = app_prev h"
  "hh_key (unlink_handle p h) = hh_key h" "hh_hashv (unlink_handle p h) = hh_hashv h"
  by (simp_all add: unlink_handle_def unless_null_def Let_def split: option.splits)

lemma unlink_handle_other:
  "hh_prev h p \<noteq> Some x \<Longrightarrow> hh_next (unlink_handle p h) x = hh_next h x"
  "hh_next h p \<noteq> Some x \<Longrightarrow> hh_prev h p \<noteq> Some p \<Longrightarrow> hh_prev (unlink_handle p h) x = hh_prev h x"
  by (auto simp: unlink_handle_def unless_null_def Let_def split: option.splits)

text \<open>Taking one node out of a doubly linked path.\<close>

lemma path_around:
  assumes "path nx h (us @ p # vs) None" and "rpath pv None (us @ p # vs)"
  shows "pv p = (if us = [] then None else Some (last us))"
    "nx p = (if vs = [] then None else Some (hd vs))"
    "h = (if us = [] then Some p else Some (hd us))"
  using assms path_start[of nx "nx p" vs None] path_start[of nx h us "Some p"]
  by (auto simp: path_simps)

lemma path_remove:
  assumes "path nx h (us @ p # vs) None" and "rpath pv None (us @ p # vs)" and d: "distinct (us @ p # vs)"
  shows "path (case pv p of None \<Rightarrow> nx | Some q \<Rightarrow> nx(q := nx p)) (if us = [] then nx p else h) (us @ vs) None"
    "rpath (case nx p of None \<Rightarrow> pv | Some q \<Rightarrow> pv(q := pv p)) None (us @ vs)"
proof -
  note around = path_around[OF assms(1,2)]
  show "path (case pv p of None \<Rightarrow> nx | Some q \<Rightarrow> nx(q := nx p)) (if us = [] then nx p else h) (us @ vs) None"
    using assms around by (cases us rule: rev_cases) (auto simp: path_simps)
  show "rpath (case nx p of None \<Rightarrow> pv | Some q \<Rightarrow> pv(q := pv p)) None (us @ vs)"
    using assms around by (cases vs) (auto simp: path_simps)
qed

lemma chain_split:
  assumes "chain h b (us @ p # vs)"
  shows "hh_prev h p = (if us = [] then None else Some (last us))"
    "hh_next h p = (if vs = [] then None else Some (hd vs))"
    "bkt_head b = (if us = [] then Some p else Some (hd us))"
  using assms path_around[of "hh_next h" "bkt_head b" us p vs "hh_prev h"] by (auto simp: chain_def)

lemma chain_unlink:
  assumes c: "chain h b (us @ p # vs)"
  shows "chain (unlink_handle p h)
    (b\<lparr>bkt_count := bkt_count b - 1, bkt_head := (if bkt_head b = Some p then hh_next h p else bkt_head b)\<rparr>) (us @ vs)"
proof -
  note s = chain_split[OF c]
  have d: "distinct (us @ p # vs)" using c by (simp add: chain_def)
  have "p \<notin> set us" using d by simp
  then have hd: "bkt_head b = Some p \<longleftrightarrow> us = []" using s(3) by (cases us) auto
  have "hh_prev h p \<noteq> Some p" using s(1) d by (auto split: if_splits)
  then have "hh_next (unlink_handle p h) = (case hh_prev h p of None \<Rightarrow> hh_next h | Some q \<Rightarrow> (hh_next h)(q := hh_next h p))"
    "hh_prev (unlink_handle p h) = (case hh_next h p of None \<Rightarrow> hh_prev h | Some q \<Rightarrow> (hh_prev h)(q := hh_prev h p))"
    by (auto simp: unlink_handle_def unless_null_def Let_def split: option.splits)
  with path_remove[of "hh_next h" "bkt_head b" us p vs "hh_prev h"] c hd show ?thesis
    by (simp add: chain_def)
qed

lemma unlink_app_paths:
  assumes "path (app_next h) (uh_head h) (us @ p # vs) None" and "rpath (app_prev h) None (us @ p # vs)"
    and "distinct (us @ p # vs)"
  shows "path (app_next (unlink_app p h)) (uh_head (unlink_app p h)) (us @ vs) None"
    "rpath (app_prev (unlink_app p h)) None (us @ vs)"
proof -
  note s = path_around[OF assms(1,2)]
  have "app_prev h p \<noteq> Some p" using s(1) assms(3) by (auto split: if_splits)
  then have "app_next (unlink_app p h) = (case app_prev h p of None \<Rightarrow> app_next h | Some q \<Rightarrow> (app_next h)(q := app_next h p))"
    "app_prev (unlink_app p h) = (case app_next h p of None \<Rightarrow> app_prev h | Some q \<Rightarrow> (app_prev h)(q := app_prev h p))"
    "uh_head (unlink_app p h) = (if us = [] then app_next h p else uh_head h)"
    using s(1) by (auto simp: unlink_app_def unless_null_def Let_def split: option.splits)
  with path_remove[OF assms] show "path (app_next (unlink_app p h)) (uh_head (unlink_app p h)) (us @ vs) None"
    "rpath (app_prev (unlink_app p h)) None (us @ vs)" by simp_all
qed

lemma chain_other_unlink:
  assumes "chain h b qs" and "chain h b' (us @ p # vs)" and "set qs \<inter> set (us @ p # vs) = {}"
  shows "chain (unlink_handle p h) b qs"
proof -
  note s = chain_split[OF assms(2)]
  have d: "distinct (us @ p # vs)" using assms(2) by (simp add: chain_def)
  have "hh_prev h p \<noteq> Some x" "hh_next h p \<noteq> Some x" if "x \<in> set qs" for x
    using s that assms(3) by (auto split: if_splits)
  moreover have "hh_prev h p \<noteq> Some p" using s d by (auto split: if_splits)
  ultimately have "path (hh_next (unlink_handle p h)) (bkt_head b) qs None = path (hh_next h) (bkt_head b) qs None"
    "rpath (hh_prev (unlink_handle p h)) None qs = rpath (hh_prev h) None qs"
    by (auto intro!: path_cong rpath_cong simp: unlink_handle_other)
  with assms(1) show ?thesis by (simp add: chain_def)
qed

lemma hash_del_in_bkt_holds:
  assumes t: "uh_tbl h = Some t" "table_holds h t M" and p: "p \<in> M"
    and i: "i = hash_to_bkt (hh_hashv h p) (num_buckets t)"
  shows "\<exists>h' bs. hash_del_in_bkt i p h = Inr h' \<and> uh_tbl h' = Some (t\<lparr>tbl_buckets := bs\<rparr>) \<and>
    same_app h h' \<and> table_holds h' (t\<lparr>tbl_buckets := bs\<rparr>) (M - {p})"
proof -
  let ?b = "tbl_buckets t ! i" and ?n = "num_buckets t"
  let ?b' = "?b\<lparr>bkt_count := bkt_count ?b - 1, bkt_head := (if bkt_head ?b = Some p then hh_next h p else bkt_head ?b)\<rparr>"
  let ?bs = "(tbl_buckets t)[i := ?b']" and ?h = "unlink_handle p h"
  have size: "size_ok t" and chains: "chains_hold h (tbl_buckets t) ?n M"
    using t(2) by (auto simp: table_holds_def)
  have len: "i < length (tbl_buckets t)"
    using hash_to_bkt_less[OF size_ok_nonzero[OF size]] chains i by (simp add: chains_hold_def)
  with chains obtain ps where ps: "chain h ?b ps" "set ps = bkt_elems h ?n M i"
    by (auto simp: chains_hold_def)
  have "p \<in> set ps" using p i ps(2) by (simp add: bkt_elems_def)
  then obtain us vs where uv: "ps = us @ p # vs" by (meson split_list)
  have elems: "bkt_elems ?h ?n (M - {p}) j = bkt_elems h ?n M j - {p}" for j by (auto simp: bkt_elems_def)
  have "\<exists>qs. chain ?h (?bs ! j) qs \<and> set qs = bkt_elems ?h ?n (M - {p}) j" if j: "j < length ?bs" for j
  proof (cases "j = i")
    case True
    have "set (us @ vs) = bkt_elems h ?n M i - {p}"
      using ps(1) uv unfolding ps(2)[symmetric] by (auto simp: chain_def)
    then show ?thesis
      using chain_unlink[of h ?b us p vs] ps(1) uv True len unfolding elems by (intro exI[of _ "us @ vs"]) simp
  next
    case False
    then obtain qs where qs: "chain h (tbl_buckets t ! j) qs" "set qs = bkt_elems h ?n M j"
      using chains j by (auto simp: chains_hold_def)
    have disj: "set qs \<inter> set ps = {}" using bkt_elems_disjoint[OF False, of h ?n M] qs(2) ps(2) by simp
    then have "chain ?h (tbl_buckets t ! j) qs" using chain_other_unlink[OF qs(1) ps(1)[unfolded uv]] uv by simp
    moreover have "p \<notin> set qs" using disj uv by auto
    ultimately show ?thesis using False qs(2) unfolding elems by (intro exI[of _ qs]) simp
  qed
  then have "chains_hold ?h ?bs ?n (M - {p})" using chains by (simp add: chains_hold_def)
  then have "table_holds (?h\<lparr>uh_tbl := Some (t\<lparr>tbl_buckets := ?bs\<rparr>)\<rparr>) (t\<lparr>tbl_buckets := ?bs\<rparr>) (M - {p})"
    using size by (simp add: table_holds_def size_ok_def)
  moreover have "hash_del_in_bkt i p h = Inr (?h\<lparr>uh_tbl := Some (t\<lparr>tbl_buckets := ?bs\<rparr>)\<rparr>)"
    using t(1) len by (simp add: hash_del_in_bkt_def the_table_def get_bucket_def Let_def)
  ultimately show ?thesis
    by (intro exI[of _ "?h\<lparr>uh_tbl := Some (t\<lparr>tbl_buckets := ?bs\<rparr>)\<rparr>"] exI[of _ ?bs]) (simp add: same_app_def)
qed

definition remove_elem :: "'p \<Rightarrow> (hash_key, 'p) hash \<Rightarrow> (hash_key, 'p) hash" where
  "remove_elem p m = filter (\<lambda>(k, q). q \<noteq> p) m"

text \<open>Which is deletion by key.\<close>

lemma remove_elem_hash_del:
  assumes "hash_holds h m" and "(k, p) \<in> set m"
  shows "remove_elem p m = hash_del m k"
proof -
  have "q = p \<longleftrightarrow> k' = k" if "(k', q) \<in> set m" for k' q
    using assms that unfolding hash_holds_def hash_ok_def hash_keys_def distinct_map inj_on_def by fastforce
  then show ?thesis unfolding remove_elem_def hash_del_def by (intro filter_cong refl) auto
qed

lemma remove_elem_split:
  assumes "m = us @ (k, p) # vs" and "distinct (map snd m)"
  shows "remove_elem p m = us @ vs"
proof -
  have "filter (\<lambda>(k, q). q \<noteq> p) us = us" "filter (\<lambda>(k, q). q \<noteq> p) vs = vs"
    using assms by (force simp: filter_id_conv)+
  then show ?thesis using assms(1) by (simp add: remove_elem_def)
qed

lemma unlink_app_simps [simp]:
  "uh_tbl (unlink_app p h) = uh_tbl h" "hh_next (unlink_app p h) = hh_next h" "hh_prev (unlink_app p h) = hh_prev h"
  "hh_key (unlink_app p h) = hh_key h" "hh_hashv (unlink_app p h) = hh_hashv h"
  by (simp_all add: unlink_app_def unless_null_def Let_def split: option.splits)

lemma chains_hold_unlink_app [simp]: "chains_hold (unlink_app p h) = chains_hold h"
  by (simp add: fun_eq_iff chains_hold_def chain_def bkt_elems_def)

lemma unlink_app_tbl [simp]: "unlink_app p (h\<lparr>uh_tbl := t\<rparr>) = (unlink_app p h)\<lparr>uh_tbl := t\<rparr>"
  by (simp add: unlink_app_def unless_null_def Let_def split: option.splits)

text \<open>If other elements remain, all parts are updated.\<close>

lemma uthash_del_some_left:
  assumes m: "hash_holds h m" "m = us @ (k, p) # vs" and more: "us @ vs \<noteq> []"
  shows "\<exists>h'. uthash_del p h = Inr h' \<and> hash_holds h' (us @ vs)"
proof -
  let ?us = "map snd us" and ?vs = "map snd vs"
  have app: "path (app_next h) (uh_head h) (?us @ p # ?vs) None" "rpath (app_prev h) None (?us @ p # ?vs)"
    "distinct (?us @ p # ?vs)" using m by (auto simp: hash_holds_def)
  note around = path_around[OF app(1,2)] and unlinked = unlink_app_paths[OF app]
  from m obtain t where t: "uh_tbl h = Some t" "tbl_tail t = snd (last m)" "num_items t = of_nat (length m)"
    "table_holds h t (snd ` set m)" "length m < 2 ^ 32" by (auto simp: hash_holds_def)
  define t1 where "t1 = (if p = tbl_tail t then t\<lparr>tbl_tail := snd (last us)\<rparr> else t)"
  have tail: "p = tbl_tail t \<longleftrightarrow> vs = []"
    using app(3) t(2) m(2) by (cases vs rule: rev_cases) auto
  have tail1: "tbl_tail t1 = snd (last (us @ vs))" and items1: "num_items t1 = of_nat (length m)"
    and bkts: "num_buckets t1 = num_buckets t"
    using t(2,3) tail more m(2) by (auto simp: t1_def)
  let ?h1 = "(unlink_app p h)\<lparr>uh_tbl := Some t1\<rparr>"
  have table: "table_holds ?h1 t1 (snd ` set m)"
    using t(4) by (auto simp: table_holds_def t1_def size_ok_def)
  have "p \<in> snd ` set m" using m(2) by simp
  from hash_del_in_bkt_holds[OF _ table this refl] obtain h' bs where h':
    "hash_del_in_bkt (hash_to_bkt (hh_hashv h p) (num_buckets t)) p ?h1 = Inr h'"
    "uh_tbl h' = Some (t1\<lparr>tbl_buckets := bs\<rparr>)" "same_app ?h1 h'"
    "table_holds h' (t1\<lparr>tbl_buckets := bs\<rparr>) (snd ` set m - {p})" by (auto simp: bkts)
  let ?t = "t1\<lparr>tbl_buckets := bs, num_items := num_items t1 - 1\<rparr>"
  have prev: "app_prev h p = (if us = [] then None else Some (snd (last us)))"
    using around(1) by (simp add: last_map)
  have "app_prev h p \<noteq> None \<or> app_next h p \<noteq> None" using around(1,2) more by auto
  moreover have "(if p = tbl_tail t then case app_prev h p of None \<Rightarrow> Inl Null_pointer | Some q \<Rightarrow> Inr (t\<lparr>tbl_tail := q\<rparr>)
      else Inr t) = Inr t1"
    using tail more prev by (auto simp: t1_def)
  ultimately have "uthash_del p h = Inr (h'\<lparr>uh_tbl := Some ?t\<rparr>)"
    using h'(1,2) t(1) bkts by (auto simp: uthash_del_def the_table_def)
  moreover have "snd ` set m - {p} = snd ` set (us @ vs)" using m(2) app(3) by auto
  moreover have "num_items ?t = of_nat (length (us @ vs))" using items1 m(2) by simp
  moreover have "distinct (map snd (us @ vs))" "hash_ok (us @ vs)"
    "\<forall>(k, p) \<in> set (us @ vs). hh_key h p = k \<and> hh_hashv h p = hash_jen k" "length (us @ vs) < 2 ^ 32"
    using m t(5) by (auto simp: hash_holds_def hash_ok_def hash_keys_def)
  ultimately show ?thesis
    using unlinked h'(3,4) tail1
    by (intro exI[of _ "h'\<lparr>uh_tbl := Some ?t\<rparr>"])
      (simp add: hash_holds_def same_app_def table_holds_def size_ok_def)
qed

lemma uthash_del_holds:
  assumes m: "hash_holds h m" and p: "p \<in> snd ` set m"
  shows "\<exists>h'. uthash_del p h = Inr h' \<and> hash_holds h' (remove_elem p m)"
proof -
  from p obtain k where "(k, p) \<in> set m" by auto
  then obtain us vs where uv: "m = us @ (k, p) # vs" by (meson split_list)
  have rm: "remove_elem p m = us @ vs" using remove_elem_split[OF uv] m by (simp add: hash_holds_def)
  show ?thesis
  proof (cases "us @ vs = []")
    case False
    with uthash_del_some_left[OF m uv] rm show ?thesis by simp
  next
    case True
    then have "app_prev h p = None" "app_next h p = None" "\<exists>t. uh_tbl h = Some t"
      using m uv by (auto simp: hash_holds_def)
    then have "uthash_del p h = Inr (empty_hash h)"
      by (auto simp: uthash_del_def the_table_def empty_hash_def)
    with rm True show ?thesis by (simp add: hash_holds_empty)
  qed
qed

section \<open>Finding, counting, checking and visiting what a table holds\<close>

lemma hash_find_in_bkt_path:
  "path nx hd_hh ps None \<Longrightarrow> hash_find_in_bkt ky nx k hd_hh = Some (find (\<lambda>p. ky p = k) ps)"
proof (induction ps arbitrary: hd_hh)
  case Nil
  then show ?case by (subst hash_find_in_bkt.simps) simp
next
  case (Cons p ps)
  have "length (ky p) = length k \<and> take (length k) (ky p) = k \<longleftrightarrow> ky p = k" by auto
  with Cons show ?case by (subst hash_find_in_bkt.simps) simp
qed

lemma find_unique: "p \<in> set ps \<Longrightarrow> P p \<Longrightarrow> (\<And>q. q \<in> set ps \<Longrightarrow> P q \<Longrightarrow> q = p) \<Longrightarrow> find P ps = Some p"
proof (induction ps)
  case (Cons a ps)
  show ?case
  proof (cases "P a")
    case True
    with Cons.prems(3)[of a] show ?thesis by simp
  next
    case False
    with Cons.prems(1,2) have "p \<in> set ps" by auto
    moreover have "\<And>q. q \<in> set ps \<Longrightarrow> P q \<Longrightarrow> q = p" by (rule Cons.prems(3)) auto
    ultimately have "find P ps = Some p" using Cons.prems(2) by (intro Cons.IH)
    with False show ?thesis by simp
  qed
qed simp

lemma hash_holds_head: "hash_holds h m \<Longrightarrow> uh_head h = (if m = [] then None else Some (snd (hd m)))"
  by (cases m) (auto simp: hash_holds_def)

lemma uthash_find_holds:
  assumes m: "hash_holds h m"
  shows "uthash_find h k = Some (Inr (hash_find m k))"
proof (cases "m = []")
  case True
  with hash_holds_head[OF m] show ?thesis by (simp add: uthash_find_def hash_find_def)
next
  case False
  with m obtain t where t: "uh_tbl h = Some t" "table_holds h t (snd ` set m)" by (auto simp: hash_holds_def)
  let ?i = "hash_to_bkt (hash_jen k) (num_buckets t)"
  have i: "?i < length (tbl_buckets t)"
    using t(2) hash_to_bkt_less[OF size_ok_nonzero] by (auto simp: table_holds_def chains_hold_def)
  then obtain ps where ps: "chain h (tbl_buckets t ! ?i) ps" "set ps = bkt_elems h (num_buckets t) (snd ` set m) ?i"
    using t(2) by (auto simp: table_holds_def chains_hold_def)
  have key: "hh_key h q = k' \<and> hh_hashv h q = hash_jen k'" if "(k', q) \<in> set m" for k' q
    using m that by (auto simp: hash_holds_def)
  have "find (\<lambda>p. hh_key h p = k) ps = map_of m k"
  proof (cases "map_of m k")
    case None
    have "hh_key h p \<noteq> k" if p: "p \<in> set ps" for p
    proof -
      from p ps(2) obtain k' where "(k', p) \<in> set m" by (auto simp: bkt_elems_def)
      with key None show ?thesis by (auto simp: map_of_eq_None_iff image_iff)
    qed
    then show ?thesis using None by (simp add: find_None_iff)
  next
    case (Some p)
    then have kp: "(k, p) \<in> set m" by (rule map_of_SomeD)
    have "q = p" if "q \<in> set ps" "hh_key h q = k" for q
    proof -
      from that ps(2) obtain k' where "(k', q) \<in> set m" by (auto simp: bkt_elems_def)
      with key that(2) have "(k, q) \<in> set m" by auto
      with m Some show ?thesis by (simp add: hash_holds_def hash_ok_def hash_keys_def)
    qed
    moreover have "p \<in> set ps" using kp key ps(2) by (force simp: bkt_elems_def)
    ultimately have "find (\<lambda>p. hh_key h p = k) ps = Some p" using key[OF kp] by (intro find_unique) blast+
    with Some show ?thesis by simp
  qed
  moreover have "uh_head h \<noteq> None" using hash_holds_head[OF m] False by simp
  ultimately show ?thesis
    using t(1) i ps(1) hash_find_in_bkt_path[of "hh_next h" _ ps "hh_key h" k]
    by (auto simp: uthash_find_def the_table_def get_bucket_def chain_def hash_find_def)
qed

lemma uthash_count_holds: "hash_holds h m \<Longrightarrow> uthash_count h = Inr (of_nat (hash_count m))"
  using hash_holds_head[of h m]
  by (auto simp: uthash_count_def hash_holds_def the_table_def hash_count_def)

lemma fsck_links_path:
  "path nx hd_hh ps None \<Longrightarrow> rpath pv prv ps \<Longrightarrow> fsck_links nx pv prv hd_hh n = Some (Inr (n + of_nat (length ps)))"
proof (induction ps arbitrary: hd_hh prv n)
  case Nil
  then show ?case by (subst fsck_links.simps) simp
next
  case (Cons p ps)
  then show ?case by (subst fsck_links.simps) (simp add: add.assoc)
qed

lemma fsck_buckets_hold:
  "chains_hold h bs num M \<Longrightarrow> \<forall>i \<in> set is. i < length bs \<Longrightarrow>
   fsck_buckets h bs is n = Some (Inr (n + of_nat (\<Sum>i\<leftarrow>is. card (bkt_elems h num M i))))"
proof (induction "is" arbitrary: n)
  case (Cons i "is")
  then obtain ps where ps: "i < length bs" "chain h (bs ! i) ps" "set ps = bkt_elems h num M i"
    by (auto simp: chains_hold_def)
  then have "length ps = card (bkt_elems h num M i)" by (metis chain_def distinct_card)
  with Cons ps fsck_links_path[of "hh_next h" "bkt_head (bs ! i)" ps "hh_prev h" None 0]
  show ?case by (simp add: get_bucket_def chain_def add.assoc)
qed simp

lemma sum_bkt_elems:
  assumes "num \<noteq> 0" and "finite M"
  shows "(\<Sum>i\<leftarrow>[0..<unat num]. card (bkt_elems h num M i)) = card M"
proof -
  have "(\<Sum>i\<leftarrow>[0..<unat num]. card (bkt_elems h num M i)) = (\<Sum>i \<in> {..<unat num}. card (bkt_elems h num M i))"
    by (simp add: interv_sum_list_conv_sum_set_nat atLeast0LessThan)
  also have "\<dots> = card (\<Union>i \<in> {..<unat num}. bkt_elems h num M i)"
  proof (rule card_UN_disjoint[symmetric])
    show "\<forall>i \<in> {..<unat num}. finite (bkt_elems h num M i)"
      using finite_subset[OF bkt_elems_subset assms(2)] by blast
    show "\<forall>i \<in> {..<unat num}. \<forall>j \<in> {..<unat num}. i \<noteq> j \<longrightarrow> bkt_elems h num M i \<inter> bkt_elems h num M j = {}"
      using bkt_elems_disjoint[of _ _ h num M] by blast
  qed simp
  also have "(\<Union>i \<in> {..<unat num}. bkt_elems h num M i) = M"
    using hash_to_bkt_less[OF assms(1)] by (auto simp: bkt_elems_def)
  finally show ?thesis .
qed

lemma hash_fsck_holds:
  assumes m: "hash_holds h m"
  shows "hash_fsck h = Some (Inr ())"
proof (cases "m = []")
  case True
  with hash_holds_head[OF m] show ?thesis by (simp add: hash_fsck_def)
next
  case False
  with m obtain t where t: "uh_tbl h = Some t" "table_holds h t (snd ` set m)" "num_items t = of_nat (length m)"
    by (auto simp: hash_holds_def)
  have chains: "chains_hold h (tbl_buckets t) (num_buckets t) (snd ` set m)" and num: "num_buckets t \<noteq> 0"
    using t(2) size_ok_nonzero by (auto simp: table_holds_def)
  have "card (snd ` set m) = length m"
    using m distinct_card[of "map snd m"] by (simp add: hash_holds_def)
  then have "fsck_buckets h (tbl_buckets t) [0..<unat (num_buckets t)] 0 = Some (Inr (of_nat (length m)))"
    using fsck_buckets_hold[OF chains, of "[0..<unat (num_buckets t)]" 0] sum_bkt_elems[OF num, of "snd ` set m" h] chains
    by (simp add: chains_hold_def)
  moreover have "fsck_links (app_next h) (app_prev h) None (uh_head h) 0 = Some (Inr (of_nat (length m)))"
    using m fsck_links_path[of "app_next h" "uh_head h" "map snd m" "app_prev h" None 0]
    by (simp add: hash_holds_def)
  ultimately show ?thesis
    using t(1,3) hash_holds_head[OF m] False by (simp add: hash_fsck_def the_table_def)
qed

text \<open>What visiting does to the association list and the program's state.\<close>

fun visit :: "('p \<Rightarrow> 's \<Rightarrow> bool \<times> 's) \<Rightarrow> (hash_key, 'p) hash \<Rightarrow> 's \<Rightarrow> (hash_key, 'p) hash \<times> 's" where
  "visit act [] s = ([], s)"
| "visit act ((k, p) # m) s =
     (case act p s of (del, s1) \<Rightarrow>
        case visit act m s1 of (m', s2) \<Rightarrow> (if del then m' else (k, p) # m', s2))"

lemma hash_holds_next:
  assumes "hash_holds h (us @ (k, p) # vs)"
  shows "app_next h p = (if vs = [] then None else Some (snd (hd vs)))"
  using assms path_around(2)[of "app_next h" "uh_head h" "map snd us" p "map snd vs" "app_prev h"]
  by (auto simp: hash_holds_def hd_map)

lemma hash_iter_from_visits:
  "hash_holds h (us @ vs) \<Longrightarrow>
   el = (if vs = [] then None else Some (snd (hd vs))) \<Longrightarrow>
   tmp = (if tl vs = [] then None else Some (snd (hd (tl vs)))) \<Longrightarrow>
   \<exists>h'. hash_iter_from (deleting_body act) el tmp (h, s) = Some (Inr (h', snd (visit act vs s))) \<and>
     hash_holds h' (us @ fst (visit act vs s))"
proof (induction vs arbitrary: us h s el tmp)
  case Nil
  then show ?case by (subst hash_iter_from.simps) simp
next
  case (Cons kp vs)
  obtain k p where kp: "kp = (k, p)" by (cases kp)
  obtain del s1 where act: "act p s = (del, s1)" by (cases "act p s")
  have holds: "hash_holds h (us @ (k, p) # vs)" using Cons.prems(1) kp by simp
  let ?us = "if del then us else us @ [(k, p)]"
  have "\<exists>h1. deleting_body act p (h, s) = Inr (h1, s1) \<and> hash_holds h1 (?us @ vs)"
  proof (cases del)
    case True
    have "remove_elem p (us @ (k, p) # vs) = us @ vs"
      using holds by (intro remove_elem_split) (auto simp: hash_holds_def)
    with uthash_del_holds[OF holds, of p] True act show ?thesis by (auto simp: deleting_body_def)
  next
    case False
    with holds act show ?thesis by (simp add: deleting_body_def)
  qed
  then obtain h1 where h1: "deleting_body act p (h, s) = Inr (h1, s1)" "hash_holds h1 (?us @ vs)" by blast
  have tmp: "tmp = (if vs = [] then None else Some (snd (hd vs)))" using Cons.prems(3) by simp
  have "(case tmp of None \<Rightarrow> None | Some q \<Rightarrow> app_next h1 q) = (if tl vs = [] then None else Some (snd (hd (tl vs))))"
  proof (cases vs)
    case (Cons kq ws)
    then show ?thesis using h1(2) hash_holds_next[of h1 ?us "fst kq" "snd kq" ws] tmp by simp
  qed (simp add: tmp)
  from Cons.IH[OF h1(2) tmp this, of s1] h1(1) act kp Cons.prems(2) show ?case
    by (subst hash_iter_from.simps) (auto split: prod.splits cong: option.case_cong)
qed

lemma hash_iter_visits:
  assumes "hash_holds h m"
  shows "\<exists>h'. hash_iter (deleting_body act) (h, s) = Some (Inr (h', snd (visit act m s))) \<and>
    hash_holds h' (fst (visit act m s))"
proof -
  have "(case uh_head h of None \<Rightarrow> None | Some p \<Rightarrow> app_next h p) = (if tl m = [] then None else Some (snd (hd (tl m))))"
  proof (cases m)
    case (Cons kp vs)
    then show ?thesis
      using assms hash_holds_next[of h "[]" "fst kp" "snd kp" vs] hash_holds_head[OF assms] by simp
  qed (use hash_holds_head[OF assms] in simp)
  from hash_iter_from_visits[of h "[]" m, OF _ hash_holds_head[OF assms] this, of act s] assms show ?thesis
    by (simp add: hash_iter_def cong: option.case_cong)
qed

text \<open>Without deletion the elements are visited in the order they were added.\<close>

lemma visit_all: "visit (\<lambda>p s. (False, f p s)) m s = (m, fold f (map snd m) s)"
  by (induction m arbitrary: s) auto

lemma visit_filter: "visit (\<lambda>p s. (P p, s)) m s = (filter (\<lambda>(k, p). \<not> P p) m, s)"
  by (induction m arbitrary: s) auto

section \<open>Sequences of operations\<close>

datatype 'p table_op = Hash_add hash_key 'p | Hash_del 'p | Hash_clear | Hash_expire "'p \<Rightarrow> bool"

fun table_step :: "'p table_op \<Rightarrow> (hash_key, 'p) hash \<Rightarrow> (hash_key, 'p) hash" where
  "table_step (Hash_add k p) m = hash_add m k p"
| "table_step (Hash_del p) m = remove_elem p m"
| "table_step Hash_clear m = []"
| "table_step (Hash_expire old) m = filter (\<lambda>(k, p). \<not> old p) m"

text \<open>A key is added after it was not found, an element is in the table at most once and deleted only
  if it is there.\<close>

fun table_allowed :: "'p table_op \<Rightarrow> (hash_key, 'p) hash \<Rightarrow> bool" where
  "table_allowed (Hash_add k p) m \<longleftrightarrow>
     hash_find m k = None \<and> p \<notin> snd ` set m \<and> length m < 2 ^ 32 - 1"
| "table_allowed (Hash_del p) m \<longleftrightarrow> p \<in> snd ` set m"
| "table_allowed Hash_clear m \<longleftrightarrow> True"
| "table_allowed (Hash_expire old) m \<longleftrightarrow> True"

fun uthash_step :: "(nat \<Rightarrow> bool) \<Rightarrow> 'p table_op \<Rightarrow> 'p ut_hash \<Rightarrow> 'p ut_hash c_result option" where
  "uthash_step mem (Hash_add k p) h = uthash_add mem k p h"
| "uthash_step mem (Hash_del p) h = Some (uthash_del p h)"
| "uthash_step mem Hash_clear h = Some (uthash_clear h)"
| "uthash_step mem (Hash_expire old) h =
     loop_bind (hash_iter (deleting_body (\<lambda>p s. (old p, s))) (h, ())) (\<lambda>(h, _). Some (Inr h))"

lemma uthash_clear_holds: "hash_holds h m \<Longrightarrow> \<exists>h'. uthash_clear h = Inr h' \<and> hash_holds h' []"
  using hash_holds_head[of h m]
  by (cases "m = []") (auto simp: uthash_clear_def hash_holds_def the_table_def hash_ok_def)

lemma uthash_step_simulates:
  assumes "\<not> mem (2 ^ 31)" and "hash_holds h m" and "table_allowed op m"
  shows "(\<exists>e. uthash_step mem op h = Some (Inl e) \<and> e = Exit (-1)) \<or>
    (\<exists>h'. uthash_step mem op h = Some (Inr h') \<and> hash_holds h' (table_step op m))"
proof (cases op)
  case (Hash_add k p)
  with assms uthash_add_holds[OF assms(2), of k p mem] show ?thesis by (simp add: hash_find_None_iff)
next
  case (Hash_del p)
  with assms uthash_del_holds[OF assms(2), of p] show ?thesis by auto
next
  case Hash_clear
  with uthash_clear_holds[OF assms(2)] show ?thesis by auto
next
  case (Hash_expire old)
  with hash_iter_visits[OF assms(2), of "\<lambda>p s. (old p, s)" "()"] show ?thesis by (auto simp: visit_filter)
qed

text \<open>Memory for all tables that fit the machine's counters, but not for \<open>2 ^ 31\<close> buckets.\<close>

interpretation uthash: partial_simulation hash_holds "uthash_step (\<lambda>n. n < 2 ^ 31 \<and> mem n)" table_step table_allowed
  "\<lambda>e. e = Exit (-1)" for mem
  by unfold_locales (rule uthash_step_simulates, simp_all)

lemma uthash_run_holds:
  assumes "ops_allowed table_allowed table_step ops []"
    and "run_ops (uthash_step (\<lambda>n. n < 2 ^ 31 \<and> mem n)) ops (empty_hash h) = Some (Inr h')"
  shows "hash_holds h' (fold table_step ops [])"
  using uthash.run_simulates_or_gives_up[OF hash_holds_empty assms(1), of mem h] assms(2) by auto

lemma visit_collects: "visit (\<lambda>p ps. (False, ps @ [p])) m ps = (m, ps @ map snd m)"
  by (induction m arbitrary: ps) auto

text \<open>The first element never needs more buckets.\<close>

lemma first_add_succeeds:
  assumes "mem 32" and "uh_head h = None"
  shows "\<exists>h'. uthash_add mem k p h = Some (Inr h')"
proof -
  have "hash_to_bkt (hash_jen k) 32 < 32" using hash_to_bkt_less[of 32 "hash_jen k"] by simp
  then show ?thesis
    using assms by (simp add: uthash_add_def hash_make_table_def hash_add_to_bkt_def the_table_def
        get_bucket_def zero_bucket_def Let_def word_le_nat_alt)
qed

lemma two_adds_succeed:
  assumes "mem 32" and "uh_head h = None"
  shows "\<exists>h1 h2. uthash_add mem k p h = Some (Inr h1) \<and> uthash_add mem k' p' h1 = Some (Inr h2)"
proof -
  have "hash_to_bkt (hash_jen k) 32 < 32" "hash_to_bkt (hash_jen k') 32 < 32"
    using hash_to_bkt_less[of 32 "hash_jen k"] hash_to_bkt_less[of 32 "hash_jen k'"] by simp_all
  then show ?thesis
    using assms by (cases "hash_to_bkt (hash_jen k) 32 = hash_to_bkt (hash_jen k') 32")
      (simp_all add: uthash_add_def hash_make_table_def hash_add_to_bkt_def the_table_def
        get_bucket_def zero_bucket_def link_front_def Let_def word_le_nat_alt)
qed

definition null_hash :: "nat ut_hash" where
  "null_hash = \<lparr>uh_head = None, uh_tbl = None, app_next = (\<lambda>_. None), app_prev = (\<lambda>_. None),
     hh_next = (\<lambda>_. None), hh_prev = (\<lambda>_. None), hh_key = (\<lambda>_. []), hh_hashv = (\<lambda>_. 0)\<rparr>"

text \<open>C2: a hash table is a finite map that remembers the order of its entries. Whatever elements are
  added under keys not found before, deleted, cleared or expired during an iteration, and however often
  the buckets were doubled on the way, the process ends only for lack of memory; else every find
  returns the element last added under the key, if it is still there, the count is the number of
  entries, and an iteration visits the elements in the order they were added.\<close>

theorem uthash_implements_table:
  assumes "ops_allowed table_allowed table_step ops []"
  shows "run_ops (uthash_step (\<lambda>n. n < 2 ^ 31 \<and> mem n)) ops (empty_hash h) = Some (Inl (Exit (-1))) \<or>
    (\<exists>h'. run_ops (uthash_step (\<lambda>n. n < 2 ^ 31 \<and> mem n)) ops (empty_hash h) = Some (Inr h') \<and>
       (\<forall>k. uthash_find h' k = Some (Inr (hash_find (fold table_step ops []) k))) \<and>
       uthash_count h' = Inr (of_nat (hash_count (fold table_step ops []))) \<and>
       (\<exists>h''. hash_iter (deleting_body (\<lambda>p ps. (False, ps @ [p]))) (h', []) =
          Some (Inr (h'', map snd (fold table_step ops [])))))"
  using uthash.run_simulates_or_gives_up[OF hash_holds_empty assms, of mem h]
proof (elim disjE exE conjE)
  fix h' assume run: "run_ops (uthash_step (\<lambda>n. n < 2 ^ 31 \<and> mem n)) ops (empty_hash h) = Some (Inr h')"
    and holds: "hash_holds h' (fold table_step ops [])"
  from hash_iter_visits[OF holds, of "\<lambda>p ps. (False, ps @ [p])" "[]"]
  have "\<exists>h''. hash_iter (deleting_body (\<lambda>p ps. (False, ps @ [p]))) (h', []) =
      Some (Inr (h'', map snd (fold table_step ops [])))"
    by (auto simp: visit_collects)
  with run uthash_find_holds[OF holds] uthash_count_holds[OF holds] show ?thesis by blast
qed simp

lemma uthash_implements_table_witness:
  "\<exists>h'. run_ops (uthash_step (\<lambda>n. n < 2 ^ 31 \<and> True)) [Hash_add [1, 2] (7 :: nat), Hash_expire (\<lambda>p. p > 9)]
      (empty_hash null_hash) = Some (Inr h') \<and>
    uthash_find h' [1, 2] = Some (Inr (Some 7)) \<and> uthash_find h' [1, 3] = Some (Inr None) \<and> uthash_count h' = Inr 1"
proof -
  let ?ops = "[Hash_add [1, 2] (7 :: nat), Hash_expire (\<lambda>p. p > 9)]"
  have allowed: "ops_allowed table_allowed table_step ?ops []" by (simp add: hash_find_def)
  have m: "fold table_step ?ops [] = [([1, 2], 7)]" by (simp add: hash_add_def)
  obtain h1 where h1: "uthash_add (\<lambda>n. n < 2 ^ 31 \<and> True) [1, 2] 7 (empty_hash null_hash) = Some (Inr h1)"
    using first_add_succeeds[of "\<lambda>n. n < 2 ^ 31 \<and> True" "empty_hash null_hash" "[1, 2]" 7] by (auto simp: empty_hash_def)
  then have "hash_holds h1 [([1, 2], 7)]"
    using uthash_run_holds[of "[Hash_add [1, 2] 7]" "\<lambda>_. True" null_hash h1] by (simp add: hash_find_def hash_add_def)
  with hash_iter_visits[OF this, of "\<lambda>p s. (p > 9, s)" "()"] h1
  have "run_ops (uthash_step (\<lambda>n. n < 2 ^ 31 \<and> True)) ?ops (empty_hash null_hash) \<noteq> Some (Inl (Exit (-1)))"
    by auto
  with uthash_implements_table[OF allowed, of "\<lambda>_. True" null_hash] show ?thesis
    unfolding m by (auto simp: hash_find_def hash_count_def)
qed

text \<open>C20: the integrity check of the hash table never fires. After any sequence of operations every
  link between neighbours in a bucket and in application order agrees in both directions, each
  bucket's counter is the length of its chain, and both the buckets together and the application order
  hold as many elements as the table counts.\<close>

theorem uthash_integrity:
  assumes "ops_allowed table_allowed table_step ops []"
    and "run_ops (uthash_step (\<lambda>n. n < 2 ^ 31 \<and> mem n)) ops (empty_hash h) = Some (Inr h')"
  shows "hash_fsck h' = Some (Inr ())"
  by (rule hash_fsck_holds[OF uthash_run_holds[OF assms]])

lemma uthash_integrity_witness:
  "\<exists>h'. uthash_add (\<lambda>n. n < 2 ^ 31 \<and> True) [1, 2] (7 :: nat) (empty_hash null_hash) = Some (Inr h') \<and>
    hash_fsck h' = Some (Inr ())"
proof -
  obtain h' where h': "uthash_add (\<lambda>n. n < 2 ^ 31 \<and> True) [1, 2] 7 (empty_hash null_hash) = Some (Inr h')"
    using first_add_succeeds[of "\<lambda>n. n < 2 ^ 31 \<and> True" "empty_hash null_hash" "[1, 2]" 7] by (auto simp: empty_hash_def)
  have "hash_fsck h' = Some (Inr ())"
    by (rule uthash_integrity[of "[Hash_add [1, 2] 7]" "\<lambda>_. True" null_hash]) (use h' in \<open>simp_all add: hash_find_def\<close>)
  with h' show ?thesis by blast
qed

text \<open>C21: deleting the visited element is safe while iterating. An iteration whose body deletes some of
  the elements it visits sees every element of the table exactly once, in order, ends, and leaves a
  table of exactly the elements the body kept.\<close>

theorem delete_while_iterating:
  assumes "ops_allowed table_allowed table_step ops []"
    and "run_ops (uthash_step (\<lambda>n. n < 2 ^ 31 \<and> mem n)) ops (empty_hash h) = Some (Inr h')"
  shows "\<exists>h''. hash_iter (deleting_body (\<lambda>p ps. (old p, ps @ [p]))) (h', []) =
      Some (Inr (h'', map snd (fold table_step ops []))) \<and>
    (\<forall>k. uthash_find h'' k = Some (Inr (hash_find (filter (\<lambda>(k, p). \<not> old p) (fold table_step ops [])) k))) \<and>
    uthash_count h'' = Inr (of_nat (length (filter (\<lambda>(k, p). \<not> old p) (fold table_step ops []))))"
proof -
  have "visit (\<lambda>p ps. (old p, ps @ [p])) m ps = (filter (\<lambda>(k, p). \<not> old p) m, ps @ map snd m)" for m ps
    by (induction m arbitrary: ps) auto
  with hash_iter_visits[OF uthash_run_holds[OF assms], of "\<lambda>p ps. (old p, ps @ [p])" "[]"] show ?thesis
    by (auto simp: uthash_find_holds uthash_count_holds hash_count_def)
qed

lemma delete_while_iterating_witness:
  "\<exists>h' h''. uthash_add (\<lambda>n. n < 2 ^ 31 \<and> True) [1, 2] (7 :: nat) (empty_hash null_hash) = Some (Inr h') \<and>
    hash_iter (deleting_body (\<lambda>p ps. (p < 9, ps @ [p]))) (h', []) = Some (Inr (h'', [7])) \<and>
    uthash_count h'' = Inr 0"
proof -
  obtain h' where h': "uthash_add (\<lambda>n. n < 2 ^ 31 \<and> True) [1, 2] 7 (empty_hash null_hash) = Some (Inr h')"
    using first_add_succeeds[of "\<lambda>n. n < 2 ^ 31 \<and> True" "empty_hash null_hash" "[1, 2]" 7] by (auto simp: empty_hash_def)
  let ?m = "fold table_step [Hash_add [1, 2] (7 :: nat)] []"
  have "\<exists>h''. hash_iter (deleting_body (\<lambda>p ps. (p < 9, ps @ [p]))) (h', []) = Some (Inr (h'', map snd ?m)) \<and>
    (\<forall>k. uthash_find h'' k = Some (Inr (hash_find (filter (\<lambda>(k, p). \<not> p < 9) ?m) k))) \<and>
    uthash_count h'' = Inr (of_nat (length (filter (\<lambda>(k, p). \<not> p < 9) ?m)))"
    by (rule delete_while_iterating[of "[Hash_add [1, 2] 7]" "\<lambda>_. True" null_hash])
      (use h' in \<open>simp_all add: hash_find_def\<close>)
  with h' show ?thesis by (auto simp: hash_add_def)
qed

text \<open>The ideal length of a chain, which the code computes with a shift and a mask, is the number of
  elements divided by the doubled number of buckets, rounded up.\<close>

lemma ideal_chain_length_is_ceiling:
  assumes "size_ok t"
  shows "unat (ideal_maxlen t) = (unat (num_items t) + 2 * unat (num_buckets t) - 1) div (2 * unat (num_buckets t))"
  by (rule ideal_maxlen_ceiling[OF assms])

lemma ideal_chain_length_is_ceiling_witness:
  "unat (ideal_maxlen \<lparr>tbl_buckets = [], num_buckets = 32, log2_num_buckets = 5, num_items = 65,
     tbl_tail = (0 :: nat), ideal_chain_maxlen = 0, nonideal_items = 0, ineff_expands = 0, noexpand = 0\<rparr>) = 2"
proof -
  let ?t = "\<lparr>tbl_buckets = [], num_buckets = 32, log2_num_buckets = 5, num_items = 65,
     tbl_tail = (0 :: nat), ideal_chain_maxlen = 0, nonideal_items = 0, ineff_expands = 0, noexpand = 0\<rparr>"
  have "size_ok ?t" unfolding size_ok_def by (intro exI[of _ 5]) simp
  from ideal_chain_length_is_ceiling[OF this] show ?thesis by simp
qed

end
