(* ===== verification/UtSort.thy ===== *)
theory UtSort
  imports UtList
begin

text \<open>
  The merge sorts of \<open>utlist.h\<close>: \<open>LL_SORT\<close>, \<open>DL_SORT\<close> and \<open>CDL_SORT\<close> relink the nodes of a list in place, in
  passes that merge runs of 1, 2, 4 and more nodes. The three macros have the same text but for the
  lines on \<open>prev\<close> and on the end of a circular list; \<open>list_kind\<close> says which of these are there. They are
  shown to be the stable sort.
\<close>

section \<open>The macros\<close>

datatype list_kind = Single | Double | Circular

text \<open>The node after \<open>p\<close>; in a circular list the old head marks the end.\<close>

definition successor :: "list_kind \<Rightarrow> 'p option \<Rightarrow> 'p ut_list \<Rightarrow> 'p \<Rightarrow> 'p option" where
  "successor kind oldhead l p =
     (if kind = Circular \<and> ul_next l p = oldhead then None else ul_next l p)"

text \<open>The loop that steps over at most \<open>n\<close> nodes and counts them in \<open>psize\<close>.\<close>

fun count_run ::
    "list_kind \<Rightarrow> 'p option \<Rightarrow> 'p ut_list \<Rightarrow> nat \<Rightarrow> nat \<Rightarrow> 'p option \<Rightarrow> (nat \<times> 'p option) c_result" where
  "count_run kind oldhead l 0 psize q = Inr (psize, q)"
| "count_run kind oldhead l (Suc n) psize q =
     (case q of
        None \<Rightarrow> Inl Null_pointer
      | Some x \<Rightarrow>
          let q = successor kind oldhead l x in
          if q = None then Inr (Suc psize, q) else count_run kind oldhead l n (Suc psize) q)"

text \<open>Whether the next node is taken from the second run.\<close>

definition from_second :: "('p \<Rightarrow> 'p \<Rightarrow> int) \<Rightarrow> 'p option \<Rightarrow> nat \<Rightarrow> 'p option \<Rightarrow> nat \<Rightarrow> bool" where
  "from_second cmp p psize q qsize =
     (if psize = 0 then True
      else if qsize = 0 \<or> q = None then False
      else case (p, q) of (Some x, Some y) \<Rightarrow> \<not> cmp x y \<le> 0 | _ \<Rightarrow> False)"

definition append_node :: "list_kind \<Rightarrow> 'p \<Rightarrow> 'p option \<Rightarrow> 'p ut_list \<Rightarrow> 'p ut_list" where
  "append_node kind e tail l =
     (let l = (case tail of Some t \<Rightarrow> set_next t (Some e) l | None \<Rightarrow> l\<lparr>ul_head := Some e\<rparr>) in
      if kind = Single then l else set_prev e tail l)"

text \<open>The merge of two runs; the result is \<open>q\<close>, the tail and the list.\<close>

function merge_runs ::
    "list_kind \<Rightarrow> 'p option \<Rightarrow> ('p \<Rightarrow> 'p \<Rightarrow> int) \<Rightarrow> 'p option \<Rightarrow> nat \<Rightarrow> 'p option \<Rightarrow> nat \<Rightarrow>
     'p option \<Rightarrow> 'p ut_list \<Rightarrow> ('p option \<times> 'p option \<times> 'p ut_list) c_result" where
  "merge_runs kind oldhead cmp p psize q qsize tail l =
     (if 0 < psize \<or> 0 < qsize \<and> q \<noteq> None then
        let second = from_second cmp p psize q qsize in
        case (if second then q else p) of
          None \<Rightarrow> Inl Null_pointer
        | Some e \<Rightarrow>
            let next_node = successor kind oldhead l e; l = append_node kind e tail l in
            if second then merge_runs kind oldhead cmp p psize next_node (qsize - 1) (Some e) l
            else merge_runs kind oldhead cmp next_node (psize - 1) q qsize (Some e) l
      else Inr (q, tail, l))"
  by pat_completeness auto

termination
  by (relation "measure (\<lambda>(_, _, _, _, psize, _, qsize, _, _). psize + qsize)")
    (auto simp: from_second_def split: if_splits)

text \<open>A pass over the list; it may not end on a list that is not one.\<close>

partial_function (option) sort_pass ::
    "list_kind \<Rightarrow> 'p option \<Rightarrow> ('p \<Rightarrow> 'p \<Rightarrow> int) \<Rightarrow> nat \<Rightarrow> nat \<Rightarrow> 'p option \<Rightarrow> 'p option \<Rightarrow> 'p ut_list \<Rightarrow>
     (nat \<times> 'p option \<times> 'p ut_list) c_result option" where
  "sort_pass kind oldhead cmp insize nmerges p tail l =
     (case p of
        None \<Rightarrow> Some (Inr (nmerges, tail, l))
      | Some _ \<Rightarrow>
          (case result_bind (count_run kind oldhead l insize 0 p) (\<lambda>(psize, q).
                  merge_runs kind oldhead cmp p psize q insize tail l) of
             Inl e \<Rightarrow> Some (Inl e)
           | Inr (q, tail, l) \<Rightarrow> sort_pass kind oldhead cmp insize (Suc nmerges) q tail l))"

definition end_pass :: "list_kind \<Rightarrow> 'p option \<Rightarrow> 'p ut_list \<Rightarrow> 'p ut_list c_result" where
  "end_pass kind tail l =
     result_bind (if kind = Single then Inr l else at_pointer (ul_head l) (\<lambda>h. set_prev h tail) l) (\<lambda>l.
       at_pointer tail (\<lambda>t. set_next t (if kind = Circular then ul_head l else None)) l)"

text \<open>The passes; the size of the runs is an \<open>int\<close> of 32 bits.\<close>

partial_function (option) sort_passes ::
    "list_kind \<Rightarrow> ('p \<Rightarrow> 'p \<Rightarrow> int) \<Rightarrow> nat \<Rightarrow> 'p ut_list \<Rightarrow> 'p ut_list c_result option" where
  "sort_passes kind cmp insize l =
     (case sort_pass kind (ul_head l) cmp insize 0 (ul_head l) None (l\<lparr>ul_head := None\<rparr>) of
        None \<Rightarrow> None
      | Some (Inl e) \<Rightarrow> Some (Inl e)
      | Some (Inr (nmerges, tail, l)) \<Rightarrow>
          (case end_pass kind tail l of
             Inl e \<Rightarrow> Some (Inl e)
           | Inr l \<Rightarrow>
               if 2 ^ 31 \<le> insize * 2 then Some (Inl Signed_overflow)
               else if nmerges \<le> 1 then Some (Inr l)
               else sort_passes kind cmp (insize * 2) l))"

definition list_sort :: "list_kind \<Rightarrow> ('p \<Rightarrow> 'p \<Rightarrow> int) \<Rightarrow> 'p ut_list \<Rightarrow> 'p ut_list c_result option" where
  "list_sort kind cmp l = (if ul_head l = None then Some (Inr l) else sort_passes kind cmp 1 l)"

definition ll_sort :: "('p \<Rightarrow> 'p \<Rightarrow> int) \<Rightarrow> 'p ut_list \<Rightarrow> 'p ut_list c_result option" where
  "ll_sort = list_sort Single"

definition dl_sort :: "('p \<Rightarrow> 'p \<Rightarrow> int) \<Rightarrow> 'p ut_list \<Rightarrow> 'p ut_list c_result option" where
  "dl_sort = list_sort Double"

definition cdl_sort :: "('p \<Rightarrow> 'p \<Rightarrow> int) \<Rightarrow> 'p ut_list \<Rightarrow> 'p ut_list c_result option" where
  "cdl_sort = list_sort Circular"

section \<open>Merging sequences\<close>

fun merged :: "('p \<Rightarrow> 'k :: linorder) \<Rightarrow> 'p list \<Rightarrow> 'p list \<Rightarrow> 'p list" where
  "merged f [] ys = ys"
| "merged f xs [] = xs"
| "merged f (x # xs) (y # ys) = (if f x \<le> f y then x # merged f xs (y # ys) else y # merged f (x # xs) ys)"

text \<open>The sequence with each of its pieces of \<open>n\<close> sorted, and one pass over it.\<close>

fun runs_sorted :: "('p \<Rightarrow> 'k :: linorder) \<Rightarrow> nat \<Rightarrow> 'p list \<Rightarrow> 'p list" where
  "runs_sorted f n xs =
     (if xs = [] \<or> n = 0 then xs else sort_key f (take n xs) @ runs_sorted f n (drop n xs))"

fun runs_merged :: "('p \<Rightarrow> 'k :: linorder) \<Rightarrow> nat \<Rightarrow> 'p list \<Rightarrow> 'p list" where
  "runs_merged f n xs =
     (if xs = [] \<or> n = 0 then xs
      else merged f (take n xs) (take n (drop n xs)) @ runs_merged f n (drop (2 * n) xs))"

declare runs_sorted.simps [simp del] runs_merged.simps [simp del]

lemma merged_Nil [simp]: "merged f xs [] = xs"
  by (cases xs) simp_all

lemma mset_merged [simp]: "mset (merged f xs ys) = mset xs + mset ys"
  by (induction f xs ys rule: merged.induct) simp_all

lemma set_merged [simp]: "set (merged f xs ys) = set xs \<union> set ys"
  by (induction f xs ys rule: merged.induct) auto

lemma sorted_merged: "sorted (map f xs) \<Longrightarrow> sorted (map f ys) \<Longrightarrow> sorted (map f (merged f xs ys))"
  by (induction f xs ys rule: merged.induct) (auto intro: order_trans)

lemma filter_merged:
  "sorted (map f xs) \<Longrightarrow> filter (\<lambda>x. k = f x) (merged f xs ys) =
     filter (\<lambda>x. k = f x) xs @ filter (\<lambda>x. k = f x) ys"
proof (induction f xs ys rule: merged.induct)
  case (3 f x xs y ys)
  show ?case
  proof (cases "f x \<le> f y")
    case True
    with 3 show ?thesis by (cases "k = f x"; cases "k = f y") simp_all
  next
    case False
    then have "filter (\<lambda>z. f y = f z) (x # xs) = []" using "3.prems" by (auto simp: filter_empty_conv)
    moreover have "filter (\<lambda>z. k = f z) (merged f (x # xs) ys) =
        filter (\<lambda>z. k = f z) (x # xs) @ filter (\<lambda>z. k = f z) ys"
      using "3.IH"(2) False "3.prems" by simp
    ultimately show ?thesis using False by (cases "k = f y") (simp_all split: if_splits)
  qed
qed simp_all

lemma filter_sort_key: "filter (\<lambda>x. k = f x) (sort_key f xs) = filter (\<lambda>x. k = f x) xs"
  using sort_key_stable[of f k xs] by (simp add: eq_commute)

lemma merged_sort_key: "merged f (sort_key f xs) (sort_key f ys) = sort_key f (xs @ ys)"
  by (rule properties_for_sort_key[symmetric]) (simp_all add: sorted_merged filter_merged filter_sort_key)

lemma merged_take_sort_key:
  "merged f (sort_key f (take n xs)) (sort_key f (take n (drop n xs))) = sort_key f (take (2 * n) xs)"
  by (simp add: merged_sort_key mult_2 take_add)

lemma length_runs_sorted [simp]: "length (runs_sorted f n xs) = length xs"
  by (induction f n xs rule: runs_sorted.induct) (subst runs_sorted.simps, auto)

lemma set_runs_sorted [simp]: "set (runs_sorted f n xs) = set xs"
proof (induction f n xs rule: runs_sorted.induct)
  case (1 f n xs)
  have "set (take n xs) \<union> set (drop n xs) = set xs" by (metis append_take_drop_id set_append)
  with 1 show ?case by (subst runs_sorted.simps) simp
qed

lemma distinct_runs_sorted: "distinct xs \<Longrightarrow> distinct (runs_sorted f n xs)"
  by (simp add: card_distinct distinct_card)

lemma runs_sorted_1: "runs_sorted f (Suc 0) xs = xs"
proof (induction xs)
  case (Cons x xs)
  then show ?case by (subst runs_sorted.simps) simp
qed (simp add: runs_sorted.simps)

lemma runs_sorted_all: "length xs \<le> n \<Longrightarrow> runs_sorted f n xs = sort_key f xs"
  by (cases "xs = []"; cases "n = 0") (simp_all add: runs_sorted.simps)

lemma runs_sorted_take:
  assumes "0 < n"
  shows "take n (runs_sorted f n xs) = sort_key f (take n xs)" "drop n (runs_sorted f n xs) = runs_sorted f n (drop n xs)"
proof -
  have "length xs \<le> n \<Longrightarrow> runs_sorted f n (drop n xs) = []" by (simp add: runs_sorted.simps)
  then show "take n (runs_sorted f n xs) = sort_key f (take n xs)"
    "drop n (runs_sorted f n xs) = runs_sorted f n (drop n xs)"
    using assms by (cases "length xs \<le> n"; subst runs_sorted.simps; simp add: min_def)+
qed

lemma mset_runs_merged: "mset (runs_merged f n xs) = mset xs"
proof (induction f n xs rule: runs_merged.induct)
  case (1 f n xs)
  have "mset (take n xs) + mset (take n (drop n xs)) + mset (drop (2 * n) xs) = mset xs"
    by (metis append_take_drop_id drop_drop mset_append mult_2 union_assoc)
  with 1 show ?case by (subst runs_merged.simps) simp
qed

lemma runs_merged_Nil: "runs_merged f n xs = [] \<longleftrightarrow> xs = []"
  using mset_runs_merged[of f n xs] by (metis mset_zero_iff)

text \<open>A pass over runs of \<open>n\<close> gives runs of \<open>2 * n\<close>.\<close>

lemma runs_merged_sorted: "0 < n \<Longrightarrow> runs_merged f n (runs_sorted f n xs) = runs_sorted f (2 * n) xs"
proof (induction "length xs" arbitrary: xs rule: less_induct)
  case less
  have empty: "runs_sorted f n xs = [] \<longleftrightarrow> xs = []" by (metis length_0_conv length_runs_sorted)
  have "drop (2 * n) (runs_sorted f n xs) = runs_sorted f n (drop (2 * n) xs)"
    using runs_sorted_take(2)[OF less.prems] by (metis drop_drop mult_2)
  moreover have "runs_merged f n (runs_sorted f n (drop (2 * n) xs)) = runs_sorted f (2 * n) (drop (2 * n) xs)"
    if "xs \<noteq> []" using less that by simp
  moreover have "merged f (take n (runs_sorted f n xs)) (take n (drop n (runs_sorted f n xs))) = sort_key f (take (2 * n) xs)"
    using less.prems by (simp add: runs_sorted_take merged_take_sort_key)
  moreover have "runs_sorted f (2 * n) xs = (if xs = [] then []
      else sort_key f (take (2 * n) xs) @ runs_sorted f (2 * n) (drop (2 * n) xs))"
    using less.prems by (subst runs_sorted.simps) simp
  ultimately show ?case
    using less.prems empty by (cases "xs = []") (simp_all add: runs_merged.simps[of f n "runs_sorted f n xs"] runs_merged.simps[of f n "[]"])
qed

section \<open>Merging lists in the heap\<close>

text \<open>The nodes \<open>ds\<close> are relinked up to \<open>tail\<close>, whose \<open>next\<close> is still arbitrary.\<close>

definition relinked :: "list_kind \<Rightarrow> 'p list \<Rightarrow> 'p option \<Rightarrow> 'p ut_list \<Rightarrow> bool" where
  "relinked kind ds tail l \<longleftrightarrow>
     (if ds = [] then tail = None
      else tail = Some (last ds) \<and> path (ul_next l) (ul_head l) (butlast ds) tail \<and>
        (kind \<noteq> Single \<longrightarrow> rpath (ul_prev l) None ds))"

lemma path_agree: "\<forall>x \<in> set xs. nx x = nx' x \<Longrightarrow> path nx p xs q \<longleftrightarrow> path nx' p xs q"
  by (induction xs arbitrary: p) auto

lemma append_node_next:
  "x \<notin> set ds \<Longrightarrow> relinked kind ds tail l \<Longrightarrow> ul_next (append_node kind e tail l) x = ul_next l x"
  by (auto simp: append_node_def link_defs relinked_def Let_def split: if_splits)

lemma relinked_append:
  assumes "relinked kind ds tail l" and "distinct (ds @ [e])"
  shows "relinked kind (ds @ [e]) (Some e) (append_node kind e tail l)"
proof (cases ds rule: rev_cases)
  case Nil
  with assms show ?thesis by (auto simp: relinked_def append_node_def link_defs Let_def)
next
  case (snoc cs t)
  with assms show ?thesis
    by (auto simp: relinked_def append_node_def link_defs Let_def path_simps butlast_append)
qed

text \<open>The steps of a merge do not disturb what is still to be merged.\<close>

lemma path_successor_append:
  assumes "path (successor kind oldhead l) p xs q" and "relinked kind ds tail l" and "set xs \<inter> set ds = {}"
  shows "path (successor kind oldhead (append_node kind e tail l)) p xs q"
proof -
  have "\<forall>x \<in> set xs. successor kind oldhead (append_node kind e tail l) x = successor kind oldhead l x"
  proof
    fix x assume "x \<in> set xs"
    then have "x \<notin> set ds" using assms(3) by auto
    then show "successor kind oldhead (append_node kind e tail l) x = successor kind oldhead l x"
      using append_node_next[OF _ assms(2)] by (simp add: successor_def)
  qed
  from path_agree[OF this] assms(1) show ?thesis by simp
qed

lemma count_run_path:
  "path (successor kind oldhead l) q ys None \<Longrightarrow> ys \<noteq> [] \<Longrightarrow>
   \<exists>q'. count_run kind oldhead l n ps q = Inr (ps + length (take n ys), q') \<and>
     path (successor kind oldhead l) q (take n ys) q' \<and> path (successor kind oldhead l) q' (drop n ys) None"
proof (induction n arbitrary: ps q ys)
  case (Suc n)
  then obtain x zs where ys: "ys = x # zs" "q = Some x" by (cases ys) auto
  let ?q = "successor kind oldhead l x"
  have path: "path (successor kind oldhead l) ?q zs None" using Suc.prems ys by simp
  show ?case
  proof (cases "zs = []")
    case True
    with path ys show ?thesis by simp
  next
    case False
    then have "?q \<noteq> None" using path by (cases zs) auto
    with Suc.IH[OF path False, of "Suc ps"] ys show ?thesis by auto
  qed
qed simp

declare merge_runs.simps [simp del]

lemma merge_runs_merges:
  assumes "\<forall>x y. cmp x y \<le> 0 \<longleftrightarrow> f x \<le> (f y :: 'k :: linorder)"
  shows "relinked kind ds tail l \<Longrightarrow> distinct (ds @ as @ ys) \<Longrightarrow>
    path (successor kind oldhead l) p as r \<Longrightarrow> path (successor kind oldhead l) q ys None \<Longrightarrow>
    \<exists>q' tail' l'. merge_runs kind oldhead cmp p (length as) q qsize tail l = Inr (q', tail', l') \<and>
      relinked kind (ds @ merged f as (take qsize ys)) tail' l' \<and>
      path (successor kind oldhead l') q' (drop qsize ys) None"
proof (induction "length as + qsize" arbitrary: ds as p q ys qsize tail l rule: less_induct)
  case less
  let ?s = "successor kind oldhead l"
  have second: ?case if "from_second cmp p (length as) q qsize" "ys = y # zs" "0 < qsize"
    "merged f as (take qsize ys) = y # merged f as (take (qsize - 1) zs)" for y zs
  proof -
    let ?l = "append_node kind y tail l"
    have q: "q = Some y" and zs: "path ?s (?s y) zs None" using less.prems(4) that(2) by auto
    have "relinked kind (ds @ [y]) (Some y) ?l"
      using less.prems(1,2) that(2) by (intro relinked_append) auto
    moreover have "distinct ((ds @ [y]) @ as @ zs)" using less.prems(2) that(2) by auto
    moreover have "path (successor kind oldhead ?l) p as r"
      using less.prems(2) by (intro path_successor_append[OF less.prems(3,1)]) auto
    moreover have "path (successor kind oldhead ?l) (?s y) zs None"
      using less.prems(2) that(2) by (intro path_successor_append[OF zs less.prems(1)]) auto
    moreover have "length as + (qsize - 1) < length as + qsize" using that(3) by simp
    ultimately obtain q' tail' l' where
      "merge_runs kind oldhead cmp p (length as) (?s y) (qsize - 1) (Some y) ?l = Inr (q', tail', l')"
      "relinked kind ((ds @ [y]) @ merged f as (take (qsize - 1) zs)) tail' l'"
      "path (successor kind oldhead l') q' (drop (qsize - 1) zs) None"
      using less.hyps by blast
    then show ?thesis
      using that q by (subst merge_runs.simps) (auto simp: drop_Cons')
  qed
  have first: ?case if "\<not> from_second cmp p (length as) q qsize" "as = x # bs"
    "merged f as (take qsize ys) = x # merged f bs (take qsize ys)" for x bs
  proof -
    let ?l = "append_node kind x tail l"
    have p: "p = Some x" and bs: "path ?s (?s x) bs r" using less.prems(3) that(2) by auto
    have "relinked kind (ds @ [x]) (Some x) ?l"
      using less.prems(1,2) that(2) by (intro relinked_append) auto
    moreover have "distinct ((ds @ [x]) @ bs @ ys)" using less.prems(2) that(2) by auto
    moreover have "path (successor kind oldhead ?l) (?s x) bs r"
      using less.prems(2) that(2) by (intro path_successor_append[OF bs less.prems(1)]) auto
    moreover have "path (successor kind oldhead ?l) q ys None"
      using less.prems(2) that(2) by (intro path_successor_append[OF less.prems(4,1)]) auto
    moreover have "length bs + qsize < length as + qsize" using that(2) by simp
    ultimately obtain q' tail' l' where
      "merge_runs kind oldhead cmp (?s x) (length bs) q qsize (Some x) ?l = Inr (q', tail', l')"
      "relinked kind ((ds @ [x]) @ merged f bs (take qsize ys)) tail' l'"
      "path (successor kind oldhead l') q' (drop qsize ys) None"
      using less.hyps by blast
    then show ?thesis
      using that p by (subst merge_runs.simps) auto
  qed
  have q: "q = (if ys = [] then None else Some (hd ys))" using path_start[OF less.prems(4)] .
  show ?case
  proof (cases as)
    case Nil
    show ?thesis
    proof (cases "qsize = 0 \<or> ys = []")
      case True
      with Nil less.prems q show ?thesis by (subst merge_runs.simps) auto
    next
      case False
      then obtain y zs where "ys = y # zs" by (cases ys) auto
      with Nil False show ?thesis by (intro second) (auto simp: from_second_def take_Cons')
    qed
  next
    case (Cons x bs)
    have p: "p = Some x" using less.prems(3) Cons by simp
    show ?thesis
    proof (cases "qsize = 0 \<or> ys = []")
      case True
      with Cons q show ?thesis by (intro first) (auto simp: from_second_def)
    next
      case False
      then obtain y zs where ys: "ys = y # zs" by (cases ys) auto
      then have "from_second cmp p (length as) q qsize \<longleftrightarrow> \<not> f x \<le> f y"
        using False Cons p q assms by (simp add: from_second_def)
      then show ?thesis
        using second[OF _ ys] first[OF _ Cons] False Cons ys by (cases "f x \<le> f y") (auto simp: take_Cons')
    qed
  qed
qed

lemma merge_count: "0 < n \<Longrightarrow> 0 < len \<Longrightarrow> (len + 2 * n - 1) div (2 * n) = Suc ((len - 2 * n + 2 * n - 1) div (2 * n))"
  for n len :: nat
  by (cases "len \<le> 2 * n") (simp_all add: div_nat_eqI le_div_geq)

lemma sort_pass_merges:
  assumes "\<forall>x y. cmp x y \<le> 0 \<longleftrightarrow> f x \<le> (f y :: 'k :: linorder)" and "0 < n"
  shows "relinked kind ds tail l \<Longrightarrow> distinct (ds @ ys) \<Longrightarrow> path (successor kind oldhead l) p ys None \<Longrightarrow>
    \<exists>tail' l'. sort_pass kind oldhead cmp n nm p tail l =
        Some (Inr (nm + (length ys + 2 * n - 1) div (2 * n), tail', l')) \<and>
      relinked kind (ds @ runs_merged f n ys) tail' l'"
proof (induction "length ys" arbitrary: nm ds ys p tail l rule: less_induct)
  case less
  show ?case
  proof (cases "ys = []")
    case True
    with less.prems assms(2) show ?thesis by (subst sort_pass.simps) (simp add: runs_merged.simps)
  next
    case False
    then obtain x where p: "p = Some x" using path_start[OF less.prems(3)] by auto
    obtain q where q: "count_run kind oldhead l n 0 p = Inr (length (take n ys), q)"
      "path (successor kind oldhead l) p (take n ys) q" "path (successor kind oldhead l) q (drop n ys) None"
      using count_run_path[OF less.prems(3) False, of n 0] by auto
    have "distinct (ds @ take n ys @ drop n ys)" using less.prems(2) by simp
    from merge_runs_merges[OF assms(1) less.prems(1) this q(2,3), of n]
    obtain q' tail' l' where m:
      "merge_runs kind oldhead cmp p (length (take n ys)) q n tail l = Inr (q', tail', l')"
      "relinked kind (ds @ merged f (take n ys) (take n (drop n ys))) tail' l'"
      "path (successor kind oldhead l') q' (drop n (drop n ys)) None" by blast
    let ?ds = "ds @ merged f (take n ys) (take n (drop n ys))"
    have "mset (?ds @ drop n (drop n ys)) = mset (ds @ take n ys @ take n (drop n ys) @ drop n (drop n ys))" by simp
    also have "\<dots> = mset (ds @ ys)" by (simp only: append_take_drop_id)
    finally have "distinct (?ds @ drop n (drop n ys))" using less.prems(2) by (metis mset_eq_imp_distinct_iff)
    then have "distinct (?ds @ drop (2 * n) ys)" "path (successor kind oldhead l') q' (drop (2 * n) ys) None"
      using m(3) by (simp_all add: mult_2)
    from less.hyps[OF _ m(2) this, of "Suc nm"] obtain tail2 l2 where
      "sort_pass kind oldhead cmp n (Suc nm) q' tail' l' =
        Some (Inr (Suc nm + (length ys - 2 * n + 2 * n - 1) div (2 * n), tail2, l2))"
      "relinked kind (?ds @ runs_merged f n (drop (2 * n) ys)) tail2 l2"
      using False assms(2) by auto
    then show ?thesis
      using p q(1) m(1) False assms(2) merge_count[OF assms(2), of "length ys"]
      by (subst sort_pass.simps, subst runs_merged.simps) simp
  qed
qed

section \<open>The sorts\<close>

fun holds :: "list_kind \<Rightarrow> 'p ut_list \<Rightarrow> 'p list \<Rightarrow> bool" where
  "holds Single = ll_holds"
| "holds Double = dl_holds"
| "holds Circular = cdl_holds"

lemma path_cut:
  "path nx p xs (Some h) \<Longrightarrow> h \<notin> set (tl xs) \<Longrightarrow> xs \<noteq> [] \<Longrightarrow>
   path (\<lambda>x. if nx x = Some h then None else nx x) p xs None"
proof (induction xs arbitrary: p)
  case (Cons x xs)
  then show ?case by (cases xs) auto
qed simp

lemma holds_path:
  assumes "holds kind l xs" and "xs \<noteq> []"
  shows "path (successor kind (ul_head l) (l\<lparr>ul_head := None\<rparr>)) (ul_head l) xs None"
proof (cases "kind = Circular")
  case True
  obtain x ys where xs: "xs = x # ys" using assms(2) by (cases xs) auto
  then have "ul_head l = Some x" "path (ul_next l) (ul_head l) xs (Some x)" "x \<notin> set (tl xs)"
    using assms(1) True by (auto simp: cdl_holds_def)
  with path_cut[OF this(2,3) assms(2)] True show ?thesis by (simp add: successor_def[abs_def] cong: if_cong)
next
  case False
  with assms show ?thesis by (cases kind) (auto simp: successor_def[abs_def] ll_holds_def dl_holds_def)
qed

lemma holds_distinct: "holds kind l xs \<Longrightarrow> distinct xs"
  by (cases kind) (simp_all add: ll_holds_def dl_holds_def cdl_holds_def)

lemma end_pass_holds:
  assumes "relinked kind xs tail l" and "distinct xs" and "xs \<noteq> []"
  shows "\<exists>l'. end_pass kind tail l = Inr l' \<and> holds kind l' xs"
proof -
  obtain ys t where yt: "xs = ys @ [t]" using assms(3) by (meson rev_exhaust)
  obtain h r where hr: "xs = h # r" using assms(3) by (cases xs) auto
  have r: "tail = Some t" "path (ul_next l) (ul_head l) ys (Some t)" "kind \<noteq> Single \<Longrightarrow> rpath (ul_prev l) None xs"
    using assms(1,3) yt by (auto simp: relinked_def)
  have head: "ul_head l = Some h" using path_start[OF r(2)] yt hr by (cases ys) auto
  have "path ((ul_next l)(t := q)) (Some h) (ys @ [t]) q" for q
    using r(2) assms(2) head unfolding yt by (auto simp: path_simps)
  then have path: "path ((ul_next l)(t := q)) (Some h) xs q" for q using yt by simp
  have "rpath ((ul_prev l)(h := Some t)) (Some t) (h # r)" if "kind \<noteq> Single"
    using r(3)[OF that] assms(2) unfolding hr by (simp add: path_simps)
  then have rpath: "kind \<noteq> Single \<Longrightarrow> rpath ((ul_prev l)(h := Some t)) (Some (last xs)) xs" using hr yt by (metis last_snoc)
  show ?thesis
    using path rpath head r(1) assms(2,3)
    by (cases kind) (auto simp: end_pass_def link_defs ll_holds_def dl_holds_def cdl_holds_def)
qed

lemma one_pass:
  assumes "\<forall>x y. cmp x y \<le> 0 \<longleftrightarrow> f x \<le> (f y :: 'k :: linorder)" and "0 < n" and "holds kind l ys" and "ys \<noteq> []"
  shows "\<exists>tail l' l''. sort_pass kind (ul_head l) cmp n 0 (ul_head l) None (l\<lparr>ul_head := None\<rparr>) =
      Some (Inr ((length ys + 2 * n - 1) div (2 * n), tail, l')) \<and>
    end_pass kind tail l' = Inr l'' \<and> holds kind l'' (runs_merged f n ys)"
proof -
  have "relinked kind [] None (l\<lparr>ul_head := None\<rparr>)" by (simp add: relinked_def)
  from sort_pass_merges[OF assms(1,2) this, of ys "ul_head l" "ul_head l" 0]
  obtain tail l' where pass: "sort_pass kind (ul_head l) cmp n 0 (ul_head l) None (l\<lparr>ul_head := None\<rparr>) =
      Some (Inr ((length ys + 2 * n - 1) div (2 * n), tail, l'))" "relinked kind (runs_merged f n ys) tail l'"
    using holds_path[OF assms(3,4)] holds_distinct[OF assms(3)] by auto
  have "distinct (runs_merged f n ys)" "runs_merged f n ys \<noteq> []"
    using holds_distinct[OF assms(3)] assms(4) mset_eq_imp_distinct_iff[OF mset_runs_merged[of f n ys]]
    by (simp_all add: runs_merged_Nil)
  with end_pass_holds[OF pass(2)] pass(1) show ?thesis by blast
qed

lemma sort_passes_sort:
  assumes "\<forall>x y. cmp x y \<le> 0 \<longleftrightarrow> f x \<le> (f y :: 'k :: linorder)" and "xs \<noteq> []"
  shows "i \<le> 30 \<Longrightarrow> i = 30 \<longrightarrow> 2 ^ 30 < length xs \<Longrightarrow> holds kind l (runs_sorted f (2 ^ i) xs) \<Longrightarrow>
    (if length xs \<le> 2 ^ 30 then \<exists>l'. sort_passes kind cmp (2 ^ i) l = Some (Inr l') \<and> holds kind l' (sort_key f xs)
     else sort_passes kind cmp (2 ^ i) l = Some (Inl Signed_overflow))"
proof (induction "30 - i" arbitrary: i l rule: less_induct)
  case less
  let ?n = "2 ^ i :: nat"
  have "runs_sorted f ?n xs \<noteq> []" using assms(2) by (metis length_0_conv length_runs_sorted)
  moreover have "0 < ?n" by simp
  ultimately
  obtain tail l' l'' where pass: "sort_pass kind (ul_head l) cmp ?n 0 (ul_head l) None (l\<lparr>ul_head := None\<rparr>) =
      Some (Inr ((length xs + 2 * ?n - 1) div (2 * ?n), tail, l'))" "end_pass kind tail l' = Inr l''"
    "holds kind l'' (runs_merged f ?n (runs_sorted f ?n xs))"
    using one_pass[OF assms(1) _ less.prems(3)] by (metis length_runs_sorted)
  then have runs: "holds kind l'' (runs_sorted f (2 ^ Suc i) xs)" by (simp add: runs_merged_sorted)
  have merges: "(length xs + 2 * ?n - 1) div (2 * ?n) \<le> 1 \<longleftrightarrow> length xs \<le> 2 * ?n"
    using assms(2) merge_count[of ?n "length xs"] by (auto simp: div_eq_0_iff)
  have step: "sort_passes kind cmp ?n l = (if 2 ^ 31 \<le> ?n * 2 then Some (Inl Signed_overflow)
      else if length xs \<le> 2 * ?n then Some (Inr l'') else sort_passes kind cmp (?n * 2) l'')"
    using pass(1,2) merges by (subst sort_passes.simps) simp
  show ?case
  proof (cases "i = 30")
    case True
    with less.prems(2) step show ?thesis by simp
  next
    case False
    then have i: "Suc i \<le> 30" using less.prems(1) by simp
    have "2 ^ Suc i \<le> (2 ^ 30 :: nat)" using i by (intro power_increasing) simp_all
    then have n: "2 * ?n \<le> 2 ^ 30" by simp
    show ?thesis
    proof (cases "length xs \<le> 2 * ?n")
      case True
      then have "holds kind l'' (sort_key f xs)" using runs runs_sorted_all[of xs "2 ^ Suc i" f] by simp
      with True n step show ?thesis by simp
    next
      case False
      then have "Suc i = 30 \<longrightarrow> 2 ^ 30 < length xs" by auto
      moreover have "30 - Suc i < 30 - i" using i by simp
      moreover have "sort_passes kind cmp ?n l = sort_passes kind cmp (2 ^ Suc i) l''"
        using step False n by (simp add: mult.commute)
      ultimately show ?thesis using less.hyps[OF _ i _ runs] by (simp only:) blast
    qed
  qed
qed

lemma list_sort_result:
  assumes "\<forall>x y. cmp x y \<le> 0 \<longleftrightarrow> f x \<le> (f y :: 'k :: linorder)" and "holds kind l xs"
  shows "if length xs \<le> 2 ^ 30 then \<exists>l'. list_sort kind cmp l = Some (Inr l') \<and> holds kind l' (sort_key f xs)
    else list_sort kind cmp l = Some (Inl Signed_overflow)"
proof (cases "xs = []")
  case True
  then have "ul_head l = None" using assms(2) by (cases kind) (simp_all add: ll_holds_def dl_holds_def cdl_holds_def)
  with True assms(2) show ?thesis by (simp add: list_sort_def)
next
  case False
  then have "ul_head l \<noteq> None" using holds_path[OF assms(2)] by (cases xs) auto
  then have "list_sort kind cmp l = sort_passes kind cmp (2 ^ 0) l" by (auto simp: list_sort_def)
  with sort_passes_sort[OF assms(1) False, of 0 kind l] assms(2) show ?thesis
    by (simp only: power_0 One_nat_def runs_sorted_1) simp
qed

section \<open>The sorts' guarantees\<close>

text \<open>C27: the three sorts of linked lists are the stable sort: for every comparison that orders nodes by
  some key, sorting a well-formed list of any kind ends without following a NULL pointer and
  relinks its nodes into a well-formed list of the same kind, in the order of the keys, nodes with
  equal keys staying in their order; more than \<open>2 ^ 30\<close> nodes make the counter of the run size overflow.\<close>

theorem list_sort_is_stable_sort:
  assumes "\<forall>x y. cmp x y \<le> 0 \<longleftrightarrow> f x \<le> (f y :: 'k :: linorder)" and "holds kind l xs"
  shows "(length xs \<le> 2 ^ 30 \<longrightarrow> (\<exists>l'. list_sort kind cmp l = Some (Inr l') \<and> holds kind l' (sort_key f xs))) \<and>
    (2 ^ 30 < length xs \<longrightarrow> list_sort kind cmp l = Some (Inl Signed_overflow))"
  using list_sort_result[OF assms] by (auto split: if_splits)

lemma list_sort_is_stable_sort_witness:
  "\<exists>l'. list_sort Double (\<lambda>x y. int (x mod 2) - int (y mod 2))
     \<lparr>ul_head = Some (3 :: nat), ul_next = [3 \<mapsto> 2, 2 \<mapsto> 1], ul_prev = [3 \<mapsto> 1, 2 \<mapsto> 3, 1 \<mapsto> 2]\<rparr> =
       Some (Inr l') \<and> holds Double l' [2, 3, 1]"
proof -
  have "holds Double \<lparr>ul_head = Some (3 :: nat), ul_next = [3 \<mapsto> 2, 2 \<mapsto> 1],
      ul_prev = [3 \<mapsto> 1, 2 \<mapsto> 3, 1 \<mapsto> 2]\<rparr> [3, 2, 1]"
    by (simp add: dl_holds_def)
  from list_sort_is_stable_sort[OF _ this, of "\<lambda>x y. int (x mod 2) - int (y mod 2)" "\<lambda>x. x mod 2"]
  show ?thesis by simp
qed

text \<open>The three macros, and the nodes a traversal visits afterwards.\<close>

lemma dl_sort_visits:
  assumes "\<forall>x y. cmp x y \<le> 0 \<longleftrightarrow> f x \<le> (f y :: 'k :: linorder)" and "dl_holds l xs" and "length xs \<le> 2 ^ 30"
  shows "\<exists>l'. dl_sort cmp l = Some (Inr l') \<and> ll_foreach (ul_next l') (ul_head l') = Some (sort_key f xs)"
  using list_sort_result[OF assms(1), of Double l xs] assms(2,3) ll_foreach_path
  by (fastforce simp: dl_sort_def dl_holds_def)

lemma ll_sort_visits:
  assumes "\<forall>x y. cmp x y \<le> 0 \<longleftrightarrow> f x \<le> (f y :: 'k :: linorder)" and "ll_holds l xs" and "length xs \<le> 2 ^ 30"
  shows "\<exists>l'. ll_sort cmp l = Some (Inr l') \<and> ll_foreach (ul_next l') (ul_head l') = Some (sort_key f xs)"
  using list_sort_result[OF assms(1), of Single l xs] assms(2,3) ll_foreach_path
  by (fastforce simp: ll_sort_def ll_holds_def)

lemma cdl_sort_visits:
  assumes "\<forall>x y. cmp x y \<le> 0 \<longleftrightarrow> f x \<le> (f y :: 'k :: linorder)" and "cdl_holds l xs" and "length xs \<le> 2 ^ 30"
  shows "\<exists>l'. cdl_sort cmp l = Some (Inr l') \<and>
    cdl_foreach (ul_next l') (ul_head l') (ul_head l') = Some (sort_key f xs)"
  using list_sort_result[OF assms(1), of Circular l xs] assms(2,3) cdl_foreach_holds
  by (fastforce simp: cdl_sort_def)

end
