(* ===== verification/UtHashSort.thy ===== *)
theory UtHashSort
  imports UtSort UtHash
begin

text \<open>
  \<open>HASH_SRT\<close> of \<open>uthash.h\<close>: the elements of a hash table are sorted by relinking the list in which they were
  added, with the merge sort of \<open>UtSort\<close>; the buckets stay. The first element's \<open>prev\<close> is NULL, and the
  size of the runs is an \<open>unsigned\<close>.
\<close>

section \<open>The macro\<close>

definition app_list :: "'p ut_hash \<Rightarrow> 'p ut_list" where
  "app_list h = \<lparr>ul_head = uh_head h, ul_next = app_next h, ul_prev = app_prev h\<rparr>"

text \<open>The result is the tail of the last pass and the list.\<close>

partial_function (option) hash_sort_passes ::
    "('p \<Rightarrow> 'p \<Rightarrow> int) \<Rightarrow> 32 word \<Rightarrow> 'p ut_list \<Rightarrow> ('p \<times> 'p ut_list) c_result option" where
  "hash_sort_passes cmp insize l =
     (case sort_pass Double None cmp (unat insize) 0 (ul_head l) None (l\<lparr>ul_head := None\<rparr>) of
        None \<Rightarrow> None
      | Some (Inl e) \<Rightarrow> Some (Inl e)
      | Some (Inr (nmerges, tail, l)) \<Rightarrow>
          (case tail of
             None \<Rightarrow> Some (Inl Null_pointer)
           | Some t \<Rightarrow>
               let l = set_next t None l in
               if nmerges \<le> 1 then Some (Inr (t, l)) else hash_sort_passes cmp (insize * 2) l))"

definition uthash_sort :: "('p \<Rightarrow> 'p \<Rightarrow> int) \<Rightarrow> 'p ut_hash \<Rightarrow> 'p ut_hash c_result option" where
  "uthash_sort cmp h =
     (if uh_head h = None then Some (Inr h)
      else loop_bind (Some (the_table h)) (\<lambda>tbl.
        loop_bind (hash_sort_passes cmp 1 (app_list h)) (\<lambda>(t, l).
          Some (Inr (h\<lparr>uh_head := ul_head l, uh_tbl := Some (tbl\<lparr>tbl_tail := t\<rparr>),
            app_next := ul_next l, app_prev := ul_prev l\<rparr>)))))"

section \<open>Sorting the elements\<close>

definition app_holds :: "'p ut_list \<Rightarrow> 'p list \<Rightarrow> bool" where
  "app_holds l xs \<longleftrightarrow> distinct xs \<and> path (ul_next l) (ul_head l) xs None"

lemma hash_pass:
  assumes "\<forall>x y. cmp x y \<le> 0 \<longleftrightarrow> f x \<le> (f y :: 'k :: linorder)" and "0 < n" and "app_holds l ys" and "ys \<noteq> []"
  shows "\<exists>l'. sort_pass Double None cmp n 0 (ul_head l) None (l\<lparr>ul_head := None\<rparr>) =
      Some (Inr ((length ys + 2 * n - 1) div (2 * n), Some (last (runs_merged f n ys)), l')) \<and>
    app_holds (set_next (last (runs_merged f n ys)) None l') (runs_merged f n ys) \<and>
    rpath (ul_prev l') None (runs_merged f n ys)"
proof -
  let ?ys = "runs_merged f n ys"
  have start: "relinked Double [] None (l\<lparr>ul_head := None\<rparr>)" by (simp add: relinked_def)
  have "distinct ([] @ ys)" "path (successor Double None (l\<lparr>ul_head := None\<rparr>)) (ul_head l) ys None"
    using assms(3) by (simp_all add: app_holds_def successor_def[abs_def])
  from sort_pass_merges[OF assms(1,2) start this, of 0] obtain tail l' where
    pass: "sort_pass Double None cmp n 0 (ul_head l) None (l\<lparr>ul_head := None\<rparr>) =
      Some (Inr ((length ys + 2 * n - 1) div (2 * n), tail, l'))" "relinked Double ?ys tail l'" by auto
  have ys: "distinct ?ys" "?ys \<noteq> []"
    using assms(3,4) mset_eq_imp_distinct_iff[OF mset_runs_merged] by (auto simp: app_holds_def runs_merged_Nil)
  obtain zs t where zt: "?ys = zs @ [t]" using ys(2) by (meson rev_exhaust)
  have r: "tail = Some t" "path (ul_next l') (ul_head l') zs (Some t)" "rpath (ul_prev l') None ?ys"
    using pass(2) ys(2) zt by (auto simp: relinked_def)
  have "path ((ul_next l')(t := None)) (ul_head l') ?ys None"
    using r(2) ys(1) unfolding zt by (auto simp: path_simps)
  then show ?thesis using pass(1) r(1,3) ys(1) zt by (simp add: app_holds_def set_next_def)
qed

lemma hash_sort_passes_sort:
  assumes "\<forall>x y. cmp x y \<le> 0 \<longleftrightarrow> f x \<le> (f y :: 'k :: linorder)" and "xs \<noteq> []" and "length xs < 2 ^ 32"
  shows "i \<le> 31 \<Longrightarrow> app_holds l (runs_sorted f (2 ^ i) xs) \<Longrightarrow>
    \<exists>l'. hash_sort_passes cmp (2 ^ i) l = Some (Inr (last (sort_key f xs), l')) \<and>
      app_holds l' (sort_key f xs) \<and> rpath (ul_prev l') None (sort_key f xs)"
proof (induction "31 - i" arbitrary: i l rule: less_induct)
  case less
  let ?n = "2 ^ i :: nat"
  have n: "unat (2 ^ i :: 32 word) = ?n" using less.prems(1) by (intro unat_exp) simp
  have "runs_sorted f ?n xs \<noteq> []" using assms(2) by (metis length_0_conv length_runs_sorted)
  moreover have "0 < ?n" by simp
  ultimately obtain l' where pass: "sort_pass Double None cmp ?n 0 (ul_head l) None (l\<lparr>ul_head := None\<rparr>) =
      Some (Inr ((length xs + 2 * ?n - 1) div (2 * ?n), Some (last (runs_sorted f (2 ^ Suc i) xs)), l'))"
    "app_holds (set_next (last (runs_sorted f (2 ^ Suc i) xs)) None l') (runs_sorted f (2 ^ Suc i) xs)"
    "rpath (ul_prev l') None (runs_sorted f (2 ^ Suc i) xs)"
    using hash_pass[OF assms(1) _ less.prems(2)] by (metis length_runs_sorted power_Suc runs_merged_sorted)
  have merges: "(length xs + 2 * ?n - 1) div (2 * ?n) \<le> 1 \<longleftrightarrow> length xs \<le> 2 * ?n"
    using assms(2) merge_count[of ?n "length xs"] by (auto simp: div_eq_0_iff)
  let ?l = "set_next (last (runs_sorted f (2 ^ Suc i) xs)) None l'"
  have step: "hash_sort_passes cmp (2 ^ i) l =
      (if length xs \<le> 2 * ?n then Some (Inr (last (runs_sorted f (2 ^ Suc i) xs), ?l))
       else hash_sort_passes cmp (2 ^ Suc i) ?l)"
    using pass(1) merges n by (subst hash_sort_passes.simps) (simp add: mult.commute)
  show ?case
  proof (cases "length xs \<le> 2 * ?n")
    case True
    then have "runs_sorted f (2 ^ Suc i) xs = sort_key f xs" by (intro runs_sorted_all) simp
    with True step pass(2,3) show ?thesis by (simp add: set_next_def)
  next
    case False
    have "i \<noteq> 31" using False assms(3) by auto
    then have "Suc i \<le> 31" "31 - Suc i < 31 - i" using less.prems(1) by simp_all
    from less.hyps[OF this(2,1) pass(2)] False step show ?thesis by simp
  qed
qed

lemma sort_key_map: "sort_key f (map g xs) = map g (sort_key (\<lambda>x. f (g x)) xs)"
  by (rule properties_for_sort_key) (simp_all add: filter_map o_def filter_sort_key)

text \<open>The buckets do not depend on the list of the elements.\<close>

lemma table_holds_app:
  "table_holds (h\<lparr>uh_head := a, uh_tbl := b, app_next := c, app_prev := d\<rparr>) (t\<lparr>tbl_tail := x\<rparr>) M \<longleftrightarrow> table_holds h t M"
  by (simp add: table_holds_def size_ok_def chains_hold_def chain_def bkt_elems_def)

lemma uthash_sort_holds:
  assumes "\<forall>x y. cmp x y \<le> 0 \<longleftrightarrow> f x \<le> (f y :: 'k :: linorder)" and "hash_holds h m"
  shows "\<exists>h'. uthash_sort cmp h = Some (Inr h') \<and> hash_holds h' (sort_key (\<lambda>x. f (snd x)) m)"
proof (cases "m = []")
  case True
  with assms(2) show ?thesis by (simp add: uthash_sort_def hash_holds_head)
next
  case False
  let ?xs = "map snd m" and ?m = "sort_key (\<lambda>x. f (snd x)) m"
  obtain t where t: "uh_tbl h = Some t" "num_items t = of_nat (length m)" "table_holds h t (snd ` set m)"
    and len: "length m < 2 ^ 32" using assms(2) False by (auto simp: hash_holds_def)
  have xs: "sort_key f ?xs = map snd ?m" by (simp add: sort_key_map)
  have "app_holds (app_list h) (runs_sorted f (2 ^ 0) ?xs)"
    using assms(2) by (simp add: hash_holds_def app_holds_def app_list_def runs_sorted_1)
  from hash_sort_passes_sort[OF assms(1) _ _ _ this] False len obtain l' where
    l': "hash_sort_passes cmp 1 (app_list h) = Some (Inr (last (map snd ?m), l'))"
    "app_holds l' (map snd ?m)" "rpath (ul_prev l') None (map snd ?m)" by (auto simp: xs)
  let ?h = "h\<lparr>uh_head := ul_head l', uh_tbl := Some (t\<lparr>tbl_tail := last (map snd ?m)\<rparr>),
      app_next := ul_next l', app_prev := ul_prev l'\<rparr>"
  have "?m \<noteq> []" using False by (metis mset_sort mset_zero_iff)
  moreover have "uh_head h \<noteq> None" using assms(2) False by (simp add: hash_holds_head)
  then have "uthash_sort cmp h = Some (Inr ?h)" using l'(1) t(1) by (auto simp: uthash_sort_def the_table_def)
  moreover have "hash_ok ?m"
    using assms(2) mset_eq_imp_distinct_iff[of "map fst ?m" "map fst m"] by (simp add: hash_holds_def hash_ok_def hash_keys_def)
  ultimately show ?thesis
    using assms(2) l'(2,3) t len by (auto simp: hash_holds_def app_holds_def table_holds_app last_map)
qed

text \<open>Two elements never need more buckets.\<close>

section \<open>The sort's guarantees\<close>

lemma hash_find_sorted:
  assumes "hash_ok m"
  shows "hash_find (sort_key g m) k = hash_find m k"
proof -
  have "distinct (map fst (sort_key g m))"
    using assms mset_eq_imp_distinct_iff[of "map fst (sort_key g m)" "map fst m"] by (simp add: hash_ok_def hash_keys_def)
  then show ?thesis
    using assms map_of_inject_set[of "sort_key g m" m] by (simp add: hash_ok_def hash_keys_def hash_find_def)
qed

text \<open>C28: sorting a hash table orders its elements and changes nothing else. After any sequence of operations, for
  every comparison that orders elements by some key, \<open>HASH_SORT\<close> ends without following a NULL pointer;
  the iteration then visits the elements in the stable order of the keys, every key is found at the same
  element as before, the count stays, and the integrity check passes.\<close>

theorem hash_sort_only_reorders:
  assumes "\<forall>x y. cmp x y \<le> 0 \<longleftrightarrow> f x \<le> (f y :: 'k :: linorder)"
    and "ops_allowed table_allowed table_step ops []"
    and "run_ops (uthash_step (\<lambda>n. n < 2 ^ 31 \<and> mem n)) ops (empty_hash h0) = Some (Inr h)"
  shows "\<exists>h'. uthash_sort cmp h = Some (Inr h') \<and>
    ll_foreach (app_next h') (uh_head h') = Some (sort_key f (map snd (fold table_step ops []))) \<and>
    (\<forall>k. uthash_find h' k = uthash_find h k) \<and> uthash_count h' = uthash_count h \<and> hash_fsck h' = Some (Inr ())"
proof -
  let ?m = "fold table_step ops []" and ?g = "\<lambda>x. f (snd x)"
  have holds: "hash_holds h ?m" by (rule uthash_run_holds[OF assms(2,3)])
  obtain h' where h': "uthash_sort cmp h = Some (Inr h')" "hash_holds h' (sort_key ?g ?m)"
    using uthash_sort_holds[OF assms(1) holds] by blast
  have "ll_foreach (app_next h') (uh_head h') = Some (map snd (sort_key ?g ?m))"
    using h'(2) by (intro ll_foreach_path) (simp add: hash_holds_def)
  moreover have "map snd (sort_key ?g ?m) = sort_key f (map snd ?m)" by (simp add: sort_key_map)
  moreover have "uthash_find h' k = uthash_find h k" for k
    using uthash_find_holds[OF holds] uthash_find_holds[OF h'(2)] hash_find_sorted[of ?m ?g k] holds
    by (simp add: hash_holds_def)
  ultimately show ?thesis
    using h' uthash_count_holds[OF holds] uthash_count_holds[OF h'(2)] hash_fsck_holds[OF h'(2)]
    by (auto simp: hash_count_def)
qed

lemma hash_sort_only_reorders_witness:
  "\<exists>h h'. run_ops (uthash_step (\<lambda>n. n < 2 ^ 31 \<and> True)) [Hash_add [1, 2] (7 :: nat), Hash_add [1, 3] 4] (empty_hash null_hash) = Some (Inr h) \<and>
    uthash_sort (\<lambda>x y. int x - int y) h = Some (Inr h') \<and> ll_foreach (app_next h') (uh_head h') = Some [4, 7]"
proof -
  let ?ops = "[Hash_add [1, 2] (7 :: nat), Hash_add [1, 3] 4]"
  have m: "fold table_step ?ops [] = [([1, 2], 7), ([1, 3], 4)]" by (simp add: hash_add_def)
  obtain h where "run_ops (uthash_step (\<lambda>n. n < 2 ^ 31 \<and> True)) ?ops (empty_hash null_hash) = Some (Inr h)"
    using two_adds_succeed[of "\<lambda>n. n < 2 ^ 31 \<and> True" "empty_hash null_hash" "[1, 2]" 7 "[1, 3]" 4]
    by (auto simp: empty_hash_def)
  moreover have "ops_allowed table_allowed table_step ?ops []" by (simp add: hash_find_def hash_add_def)
  ultimately show ?thesis
    using hash_sort_only_reorders[of "\<lambda>x y. int x - int y" "\<lambda>x. x" ?ops "\<lambda>_. True" null_hash h] unfolding m by auto
qed

end
