(* ===== verification/UtHashIter.thy ===== *)
theory UtHashIter
  imports UtHash
begin

text \<open>
  Adding to a hash table while it is iterated over: \<open>HASH_ITER\<close> of \<open>uthash.h\<close> reads the successor of an
  element before its body runs, so what is added at the end of the table during a visit is seen later
  if and only if the visited element had a successor. This is what the round of the server does when a
  client joins, and what \<open>see_new\<close> says of it in \<open>Transmitter\<close>.
\<close>

section \<open>A body that adds\<close>

text \<open>\<open>joins p\<close> are the keys and elements that are added while \<open>p\<close> is visited; the program's state is the list of the
  elements visited so far.\<close>

fun add_all ::
    "(nat \<Rightarrow> bool) \<Rightarrow> (hash_key \<times> 'p) list \<Rightarrow> 'p ut_hash \<Rightarrow> 'p ut_hash c_result option" where
  "add_all mem [] h = Some (Inr h)"
| "add_all mem ((k, p) # js) h = loop_bind (uthash_add mem k p h) (add_all mem js)"

partial_function (option) iter_adding_from ::
    "(nat \<Rightarrow> bool) \<Rightarrow> ('p \<Rightarrow> (hash_key \<times> 'p) list) \<Rightarrow> 'p option \<Rightarrow> 'p option \<Rightarrow> 'p list \<Rightarrow> 'p ut_hash \<Rightarrow>
     ('p ut_hash \<times> 'p list) c_result option" where
  "iter_adding_from mem joins el tmp seen h =
     (case el of
        None \<Rightarrow> Some (Inr (h, seen))
      | Some p \<Rightarrow>
          (case add_all mem (joins p) h of
             None \<Rightarrow> None
           | Some (Inl e) \<Rightarrow> Some (Inl e)
           | Some (Inr h') \<Rightarrow>
               iter_adding_from mem joins tmp (case tmp of None \<Rightarrow> None | Some q \<Rightarrow> app_next h' q) (seen @ [p]) h'))"

definition iter_adding ::
    "(nat \<Rightarrow> bool) \<Rightarrow> ('p \<Rightarrow> (hash_key \<times> 'p) list) \<Rightarrow> 'p ut_hash \<Rightarrow> ('p ut_hash \<times> 'p list) c_result option" where
  "iter_adding mem joins h =
     iter_adding_from mem joins (uh_head h) (case uh_head h of None \<Rightarrow> None | Some p \<Rightarrow> app_next h p) [] h"

section \<open>What is visited\<close>

text \<open>The elements still to be visited, on lists: the additions of a visit are appended if there is a next element.\<close>

fun visits_with :: "('p \<Rightarrow> 'p list) \<Rightarrow> nat \<Rightarrow> 'p list \<Rightarrow> 'p list option" where
  "visits_with joins fuel [] = Some []"
| "visits_with joins 0 (p # ps) = None"
| "visits_with joins (Suc fuel) (p # ps) =
     map_option (\<lambda>vs. p # vs) (visits_with joins fuel (if ps = [] then [] else ps @ joins p))"

lemma add_all_holds:
  assumes "hash_holds h m" and "\<not> mem (2 ^ 31)" and "distinct (map fst (m @ js))" and "distinct (map snd (m @ js))"
    and "length (m @ js) < 2 ^ 32"
  shows "add_all mem js h = Some (Inl (Exit (-1))) \<or>
    (\<exists>h'. add_all mem js h = Some (Inr h') \<and> hash_holds h' (m @ js))"
  using assms
proof (induction js arbitrary: h m)
  case (Cons kp js)
  obtain k p where kp: "kp = (k, p)" by (cases kp)
  have "k \<notin> set (hash_keys m)" "p \<notin> snd ` set m" "length m < 2 ^ 32 - 1"
    using Cons.prems(3-5) kp by (auto simp: hash_keys_def)
  from uthash_add_holds[OF Cons.prems(1) this, of mem, OF Cons.prems(2)] show ?case
  proof (elim disjE exE conjE)
    fix h1 assume h1: "uthash_add mem k p h = Some (Inr h1)" "hash_holds h1 (hash_add m k p)"
    then have "hash_holds h1 (m @ [(k, p)])" by (simp add: hash_add_def)
    from Cons.IH[OF this] Cons.prems(2-5) show ?thesis by (simp add: h1(1) kp)
  qed (simp add: kp)
qed simp

text \<open>\<open>m\<close> are the entries so far, of which \<open>us\<close> were visited.\<close>

lemma iter_adding_from_visits:
  assumes "hash_holds h m" and "\<not> mem (2 ^ 31)" and "m = us @ vs"
    and "el = (if vs = [] then None else Some (snd (hd vs)))"
    and "tmp = (if tl vs = [] then None else Some (snd (hd (tl vs))))"
    and "visits_with (\<lambda>p. map snd (joins p)) fuel (map snd vs) = Some ps"
    and "distinct (map fst (m @ concat (map joins ps)))" and "distinct (map snd (m @ concat (map joins ps)))"
    and "length (m @ concat (map joins ps)) < 2 ^ 32"
  shows "iter_adding_from mem joins el tmp seen h = Some (Inl (Exit (-1))) \<or>
    (\<exists>h'. iter_adding_from mem joins el tmp seen h = Some (Inr (h', seen @ ps)) \<and>
       hash_holds h' (m @ concat (map joins ps)))"
  using assms
proof (induction fuel arbitrary: h m us vs el tmp ps seen)
  case 0
  then have "vs = []" "ps = []" by (cases vs; simp)+
  with 0 show ?case by (subst (1 2) iter_adding_from.simps) simp
next
  case (Suc fuel)
  show ?case
  proof (cases vs)
    case Nil
    with Suc.prems show ?thesis by (subst (1 2) iter_adding_from.simps) simp
  next
    case (Cons kp ws)
    obtain k p where kp: "kp = (k, p)" by (cases kp)
    obtain qs where qs: "ps = p # qs"
      "visits_with (\<lambda>p. map snd (joins p)) fuel (if ws = [] then [] else map snd ws @ map snd (joins p)) = Some qs"
      using Suc.prems(6) Cons kp by (auto split: if_splits)
    let ?m = "m @ joins p" and ?ws = "if ws = [] then [] else ws @ joins p"
    have el: "el = Some p" and tmp: "tmp = (if ws = [] then None else Some (snd (hd ws)))"
      using Suc.prems(4,5) Cons kp by simp_all
    have "distinct (map fst ?m)" "distinct (map snd ?m)" "length ?m < 2 ^ 32"
      using Suc.prems(7-9) qs(1) by (auto simp: Int_Un_distrib)
    from add_all_holds[OF Suc.prems(1), of mem "joins p", OF Suc.prems(2) this]
    have "add_all mem (joins p) h = Some (Inl (Exit (-1))) \<or>
        (\<exists>h'. add_all mem (joins p) h = Some (Inr h') \<and> hash_holds h' ?m)" .
    then show ?thesis
    proof (elim disjE exE conjE)
      fix h1 assume h1: "add_all mem (joins p) h = Some (Inr h1)" "hash_holds h1 ?m"
      let ?us = "if ws = [] then ?m else us @ [kp]"
      have m: "?m = ?us @ ?ws" using Suc.prems(3) Cons by simp
      have tmp': "(case tmp of None \<Rightarrow> None | Some q \<Rightarrow> app_next h1 q) = (if tl ?ws = [] then None else Some (snd (hd (tl ?ws))))"
      proof (cases ws)
        case (Cons kq xs)
        then show ?thesis
          using h1(2) m hash_holds_next[of h1 ?us "fst kq" "snd kq" "xs @ joins p"] tmp by simp
      qed (simp add: tmp)
      have el': "tmp = (if ?ws = [] then None else Some (snd (hd ?ws)))" using tmp by simp
      have "visits_with (\<lambda>p. map snd (joins p)) fuel (map snd ?ws) = Some qs" using qs(2) by auto
      moreover have "iter_adding_from mem joins el tmp seen h =
          iter_adding_from mem joins tmp (case tmp of None \<Rightarrow> None | Some q \<Rightarrow> app_next h1 q) (seen @ [p]) h1"
        using h1(1) el by (subst iter_adding_from.simps) (simp cong: option.case_cong)
      ultimately show ?thesis
        using Suc.IH[OF h1(2) _ m el' tmp', of qs "seen @ [p]"] Suc.prems(2) Suc.prems(7-9) qs(1) by simp
    qed (use el in \<open>subst iter_adding_from.simps, simp\<close>)
  qed
qed

lemma visits_without_joins: "\<forall>p \<in> set ps. joins p = [] \<Longrightarrow> visits_with joins (length ps) ps = Some ps"
  by (induction ps) auto

lemma visits_one_join:
  "\<forall>p \<in> set us. joins p = [] \<Longrightarrow> joins q = [] \<Longrightarrow> \<forall>p \<in> set vs. joins p = [] \<Longrightarrow> joins p0 = [q] \<Longrightarrow>
   visits_with joins (Suc (length (us @ p0 # vs))) (us @ p0 # vs) = Some ((us @ p0 # vs) @ (if vs = [] then [] else [q]))"
proof (induction us)
  case Nil
  then show ?case using visits_without_joins[of "vs @ [q]" joins] by simp
qed simp

lemma iter_adding_visits:
  assumes "hash_holds h m" and "\<not> mem (2 ^ 31)" and "visits_with (\<lambda>p. map snd (joins p)) fuel (map snd m) = Some ps"
    and "distinct (map fst (m @ concat (map joins ps)))" and "distinct (map snd (m @ concat (map joins ps)))"
    and "length (m @ concat (map joins ps)) < 2 ^ 32"
  shows "iter_adding mem joins h = Some (Inl (Exit (-1))) \<or>
    (\<exists>h'. iter_adding mem joins h = Some (Inr (h', ps)) \<and> hash_holds h' (m @ concat (map joins ps)))"
proof -
  have "(case uh_head h of None \<Rightarrow> None | Some p \<Rightarrow> app_next h p) = (if tl m = [] then None else Some (snd (hd (tl m))))"
  proof (cases m)
    case (Cons kp vs)
    then show ?thesis
      using assms hash_holds_next[of h "[]" "fst kp" "snd kp" vs] hash_holds_head[OF assms(1)] by simp
  qed (use hash_holds_head[OF assms(1)] in simp)
  from iter_adding_from_visits[where mem = mem and h = h and m = m and us = "[]" and vs = m and seen = "[]" and joins = joins and ps = ps and fuel = fuel,
      OF assms(1,2) _ hash_holds_head[OF assms(1)] this] assms(3-6)
  show ?thesis by (simp add: iter_adding_def)
qed

lemma iter_one_join:
  assumes holds: "hash_holds h' (us @ (k0, p0) # vs)" and allowed: "table_allowed (Hash_add k q) (us @ (k0, p0) # vs)"
  shows "iter_adding (\<lambda>n. n < 2 ^ 31 \<and> mem n) (\<lambda>p. if p = p0 then [(k, q)] else []) h' = Some (Inl (Exit (-1))) \<or>
    (\<exists>h''. iter_adding (\<lambda>n. n < 2 ^ 31 \<and> mem n) (\<lambda>p. if p = p0 then [(k, q)] else []) h' =
       Some (Inr (h'', map snd us @ p0 # map snd vs @ (if vs = [] then [] else [q]))) \<and>
     uthash_find h'' k = Some (Inr (Some q)) \<and> uthash_count h'' = Inr (of_nat (length (us @ (k0, p0) # vs) + 1)))"
proof -
  let ?joins = "\<lambda>p. if p = p0 then [(k, q)] else []" and ?m = "us @ (k0, p0) # vs"
  let ?ps = "(map snd us @ p0 # map snd vs) @ (if map snd vs = [] then [] else [q])"
  have dist: "distinct (map snd ?m)" "hash_ok ?m" using holds by (auto simp: hash_holds_def)
  have new: "q \<notin> snd ` set ?m" "hash_find ?m k = None" "length ?m < 2 ^ 32 - 1" using allowed by simp_all
  have none: "p0 \<notin> set ps \<Longrightarrow> concat (map ?joins ps) = []" for ps by (induction ps) auto
  have "p0 \<notin> set (map snd us)" "p0 \<notin> set (map snd vs)" "q \<noteq> p0" using dist(1) new(1) by auto
  note apart = none[OF this(1)] none[OF this(2)] this(3)
  have last: "p0 \<notin> set (if map snd vs = [] then [] else [q])" using apart(3) by simp
  have js: "concat (map ?joins ?ps) = [(k, q)]"
    unfolding map_append concat_append list.map concat.simps apart(1,2)
    by (simp only: if_P append_Nil append_Nil2 none[OF last])
  have "\<forall>p \<in> set (map snd us) \<union> set (map snd vs) \<union> {q}. map snd (?joins p) = []" "map snd (?joins p0) = [q]"
    using apart(3) dist(1) by auto
  then have "visits_with (\<lambda>p. map snd (?joins p)) (Suc (length (map snd us @ p0 # map snd vs)))
      (map snd us @ p0 # map snd vs) = Some ?ps"
    by (intro visits_one_join) auto
  then have "visits_with (\<lambda>p. map snd (?joins p)) (Suc (length (map snd us @ p0 # map snd vs))) (map snd ?m) = Some ?ps"
    by (simp only: map_append list.map snd_conv)
  note visited = iter_adding_visits[OF holds _ this, of "\<lambda>n. n < 2 ^ 31 \<and> mem n", unfolded js]
  have "distinct (map fst (?m @ [(k, q)]))" "distinct (map snd (?m @ [(k, q)]))"
    using dist new(1,2) by (auto simp: hash_ok_def hash_keys_def hash_find_None_iff image_Un)
  moreover have "length (?m @ [(k, q)]) < 2 ^ 32" using new(3) by simp
  ultimately have "iter_adding (\<lambda>n. n < 2 ^ 31 \<and> mem n) ?joins h' = Some (Inl (Exit (-1))) \<or>
    (\<exists>h''. iter_adding (\<lambda>n. n < 2 ^ 31 \<and> mem n) ?joins h' = Some (Inr (h'', ?ps)) \<and> hash_holds h'' (?m @ [(k, q)]))"
    by (intro visited) simp
  moreover have "uthash_find h'' k = Some (Inr (Some q)) \<and> uthash_count h'' = Inr (of_nat (length ?m + 1))"
    if "hash_holds h'' (?m @ [(k, q)])" for h''
  proof -
    have "hash_find (hash_add ?m k q) k = Some q" using new(2) by simp
    then have "hash_find (?m @ [(k, q)]) k = Some q" by (simp add: hash_add_def)
    then show ?thesis using uthash_find_holds[OF that, of k] uthash_count_holds[OF that] by (simp add: hash_count_def)
  qed
  ultimately show ?thesis by auto
qed

text \<open>C22: what is added to a hash table while an iteration visits an element is itself visited, at the end, if and only
  if the visited element is not the last: an iteration has then already fetched the end of the table. In
  both cases the iteration ends and the element is in the table, to be found and counted.\<close>

theorem add_while_iterating:
  assumes "ops_allowed table_allowed table_step ops []"
    and "run_ops (uthash_step (\<lambda>n. n < 2 ^ 31 \<and> mem n)) ops (empty_hash h) = Some (Inr h')"
    and "fold table_step ops [] = us @ (k0, p0) # vs" and "table_allowed (Hash_add k q) (us @ (k0, p0) # vs)"
  shows "iter_adding (\<lambda>n. n < 2 ^ 31 \<and> mem n) (\<lambda>p. if p = p0 then [(k, q)] else []) h' = Some (Inl (Exit (-1))) \<or>
    (\<exists>h''. iter_adding (\<lambda>n. n < 2 ^ 31 \<and> mem n) (\<lambda>p. if p = p0 then [(k, q)] else []) h' =
       Some (Inr (h'', map snd us @ p0 # map snd vs @ (if vs = [] then [] else [q]))) \<and>
     uthash_find h'' k = Some (Inr (Some q)) \<and> uthash_count h'' = Inr (of_nat (length (us @ (k0, p0) # vs) + 1)))"
  using iter_one_join[OF uthash_run_holds[OF assms(1,2), unfolded assms(3)] assms(4), of mem] .

lemma add_while_iterating_witness:
  "\<exists>h' h''. uthash_add (\<lambda>n. n < 2 ^ 31 \<and> True) [1] (7 :: nat) (empty_hash null_hash) = Some (Inr h') \<and>
    iter_adding (\<lambda>n. n < 2 ^ 31 \<and> True) (\<lambda>p. if p = 7 then [([2], 8)] else []) h' = Some (Inr (h'', [7])) \<and>
    uthash_find h'' [2] = Some (Inr (Some 8))"
proof -
  let ?mem = "\<lambda>n. n < 2 ^ 31 \<and> True" and ?op = "Hash_add [1] (7 :: nat)"
  obtain h' h2 where h': "uthash_add ?mem [1] 7 (empty_hash null_hash) = Some (Inr h')"
    and h2: "uthash_add ?mem [2] 8 h' = Some (Inr h2)"
    using two_adds_succeed[of ?mem "empty_hash null_hash" "[1]" 7 "[2]" 8] by (auto simp: empty_hash_def)
  have run: "run_ops (uthash_step ?mem) [?op] (empty_hash null_hash) = Some (Inr h')" using h' by simp
  have "hash_holds h' [([1], 7)]"
    using uthash_run_holds[OF _ run] by (simp add: hash_find_def hash_add_def)
  then have first: "uh_head h' = Some 7" "app_next h' 7 = None"
    using hash_holds_head hash_holds_next[of h' "[]"] by fastforce+
  have "iter_adding ?mem (\<lambda>p. if p = 7 then [([2], 8)] else []) h' = Some (Inr (h2, [7]))"
    using first h2 by (subst iter_adding_def, subst iter_adding_from.simps, simp, subst iter_adding_from.simps, simp)
  then have "iter_adding ?mem (\<lambda>p. if p = 7 then [([2], 8)] else []) h' \<noteq> Some (Inl (Exit (-1)))" by simp
  moreover have "ops_allowed table_allowed table_step [?op] []" "table_allowed (Hash_add [2] (8 :: nat)) ([] @ ([1], 7) # [])"
    "fold table_step [?op] [] = [] @ ([1], 7) # []"
    by (simp_all add: hash_find_def hash_add_def)
  note add_while_iterating[OF this(1) run this(3,2)]
  ultimately show ?thesis using h' by auto
qed

end
