(* ===== verification/UtHashSelect.thy ===== *)
theory UtHashSelect
  imports UtHash
begin

text \<open>
  \<open>HASH_SELECT\<close> of \<open>uthash.h\<close>: the elements of one table that satisfy a condition are put into a second one,
  through a second hash handle in each element. The handles of the second table are the fields of its own
  \<open>ut_hash\<close>, so the first table is read only.
\<close>

section \<open>The macro\<close>

text \<open>The handle of a selected element is filled from that of the source and linked behind the element selected before
  it; the new element has no successor yet.\<close>

definition select_handle :: "'p ut_hash \<Rightarrow> 'p \<Rightarrow> 'p option \<Rightarrow> 'p ut_hash \<Rightarrow> 'p ut_hash" where
  "select_handle src p last_elt dst =
     dst\<lparr>hh_key := (hh_key dst)(p := hh_key src p), hh_hashv := (hh_hashv dst)(p := hh_hashv src p),
       app_prev := (app_prev dst)(p := last_elt),
       app_next := (case last_elt of None \<Rightarrow> (app_next dst)(p := None)
         | Some q \<Rightarrow> (app_next dst)(p := None, q := Some p))\<rparr>"

text \<open>The body for one element. It is put into its bucket, and the items are counted after that. \<open>tail\<close> is not changed.\<close>

definition select_elem ::
    "(nat \<Rightarrow> bool) \<Rightarrow> 'p ut_hash \<Rightarrow> 'p \<Rightarrow> 'p ut_hash \<times> 'p option \<Rightarrow> ('p ut_hash \<times> 'p option) c_result option" where
  "select_elem mem src p = (\<lambda>(dst, last_elt).
     let dst = select_handle src p last_elt dst in
     loop_bind
       (Some (case uh_head dst of
          None \<Rightarrow> result_bind (hash_make_table mem p) (\<lambda>t. Inr (dst\<lparr>uh_head := Some p, uh_tbl := Some t\<rparr>))
        | Some _ \<Rightarrow> Inr dst))
       (\<lambda>dst. loop_bind (Some (the_table dst)) (\<lambda>t.
          loop_bind (hash_add_to_bkt mem (hash_to_bkt (hh_hashv dst p) (num_buckets t)) p dst) (\<lambda>dst.
            loop_bind (Some (the_table dst)) (\<lambda>t.
              Some (Inr (dst\<lparr>uh_tbl := Some (t\<lparr>num_items := num_items t + 1\<rparr>)\<rparr>, Some p)))))))"

partial_function (option) select_chain ::
    "(nat \<Rightarrow> bool) \<Rightarrow> ('p \<Rightarrow> bool) \<Rightarrow> 'p ut_hash \<Rightarrow> 'p option \<Rightarrow> 'p ut_hash \<times> 'p option \<Rightarrow>
     ('p ut_hash \<times> 'p option) c_result option" where
  "select_chain mem cond src hh st =
     (case hh of
        None \<Rightarrow> Some (Inr st)
      | Some p \<Rightarrow>
          (case (if cond p then select_elem mem src p st else Some (Inr st)) of
             None \<Rightarrow> None
           | Some (Inl e) \<Rightarrow> Some (Inl e)
           | Some (Inr st') \<Rightarrow> select_chain mem cond src (hh_next src p) st'))"

fun select_buckets ::
    "(nat \<Rightarrow> bool) \<Rightarrow> ('p \<Rightarrow> bool) \<Rightarrow> 'p ut_hash \<Rightarrow> 'p ut_bucket list \<Rightarrow> nat list \<Rightarrow> 'p ut_hash \<times> 'p option \<Rightarrow>
     ('p ut_hash \<times> 'p option) c_result option" where
  "select_buckets mem cond src bs [] st = Some (Inr st)"
| "select_buckets mem cond src bs (i # is) st =
     loop_bind (Some (get_bucket bs i)) (\<lambda>b.
       loop_bind (select_chain mem cond src (bkt_head b) st) (select_buckets mem cond src bs is))"

definition hash_select ::
    "(nat \<Rightarrow> bool) \<Rightarrow> ('p \<Rightarrow> bool) \<Rightarrow> 'p ut_hash \<Rightarrow> 'p ut_hash \<Rightarrow> 'p ut_hash c_result option" where
  "hash_select mem cond src dst =
     (case uh_head src of
        None \<Rightarrow> Some (Inr dst)
      | Some _ \<Rightarrow>
          loop_bind (Some (the_table src)) (\<lambda>t.
            loop_bind (select_buckets mem cond src (tbl_buckets t) [0..<unat (num_buckets t)] (dst, None))
              (\<lambda>(dst, _). Some (Inr dst))))"

section \<open>What has been selected\<close>

text \<open>The selected elements \<open>ps\<close>, in order, and what \<open>dst\<close> and \<open>_last_elt\<close> are after them. The tail stays the first.\<close>

definition selected :: "'p ut_hash \<Rightarrow> 'p list \<Rightarrow> 'p ut_hash \<times> 'p option \<Rightarrow> bool" where
  "selected src ps = (\<lambda>(dst, last_elt).
     distinct ps \<and> length ps < 2 ^ 32 \<and>
     (\<forall>p \<in> set ps. hh_key dst p = hh_key src p \<and> hh_hashv dst p = hh_hashv src p) \<and>
     path (app_next dst) (uh_head dst) ps None \<and> rpath (app_prev dst) None ps \<and>
     last_elt = (if ps = [] then None else Some (last ps)) \<and>
     (ps \<noteq> [] \<longrightarrow> (\<exists>t. uh_tbl dst = Some t \<and> tbl_tail t = hd ps \<and> num_items t = of_nat (length ps) \<and>
        table_holds dst t (set ps))))"

lemma selected_head: "selected src ps (dst, l) \<Longrightarrow> uh_head dst = (if ps = [] then None else Some (hd ps))"
  by (cases ps) (auto simp: selected_def)

lemma select_elem_selected:
  assumes sel: "selected src ps st" and p: "p \<notin> set ps" and len: "length ps < 2 ^ 32 - 1" and mem: "\<not> mem (2 ^ 31)"
  shows "select_elem mem src p st = Some (Inl (Exit (-1))) \<or>
    (\<exists>st'. select_elem mem src p st = Some (Inr st') \<and> selected src (ps @ [p]) st')"
proof -
  obtain dst l where st: "st = (dst, l)" by (cases st)
  define d1 where "d1 = select_handle src p l dst"
  have fields: "\<forall>q \<in> set (ps @ [p]). hh_key d1 q = hh_key src q \<and> hh_hashv d1 q = hh_hashv src q"
    using sel p st by (auto simp: selected_def d1_def select_handle_def)
  have l: "l = (if ps = [] then None else Some (last ps))" using sel st by (simp add: selected_def)
  have unfolded: "select_elem mem src p st =
     loop_bind (Some (case uh_head d1 of
             None \<Rightarrow> result_bind (hash_make_table mem p) (\<lambda>t. Inr (d1\<lparr>uh_head := Some p, uh_tbl := Some t\<rparr>))
           | Some _ \<Rightarrow> Inr d1))
          (\<lambda>dst. loop_bind (Some (the_table dst)) (\<lambda>t.
             loop_bind (hash_add_to_bkt mem (hash_to_bkt (hh_hashv dst p) (num_buckets t)) p dst) (\<lambda>dst.
               loop_bind (Some (the_table dst)) (\<lambda>t.
                 Some (Inr (dst\<lparr>uh_tbl := Some (t\<lparr>num_items := num_items t + 1\<rparr>)\<rparr>, Some p))))))"
    unfolding select_elem_def st d1_def Let_def prod.case ..
  have finish: "\<exists>st'. Some (Inr (d3\<lparr>uh_tbl := Some (t'\<lparr>num_items := num_items t' + 1\<rparr>)\<rparr>, Some p)) = Some (Inr st') \<and>
      selected src (ps @ [p]) st'"
    if "uh_tbl d3 = Some t'" "same_app d2 d3" "table_holds d3 t' (insert p (set ps))" "num_items t' = of_nat (length ps)"
      "tbl_tail t' = hd (ps @ [p])" "path (app_next d2) (uh_head d2) (ps @ [p]) None" "rpath (app_prev d2) None (ps @ [p])"
      "hh_key d2 = hh_key d1" "hh_hashv d2 = hh_hashv d1" for d2 d3 t'
    using that sel p len fields st
    by (auto simp: selected_def same_app_def table_holds_def size_ok_def add.commute)
  show ?thesis
  proof (cases "ps = []")
    case True
    then have none: "uh_head d1 = None" using sel selected_head[of src ps dst l] st by (simp add: d1_def select_handle_def)
    show ?thesis
    proof (cases "mem 32")
      case True
      let ?t = "\<lparr>tbl_buckets = replicate 32 zero_bucket, num_buckets = 32, log2_num_buckets = 5, num_items = 0,
        tbl_tail = p, ideal_chain_maxlen = 0, nonideal_items = 0, ineff_expands = 0, noexpand = 0\<rparr>"
      let ?d = "d1\<lparr>uh_head := Some p, uh_tbl := Some ?t\<rparr>" and ?i = "hash_to_bkt (hh_hashv d1 p) 32"
      have "size_ok ?t" unfolding size_ok_def by (intro exI[of _ 5]) simp
      moreover have "chains_hold ?d (replicate 32 zero_bucket) 32 {}" using chains_hold_empty[of ?d 32] by simp
      ultimately have t: "table_holds ?d ?t {}" by (simp add: table_holds_def)
      have "?i < 32" using hash_to_bkt_less[of 32] by simp
      then have "bkt_count (tbl_buckets ?t ! ?i) + 1 < (bkt_expand_mult (tbl_buckets ?t ! ?i) + 1) * 10"
        by (simp add: zero_bucket_def word_less_nat_alt)
      then have "hash_add_to_bkt mem ?i p ?d = Some (Inl (Exit (-1))) \<or>
        (\<exists>h' t'. hash_add_to_bkt mem ?i p ?d = Some (Inr h') \<and> uh_tbl h' = Some t' \<and> same_app ?d h' \<and>
           table_holds h' t' (insert p {}) \<and> num_items t' = num_items ?t \<and> tbl_tail t' = tbl_tail ?t)"
        using mem by (intro hash_add_to_bkt_holds[OF _ t]) simp_all
      moreover have "path (app_next ?d) (uh_head ?d) (ps @ [p]) None" "rpath (app_prev ?d) None (ps @ [p])"
        using \<open>ps = []\<close> l by (simp_all add: d1_def select_handle_def)
      ultimately show ?thesis
        using finish[of _ _ ?d] \<open>ps = []\<close> True none by (fastforce simp: unfolded hash_make_table_def the_table_def)
    qed (simp add: unfolded none hash_make_table_def)
  next
    case False
    obtain t where t: "uh_tbl dst = Some t" "tbl_tail t = hd ps" "num_items t = of_nat (length ps)" "table_holds dst t (set ps)"
      using sel False st by (auto simp: selected_def)
    have "unat (num_items t) = length ps" using len t(3) by (simp add: unat_of_small)
    then have n: "num_items t \<noteq> 0" using False by auto
    have t1: "uh_tbl d1 = Some t" "table_holds d1 t (set ps)"
      using t(1,4) p by (simp_all add: d1_def select_handle_def table_holds_def)
    have "hash_add_to_bkt mem (hash_to_bkt (hh_hashv d1 p) (num_buckets t)) p d1 = Some (Inl (Exit (-1))) \<or>
        (\<exists>h' t'. hash_add_to_bkt mem (hash_to_bkt (hh_hashv d1 p) (num_buckets t)) p d1 = Some (Inr h') \<and> uh_tbl h' = Some t' \<and>
           same_app d1 h' \<and> table_holds h' t' (insert p (set ps)) \<and> num_items t' = num_items t \<and> tbl_tail t' = tbl_tail t)"
      using hash_add_to_bkt_holds[OF t1 p] n mem by blast
    moreover have "path (app_next d1) (uh_head d1) (ps @ [p]) None" "rpath (app_prev d1) None (ps @ [p])"
    proof -
      obtain qs q where ps: "ps = qs @ [q]" using False by (metis rev_exhaust)
      then show "path (app_next d1) (uh_head d1) (ps @ [p]) None" "rpath (app_prev d1) None (ps @ [p])"
        using sel p l st by (auto simp: selected_def d1_def select_handle_def path_simps)
    qed
    moreover have "uh_head d1 \<noteq> None" using selected_head[of src ps dst l] sel st False by (simp add: d1_def select_handle_def)
    ultimately show ?thesis
      using finish[of _ _ d1] t t1(1) False by (fastforce simp: unfolded the_table_def)
  qed
qed

lemma select_chain_selected:
  assumes "selected src ps st" and "path (hh_next src) hh qs None" and "distinct (ps @ qs)"
    and "length (ps @ qs) < 2 ^ 32" and "\<not> mem (2 ^ 31)"
  shows "select_chain mem cond src hh st = Some (Inl (Exit (-1))) \<or>
    (\<exists>st'. select_chain mem cond src hh st = Some (Inr st') \<and> selected src (ps @ filter cond qs) st')"
  using assms
proof (induction qs arbitrary: ps st hh)
  case Nil
  then show ?case by (subst (1 2) select_chain.simps) simp
next
  case (Cons q qs)
  have hh: "hh = Some q" "path (hh_next src) (hh_next src q) qs None" using Cons.prems(2) by simp_all
  show ?case
  proof (cases "cond q")
    case True
    have "q \<notin> set ps" "length ps < 2 ^ 32 - 1" using Cons.prems(3,4) by auto
    from select_elem_selected[where mem = mem, OF Cons.prems(1) this Cons.prems(5)] show ?thesis
    proof (elim disjE exE conjE)
      fix st' assume st': "select_elem mem src q st = Some (Inr st')" "selected src (ps @ [q]) st'"
      have "select_chain mem cond src hh st = select_chain mem cond src (hh_next src q) st'"
        using hh(1) True st'(1) by (subst select_chain.simps) simp
      with Cons.IH[OF st'(2) hh(2)] Cons.prems(3-5) True show ?thesis by simp
    qed (use hh(1) True in \<open>subst select_chain.simps, simp\<close>)
  next
    case False
    have "select_chain mem cond src hh st = select_chain mem cond src (hh_next src q) st"
      using hh(1) False by (subst select_chain.simps) simp
    with Cons.IH[OF Cons.prems(1) hh(2)] Cons.prems(3-5) False show ?thesis by simp
  qed
qed

lemma select_buckets_selected:
  assumes "selected src ps st" and "chains_hold src bs num M" and "finite M" and "card M < 2 ^ 32"
    and "distinct is" and "\<forall>i \<in> set is. i < length bs" and "set ps \<subseteq> M" and "\<forall>p \<in> set ps. hash_to_bkt (hh_hashv src p) num \<notin> set is"
    and "\<not> mem (2 ^ 31)"
  shows "select_buckets mem cond src bs is st = Some (Inl (Exit (-1))) \<or>
    (\<exists>st' qs. select_buckets mem cond src bs is st = Some (Inr st') \<and> selected src (ps @ qs) st' \<and>
       set qs = {p \<in> M. hash_to_bkt (hh_hashv src p) num \<in> set is \<and> cond p})"
  using assms
proof (induction "is" arbitrary: ps st)
  case (Cons i "is")
  from Cons.prems(2,6) obtain qs where qs: "i < length bs" "chain src (bs ! i) qs" "set qs = bkt_elems src num M i"
    by (auto simp: chains_hold_def)
  have apart: "set ps \<inter> set qs = {}" using Cons.prems(8) qs(3) by (auto simp: bkt_elems_def)
  have dist: "distinct (ps @ qs)" using Cons.prems(1) qs(2) apart by (auto simp: selected_def chain_def)
  have "set (ps @ qs) \<subseteq> M" using Cons.prems(7) qs(3) by (auto simp: bkt_elems_def)
  from card_mono[OF Cons.prems(3) this] have "length (ps @ qs) < 2 ^ 32"
    using Cons.prems(4) distinct_card[OF dist] by simp
  from select_chain_selected[where mem = mem, OF Cons.prems(1) _ dist this Cons.prems(9), of "bkt_head (bs ! i)" cond] qs(2)
  have "select_chain mem cond src (bkt_head (bs ! i)) st = Some (Inl (Exit (-1))) \<or>
    (\<exists>st'. select_chain mem cond src (bkt_head (bs ! i)) st = Some (Inr st') \<and> selected src (ps @ filter cond qs) st')"
    by (simp add: chain_def)
  then show ?case
  proof (elim disjE exE conjE)
    fix st1 assume st1: "select_chain mem cond src (bkt_head (bs ! i)) st = Some (Inr st1)" "selected src (ps @ filter cond qs) st1"
    have in_M: "set (ps @ filter cond qs) \<subseteq> M" using Cons.prems(7) qs(3) by (auto simp: bkt_elems_def)
    have rest: "\<forall>p \<in> set (ps @ filter cond qs). hash_to_bkt (hh_hashv src p) num \<notin> set is"
      using Cons.prems(5,8) qs(3) by (auto simp: bkt_elems_def)
    have step: "select_buckets mem cond src bs (i # is) st = select_buckets mem cond src bs is st1"
      using st1(1) qs(1) by (simp add: get_bucket_def)
    have all: "set (filter cond qs @ rs) = {p \<in> M. hash_to_bkt (hh_hashv src p) num \<in> set (i # is) \<and> cond p}"
      if "set rs = {p \<in> M. hash_to_bkt (hh_hashv src p) num \<in> set is \<and> cond p}" for rs
      using that qs(3) by (auto simp: bkt_elems_def)
    have "select_buckets mem cond src bs is st1 = Some (Inl (Exit (-1))) \<or>
      (\<exists>st' rs. select_buckets mem cond src bs is st1 = Some (Inr st') \<and> selected src ((ps @ filter cond qs) @ rs) st' \<and>
         set rs = {p \<in> M. hash_to_bkt (hh_hashv src p) num \<in> set is \<and> cond p})"
      using Cons.IH[OF st1(2) Cons.prems(2-4) _ _ in_M rest Cons.prems(9)] Cons.prems(5,6) by simp
    then show ?thesis
    proof (elim disjE exE conjE)
      fix st' rs assume rs: "select_buckets mem cond src bs is st1 = Some (Inr st')"
        "selected src ((ps @ filter cond qs) @ rs) st'" "set rs = {p \<in> M. hash_to_bkt (hh_hashv src p) num \<in> set is \<and> cond p}"
      show ?thesis unfolding step using rs(1,2) all[OF rs(3)]
        by (intro disjI2 exI[of _ st'] exI[of _ "filter cond qs @ rs"] conjI) simp_all
    qed (simp only: step simp_thms)
  qed (use qs(1) in \<open>simp add: get_bucket_def\<close>)
qed auto

lemma hash_select_selected:
  assumes m: "hash_holds src m" and dst: "uh_head dst = None" and mem: "\<not> mem (2 ^ 31)"
  shows "hash_select mem cond src dst = Some (Inl (Exit (-1))) \<or>
    (\<exists>dst' ps l. hash_select mem cond src dst = Some (Inr dst') \<and> selected src ps (dst', l) \<and>
       set ps = {p \<in> snd ` set m. cond p})"
proof -
  have start: "selected src [] (dst, None)" using dst by (simp add: selected_def)
  show ?thesis
  proof (cases "m = []")
    case True
    then show ?thesis using hash_holds_head[OF m] start by (auto simp: hash_select_def)
  next
    case False
    then obtain t where t: "uh_tbl src = Some t" "table_holds src t (snd ` set m)" "length m < 2 ^ 32"
      using m by (auto simp: hash_holds_def)
    then have chains: "chains_hold src (tbl_buckets t) (num_buckets t) (snd ` set m)" and num: "num_buckets t \<noteq> 0"
      using size_ok_nonzero by (auto simp: table_holds_def)
    have "card (snd ` set m) < 2 ^ 32"
      using m t(3) distinct_card[of "map snd m"] by (simp add: hash_holds_def)
    from select_buckets_selected[OF start chains _ this, of "[0..<unat (num_buckets t)]" mem cond] chains mem
    have "select_buckets mem cond src (tbl_buckets t) [0..<unat (num_buckets t)] (dst, None) = Some (Inl (Exit (-1))) \<or>
      (\<exists>st' qs. select_buckets mem cond src (tbl_buckets t) [0..<unat (num_buckets t)] (dst, None) = Some (Inr st') \<and>
         selected src qs st' \<and>
         set qs = {p \<in> snd ` set m. hash_to_bkt (hh_hashv src p) (num_buckets t) \<in> set [0..<unat (num_buckets t)] \<and> cond p})"
      by (simp add: chains_hold_def)
    moreover have "hash_to_bkt (hh_hashv src p) (num_buckets t) \<in> set [0..<unat (num_buckets t)]" for p
      using hash_to_bkt_less[OF num] by simp
    moreover have "uh_head src \<noteq> None" using hash_holds_head[OF m] False by simp
    ultimately show ?thesis using t(1)
      by (elim disjE exE conjE) (auto simp: hash_select_def the_table_def, blast)
  qed
qed

section \<open>The selected table\<close>

text \<open>Finding, counting, checking and visiting do not read the tail.\<close>

definition with_tail :: "'p \<Rightarrow> 'p ut_hash \<Rightarrow> 'p ut_hash" where
  "with_tail p h = h\<lparr>uh_tbl := map_option (\<lambda>t. t\<lparr>tbl_tail := p\<rparr>) (uh_tbl h)\<rparr>"

lemma with_tail_reads [simp]:
  "uthash_find (with_tail p h) = uthash_find h"
  "uthash_count (with_tail p h) = uthash_count h"
  "hash_fsck (with_tail p h) = hash_fsck h"
proof -
  have buckets: "fsck_buckets (with_tail p h) = fsck_buckets h"
  proof (intro ext)
    fix bs "is" n show "fsck_buckets (with_tail p h) bs is n = fsck_buckets h bs is n"
      by (induction "is" arbitrary: n) (simp_all add: with_tail_def cong: if_cong)
  qed
  show "uthash_find (with_tail p h) = uthash_find h"
    by (rule ext, cases "uh_tbl h"; cases "uh_head h") (simp_all add: uthash_find_def the_table_def with_tail_def)
  show "uthash_count (with_tail p h) = uthash_count h"
    by (cases "uh_tbl h"; cases "uh_head h") (simp_all add: uthash_count_def the_table_def with_tail_def)
  show "hash_fsck (with_tail p h) = hash_fsck h"
    unfolding hash_fsck_def buckets
    by (cases "uh_tbl h"; cases "uh_head h") (simp_all add: the_table_def with_tail_def cong: if_cong)
qed

lemma selected_holds:
  assumes sel: "selected src ps (dst, l)" and m: "hash_holds src m" and ps: "set ps \<subseteq> snd ` set m"
  shows "hash_holds (with_tail (last ps) dst) (map (\<lambda>p. (hh_key src p, p)) ps)"
proof -
  have key: "hh_key src q = k \<and> hh_hashv src q = hash_jen k" if "(k, q) \<in> set m" for k q
    using m that by (auto simp: hash_holds_def)
  have hashv: "hh_hashv src p = hash_jen (hh_key src p)" if "p \<in> set ps" for p
    using that ps key by fastforce
  have "inj_on (hh_key src) (set ps)"
  proof (rule inj_onI)
    fix p q assume pq: "p \<in> set ps" "q \<in> set ps" "hh_key src p = hh_key src q"
    then obtain k k' where "(k, p) \<in> set m" "(k', q) \<in> set m" using ps by fastforce
    with pq(3) key have "(k, p) \<in> set m" "(k, q) \<in> set m" by auto
    with m show "p = q" by (metis eq_key_imp_eq_value hash_holds_def hash_keys_def hash_ok_def)
  qed
  then have "hash_ok (map (\<lambda>p. (hh_key src p, p)) ps)"
    using sel by (simp add: selected_def hash_ok_def hash_keys_def distinct_map comp_def)
  moreover have "table_holds (with_tail q dst) (t\<lparr>tbl_tail := q\<rparr>) M = table_holds dst t M" for q t M
    by (simp add: table_holds_def size_ok_def with_tail_def)
  ultimately show ?thesis
    using sel hashv by (auto simp: hash_holds_def selected_def with_tail_def comp_def last_map image_image)
qed

lemma hash_iter_path:
  assumes "path (app_next h) (uh_head h) ps None"
  shows "hash_iter (deleting_body (\<lambda>p ps. (False, ps @ [p]))) (h, []) = Some (Inr (h, ps))"
proof -
  let ?tmp = "\<lambda>el. case el of None \<Rightarrow> None | Some p \<Rightarrow> app_next h p"
  have "path (app_next h) el ps None \<Longrightarrow>
      hash_iter_from (deleting_body (\<lambda>p ps. (False, ps @ [p]))) el (?tmp el) (h, seen) = Some (Inr (h, seen @ ps))" for el seen
  proof (induction ps arbitrary: el seen)
    case Nil
    then show ?case by (subst hash_iter_from.simps) simp
  next
    case (Cons p ps)
    then have el: "el = Some p" "path (app_next h) (app_next h p) ps None" by simp_all
    have "deleting_body (\<lambda>p ps. (False, ps @ [p])) p (h, seen) = Inr (h, seen @ [p])" by (simp add: deleting_body_def)
    then show ?case
      using Cons.IH[OF el(2), of "seen @ [p]"] unfolding el(1)
      by (subst hash_iter_from.simps) (simp cong: option.case_cong)
  qed
  from this[OF assms, of "[]"] show ?thesis by (simp add: hash_iter_def cong: option.case_cong)
qed

lemma find_in_pairs:
  "inj_on f (set ps) \<Longrightarrow> hash_find (map (\<lambda>p. (f p, p)) ps) k = Some q \<longleftrightarrow> q \<in> set ps \<and> f q = k"
  by (induction ps) (auto simp: hash_find_def inj_on_def)

lemma selected_finds:
  assumes m: "hash_holds src m" and sel: "selected src ps (dst, l)" and ps: "set ps = {p \<in> snd ` set m. cond p}"
  shows "uthash_find dst k = Some (Inr (Some p)) \<longleftrightarrow> (k, p) \<in> set m \<and> cond p"
proof -
  let ?pairs = "map (\<lambda>p. (hh_key src p, p)) ps"
  have holds: "hash_holds (with_tail (last ps) dst) ?pairs" using ps by (intro selected_holds[OF sel m]) auto
  have "inj_on (hh_key src) (set ps)"
    using holds by (simp add: hash_holds_def hash_ok_def hash_keys_def comp_def distinct_map)
  note pairs = find_in_pairs[OF this]
  have key: "(k, q) \<in> set m \<Longrightarrow> hh_key src q = k" for k q using m by (auto simp: hash_holds_def)
  have "p \<in> set ps \<and> hh_key src p = k \<longleftrightarrow> (k, p) \<in> set m \<and> cond p"
    unfolding ps using key by (force simp: image_iff)
  with pairs show ?thesis using uthash_find_holds[OF holds] by simp
qed

text \<open>C23: selecting from a table into an empty one makes a table of exactly the elements that satisfy the condition,
  under the same keys: it finds them and counts them, an iteration visits each of them once, and the
  integrity check does not fire.\<close>

theorem hash_select_selects:
  assumes "ops_allowed table_allowed table_step ops []"
    and "run_ops (uthash_step (\<lambda>n. n < 2 ^ 31 \<and> mem n)) ops (empty_hash h) = Some (Inr src)" and "uh_head dst = None"
  shows "hash_select (\<lambda>n. n < 2 ^ 31 \<and> mem n) cond src dst = Some (Inl (Exit (-1))) \<or>
    (\<exists>dst' ps. hash_select (\<lambda>n. n < 2 ^ 31 \<and> mem n) cond src dst = Some (Inr dst') \<and>
       distinct ps \<and> set ps = {p \<in> snd ` set (fold table_step ops []). cond p} \<and>
       hash_iter (deleting_body (\<lambda>p ps. (False, ps @ [p]))) (dst', []) = Some (Inr (dst', ps)) \<and>
       (\<forall>k p. uthash_find dst' k = Some (Inr (Some p)) \<longleftrightarrow> (k, p) \<in> set (fold table_step ops []) \<and> cond p) \<and>
       uthash_count dst' = Inr (of_nat (length ps)) \<and> hash_fsck dst' = Some (Inr ()))"
proof -
  let ?m = "fold table_step ops []"
  have m: "hash_holds src ?m" by (rule uthash_run_holds[OF assms(1,2)])
  have "\<not> (\<lambda>n. n < 2 ^ 31 \<and> mem n) (2 ^ 31)" by simp
  from hash_select_selected[where mem = "\<lambda>n. n < 2 ^ 31 \<and> mem n", OF m assms(3) this, of cond] show ?thesis
  proof (elim disjE exE conjE)
    fix dst' ps l assume dst': "hash_select (\<lambda>n. n < 2 ^ 31 \<and> mem n) cond src dst = Some (Inr dst')"
      and sel: "selected src ps (dst', l)" and ps: "set ps = {p \<in> snd ` set ?m. cond p}"
    let ?pairs = "map (\<lambda>p. (hh_key src p, p)) ps"
    have "hash_holds (with_tail (last ps) dst') ?pairs" using ps by (intro selected_holds[OF sel m]) auto
    note holds = uthash_count_holds[OF this] hash_fsck_holds[OF this]
    then show ?thesis
      using dst' sel ps holds selected_finds[OF m sel ps] hash_iter_path[of dst' ps]
      by (intro disjI2 exI[of _ dst'] exI[of _ ps]) (simp add: selected_def hash_count_def)
  qed simp
qed

text \<open>What adding to a selected table does: the new element is linked behind the first one, not the last.\<close>

lemma add_to_selected:
  assumes sel: "selected src ps (dst, l)" and ps: "ps \<noteq> []" and q: "q \<notin> set ps" and len: "length ps < 2 ^ 32 - 1"
    and mem: "\<not> mem (2 ^ 31)" and add: "uthash_add mem k q dst = Some (Inr dst')"
  shows "path (app_next dst') (uh_head dst') [hd ps, q] None" and "uthash_count dst' = Inr (of_nat (length ps + 1))"
proof -
  obtain p qs where p: "ps = p # qs" using ps by (cases ps) auto
  obtain t where t: "uh_tbl dst = Some t" "tbl_tail t = p" "num_items t = of_nat (length ps)" "table_holds dst t (set ps)"
    using sel p by (auto simp: selected_def)
  let ?t = "t\<lparr>tbl_tail := q, num_items := num_items t + 1\<rparr>"
  let ?d = "dst\<lparr>hh_key := (hh_key dst)(q := k), app_next := (app_next dst)(q := None, p := Some q),
    app_prev := (app_prev dst)(q := Some p), uh_tbl := Some ?t, hh_hashv := (hh_hashv dst)(q := hash_jen k)\<rparr>"
  have head: "uh_head dst = Some p" using selected_head[OF sel] p by simp
  have "unat (num_items ?t) = length ps + 1"
    using len t(3) unat_of_small[of "length ps + 1"] by (simp add: add.commute)
  then have n: "num_items ?t \<noteq> 0" by auto
  have d: "uh_tbl ?d = Some ?t" "table_holds ?d ?t (set ps)"
    "hash_to_bkt (hash_jen k) (num_buckets t) = hash_to_bkt (hh_hashv ?d q) (num_buckets ?t)"
    using t(4) q by (simp_all add: table_holds_def size_ok_def)
  have "hash_add_to_bkt mem (hash_to_bkt (hash_jen k) (num_buckets t)) q ?d = Some (Inl (Exit (-1))) \<or>
    (\<exists>h' t'. hash_add_to_bkt mem (hash_to_bkt (hash_jen k) (num_buckets t)) q ?d = Some (Inr h') \<and> uh_tbl h' = Some t' \<and>
      same_app ?d h' \<and> table_holds h' t' (insert q (set ps)) \<and> num_items t' = num_items ?t \<and> tbl_tail t' = tbl_tail ?t)"
    using mem n by (intro hash_add_to_bkt_holds[OF d(1,2) q _ _ d(3)]) blast+
  moreover have "hash_add_to_bkt mem (hash_to_bkt (hash_jen k) (num_buckets t)) q ?d = Some (Inr dst')"
    using add head t(1,2) q p by (simp add: uthash_add_def the_table_def fun_upd_twist Let_def)
  ultimately obtain t' where "uh_tbl dst' = Some t'" "same_app ?d dst'" "num_items t' = num_items ?t" by auto
  then show "path (app_next dst') (uh_head dst') [hd ps, q] None" "uthash_count dst' = Inr (of_nat (length ps + 1))"
    using head p q t(3) by (auto simp: same_app_def uthash_count_def the_table_def add.commute)
qed

text \<open>A table that was made by selecting two or more elements loses the order list when something is added
  to it: \<open>tail\<close> is still the first element, so an iteration sees only the first and the new element, while the
  table counts all of them.\<close>

lemma selected_table_loses_order:
  assumes "ops_allowed table_allowed table_step ops []"
    and "run_ops (uthash_step (\<lambda>n. n < 2 ^ 31 \<and> mem n)) ops (empty_hash h) = Some (Inr src)" and "uh_head dst = None"
    and "hash_select (\<lambda>n. n < 2 ^ 31 \<and> mem n) cond src dst = Some (Inr sel)"
    and "uthash_count sel = Inr n" and "1 < n" and "n < 2 ^ 32 - 1"
    and "q \<notin> snd ` set (fold table_step ops [])"
    and "uthash_add (\<lambda>n. n < 2 ^ 31 \<and> mem n) k q sel = Some (Inr added)"
  shows "\<exists>p. uh_head sel = Some p \<and> uthash_count added = Inr (n + 1) \<and>
    hash_iter (deleting_body (\<lambda>p ps. (False, ps @ [p]))) (added, []) = Some (Inr (added, [p, q]))"
proof -
  let ?m = "fold table_step ops []" and ?mem = "\<lambda>n. n < 2 ^ 31 \<and> mem n"
  have m: "hash_holds src ?m" by (rule uthash_run_holds[OF assms(1,2)])
  have mem: "\<not> ?mem (2 ^ 31)" by simp
  obtain ps l where sel: "selected src ps (sel, l)" "set ps = {p \<in> snd ` set ?m. cond p}"
    using hash_select_selected[where mem = ?mem, OF m assms(3) mem, of cond] assms(4) by auto
  have holds: "hash_holds (with_tail (last ps) sel) (map (\<lambda>p. (hh_key src p, p)) ps)"
    using sel(2) by (intro selected_holds[OF sel(1) m]) auto
  have "n = of_nat (length ps)" using uthash_count_holds[OF holds] assms(5) by (simp add: hash_count_def)
  moreover have "unat (of_nat (length ps) :: 32 word) = length ps" using sel(1) by (simp add: selected_def unat_of_small)
  ultimately have "1 < length ps" "length ps < 2 ^ 32 - 1" and n: "n = of_nat (length ps)"
    using assms(6,7) by (simp_all add: word_less_nat_alt)
  then have "ps \<noteq> []" "q \<notin> set ps" using assms(8) sel(2) by auto
  note after = add_to_selected[where mem = ?mem, OF sel(1) this \<open>length ps < 2 ^ 32 - 1\<close> mem assms(9)]
  show ?thesis
    using after(2) hash_iter_path[OF after(1)] selected_head[OF sel(1)] \<open>ps \<noteq> []\<close> n
    by (intro exI[of _ "hd ps"]) (simp add: add.commute)
qed

section \<open>Small tables\<close>

text \<open>With fewer than nine elements, and buckets that never were expanded, no operation needs more buckets.\<close>

definition unexpanded :: "'p ut_hash \<Rightarrow> bool" where
  "unexpanded h \<longleftrightarrow> (\<forall>t b. uh_tbl h = Some t \<longrightarrow> b \<in> set (tbl_buckets t) \<longrightarrow> bkt_expand_mult b = 0)"

lemma add_to_bkt_unexpanded:
  assumes t: "uh_tbl h = Some t" "table_holds h t M" and M: "finite M" "card M < 9" and small: "unexpanded h"
    and i: "i = hash_to_bkt v (num_buckets t)"
  shows "\<exists>h' t'. hash_add_to_bkt mem i p h = Some (Inr h') \<and> uh_tbl h' = Some t' \<and> unexpanded h'"
proof -
  have len: "i < length (tbl_buckets t)"
    using t(2) hash_to_bkt_less[OF size_ok_nonzero] i by (auto simp: table_holds_def chains_hold_def)
  then obtain ps where ps: "chain h (tbl_buckets t ! i) ps" "set ps = bkt_elems h (num_buckets t) M i"
    using t(2) by (auto simp: table_holds_def chains_hold_def)
  have "length ps \<le> card M"
    using ps card_mono[OF M(1), of "set ps"] distinct_card[of ps] by (auto simp: chain_def bkt_elems_def)
  then have "unat (bkt_count (tbl_buckets t ! i)) < 9"
    using ps(1) M(2) unat_of_small[of "length ps"] by (simp add: chain_def)
  then have "\<not> 10 \<le> bkt_count (tbl_buckets t ! i) + 1"
    by (simp add: word_le_nat_alt unat_word_ariths)
  moreover have "bkt_expand_mult (tbl_buckets t ! i) = 0" using small t(1) len by (auto simp: unexpanded_def)
  ultimately have "hash_add_to_bkt mem i p h = Some (Inr ((link_front p (bkt_head (tbl_buckets t ! i)) h)\<lparr>uh_tbl := Some (t\<lparr>tbl_buckets :=
      (tbl_buckets t)[i := (tbl_buckets t ! i)\<lparr>bkt_count := bkt_count (tbl_buckets t ! i) + 1, bkt_head := Some p\<rparr>]\<rparr>)\<rparr>))"
    using t(1) len by (simp add: hash_add_to_bkt_def the_table_def get_bucket_def Let_def)
  then show ?thesis using small t(1) len by (auto simp: unexpanded_def dest!: set_update_subset_insert[THEN subsetD])
qed

lemma add_unexpanded:
  assumes "hash_holds h m" and "length m < 9" and "p \<notin> snd ` set m" and "mem 32" and "unexpanded h"
  shows "\<exists>h'. uthash_add mem k p h = Some (Inr h') \<and> unexpanded h'"
proof (cases "m = []")
  case True
  let ?t = "\<lparr>tbl_buckets = replicate 32 zero_bucket, num_buckets = 32, log2_num_buckets = 5, num_items = 1,
    tbl_tail = p, ideal_chain_maxlen = 0, nonideal_items = 0, ineff_expands = 0, noexpand = 0\<rparr>"
  let ?h = "h\<lparr>app_next := (app_next h)(p := None), hh_key := (hh_key h)(p := k), uh_head := Some p,
    app_prev := (app_prev h)(p := None), uh_tbl := Some ?t, hh_hashv := (hh_hashv h)(p := hash_jen k)\<rparr>"
  have "size_ok ?t" unfolding size_ok_def by (intro exI[of _ 5]) simp
  then have "table_holds ?h ?t {}" using chains_hold_empty[of ?h 32] by (simp add: table_holds_def)
  moreover have "unexpanded ?h" by (simp add: unexpanded_def zero_bucket_def)
  ultimately obtain h' where "hash_add_to_bkt mem (hash_to_bkt (hash_jen k) 32) p ?h = Some (Inr h')" "unexpanded h'"
    using add_to_bkt_unexpanded[of ?h ?t "{}" _ "hash_jen k" mem p] by auto
  then show ?thesis
    using hash_holds_head[OF assms(1)] True assms(4) by (simp add: uthash_add_def hash_make_table_def Let_def)
next
  case False
  then obtain t where t: "uh_tbl h = Some t" "table_holds h t (snd ` set m)" using assms(1) by (auto simp: hash_holds_def)
  let ?t = "t\<lparr>tbl_tail := p, num_items := num_items t + 1\<rparr>"
  let ?h = "h\<lparr>hh_key := (hh_key h)(p := k), app_next := (app_next h)(p := None, tbl_tail t := Some p),
    app_prev := (app_prev h)(p := Some (tbl_tail t)), uh_tbl := Some ?t, hh_hashv := (hh_hashv h)(p := hash_jen k)\<rparr>"
  have "table_holds ?h ?t (snd ` set m)" using t(2) assms(3) by (simp add: table_holds_def size_ok_def)
  moreover have "unexpanded ?h" using assms(5) t(1) by (simp add: unexpanded_def)
  moreover have "card (snd ` set m) < 9" using assms(2) card_image_le[of "set m" snd] card_length[of m] by simp
  ultimately obtain h' where "hash_add_to_bkt mem (hash_to_bkt (hash_jen k) (num_buckets t)) p ?h = Some (Inr h')" "unexpanded h'"
    using add_to_bkt_unexpanded[of ?h ?t "snd ` set m" _ "hash_jen k" mem p] by auto
  moreover obtain hd where "uh_head h = Some hd" using hash_holds_head[OF assms(1)] False by simp
  ultimately show ?thesis using t(1) by (simp add: uthash_add_def the_table_def Let_def)
qed

lemma select_elem_unexpanded:
  assumes sel: "selected src ps st" and p: "p \<notin> set ps" and len: "length ps < 9" and mem: "mem 32" and small: "unexpanded (fst st)"
  shows "\<exists>st'. select_elem mem src p st = Some (Inr st') \<and> unexpanded (fst st')"
proof -
  obtain dst l where st: "st = (dst, l)" by (cases st)
  let ?d = "select_handle src p l dst" and ?v = "hh_hashv (select_handle src p l dst) p"
  have finish: "\<exists>st'. loop_bind (hash_add_to_bkt mem (hash_to_bkt ?v (num_buckets t)) p d) (\<lambda>dst.
      loop_bind (Some (the_table dst)) (\<lambda>t. Some (Inr (dst\<lparr>uh_tbl := Some (t\<lparr>num_items := num_items t + 1\<rparr>)\<rparr>, Some p)))) =
        Some (Inr st') \<and> unexpanded (fst st')"
    if "uh_tbl d = Some t" "table_holds d t M" "finite M" "card M < 9" "unexpanded d" for d t M
    using add_to_bkt_unexpanded[OF that refl, of mem ?v p] by (auto simp: the_table_def unexpanded_def)
  show ?thesis
  proof (cases "ps = []")
    case True
    let ?t = "\<lparr>tbl_buckets = replicate 32 zero_bucket, num_buckets = 32, log2_num_buckets = 5, num_items = 0,
      tbl_tail = p, ideal_chain_maxlen = 0, nonideal_items = 0, ineff_expands = 0, noexpand = 0\<rparr>"
    let ?n = "?d\<lparr>uh_head := Some p, uh_tbl := Some ?t\<rparr>"
    have "size_ok ?t" unfolding size_ok_def by (intro exI[of _ 5]) simp
    then have t: "table_holds ?n ?t {}" using chains_hold_empty[of ?n 32] by (simp add: table_holds_def)
    have new: "unexpanded ?n" by (simp add: unexpanded_def zero_bucket_def)
    have "uh_head ?d = None" using selected_head[of src ps dst l] sel st True by (simp add: select_handle_def)
    then show ?thesis
      using finish[OF _ t _ _ new] mem by (simp add: select_elem_def st hash_make_table_def the_table_def Let_def)
  next
    case False
    then obtain t where t: "uh_tbl dst = Some t" "table_holds dst t (set ps)" using sel st by (auto simp: selected_def)
    have "uh_tbl ?d = Some t" "table_holds ?d t (set ps)" "unexpanded ?d"
      using t p small st by (simp_all add: table_holds_def select_handle_def unexpanded_def)
    moreover have "card (set ps) < 9" using len card_length[of ps] by simp
    moreover have "uh_head ?d \<noteq> None" using selected_head[of src ps dst l] sel st False by (simp add: select_handle_def)
    ultimately show ?thesis
      using finish[of ?d t "set ps"] by (auto simp: select_elem_def st the_table_def Let_def)
  qed
qed

lemma select_chain_unexpanded:
  assumes "selected src ps st" and "path (hh_next src) hh qs None" and "distinct (ps @ qs)"
    and "length (ps @ qs) < 9" and "\<not> mem (2 ^ 31)" and "mem 32" and "unexpanded (fst st)"
  shows "\<exists>st'. select_chain mem cond src hh st = Some (Inr st') \<and> unexpanded (fst st')"
  using assms
proof (induction qs arbitrary: ps st hh)
  case Nil
  then show ?case by (subst select_chain.simps) simp
next
  case (Cons q qs)
  have hh: "hh = Some q" "path (hh_next src) (hh_next src q) qs None" using Cons.prems(2) by simp_all
  show ?case
  proof (cases "cond q")
    case True
    have q: "q \<notin> set ps" "length ps < 9" "length ps < 2 ^ 32 - 1" using Cons.prems(3,4) by auto
    obtain st' where st': "select_elem mem src q st = Some (Inr st')" "unexpanded (fst st')"
      using select_elem_unexpanded[where mem = mem, OF Cons.prems(1) q(1,2) Cons.prems(6,7)] by blast
    then have sel: "selected src (ps @ [q]) st'"
      using select_elem_selected[where mem = mem, OF Cons.prems(1) q(1,3) Cons.prems(5)] by auto
    have "select_chain mem cond src hh st = select_chain mem cond src (hh_next src q) st'"
      using hh(1) True st'(1) by (subst select_chain.simps) simp
    with Cons.IH[OF sel hh(2)] Cons.prems(3-6) st'(2) show ?thesis by simp
  next
    case False
    have "select_chain mem cond src hh st = select_chain mem cond src (hh_next src q) st"
      using hh(1) False by (subst select_chain.simps) simp
    with Cons.IH[OF Cons.prems(1) hh(2)] Cons.prems(3-7) show ?thesis by simp
  qed
qed

lemma select_buckets_unexpanded:
  assumes "selected src ps st" and "chains_hold src bs num M" and "finite M" and "card M < 9"
    and "distinct is" and "\<forall>i \<in> set is. i < length bs" and "set ps \<subseteq> M" and "\<forall>p \<in> set ps. hash_to_bkt (hh_hashv src p) num \<notin> set is"
    and "\<not> mem (2 ^ 31)" and "mem 32" and "unexpanded (fst st)"
  shows "\<exists>st'. select_buckets mem cond src bs is st = Some (Inr st') \<and> unexpanded (fst st')"
  using assms
proof (induction "is" arbitrary: ps st)
  case (Cons i "is")
  from Cons.prems(2,6) obtain qs where qs: "i < length bs" "chain src (bs ! i) qs" "set qs = bkt_elems src num M i"
    by (auto simp: chains_hold_def)
  have dist: "distinct (ps @ qs)" using Cons.prems(1,8) qs(2,3) by (auto simp: selected_def chain_def bkt_elems_def)
  have "set (ps @ qs) \<subseteq> M" using Cons.prems(7) qs(3) by (auto simp: bkt_elems_def)
  from card_mono[OF Cons.prems(3) this] have len: "length (ps @ qs) < 9" "length (ps @ qs) < 2 ^ 32"
    using Cons.prems(4) distinct_card[OF dist] by simp_all
  have path: "path (hh_next src) (bkt_head (bs ! i)) qs None" using qs(2) by (simp add: chain_def)
  from select_chain_unexpanded[where mem = mem, OF Cons.prems(1) path dist len(1) Cons.prems(9-11), of cond]
  obtain st1 where st1: "select_chain mem cond src (bkt_head (bs ! i)) st = Some (Inr st1)" "unexpanded (fst st1)" by blast
  with select_chain_selected[where mem = mem, OF Cons.prems(1) path dist len(2) Cons.prems(9), of cond]
  have sel: "selected src (ps @ filter cond qs) st1" by auto
  have "set (ps @ filter cond qs) \<subseteq> M" "\<forall>p \<in> set (ps @ filter cond qs). hash_to_bkt (hh_hashv src p) num \<notin> set is"
    using Cons.prems(5,7,8) qs(3) by (auto simp: bkt_elems_def)
  with Cons.IH[OF sel Cons.prems(2-4) _ _ _ _ Cons.prems(9,10) st1(2)] Cons.prems(5,6) st1(1) qs(1) show ?case
    by (simp add: get_bucket_def)
qed simp

lemma hash_select_unexpanded:
  assumes m: "hash_holds src m" and len: "length m < 9" and dst: "uh_head dst = None" "unexpanded dst"
    and mem: "\<not> mem (2 ^ 31)" "mem 32"
  shows "\<exists>dst'. hash_select mem cond src dst = Some (Inr dst') \<and> unexpanded dst'"
proof (cases "m = []")
  case True
  then show ?thesis using hash_holds_head[OF m] dst by (simp add: hash_select_def)
next
  case False
  then obtain t where t: "uh_tbl src = Some t" "table_holds src t (snd ` set m)" using m by (auto simp: hash_holds_def)
  then have chains: "chains_hold src (tbl_buckets t) (num_buckets t) (snd ` set m)" by (simp add: table_holds_def)
  have "selected src [] (dst, None)" using dst(1) by (simp add: selected_def)
  moreover have "card (snd ` set m) < 9" using len card_image_le[of "set m" snd] card_length[of m] by simp
  ultimately obtain st where "select_buckets mem cond src (tbl_buckets t) [0..<unat (num_buckets t)] (dst, None) = Some (Inr st)"
      "unexpanded (fst st)"
    using select_buckets_unexpanded[OF _ chains _ _ _ _ _ _ mem, of "[]" "(dst, None)" "[0..<unat (num_buckets t)]" cond] chains dst(2)
    by (auto simp: chains_hold_def)
  moreover obtain hd where "uh_head src = Some hd" using hash_holds_head[OF m] False by simp
  ultimately show ?thesis using t(1) by (cases st) (simp add: hash_select_def the_table_def)
qed

lemma add_to_selected_unexpanded:
  assumes sel: "selected src ps (dst, l)" and ps: "ps \<noteq> []" "length ps < 9" and q: "q \<notin> set ps" and small: "unexpanded dst"
  shows "\<exists>dst'. uthash_add mem k q dst = Some (Inr dst')"
proof -
  obtain t where t: "uh_tbl dst = Some t" "table_holds dst t (set ps)" using sel ps(1) by (auto simp: selected_def)
  let ?t = "t\<lparr>tbl_tail := q, num_items := num_items t + 1\<rparr>"
  let ?h = "dst\<lparr>hh_key := (hh_key dst)(q := k), app_next := (app_next dst)(q := None, tbl_tail t := Some q),
    app_prev := (app_prev dst)(q := Some (tbl_tail t)), uh_tbl := Some ?t, hh_hashv := (hh_hashv dst)(q := hash_jen k)\<rparr>"
  have "table_holds ?h ?t (set ps)" using t(2) q by (simp add: table_holds_def size_ok_def)
  moreover have "unexpanded ?h" using small t(1) by (simp add: unexpanded_def)
  moreover have "card (set ps) < 9" using ps(2) card_length[of ps] by simp
  ultimately have "\<exists>h'. hash_add_to_bkt mem (hash_to_bkt (hash_jen k) (num_buckets t)) q ?h = Some (Inr h')"
    using add_to_bkt_unexpanded[of ?h ?t "set ps" _ "hash_jen k" mem q] by auto
  moreover obtain hd where "uh_head dst = Some hd" using selected_head[OF sel] ps(1) by simp
  ultimately show ?thesis using t(1) by (simp add: uthash_add_def the_table_def Let_def)
qed

text \<open>Two elements under two keys, and what is selected of them.\<close>

lemma two_selected:
  "\<exists>src sel. run_ops (uthash_step (\<lambda>n. n < 2 ^ 31 \<and> True)) [Hash_add [1] (7 :: nat), Hash_add [2] 8] (empty_hash null_hash) = Some (Inr src) \<and>
    hash_holds src [([1], 7), ([2], 8)] \<and> hash_select (\<lambda>n. n < 2 ^ 31 \<and> True) (\<lambda>p. p < 9) src null_hash = Some (Inr sel) \<and>
    unexpanded sel"
proof -
  let ?mem = "\<lambda>n. n < 2 ^ 31 \<and> True" and ?ops = "[Hash_add [1] (7 :: nat), Hash_add [2] 8]"
  have small: "unexpanded (empty_hash null_hash)" "unexpanded null_hash" by (simp_all add: unexpanded_def empty_hash_def null_hash_def)
  obtain h1 where h1: "uthash_add ?mem [1] 7 (empty_hash null_hash) = Some (Inr h1)" "unexpanded h1"
    using add_unexpanded[OF hash_holds_empty[of null_hash] _ _ _ small(1), of 7 ?mem "[1]"] by auto
  then have "hash_holds h1 [([1], 7)]"
    using uthash_run_holds[of "[Hash_add [1] 7]" "\<lambda>_. True" null_hash h1] by (simp add: hash_find_def hash_add_def)
  then obtain src where src: "uthash_add ?mem [2] 8 h1 = Some (Inr src)"
    using add_unexpanded[of h1 "[([1], 7)]" 8 ?mem "[2]"] h1(2) by auto
  have run: "run_ops (uthash_step ?mem) ?ops (empty_hash null_hash) = Some (Inr src)" using h1(1) src by simp
  have m: "hash_holds src [([1], 7), ([2], 8)]"
    using uthash_run_holds[OF _ run] by (simp add: hash_find_def hash_add_def)
  from hash_select_unexpanded[where mem = ?mem, OF m _ _ small(2), of "\<lambda>p. p < 9"]
  obtain sel where "hash_select ?mem (\<lambda>p. p < 9) src null_hash = Some (Inr sel)" "unexpanded sel"
    by (auto simp: null_hash_def)
  with run m show ?thesis by blast
qed

lemma hash_select_selects_witness:
  "\<exists>src sel. hash_select (\<lambda>n. n < 2 ^ 31 \<and> True) (\<lambda>p. p < 9) src null_hash = Some (Inr sel) \<and>
    uthash_find sel [1] = Some (Inr (Some 7)) \<and> uthash_find sel [2] = Some (Inr (Some 8)) \<and> hash_fsck sel = Some (Inr ())"
proof -
  let ?mem = "\<lambda>n. n < 2 ^ 31 \<and> True" and ?ops = "[Hash_add [1] (7 :: nat), Hash_add [2] 8]"
  obtain src sel where run: "run_ops (uthash_step ?mem) ?ops (empty_hash null_hash) = Some (Inr src)"
    and sel: "hash_select ?mem (\<lambda>p. p < 9) src null_hash = Some (Inr sel)" using two_selected by blast
  have "ops_allowed table_allowed table_step ?ops []" "fold table_step ?ops [] = [([1], 7), ([2], 8)]" "uh_head null_hash = None"
    by (simp_all add: hash_find_def hash_add_def null_hash_def)
  from hash_select_selects[OF this(1) run this(3), of "\<lambda>p. p < 9", unfolded this(2)] sel show ?thesis by auto
qed

lemma selected_table_loses_order_witness:
  "\<exists>sel added p. uthash_add (\<lambda>n. n < 2 ^ 31 \<and> True) [3] (9 :: nat) sel = Some (Inr added) \<and> uthash_count added = Inr 3 \<and>
    hash_iter (deleting_body (\<lambda>p ps. (False, ps @ [p]))) (added, []) = Some (Inr (added, [p, 9]))"
proof -
  let ?mem = "\<lambda>n. n < 2 ^ 31 \<and> True" and ?ops = "[Hash_add [1] (7 :: nat), Hash_add [2] 8]"
  obtain src sel where run: "run_ops (uthash_step ?mem) ?ops (empty_hash null_hash) = Some (Inr src)"
    and m: "hash_holds src [([1], 7), ([2], 8)]"
    and sel: "hash_select ?mem (\<lambda>p. p < 9) src null_hash = Some (Inr sel)" "unexpanded sel" using two_selected by blast
  have ops: "ops_allowed table_allowed table_step ?ops []" "fold table_step ?ops [] = [([1], 7), ([2], 8)]" "uh_head null_hash = None"
    by (simp_all add: hash_find_def hash_add_def null_hash_def)
  have two: "{p. (p = 7 \<or> p = 8) \<and> p < 9} = {7, 8 :: nat}" by auto
  obtain ps l where ps: "selected src ps (sel, l)" "set ps = {7, 8}"
    using hash_select_selected[where mem = ?mem, OF m ops(3), of "\<lambda>p. p < 9"] sel(1) by (auto simp: two)
  have len: "length ps = 2" using ps distinct_card[of ps] by (simp add: selected_def)
  have "uthash_count sel = Inr 2"
    using uthash_count_holds[OF selected_holds[OF ps(1) m]] ps(2) len by (simp add: hash_count_def)
  moreover obtain added where "uthash_add ?mem [3] 9 sel = Some (Inr added)"
    using add_to_selected_unexpanded[OF ps(1) _ _ _ sel(2), of 9 ?mem "[3]"] len ps(2) by fastforce
  ultimately show ?thesis
    using selected_table_loses_order[OF ops(1) run ops(3) sel(1), of 2 9 "[3]" added] ops(2)
    by (auto simp: word_less_nat_alt)
qed

end
