(* ===== verification/UtHashFunctions.thy ===== *)
theory UtHashFunctions
  imports UtHashSelect
begin

unbundle bit_operations_syntax

text \<open>
  What \<open>uthash.h\<close> offers to be compiled in: the other hash functions that \<open>HASH_FUNCTION\<close> can name, and the Bloom
  filter that \<open>HASH_BLOOM\<close> puts in front of every search. Shown is which keys the hash functions
  confuse, that the filter never changes the result of a search in a table that was filled by
  adding, and that it hides every element of a table that was filled by selecting.
\<close>

section \<open>Hash functions that read byte by byte\<close>

text \<open>\<open>char\<close> is signed.\<close>

definition hash_ber :: "hash_key \<Rightarrow> 32 word" where
  "hash_ber key = fold (\<lambda>c h. h * 33 + scast c) key 0"

definition hash_sax :: "hash_key \<Rightarrow> 32 word" where
  "hash_sax key = fold (\<lambda>c h. h XOR (push_bit 5 h + drop_bit 2 h + scast c)) key 0"

definition hash_fnv :: "hash_key \<Rightarrow> 32 word" where
  "hash_fnv key = fold (\<lambda>c h. (h * 16777619) XOR scast c) key 2166136261"

definition hash_oat :: "hash_key \<Rightarrow> 32 word" where
  "hash_oat key =
     (let h = fold (\<lambda>c h.
                let h = h + scast c; h = h + push_bit 10 h in h XOR drop_bit 6 h) key 0;
          h = h + push_bit 3 h;
          h = h XOR drop_bit 11 h
      in h + push_bit 15 h)"

section \<open>The hash function of Paul Hsieh\<close>

definition get16bits :: "hash_key \<Rightarrow> nat \<Rightarrow> 32 word" where
  "get16bits k i = push_bit 8 (ucast (k ! (i + 1))) + ucast (k ! i)"

fun sfh_blocks :: "hash_key \<Rightarrow> 32 word \<Rightarrow> hash_key \<times> 32 word" where
  "sfh_blocks k h =
     (if length k \<ge> 4 then
        let h = h + get16bits k 0;
            tmp = push_bit 11 (get16bits k 2) XOR h;
            h = push_bit 16 h XOR tmp
        in sfh_blocks (drop 4 k) (h + drop_bit 11 h)
      else (k, h))"

declare sfh_blocks.simps [simp del]

definition sfh_rest :: "hash_key \<Rightarrow> 32 word \<Rightarrow> 32 word" where
  "sfh_rest k h =
     (if length k = 3 then
        let h = h + get16bits k 0; h = h XOR push_bit 16 h; h = h XOR byte k 2 18 in h + drop_bit 11 h
      else if length k = 2 then
        let h = h + get16bits k 0; h = h XOR push_bit 11 h in h + drop_bit 17 h
      else if length k = 1 then
        let h = h + byte k 0 0; h = h XOR push_bit 10 h in h + drop_bit 1 h
      else h)"

definition hash_sfh :: "hash_key \<Rightarrow> 32 word" where
  "hash_sfh key =
     (let h = (case sfh_blocks key 0xcafebabe of (k, h) \<Rightarrow> sfh_rest k h);
          h = h XOR push_bit 3 h;
          h = h + drop_bit 5 h;
          h = h XOR push_bit 4 h;
          h = h + drop_bit 17 h;
          h = h XOR push_bit 25 h
      in h + drop_bit 6 h)"

section \<open>MurmurHash\<close>

definition mur_m :: "32 word" where "mur_m = 0x5bd1e995"

text \<open>Four bytes read as one word of a little-endian machine.\<close>

definition read_word :: "hash_key \<Rightarrow> 32 word" where
  "read_word k = ucast (k ! 0) OR push_bit 8 (ucast (k ! 1)) OR push_bit 16 (ucast (k ! 2)) OR push_bit 24 (ucast (k ! 3))"

definition mur_step :: "32 word \<Rightarrow> 32 word \<Rightarrow> 32 word" where
  "mur_step h k =
     (let k = k * mur_m; k = k XOR drop_bit 24 k; k = k * mur_m in (h * mur_m) XOR k)"

text \<open>The cases of the switch fall through.\<close>

definition mur_rest :: "hash_key \<Rightarrow> nat \<Rightarrow> 32 word \<Rightarrow> 32 word" where
  "mur_rest k len h =
     (let h = (if len = 3 then h XOR byte k 2 16 else h);
          h = (if len = 3 \<or> len = 2 then h XOR byte k 1 8 else h)
      in if len = 3 \<or> len = 2 \<or> len = 1 then (h XOR byte k 0 0) * mur_m else h)"

definition mur_end :: "32 word \<Rightarrow> 32 word" where
  "mur_end h = (let h = h XOR drop_bit 13 h; h = h * mur_m in h XOR drop_bit 15 h)"

fun mur_blocks :: "hash_key \<Rightarrow> 32 word \<Rightarrow> hash_key \<times> 32 word" where
  "mur_blocks k h = (if length k \<ge> 4 then mur_blocks (drop 4 k) (mur_step h (read_word k)) else (k, h))"

declare mur_blocks.simps [simp del]

definition hash_mur_unaligned :: "hash_key \<Rightarrow> 32 word" where
  "hash_mur_unaligned key =
     (case mur_blocks key (0xcafebabe XOR word_of_nat (length key)) of (k, h) \<Rightarrow> mur_end (mur_rest k (length k) h))"

text \<open>
  The variant for machines that read words only at multiples of four. \<open>align\<close> is the key's address modulo
  four; \<open>t\<close> holds the bytes of the word the key starts in. In the end the bytes of the key's last words are
  taken, \<open>align\<close> of them for the block that is still open; the pointer is not advanced behind them.
\<close>

fun mur_shifted :: "nat \<Rightarrow> hash_key \<Rightarrow> 32 word \<Rightarrow> 32 word \<Rightarrow> hash_key \<times> 32 word \<times> 32 word" where
  "mur_shifted align k t h =
     (if length k \<ge> 4 then
        let d = read_word k; t = drop_bit (8 * align) t OR push_bit (8 * (4 - align)) d
        in mur_shifted align (drop 4 k) d (mur_step h t)
      else (k, t, h))"

declare mur_shifted.simps [simp del]

definition mur_first :: "nat \<Rightarrow> hash_key \<Rightarrow> 32 word" where
  "mur_first align k =
     push_bit (8 * align)
       ((if align = 1 then byte k 2 16 else 0) OR (if align = 1 \<or> align = 2 then byte k 1 8 else 0) OR byte k 0 0)"

definition mur_last :: "nat \<Rightarrow> hash_key \<Rightarrow> 32 word \<Rightarrow> 32 word \<Rightarrow> 32 word" where
  "mur_last align k t h =
     (if length k \<ge> align then
        let d = (if align = 3 then byte k 2 16 else 0) OR (if align = 3 \<or> align = 2 then byte k 1 8 else 0) OR byte k 0 0;
            h = mur_step h (drop_bit (8 * align) t OR push_bit (8 * (4 - align)) d)
        in mur_rest k (length k - align) h
      else
        let d = (if length k = 3 then byte k 2 16 else 0) XOR (if length k = 3 \<or> length k = 2 then byte k 1 8 else 0) XOR
              (if length k \<ge> 1 then byte k 0 0 else 0)
        in (h XOR (drop_bit (8 * align) t OR push_bit (8 * (4 - align)) d)) * mur_m)"

definition hash_mur_aligned :: "nat \<Rightarrow> hash_key \<Rightarrow> 32 word" where
  "hash_mur_aligned align key =
     (let h = 0xcafebabe XOR word_of_nat (length key) in
      if align \<noteq> 0 \<and> length key \<ge> 4 then
        (case mur_shifted align (drop (4 - align) key) (mur_first align key) h of (k, t, h) \<Rightarrow> mur_end (mur_last align k t h))
      else (case mur_blocks key h of (k, h) \<Rightarrow> mur_end (mur_rest k (length k) h)))"

section \<open>Keys that are confused\<close>

text \<open>Three of the functions start from zero, so that bytes of zero in front of a key are not seen.\<close>

lemma leading_zeros_not_seen:
  "hash_ber (replicate n 0 @ k) = hash_ber k"
  "hash_sax (replicate n 0 @ k) = hash_sax k"
  "hash_oat (replicate n 0 @ k) = hash_oat k"
proof -
  have zeros: "f 0 0 = 0 \<Longrightarrow> fold f (replicate n 0 @ k) 0 = fold f k 0" for f :: "8 word \<Rightarrow> 32 word \<Rightarrow> 32 word"
  proof -
    assume "f 0 0 = 0"
    then have "(f 0 ^^ n) 0 = 0" by (induction n) simp_all
    then show ?thesis by simp
  qed
  show "hash_ber (replicate n 0 @ k) = hash_ber k" unfolding hash_ber_def by (rule zeros) simp
  show "hash_sax (replicate n 0 @ k) = hash_sax k" unfolding hash_sax_def by (rule zeros) simp
  have "fold (\<lambda>c h. let h = h + scast c; h = h + push_bit 10 h in h XOR drop_bit 6 h) (replicate n 0 @ k) (0 :: 32 word) =
      fold (\<lambda>c h. let h = h + scast c; h = h + push_bit 10 h in h XOR drop_bit 6 h) k 0" by (rule zeros) simp
  then show "hash_oat (replicate n 0 @ k) = hash_oat k" unfolding hash_oat_def by (simp only:)
qed

text \<open>The aligned variant agrees with the other one on aligned and on short keys.\<close>

lemma mur_aligned_zero: "align = 0 \<or> length k < 4 \<Longrightarrow> hash_mur_aligned align k = hash_mur_unaligned k"
  by (auto simp: hash_mur_aligned_def hash_mur_unaligned_def Let_def)

lemma read_word_snoc: "4 \<le> length k \<Longrightarrow> read_word (k @ [x]) = read_word k"
  unfolding read_word_def by (subst (1 2 3 4) nth_append) auto

lemma byte_snoc: "i < length k \<Longrightarrow> byte (k @ [x]) i n = byte k i n"
  by (simp add: byte_def nth_append)

lemma mur_shifted_snoc:
  "Suc (length k) mod 4 \<noteq> 0 \<Longrightarrow>
   mur_shifted align (k @ [x]) t h = (case mur_shifted align k t h of (r, t, h) \<Rightarrow> (r @ [x], t, h)) \<and>
   length (fst (mur_shifted align k t h)) = length k mod 4"
proof (induction align k t h rule: mur_shifted.induct)
  case (1 align k t h)
  show ?case
  proof (cases "length k \<ge> 4")
    case True
    then have "Suc (length (drop 4 k)) mod 4 \<noteq> 0" using 1(2) unfolding length_drop by presburger
    moreover have "length (drop 4 k) mod 4 = length k mod 4" using True by (simp add: le_mod_geq)
    ultimately show ?thesis
      using 1(1)[OF True refl refl] True by (subst (1 2 3) mur_shifted.simps) (simp add: read_word_snoc Let_def)
  next
    case False
    moreover have "Suc (length k) < 4" using False 1(2) by (cases "length k = 3") auto
    ultimately show ?thesis by (subst (1 2 3) mur_shifted.simps) simp
  qed
qed

text \<open>On a machine that needs alignment the last byte of many keys is not hashed at all: whenever more bytes are
  left at the end than the open block takes, \<open>_mur_k += _mur_align\<close> stands where the pointer
  \<open>_mur_key\<close> should be advanced, and bytes that were already hashed are taken again instead. Keys that differ in their last
  byte alone then have the same hash value, for any length from four on and every alignment but zero.\<close>

lemma mur_aligned_ignores_last_byte:
  assumes "align \<in> {1, 2, 3}" and "4 \<le> length (k @ [x])" and "align < (length (k @ [x]) + align) mod 4"
  shows "hash_mur_aligned align (k @ [x]) = hash_mur_aligned align (k @ [y])"
proof -
  let ?k = "drop (4 - align) k" and ?h = "0xcafebabe XOR word_of_nat (Suc (length k)) :: 32 word"
  obtain r t h where rest: "mur_shifted align ?k (mur_first align k) ?h = (r, t, h)"
    by (cases "mur_shifted align ?k (mur_first align k) ?h") auto
  have le: "4 - align \<le> length k" using assms(1,2) by auto
  have first: "mur_first align (k @ [z]) = mur_first align k" for z
  proof -
    have "k \<noteq> []" using assms(2) by auto
    then show ?thesis using assms(1,2) by (auto simp: mur_first_def byte_snoc)
  qed
  have "Suc (length ?k) mod 4 = (length (k @ [x]) + align) mod 4"
  proof -
    obtain j where "length k = (4 - align) + j" using le nat_le_iff_add by blast
    moreover have "Suc j mod 4 = (5 + j) mod 4" by presburger
    ultimately show ?thesis using assms(1) by auto
  qed
  then have "Suc (length ?k) mod 4 \<noteq> 0" "Suc (length ?k mod 4) = (length (k @ [x]) + align) mod 4"
    using assms(3) by (simp_all add: mod_Suc split: if_splits)
  note shifted = mur_shifted_snoc[OF this(1), of align _ "mur_first align k" ?h] and left = this(2)
  have r: "align < Suc (length r)" "length r < 4"
    using shifted rest left assms(3) by auto
  then have "r \<noteq> []" using assms(1) by auto
  have last: "mur_last align (r @ [x]) t h = mur_last align (r @ [y]) t h"
    using r \<open>r \<noteq> []\<close> assms(1) by (auto simp: mur_last_def mur_rest_def byte_snoc Let_def)
  have "align \<noteq> 0" using assms(1) by auto
  then show ?thesis
    using assms(2) le shifted rest first by (simp add: hash_mur_aligned_def Let_def last)
qed

lemma mur_aligned_ignores_last_byte_witness:
  "hash_mur_aligned 1 [1, 2, 3, 4, 5, 6] = hash_mur_aligned 1 [1, 2, 3, 4, 5, 7]"
  using mur_aligned_ignores_last_byte[of 1 "[1, 2, 3, 4, 5]" 6 7] by simp

section \<open>The Bloom filter\<close>

text \<open>\<open>n\<close> is \<open>HASH_BLOOM\<close>, the logarithm of the number of bits.\<close>

definition bloom_bytelen :: "nat \<Rightarrow> nat" where
  "bloom_bytelen n = 2 ^ n div 8 + (if 2 ^ n mod 8 \<noteq> (0 :: nat) then 1 else 0)"

definition bloom_make :: "(nat \<Rightarrow> bool) \<Rightarrow> nat \<Rightarrow> 8 word list c_result" where
  "bloom_make room n = (if room (bloom_bytelen n) then Inr (replicate (bloom_bytelen n) 0) else Inl (Exit (-1)))"

definition bloom_bitset :: "8 word list \<Rightarrow> 32 word \<Rightarrow> 8 word list c_result" where
  "bloom_bitset bv idx =
     (if unat (idx div 8) < length bv
      then Inr (bv[unat (idx div 8) := bv ! unat (idx div 8) OR push_bit (unat (idx mod 8)) 1])
      else Inl Buffer_overflow)"

definition bloom_bittest :: "8 word list \<Rightarrow> 32 word \<Rightarrow> bool c_result" where
  "bloom_bittest bv idx =
     (if unat (idx div 8) < length bv
      then Inr (bv ! unat (idx div 8) AND push_bit (unat (idx mod 8)) 1 \<noteq> 0)
      else Inl Out_of_bounds_read)"

definition bloom_index :: "nat \<Rightarrow> 32 word \<Rightarrow> 32 word" where
  "bloom_index n hashv = hashv AND ucast (push_bit n 1 - 1 :: 64 word)"

definition bloom_add :: "nat \<Rightarrow> 32 word \<Rightarrow> 8 word list \<Rightarrow> 8 word list c_result" where
  "bloom_add n hashv bv = bloom_bitset bv (bloom_index n hashv)"

definition bloom_test :: "nat \<Rightarrow> 32 word \<Rightarrow> 8 word list \<Rightarrow> bool c_result" where
  "bloom_test n hashv bv = bloom_bittest bv (bloom_index n hashv)"

text \<open>Searching and adding with the filter: it is made with the table, and asked before the bucket is searched.\<close>

definition bloom_find :: "nat \<Rightarrow> 'p ut_hash \<times> 8 word list \<Rightarrow> hash_key \<Rightarrow> 'p option c_result option" where
  "bloom_find n = (\<lambda>(h, bv) k.
     if uh_head h = None then Some (Inr None)
     else loop_bind (Some (bloom_test n (hash_jen k) bv)) (\<lambda>b.
       if b then uthash_find h k else Some (Inr None)))"

definition bloom_hash_add ::
    "(nat \<Rightarrow> bool) \<Rightarrow> (nat \<Rightarrow> bool) \<Rightarrow> nat \<Rightarrow> hash_key \<Rightarrow> 'p \<Rightarrow> 'p ut_hash \<times> 8 word list \<Rightarrow>
     ('p ut_hash \<times> 8 word list) c_result option" where
  "bloom_hash_add mem room n k p = (\<lambda>(h, bv).
     loop_bind (Some (if uh_head h = None then bloom_make room n else Inr bv)) (\<lambda>bv.
       loop_bind (uthash_add mem k p h) (\<lambda>h.
         loop_bind (Some (bloom_add n (hash_jen k) bv)) (\<lambda>bv. Some (Inr (h, bv))))))"

text \<open>The other operations leave the filter alone; a new table gets a new one.\<close>

fun bloom_step ::
    "(nat \<Rightarrow> bool) \<Rightarrow> (nat \<Rightarrow> bool) \<Rightarrow> nat \<Rightarrow> 'p table_op \<Rightarrow> 'p ut_hash \<times> 8 word list \<Rightarrow>
     ('p ut_hash \<times> 8 word list) c_result option" where
  "bloom_step mem room n (Hash_add k p) s = bloom_hash_add mem room n k p s"
| "bloom_step mem room n op (h, bv) = loop_bind (uthash_step mem op h) (\<lambda>h. Some (Inr (h, bv)))"

definition bloom_select ::
    "(nat \<Rightarrow> bool) \<Rightarrow> (nat \<Rightarrow> bool) \<Rightarrow> nat \<Rightarrow> ('p \<Rightarrow> bool) \<Rightarrow> 'p ut_hash \<Rightarrow> 'p ut_hash \<times> 8 word list \<Rightarrow>
     ('p ut_hash \<times> 8 word list) c_result option" where
  "bloom_select mem room n cond src = (\<lambda>(dst, bv).
     loop_bind (hash_select mem cond src dst) (\<lambda>dst'.
       loop_bind (Some (if uh_head dst = None \<and> uh_head dst' \<noteq> None then bloom_make room n else Inr bv)) (\<lambda>bv.
         Some (Inr (dst', bv)))))"

section \<open>The filter's bits\<close>

definition bloom_bits :: "8 word list \<Rightarrow> nat set" where
  "bloom_bits bv = {i. i < 8 * length bv \<and> bit (bv ! (i div 8)) (i mod 8)}"

lemma bloom_bittest_bits: "unat idx < 8 * length bv \<Longrightarrow> bloom_bittest bv idx = Inr (unat idx \<in> bloom_bits bv)"
  by (simp add: bloom_bittest_def bloom_bits_def unat_div_distrib unat_mod_distrib less_mult_imp_div_less
      bit_iff_and_push_bit_not_eq_0 mult.commute)

lemma bloom_bitset_bits:
  assumes "unat idx < 8 * length bv"
  shows "\<exists>bv'. bloom_bitset bv idx = Inr bv' \<and> length bv' = length bv \<and> bloom_bits bv' = insert (unat idx) (bloom_bits bv)"
proof -
  let ?i = "unat idx div 8" and ?j = "unat idx mod 8"
  let ?bv = "bv[?i := bv ! ?i OR push_bit ?j 1]"
  have i: "?i < length bv" using assms by (simp add: less_mult_imp_div_less mult.commute)
  have "bit (?bv ! (k div 8)) (k mod 8) \<longleftrightarrow> k = unat idx \<or> bit (bv ! (k div 8)) (k mod 8)" if "k div 8 < length bv" for k
  proof (cases "k div 8 = ?i")
    case True
    have "k = unat idx \<longleftrightarrow> k mod 8 = ?j" using True by (metis div_mult_mod_eq)
    moreover have "k mod 8 < 8" by simp
    ultimately show ?thesis using True i by (auto simp: bit_or_iff bit_exp_iff)
  qed (use i in auto)
  then have "bloom_bits ?bv = insert (unat idx) (bloom_bits bv)"
    unfolding bloom_bits_def using assms
    by (auto simp del: nth_list_update nth_list_update_eq simp: less_mult_imp_div_less mult.commute)
  then show ?thesis
    using i by (simp add: bloom_bitset_def unat_div_distrib unat_mod_distrib)
qed

lemma bloom_index_less:
  assumes "n \<le> 32"
  shows "unat (bloom_index n v) < 8 * bloom_bytelen n"
proof -
  have "(push_bit n 1 - 1 :: 64 word) = mask n" by (simp add: mask_eq_exp_minus_1)
  moreover have "(ucast (mask n :: 64 word) :: 32 word) = mask n"
    by (rule bit_word_eqI) (simp add: bit_ucast_iff bit_mask_iff)
  ultimately have "bloom_index n v = take_bit n v" by (simp only: bloom_index_def take_bit_eq_mask)
  then have "unat (bloom_index n v) < 2 ^ n" by (simp add: unsigned_take_bit_eq)
  moreover have "m \<le> 8 * (m div 8 + (if m mod 8 \<noteq> 0 then 1 else 0))" for m :: nat
    by presburger
  then have "(2 :: nat) ^ n \<le> 8 * bloom_bytelen n" by (simp only: bloom_bytelen_def)
  ultimately show ?thesis by (rule less_le_trans)
qed

definition bloom_covers :: "nat \<Rightarrow> (hash_key, 'p) hash \<Rightarrow> 8 word list \<Rightarrow> bool" where
  "bloom_covers n m bv \<longleftrightarrow> length bv = bloom_bytelen n \<and>
     (\<forall>k \<in> set (hash_keys m). unat (bloom_index n (hash_jen k)) \<in> bloom_bits bv)"

definition bloom_holds :: "nat \<Rightarrow> 'p ut_hash \<times> 8 word list \<Rightarrow> (hash_key, 'p) hash \<Rightarrow> bool" where
  "bloom_holds n = (\<lambda>(h, bv) m. hash_holds h m \<and> (m \<noteq> [] \<longrightarrow> bloom_covers n m bv))"

lemma bloom_add_covers:
  assumes "n \<le> 32" and "bloom_covers n m bv"
  shows "\<exists>bv'. bloom_add n (hash_jen k) bv = Inr bv' \<and> bloom_covers n (hash_add m k p) bv'"
  using bloom_bitset_bits[of "bloom_index n (hash_jen k)" bv] bloom_index_less[OF assms(1), of "hash_jen k"] assms(2)
  by (auto simp: bloom_add_def bloom_covers_def hash_add_def hash_keys_def)

lemma bloom_covers_fewer: "bloom_covers n m bv \<Longrightarrow> set (hash_keys m') \<subseteq> set (hash_keys m) \<Longrightarrow> bloom_covers n m' bv"
  by (auto simp: bloom_covers_def)

lemma bloom_make_covers: "bloom_make room n = Inl (Exit (-1)) \<or> (\<exists>bv. bloom_make room n = Inr bv \<and> bloom_covers n [] bv)"
  by (simp add: bloom_make_def bloom_covers_def hash_keys_def)

lemma bloom_find_holds:
  assumes "n \<le> 32" and "bloom_holds n (h, bv) m"
  shows "bloom_find n (h, bv) k = Some (Inr (hash_find m k))"
proof -
  have m: "hash_holds h m" using assms(2) by (simp add: bloom_holds_def)
  show ?thesis
  proof (cases "m = []")
    case True
    then show ?thesis using hash_holds_head[OF m] by (simp add: bloom_find_def hash_find_def)
  next
    case False
    then have covers: "bloom_covers n m bv" using assms(2) by (simp add: bloom_holds_def)
    then have "bloom_test n (hash_jen k) bv = Inr (unat (bloom_index n (hash_jen k)) \<in> bloom_bits bv)"
      using bloom_index_less[OF assms(1)] by (simp add: bloom_test_def bloom_bittest_bits bloom_covers_def)
    moreover have "hash_find m k = None" if "unat (bloom_index n (hash_jen k)) \<notin> bloom_bits bv"
      using covers that by (auto simp: bloom_covers_def hash_find_None_iff)
    ultimately show ?thesis using hash_holds_head[OF m] False uthash_find_holds[OF m] by (simp add: bloom_find_def)
  qed
qed

lemma bloom_step_simulates:
  assumes n: "n \<le> 32" and mem: "\<not> mem (2 ^ 31)" and s: "bloom_holds n s m" and allowed: "table_allowed op m"
  shows "(\<exists>e. bloom_step mem room n op s = Some (Inl e) \<and> e = Exit (-1)) \<or>
    (\<exists>s'. bloom_step mem room n op s = Some (Inr s') \<and> bloom_holds n s' (table_step op m))"
proof -
  obtain h bv where hb: "s = (h, bv)" by (cases s)
  have m: "hash_holds h m" and covers: "m \<noteq> [] \<longrightarrow> bloom_covers n m bv" using s hb by (simp_all add: bloom_holds_def)
  note step = uthash_step_simulates[where mem = mem, OF mem m allowed]
  show ?thesis
  proof (cases "\<exists>k p. op = Hash_add k p")
    case True
    then obtain k p where op: "op = Hash_add k p" by blast
    have "(if uh_head h = None then bloom_make room n else Inr bv) = Inl (Exit (-1)) \<or>
        (\<exists>bv1. (if uh_head h = None then bloom_make room n else Inr bv) = Inr bv1 \<and> bloom_covers n m bv1)"
      using bloom_make_covers[of room n] hash_holds_head[OF m] covers by auto
    then consider "(if uh_head h = None then bloom_make room n else Inr bv) = Inl (Exit (-1))"
      | bv1 bv2 where "(if uh_head h = None then bloom_make room n else Inr bv) = Inr bv1"
          "bloom_add n (hash_jen k) bv1 = Inr bv2" "bloom_covers n (hash_add m k p) bv2"
      using bloom_add_covers[OF n, of m _ k p] by blast
    then show ?thesis
    proof cases
      case (2 bv1 bv2)
      then show ?thesis using step op hb by (auto simp: bloom_hash_add_def bloom_holds_def)
    qed (simp add: op hb bloom_hash_add_def)
  next
    case False
    then have run: "bloom_step mem room n op s = loop_bind (uthash_step mem op h) (\<lambda>h. Some (Inr (h, bv)))"
      using hb by (cases op) simp_all
    have "set (hash_keys (table_step op m)) \<subseteq> set (hash_keys m)"
      using False by (cases op) (auto simp: hash_keys_def remove_elem_def)
    moreover have "table_step op m \<noteq> [] \<Longrightarrow> m \<noteq> []" using False by (cases op) (auto simp: remove_elem_def)
    ultimately have "table_step op m \<noteq> [] \<longrightarrow> bloom_covers n (table_step op m) bv"
      using covers bloom_covers_fewer by blast
    then show ?thesis using step unfolding run by (auto simp: bloom_holds_def)
  qed
qed

section \<open>A table with the filter and the table without it\<close>

interpretation bloom: partial_simulation "bloom_holds n" "bloom_step (\<lambda>b. b < 2 ^ 31 \<and> mem b) room n"
  table_step "\<lambda>op m. n \<le> 32 \<and> table_allowed op m" "\<lambda>e. e = Exit (-1)" for mem room n
  by unfold_locales (elim conjE, rule bloom_step_simulates, simp_all)

lemma bloom_step_forgets:
  "bloom_step mem room n op s = Some (Inr s') \<Longrightarrow> uthash_step mem op (fst s) = Some (Inr (fst s'))"
  by (cases s; cases op) (auto simp: bloom_hash_add_def result_simps)

lemma bloom_run_forgets:
  "run_ops (bloom_step mem room n) ops s = Some (Inr s') \<Longrightarrow> run_ops (uthash_step mem) ops (fst s) = Some (Inr (fst s'))"
proof (induction ops arbitrary: s)
  case (Cons op ops)
  then obtain s1 where "bloom_step mem room n op s = Some (Inr s1)" "run_ops (bloom_step mem room n) ops s1 = Some (Inr s')"
    by (auto simp: result_simps)
  with Cons.IH[of s1] bloom_step_forgets[of mem room n op s s1] show ?case by simp
qed simp

lemma bloom_holds_empty: "bloom_holds n (empty_hash h, bv) []"
  by (simp add: bloom_holds_def hash_holds_empty)

lemma bloom_allowed:
  "n \<le> 32 \<Longrightarrow> ops_allowed table_allowed table_step ops m \<Longrightarrow>
   ops_allowed (\<lambda>op m. n \<le> 32 \<and> table_allowed op m) table_step ops m"
  by (induction ops arbitrary: m) auto

text \<open>C24: the Bloom filter changes nothing but the time a search takes. Whatever is added, deleted, cleared or expired,
  with a filter of up to \<open>2 ^ 32\<close> bits the process ends only for lack of memory; else the table is the very table it would be
  without the filter, and every search gives what it gives without it: the filter never hides an
  element, although bits are never taken back when elements are deleted.\<close>

theorem bloom_changes_nothing:
  assumes "n \<le> 32" and "ops_allowed table_allowed table_step ops []"
  shows "run_ops (bloom_step (\<lambda>b. b < 2 ^ 31 \<and> mem b) room n) ops (empty_hash h, bv) = Some (Inl (Exit (-1))) \<or>
    (\<exists>h' bv'. run_ops (bloom_step (\<lambda>b. b < 2 ^ 31 \<and> mem b) room n) ops (empty_hash h, bv) = Some (Inr (h', bv')) \<and>
       run_ops (uthash_step (\<lambda>b. b < 2 ^ 31 \<and> mem b)) ops (empty_hash h) = Some (Inr h') \<and>
       (\<forall>k. bloom_find n (h', bv') k = uthash_find h' k))"
  using bloom.run_simulates_or_gives_up[OF bloom_holds_empty bloom_allowed[OF assms], of mem room h bv]
proof (elim disjE exE conjE)
  fix s' assume run: "run_ops (bloom_step (\<lambda>b. b < 2 ^ 31 \<and> mem b) room n) ops (empty_hash h, bv) = Some (Inr s')"
    and holds: "bloom_holds n s' (fold table_step ops [])"
  obtain h' bv' where s': "s' = (h', bv')" by (cases s')
  then have "hash_holds h' (fold table_step ops [])" using holds by (simp add: bloom_holds_def)
  with run s' bloom_run_forgets[OF run] bloom_find_holds[OF assms(1) holds[unfolded s']]
  show ?thesis by (simp add: uthash_find_holds)
qed simp

lemma bloom_changes_nothing_witness:
  "\<exists>h' bv'. run_ops (bloom_step (\<lambda>b. b < 2 ^ 31 \<and> True) (\<lambda>_. True) 5) [Hash_add [1, 2] 7] (empty_hash null_hash, []) =
      Some (Inr (h', bv')) \<and>
    bloom_find 5 (h', bv') [1, 2] = Some (Inr (Some 7)) \<and> bloom_find 5 (h', bv') [1, 3] = Some (Inr None)"
proof -
  let ?m = "\<lambda>b. b < 2 ^ 31 \<and> True" and ?ops = "[Hash_add [1, 2] (7 :: nat)]"
  have allowed: "ops_allowed table_allowed table_step ?ops []" by (simp add: hash_find_def)
  obtain h1 where h1: "uthash_add ?m [1, 2] 7 (empty_hash null_hash) = Some (Inr h1)"
    using first_add_succeeds[of ?m "empty_hash null_hash" "[1, 2]" 7] by (auto simp: empty_hash_def)
  then have "hash_holds h1 [([1, 2], 7)]"
    using uthash_run_holds[of ?ops "\<lambda>_. True" null_hash h1] by (simp add: hash_find_def hash_add_def)
  note finds = uthash_find_holds[OF this]
  obtain bv where "bloom_add 5 (hash_jen [1, 2]) (replicate (bloom_bytelen 5) 0) = Inr bv"
    using bloom_make_covers[of "\<lambda>_. True" 5] bloom_add_covers[of 5 "[] :: (hash_key, nat) hash" _ "[1, 2]" 7]
    by (auto simp: bloom_make_def)
  then have "run_ops (bloom_step ?m (\<lambda>_. True) 5) ?ops (empty_hash null_hash, []) \<noteq> Some (Inl (Exit (-1)))"
    using h1 by (simp add: bloom_hash_add_def bloom_make_def empty_hash_def)
  with bloom_changes_nothing[OF _ allowed, of 5 "\<lambda>_. True" "\<lambda>_. True" null_hash "[]"] h1
  show ?thesis by (auto simp: finds hash_find_def)
qed

text \<open>Elements selected into a table cannot be found there when the Bloom filter is compiled in. \<open>HASH_SELECT\<close> puts every
  element into its bucket and counts it, but never adds its hash value to the new table's filter; the filter stays empty
  and every search ends there, although the elements are in the table.\<close>

lemma selected_elements_hidden:
  assumes "n \<le> 32" and "ops_allowed table_allowed table_step ops []"
    and "run_ops (uthash_step (\<lambda>b. b < 2 ^ 31 \<and> mem b)) ops (empty_hash h) = Some (Inr src)" and "uh_head dst = None"
    and "bloom_select (\<lambda>b. b < 2 ^ 31 \<and> mem b) room n cond src (dst, bv) = Some (Inr (sel, bv'))"
    and "(k, p) \<in> set (fold table_step ops [])" and "cond p"
  shows "uthash_find sel k = Some (Inr (Some p)) \<and> bloom_find n (sel, bv') k = Some (Inr None)"
proof -
  let ?mem = "\<lambda>b. b < 2 ^ 31 \<and> mem b" and ?m = "fold table_step ops []"
  have sel: "hash_select ?mem cond src dst = Some (Inr sel)"
    using assms(5) by (auto simp: bloom_select_def result_simps)
  have m: "hash_holds src ?m" by (rule uthash_run_holds[OF assms(2,3)])
  have "\<not> ?mem (2 ^ 31)" by simp
  from hash_select_selected[where mem = ?mem, OF m assms(4) this, of cond] sel
  obtain ps l where "selected src ps (sel, l)" "set ps = {p \<in> snd ` set ?m. cond p}" by auto
  from selected_finds[OF m this] assms(6,7) have find: "uthash_find sel k = Some (Inr (Some p))" by simp
  have "bloom_find n (sel, bv') k = Some (Inr None)"
  proof (cases "uh_head sel = None")
    case False
    then have "bloom_make room n = Inr bv'" using assms(4,5) sel by (auto simp: bloom_select_def result_simps)
    then have "bv' = replicate (bloom_bytelen n) 0" by (simp add: bloom_make_def split: if_splits)
    then have "bloom_test n (hash_jen k) bv' = Inr False"
      using bloom_index_less[OF assms(1), of "hash_jen k"] by (auto simp: bloom_test_def bloom_bittest_bits bloom_bits_def)
    then show ?thesis by (simp add: bloom_find_def)
  qed (simp add: bloom_find_def)
  with find show ?thesis ..
qed

lemma selected_elements_hidden_witness:
  "\<exists>src sel bv. bloom_select (\<lambda>n. n < 2 ^ 31 \<and> True) (\<lambda>_. True) 5 (\<lambda>p. p < 9) src (null_hash, []) = Some (Inr (sel, bv)) \<and>
    uthash_find sel [1] = Some (Inr (Some 7)) \<and> bloom_find 5 (sel, bv) [1] = Some (Inr None)"
proof -
  let ?mem = "\<lambda>n. n < 2 ^ 31 \<and> True" and ?ops = "[Hash_add [1] (7 :: nat), Hash_add [2] 8]"
  obtain src sel where run: "run_ops (uthash_step ?mem) ?ops (empty_hash null_hash) = Some (Inr src)"
    and sel: "hash_select ?mem (\<lambda>p. p < 9) src null_hash = Some (Inr sel)" using two_selected by blast
  have ops: "ops_allowed table_allowed table_step ?ops []" "fold table_step ?ops [] = [([1], 7), ([2], 8)]" "uh_head null_hash = None"
    by (simp_all add: hash_find_def hash_add_def null_hash_def)
  have "\<exists>bv. bloom_select ?mem (\<lambda>_. True) 5 (\<lambda>p. p < 9) src (null_hash, []) = Some (Inr (sel, bv))"
    unfolding bloom_select_def prod.case sel loop_bind.simps by (simp add: bloom_make_def)
  then obtain bv where bv: "bloom_select ?mem (\<lambda>_. True) 5 (\<lambda>p. p < 9) src (null_hash, []) = Some (Inr (sel, bv))" ..
  from selected_elements_hidden[OF _ ops(1) run ops(3) bv, of "[1]" 7] bv show ?thesis by (auto simp: hash_add_def)
qed

end
