(* ===== verification/UtString.thy ===== *)
theory UtString
  imports CString Refinement
begin

text \<open>
  The dynamic string of \<open>utstring.h\<close>: the structure, whose block of memory has bytes that are
  uninitialised until they are written and whose sizes have 64 bits, the macros, and the loop that prints
  into the string. The second part shows that the operations append, that printing ends after at most two
  attempts as long as there are less than \<open>2 ^ 31\<close> unused bytes, and what happens otherwise.
\<close>

section \<open>The structure\<close>

text \<open>A block that was freed keeps its pointer.\<close>

datatype ut_block = Null | Block "char option list" | Freed

record ut_string =
  str_d :: ut_block
  str_n :: "64 word"
  str_i :: "64 word"

section \<open>The macros\<close>

text \<open>\<open>mem\<close> says for which sizes \<open>realloc\<close> finds memory. Using a freed pointer is an access outside of any object.\<close>

definition str_realloc :: "(nat \<Rightarrow> bool) \<Rightarrow> ut_block \<Rightarrow> nat \<Rightarrow> ut_block c_result" where
  "str_realloc mem d sz =
     (case d of
        Freed \<Rightarrow> Inl Out_of_bounds_read
      | Null \<Rightarrow> if mem sz then Inr (Block (replicate sz None)) else Inl (Exit (-1))
      | Block b \<Rightarrow>
          if mem sz then Inr (Block (take sz b @ replicate (sz - length b) None)) else Inl (Exit (-1)))"

definition utstring_reserve :: "(nat \<Rightarrow> bool) \<Rightarrow> 64 word \<Rightarrow> ut_string \<Rightarrow> ut_string c_result" where
  "utstring_reserve mem amt s =
     (if str_n s - str_i s < amt then
        result_bind (str_realloc mem (str_d s) (unat (str_n s + amt))) (\<lambda>d.
          Inr (s\<lparr>str_d := d, str_n := str_n s + amt\<rparr>))
      else Inr s)"

definition utstring_init :: "(nat \<Rightarrow> bool) \<Rightarrow> ut_string \<Rightarrow> ut_string c_result" where
  "utstring_init mem s = utstring_reserve mem 100 (s\<lparr>str_n := 0, str_i := 0, str_d := Null\<rparr>)"

definition utstring_done :: "ut_string \<Rightarrow> ut_string c_result" where
  "utstring_done s =
     (case str_d s of
        Null \<Rightarrow> Inr (s\<lparr>str_n := 0\<rparr>)
      | Block _ \<Rightarrow> Inr (s\<lparr>str_d := Freed, str_n := 0\<rparr>)
      | Freed \<Rightarrow> Inl Out_of_bounds_read)"

definition utstring_free :: "ut_string \<Rightarrow> unit c_result" where
  "utstring_free s = result_bind (utstring_done s) (\<lambda>_. Inr ())"

definition utstring_body :: "ut_string \<Rightarrow> ut_block" where
  "utstring_body s = str_d s"

text \<open>\<open>new\<close> says whether there is memory for the structure itself, which is then all zero.\<close>

definition utstring_new :: "(nat \<Rightarrow> bool) \<Rightarrow> bool \<Rightarrow> ut_string c_result" where
  "utstring_new mem new =
     (if new then utstring_init mem \<lparr>str_d = Null, str_n = 0, str_i = 0\<rparr> else Inl (Exit (-1)))"

definition utstring_clear :: "ut_string \<Rightarrow> ut_string" where
  "utstring_clear s = s\<lparr>str_i := 0\<rparr>"

definition utstring_len :: "ut_string \<Rightarrow> 32 word" where
  "utstring_len s = ucast (str_i s)"

text \<open>Storing bytes at an index of the block; storing none touches nothing.\<close>

definition str_store :: "nat \<Rightarrow> char option list \<Rightarrow> ut_string \<Rightarrow> ut_string c_result" where
  "str_store k w s =
     (if w = [] then Inr s
      else case str_d s of
        Null \<Rightarrow> Inl Null_pointer
      | Freed \<Rightarrow> Inl Buffer_overflow
      | Block b \<Rightarrow>
          if k + length w \<le> length b
          then Inr (s\<lparr>str_d := Block (take k b @ w @ drop (k + length w) b)\<rparr>)
          else Inl Buffer_overflow)"

text \<open>Copying bytes behind the content, advancing the index and terminating.\<close>

definition str_append :: "char option list \<Rightarrow> ut_string \<Rightarrow> ut_string c_result" where
  "str_append b s =
     result_bind (str_store (unat (str_i s)) b s) (\<lambda>s.
       let s = s\<lparr>str_i := str_i s + word_of_nat (length b)\<rparr>
       in str_store (unat (str_i s)) [Some NUL] s)"

definition utstring_bincpy :: "(nat \<Rightarrow> bool) \<Rightarrow> string \<Rightarrow> ut_string \<Rightarrow> ut_string c_result" where
  "utstring_bincpy mem b s =
     result_bind (utstring_reserve mem (word_of_nat (length b) + 1) s) (str_append (map Some b))"

text \<open>The first \<open>n\<close> bytes of a block, read by \<open>memcpy\<close>.\<close>

definition str_read :: "nat \<Rightarrow> ut_string \<Rightarrow> char option list c_result" where
  "str_read n s =
     (if n = 0 then Inr []
      else case str_d s of
        Null \<Rightarrow> Inl Null_pointer
      | Freed \<Rightarrow> Inl Out_of_bounds_read
      | Block b \<Rightarrow> if n \<le> length b then Inr (take n b) else Inl Out_of_bounds_read)"

text \<open>\<open>src\<close> is \<open>None\<close> if the string is appended to itself; its block is then the one that was moved.\<close>

definition utstring_concat ::
    "(nat \<Rightarrow> bool) \<Rightarrow> ut_string \<Rightarrow> ut_string option \<Rightarrow> ut_string c_result" where
  "utstring_concat mem dst src =
     (let i = str_i (case src of None \<Rightarrow> dst | Some s \<Rightarrow> s) in
      result_bind (utstring_reserve mem (i + 1) dst) (\<lambda>dst.
        result_bind (str_read (unat i) (case src of None \<Rightarrow> dst | Some s \<Rightarrow> s)) (\<lambda>b. str_append b dst)))"

section \<open>Printing\<close>

text \<open>
  \<open>vsnprintf\<close> with a size: the value it returns and the bytes it stores. \<open>text\<close> is the formatted text, \<open>None\<close> if it
  cannot be encoded; a length that is no \<open>int\<close> is an error too.
\<close>

definition vsnprintf :: "nat \<Rightarrow> string option \<Rightarrow> int \<times> string" where
  "vsnprintf sz text =
     (case text of
        Some t \<Rightarrow>
          if length t < 2 ^ 31
          then (int (length t), if sz = 0 then [] else take (sz - 1) t @ [NUL])
          else (-1, [])
      | None \<Rightarrow> (-1, []))"

text \<open>The unused bytes, converted to \<open>int\<close>.\<close>

definition room_int :: "ut_string \<Rightarrow> int" where
  "room_int s = sint (ucast (str_n s - str_i s) :: 32 word)"

partial_function (option) utstring_printf_va ::
    "(nat \<Rightarrow> bool) \<Rightarrow> string option \<Rightarrow> ut_string \<Rightarrow> ut_string c_result option" where
  "utstring_printf_va mem text s =
     (case vsnprintf (unat (str_n s - str_i s)) text of (n, w) \<Rightarrow>
       (case str_store (unat (str_i s)) (map Some w) s of
          Inl e \<Rightarrow> Some (Inl e)
        | Inr s \<Rightarrow>
            if n > -1 \<and> n < room_int s then Some (Inr (s\<lparr>str_i := str_i s + word_of_int n\<rparr>))
            else if n > -1 \<and> n + 1 \<ge> 2 ^ 31 then Some (Inl Signed_overflow)
            else
              (case utstring_reserve mem (if n > -1 then word_of_int (n + 1) else str_n s * 2) s of
                 Inl e \<Rightarrow> Some (Inl e)
               | Inr s \<Rightarrow> utstring_printf_va mem text s)))"

section \<open>What a string holds\<close>

definition str_holds :: "ut_string \<Rightarrow> string \<Rightarrow> bool" where
  "str_holds s t \<longleftrightarrow> (\<exists>rest. str_d s = Block (map Some t @ rest) \<and> rest \<noteq> [] \<and>
     unat (str_n s) = length t + length rest \<and> unat (str_i s) = length t)"

definition terminated :: "ut_string \<Rightarrow> bool" where
  "terminated s \<longleftrightarrow> (\<exists>b. str_d s = Block b \<and> unat (str_i s) < length b \<and> b ! unat (str_i s) = Some NUL)"

lemma str_holds_room:
  assumes "str_holds s t"
  shows "unat (str_n s - str_i s) = unat (str_n s) - length t" "length t < unat (str_n s)"
proof -
  have "str_i s \<le> str_n s" using assms by (auto simp: str_holds_def word_le_nat_alt)
  then show "unat (str_n s - str_i s) = unat (str_n s) - length t"
    using assms by (auto simp: str_holds_def unat_sub)
  show "length t < unat (str_n s)" using assms by (auto simp: str_holds_def)
qed

lemma utstring_reserve_holds:
  assumes holds: "str_holds s t" and fits: "unat (str_n s) + unat amt < 2 ^ 64"
  shows "utstring_reserve mem amt s = Inl (Exit (-1)) \<and> \<not> mem (unat (str_n s + amt)) \<or>
    (\<exists>s'. utstring_reserve mem amt s = Inr s' \<and> str_holds s' t \<and> unat amt \<le> unat (str_n s') - length t \<and>
       str_n s' = (if str_n s - str_i s < amt then str_n s + amt else str_n s) \<and> str_i s' = str_i s)"
proof -
  obtain rest where s: "str_d s = Block (map Some t @ rest)" "rest \<noteq> []" "unat (str_n s) = length t + length rest"
    "unat (str_i s) = length t" using holds by (auto simp: str_holds_def)
  show ?thesis
  proof (cases "str_n s - str_i s < amt")
    case True
    have n: "unat (str_n s + amt) = unat (str_n s) + unat amt" using fits unat_add_lem[of "str_n s" amt] by simp
    let ?rest = "rest @ replicate (unat amt) None"
    let ?s = "s\<lparr>str_d := Block (map Some t @ ?rest), str_n := str_n s + amt\<rparr>"
    have "str_holds ?s t" using s n by (auto simp: str_holds_def)
    moreover have "str_realloc mem (str_d s) (unat (str_n s + amt)) =
        (if mem (unat (str_n s + amt)) then Inr (Block (map Some t @ ?rest)) else Inl (Exit (-1)))"
      using s n by (simp add: str_realloc_def)
    ultimately show ?thesis using True s n by (auto simp: utstring_reserve_def)
  next
    case False
    then have "unat amt \<le> unat (str_n s) - length t"
      using str_holds_room(1)[OF holds] by (simp add: word_less_nat_alt)
    then show ?thesis using False holds by (simp add: utstring_reserve_def)
  qed
qed

lemma str_append_holds:
  assumes holds: "str_holds s t" and room: "length b < unat (str_n s) - length t"
  shows "\<exists>s'. str_append (map Some b) s = Inr s' \<and> str_holds s' (t @ b) \<and> terminated s' \<and> str_n s' = str_n s"
proof -
  obtain rest where s: "str_d s = Block (map Some t @ rest)" "unat (str_n s) = length t + length rest"
    "unat (str_i s) = length t" using holds by (auto simp: str_holds_def)
  have len: "length b < length rest" using room s(2) by simp
  have "unat (str_n s) < 2 ^ LENGTH(64)" by (rule unsigned_less)
  then have n64: "unat (str_n s) < 2 ^ 64" by simp
  let ?rest = "drop (length b) rest" and ?i = "str_i s + word_of_nat (length b)"
  have i: "unat ?i = length t + length b"
    using s len n64 by (simp add: unat_word_ariths unat_of_nat)
  define s1 where "s1 = s\<lparr>str_d := Block (map Some (t @ b) @ ?rest), str_i := ?i\<rparr>"
  define s2 where "s2 = s1\<lparr>str_d := Block (map Some (t @ b) @ Some NUL # tl ?rest)\<rparr>"
  have "result_bind (str_store (unat (str_i s)) (map Some b) s) (\<lambda>s. Inr (s\<lparr>str_i := str_i s + word_of_nat (length b)\<rparr>)) = Inr s1"
    using s len by (cases "b = []") (simp_all add: str_store_def s1_def)
  moreover have "str_store (unat (str_i s1)) [Some NUL] s1 = Inr s2"
    using s len i by (simp add: str_store_def s1_def s2_def drop_Suc tl_drop)
  ultimately have "str_append (map Some b) s = Inr s2"
    by (auto simp: str_append_def result_simps Let_def)
  moreover have "str_holds s2 (t @ b)"
    unfolding str_holds_def using s len i
    by (intro exI[of _ "Some NUL # tl ?rest"]) (simp add: s2_def s1_def)
  moreover have "terminated s2" using i len by (simp add: terminated_def s2_def s1_def nth_append)
  ultimately show ?thesis by (auto simp: s2_def s1_def)
qed

lemma utstring_bincpy_holds:
  assumes "str_holds s t" and "unat (str_n s) + length b + 1 < 2 ^ 64"
  shows "utstring_bincpy mem b s = Inl (Exit (-1)) \<or>
    (\<exists>s'. utstring_bincpy mem b s = Inr s' \<and> str_holds s' (t @ b) \<and> terminated s' \<and>
       unat (str_n s') \<le> unat (str_n s) + length b + 1)"
proof -
  have amt: "unat (word_of_nat (length b) + 1 :: 64 word) = length b + 1"
    using assms(2) by (simp add: unat_word_ariths unat_of_nat)
  from utstring_reserve_holds[OF assms(1), of "word_of_nat (length b) + 1" mem] assms(2) amt
  consider "utstring_reserve mem (word_of_nat (length b) + 1) s = Inl (Exit (-1))"
    | s1 where "utstring_reserve mem (word_of_nat (length b) + 1) s = Inr s1" "str_holds s1 t"
        "length b < unat (str_n s1) - length t" "unat (str_n s1) \<le> unat (str_n s) + length b + 1"
    by (auto simp: unat_add_lem[THEN iffD1] split: if_splits)
  then show ?thesis
  proof cases
    case (2 s1)
    with str_append_holds[OF 2(2,3)] show ?thesis by (auto simp: utstring_bincpy_def)
  qed (simp add: utstring_bincpy_def)
qed

lemma str_holds_read:
  assumes "str_holds s t"
  shows "str_read (unat (str_i s)) s = Inr (map Some t)" and "str_i s = word_of_nat (length t)"
proof -
  obtain rest where s: "str_d s = Block (map Some t @ rest)" "unat (str_i s) = length t"
    using assms by (auto simp: str_holds_def)
  then show "str_read (unat (str_i s)) s = Inr (map Some t)" by (auto simp: str_read_def)
  show "str_i s = word_of_nat (length t)" using s(2) by (metis of_nat_unat ucast_id)
qed

text \<open>Appending another string, or the string itself, appends its content.\<close>

lemma utstring_concat_holds:
  assumes "str_holds s t" and "str_holds src u"
  shows "utstring_concat mem s (Some src) = utstring_bincpy mem u s"
  using str_holds_read[OF assms(2)] by (simp add: utstring_concat_def utstring_bincpy_def)

lemma utstring_concat_self_holds:
  assumes "str_holds s t" and "unat (str_n s) + length t + 1 < 2 ^ 64"
  shows "utstring_concat mem s None = utstring_bincpy mem t s"
proof -
  have "unat (word_of_nat (length t) + 1 :: 64 word) = length t + 1"
    using assms(2) by (simp add: unat_word_ariths unat_of_nat)
  with utstring_reserve_holds[OF assms(1), of "word_of_nat (length t) + 1" mem] assms(2)
  consider "utstring_reserve mem (word_of_nat (length t) + 1) s = Inl (Exit (-1))"
    | s1 where "utstring_reserve mem (word_of_nat (length t) + 1) s = Inr s1" "str_holds s1 t" "str_i s1 = str_i s"
    by fastforce
  then show ?thesis
    by cases (use str_holds_read[OF assms(1)] str_holds_read[of _ t] in
      \<open>auto simp: utstring_concat_def utstring_bincpy_def\<close>)
qed

lemma utstring_init_holds:
  "utstring_init mem s = Inl (Exit (-1)) \<or> (\<exists>s'. utstring_init mem s = Inr s' \<and> str_holds s' [] \<and> str_n s' = 100)"
  by (simp add: utstring_init_def utstring_reserve_def str_realloc_def str_holds_def)

lemma utstring_clear_holds: "str_holds s t \<Longrightarrow> str_holds (utstring_clear s) []"
  unfolding str_holds_def utstring_clear_def by (elim exE) (rule exI, auto)

section \<open>Printing into a string\<close>

lemma vsnprintf_text:
  "length t < 2 ^ 31 \<Longrightarrow> vsnprintf sz (Some t) = (int (length t), if sz = 0 then [] else take (sz - 1) t @ [NUL])"
  by (simp add: vsnprintf_def)

text \<open>An attempt with too little room leaves the content alone.\<close>

lemma str_store_behind:
  assumes "str_holds s t" and "length w \<le> unat (str_n s) - length t"
  shows "\<exists>s'. str_store (unat (str_i s)) (map Some w) s = Inr s' \<and> str_holds s' t \<and>
    str_n s' = str_n s \<and> str_i s' = str_i s"
proof -
  obtain rest where s: "str_d s = Block (map Some t @ rest)" "unat (str_n s) = length t + length rest" "rest \<noteq> []"
    "unat (str_i s) = length t" using assms(1) by (auto simp: str_holds_def)
  show ?thesis
  proof (cases "w = []")
    case False
    let ?rest = "map Some w @ drop (length w) rest"
    have "str_store (unat (str_i s)) (map Some w) s = Inr (s\<lparr>str_d := Block (map Some t @ ?rest)\<rparr>)"
      using s assms(2) False by (simp add: str_store_def)
    moreover have "str_holds (s\<lparr>str_d := Block (map Some t @ ?rest)\<rparr>) t"
      unfolding str_holds_def by (intro exI[of _ ?rest]) (use s assms(2) False in auto)
    ultimately show ?thesis by simp
  qed (use assms in \<open>simp add: str_store_def\<close>)
qed

lemma room_int_eq: "room_int s = signed_take_bit 31 (int (unat (str_n s - str_i s)))"
  by (simp add: room_int_def sint_uint unsigned_ucast_eq signed_take_bit_take_bit)

lemma room_int_small:
  assumes "str_holds s t" and "unat (str_n s) - length t < 2 ^ 31"
  shows "room_int s = int (unat (str_n s) - length t)"
proof -
  have small: "signed_take_bit 31 (int f) = int f" if "f < 2 ^ 31" for f :: nat
    using that by (intro signed_take_bit_int_eq_self) auto
  show ?thesis unfolding room_int_eq str_holds_room(1)[OF assms(1)] by (rule small[OF assms(2)])
qed

text \<open>The attempt that succeeds.\<close>

lemma printf_fits:
  assumes holds: "str_holds s t" and len: "length x < unat (str_n s) - length t"
    and room: "int (length x) < room_int s" and int: "length x < 2 ^ 31"
  shows "\<exists>s'. utstring_printf_va mem (Some x) s = Some (Inr s') \<and> str_holds s' (t @ x) \<and> terminated s' \<and> str_n s' = str_n s"
proof -
  obtain rest where s: "str_d s = Block (map Some t @ rest)" "unat (str_n s) = length t + length rest"
    "unat (str_i s) = length t" using holds by (auto simp: str_holds_def)
  let ?i = "str_i s + word_of_int (int (length x))" and ?rest = "Some NUL # drop (Suc (length x)) rest"
  define s1 where "s1 = s\<lparr>str_d := Block (map Some (t @ x) @ ?rest)\<rparr>"
  have v: "vsnprintf (unat (str_n s - str_i s)) (Some x) = (int (length x), x @ [NUL])"
    using len int str_holds_room(1)[OF holds] by (simp add: vsnprintf_text)
  have "str_store (unat (str_i s)) (map Some (x @ [NUL])) s = Inr s1"
    using s len by (simp add: str_store_def s1_def)
  moreover have same: "room_int s1 = room_int s" by (simp add: room_int_def s1_def)
  have "int (length x) < room_int s1" unfolding same by (rule room)
  ultimately have "utstring_printf_va mem (Some x) s = Some (Inr (s1\<lparr>str_i := str_i s1 + word_of_int (int (length x))\<rparr>))"
    by (subst utstring_printf_va.simps) (simp add: v del: of_int_of_nat_eq)
  then have "utstring_printf_va mem (Some x) s = Some (Inr (s1\<lparr>str_i := ?i\<rparr>))" by (simp add: s1_def)
  moreover have "unat (str_n s) < 2 ^ LENGTH(64)" by (rule unsigned_less)
  then have i: "unat ?i = length t + length x" using s len by (simp add: unat_word_ariths unat_of_nat)
  have "str_holds (s1\<lparr>str_i := ?i\<rparr>) (t @ x)"
    unfolding str_holds_def using s len i by (intro exI[of _ ?rest]) (simp add: s1_def)
  moreover have "terminated (s1\<lparr>str_i := ?i\<rparr>)" using i by (simp add: terminated_def s1_def nth_append)
  ultimately show ?thesis by (simp add: s1_def)
qed

lemma printf_fits_small:
  assumes "str_holds s t" and "length x < unat (str_n s) - length t" and "unat (str_n s) - length t < 2 ^ 31"
  shows "\<exists>s'. utstring_printf_va mem (Some x) s = Some (Inr s') \<and> str_holds s' (t @ x) \<and> terminated s' \<and> str_n s' = str_n s"
proof (rule printf_fits[OF assms(1,2)])
  show "int (length x) < room_int s" unfolding room_int_small[OF assms(1,3)] using assms(2) by (simp only: of_nat_less_iff)
qed (use assms in simp)

text \<open>At most one more attempt is needed.\<close>

lemma utstring_printf_holds:
  assumes holds: "str_holds s t" and len: "length x < 2 ^ 30" and room: "unat (str_n s) - length t < 2 ^ 31"
    and fits: "unat (str_n s) + length x + 1 < 2 ^ 64"
  shows "utstring_printf_va mem (Some x) s = Some (Inl (Exit (-1))) \<or>
    (\<exists>s'. utstring_printf_va mem (Some x) s = Some (Inr s') \<and> str_holds s' (t @ x) \<and> terminated s' \<and>
       unat (str_n s') \<le> unat (str_n s) + length x + 1)"
proof (cases "length x < unat (str_n s) - length t")
  case True
  with printf_fits_small[OF holds True room] show ?thesis by fastforce
next
  case False
  let ?f = "unat (str_n s) - length t" and ?w = "take (unat (str_n s) - length t - 1) x @ [NUL]"
  let ?amt = "word_of_int (int (length x) + 1) :: 64 word"
  have f: "0 < ?f" "unat (str_n s - str_i s) = ?f" using str_holds_room[OF holds] by auto
  have v: "vsnprintf (unat (str_n s - str_i s)) (Some x) = (int (length x), ?w)"
    using f len by (simp add: vsnprintf_text)
  have "length ?w \<le> ?f" using f by simp
  from str_store_behind[OF holds this] obtain s1 where s1: "str_store (unat (str_i s)) (map Some ?w) s = Inr s1"
    "str_holds s1 t" "str_n s1 = str_n s" "str_i s1 = str_i s" by blast
  have amt: "unat ?amt = length x + 1" using fits by (simp add: unat_word_ariths unat_of_nat)
  have step: "utstring_printf_va mem (Some x) s =
      (case utstring_reserve mem ?amt s1 of Inl e \<Rightarrow> Some (Inl e) | Inr s \<Rightarrow> utstring_printf_va mem (Some x) s)"
    using False s1 len room_int_small[OF s1(2)] room by (subst utstring_printf_va.simps) (simp add: v)
  have grow: "str_n s1 - str_i s1 < ?amt" using f amt False s1(3,4) by (simp add: word_less_nat_alt)
  have n: "unat (str_n s + ?amt) = unat (str_n s) + length x + 1"
    using fits amt unat_add_lem[of "str_n s" ?amt] by simp
  have "utstring_reserve mem ?amt s1 = Inl (Exit (-1)) \<or>
      (\<exists>s2. utstring_reserve mem ?amt s1 = Inr s2 \<and> str_holds s2 t \<and> str_n s2 = str_n s + ?amt)"
    using utstring_reserve_holds[OF s1(2), of ?amt mem] grow fits amt s1(3) by auto
  then consider "utstring_reserve mem ?amt s1 = Inl (Exit (-1))"
    | s2 where "utstring_reserve mem ?amt s1 = Inr s2" "str_holds s2 t" "str_n s2 = str_n s + ?amt" by blast
  then show ?thesis
  proof cases
    case (2 s2)
    have "length x < unat (str_n s2) - length t" "unat (str_n s2) - length t < 2 ^ 31"
      using 2(3) n False len f by auto
    from printf_fits_small[OF 2(2) this, of mem] show ?thesis using step 2 n by auto
  qed (simp add: step)
qed

text \<open>With \<open>2 ^ 31\<close> to \<open>2 ^ 32 - 1\<close> unused bytes their number is negative as an \<open>int\<close>: the text never seems to fit,
  and there is always enough room.\<close>

lemma printf_stuck:
  assumes len: "length x < 2 ^ 30" and holds: "str_holds s t" and fits: "length x < unat (str_n s) - length t"
    and room: "room_int s \<le> int (length x)"
  shows "utstring_printf_va mem (Some x) s = None"
proof (rule ccontr)
  let ?stuck = "\<lambda>fmt s. fmt = Some x \<and> str_holds s t \<and> length x < unat (str_n s) - length t \<and> room_int s \<le> int (length x)"
  let ?w = "x @ [NUL]"
  assume "utstring_printf_va mem (Some x) s \<noteq> None"
  then obtain y where "utstring_printf_va mem (Some x) s = Some y" by blast
  then have "\<not> ?stuck (Some x) s"
  proof (rule utstring_printf_va.raw_induct[where P = "\<lambda>mem fmt s y. \<not> ?stuck fmt s", rotated])
    fix f mem fmt s y
    let ?body = "case vsnprintf (unat (str_n s - str_i s)) fmt of (n, w) \<Rightarrow>
        (case str_store (unat (str_i s)) (map Some w) s of
           Inl e \<Rightarrow> Some (Inl e)
         | Inr s \<Rightarrow>
             if n > -1 \<and> n < room_int s then Some (Inr (s\<lparr>str_i := str_i s + word_of_int n\<rparr>))
             else if n > -1 \<and> n + 1 \<ge> 2 ^ 31 then Some (Inl Signed_overflow)
             else
               (case utstring_reserve mem (if n > -1 then word_of_int (n + 1) else str_n s * 2) s of
                  Inl e \<Rightarrow> Some (Inl e)
                | Inr s \<Rightarrow> f mem fmt s))"
    assume IH: "\<And>mem fmt s y. f mem fmt s = Some y \<Longrightarrow> \<not> ?stuck fmt s" and body: "?body = Some y"
    show "\<not> ?stuck fmt s"
    proof
      assume st: "?stuck fmt s"
      then have "length ?w \<le> unat (str_n s) - length t" by simp
      then obtain s1 where s1: "str_store (unat (str_i s)) (map Some ?w) s = Inr s1"
        "str_holds s1 t" "str_n s1 = str_n s" "str_i s1 = str_i s"
        using str_store_behind st by blast
      have v: "vsnprintf (unat (str_n s - str_i s)) fmt = (int (length x), ?w)"
        using st len str_holds_room(1)[of s t] by (auto simp: vsnprintf_text)
      have r: "room_int s1 \<le> int (length x)" using st s1(3,4) by (simp add: room_int_def)
      have "unat (str_n s1 - str_i s1) = unat (str_n s) - length t" using str_holds_room(1)[OF s1(2)] s1(3) by simp
      moreover have "unat (word_of_int (int (length x) + 1) :: 64 word) = length x + 1"
        using len by (simp add: unat_word_ariths unat_of_nat)
      ultimately have "utstring_reserve mem (word_of_int (int (length x) + 1)) s1 = Inr s1"
        using st by (simp add: utstring_reserve_def word_less_nat_alt)
      then have "f mem fmt s1 = Some y" using body len s1(1) r by (simp add: v)
      from IH[OF this] st s1(2,3) r show False by simp
    qed
  qed
  with holds fits room show False by simp
qed

text \<open>A text that cannot be encoded makes the string grow until there is no memory.\<close>

lemma printf_error_grows:
  assumes "str_holds s t" and "unat (str_n s) < 2 ^ 62" and "\<forall>k \<ge> 2 ^ 62. \<not> mem k"
  shows "utstring_printf_va mem None s = Some (Inl (Exit (-1)))"
  using assms
proof (induction "2 ^ 62 - unat (str_n s)" arbitrary: s rule: less_induct)
  case less
  have n: "0 < unat (str_n s)" using str_holds_room(2)[OF less(2)] by simp
  have amt: "unat (str_n s * 2) = unat (str_n s) * 2" using less(3) by (simp add: unat_word_ariths)
  have sum: "unat (str_n s + str_n s * 2) = unat (str_n s) * 3"
    using less(3) amt unat_add_lem[of "str_n s" "str_n s * 2"] by simp
  have grow: "str_n s - str_i s < str_n s * 2"
    using n amt str_holds_room(1)[OF less(2)] by (simp add: word_less_nat_alt)
  have step: "utstring_printf_va mem None s = (case utstring_reserve mem (str_n s * 2) s of
      Inl e \<Rightarrow> Some (Inl e) | Inr s \<Rightarrow> utstring_printf_va mem None s)"
    by (subst utstring_printf_va.simps) (simp add: vsnprintf_def str_store_def)
  from utstring_reserve_holds[OF less(2), of "str_n s * 2" mem] less(3) amt grow
  consider "utstring_reserve mem (str_n s * 2) s = Inl (Exit (-1))"
    | s1 where "utstring_reserve mem (str_n s * 2) s = Inr s1" "str_holds s1 t" "str_n s1 = str_n s + str_n s * 2"
    by auto
  then show ?case
  proof cases
    case (2 s1)
    then have "mem (unat (str_n s) * 3)"
      using grow sum by (auto simp: utstring_reserve_def str_realloc_def result_simps split: ut_block.splits if_splits)
    then have small: "unat (str_n s1) < 2 ^ 62" using less(4) 2(3) sum by (metis not_le_imp_less)
    then have "2 ^ 62 - unat (str_n s1) < 2 ^ 62 - unat (str_n s)" using 2(3) sum n less(3) by simp
    from less(1)[OF this 2(2) small less(4)] 2(1) show ?thesis by (simp add: step)
  qed (simp add: step)
qed

section \<open>Sequences of operations\<close>

datatype str_op =
    Str_bincpy string
  | Str_concat ut_string string
  | Str_concat_self
  | Str_printf string
  | Str_reserve nat
  | Str_clear

text \<open>The abstract value: the content, a bound on the allocated size, and whether a NUL is known to follow.\<close>

type_synonym str_value = "string \<times> nat \<times> bool"

fun str_step :: "str_op \<Rightarrow> str_value \<Rightarrow> str_value" where
  "str_step (Str_bincpy b) (t, n, z) = (t @ b, n + length b + 1, True)"
| "str_step (Str_concat src u) (t, n, z) = (t @ u, n + length u + 1, True)"
| "str_step Str_concat_self (t, n, z) = (t @ t, n + length t + 1, True)"
| "str_step (Str_printf x) (t, n, z) = (t @ x, n + length x + 1, True)"
| "str_step (Str_reserve k) (t, n, z) = (t, n + k, z)"
| "str_step Str_clear (t, n, z) = ([], n, False)"

fun str_allowed :: "str_op \<Rightarrow> str_value \<Rightarrow> bool" where
  "str_allowed (Str_concat src u) v = (str_holds src u \<and> fst (snd (str_step (Str_concat src u) v)) < 2 ^ 31)"
| "str_allowed (Str_printf x) v = (length x < 2 ^ 30 \<and> fst (snd (str_step (Str_printf x) v)) < 2 ^ 31)"
| "str_allowed op v = (fst (snd (str_step op v)) < 2 ^ 31)"

fun utstring_step :: "(nat \<Rightarrow> bool) \<Rightarrow> str_op \<Rightarrow> ut_string \<Rightarrow> ut_string c_result option" where
  "utstring_step mem (Str_bincpy b) s = Some (utstring_bincpy mem b s)"
| "utstring_step mem (Str_concat src u) s = Some (utstring_concat mem s (Some src))"
| "utstring_step mem Str_concat_self s = Some (utstring_concat mem s None)"
| "utstring_step mem (Str_printf x) s = utstring_printf_va mem (Some x) s"
| "utstring_step mem (Str_reserve k) s = Some (utstring_reserve mem (word_of_nat k) s)"
| "utstring_step mem Str_clear s = Some (Inr (utstring_clear s))"

fun str_rel :: "ut_string \<Rightarrow> str_value \<Rightarrow> bool" where
  "str_rel s (t, n, z) \<longleftrightarrow> str_holds s t \<and> unat (str_n s) \<le> n \<and> n < 2 ^ 31 \<and> (z \<longrightarrow> terminated s)"

lemma utstring_reserve_terminated:
  assumes "str_holds s t" and "terminated s" and "utstring_reserve mem amt s = Inr s'"
    and "unat (str_n s) + unat amt < 2 ^ 64"
  shows "terminated s'"
proof -
  have "unat (str_n s + amt) = unat (str_n s) + unat amt"
    using assms(4) unat_add_lem[of "str_n s" amt] by simp
  then show ?thesis
    using assms(1-3) by (auto simp: utstring_reserve_def str_realloc_def terminated_def str_holds_def result_simps
        nth_append split: if_splits)
qed

lemma utstring_step_simulates:
  assumes "str_rel s v" and "str_allowed op v"
  shows "(\<exists>e. utstring_step mem op s = Some (Inl e) \<and> e = Exit (-1)) \<or>
    (\<exists>s'. utstring_step mem op s = Some (Inr s') \<and> str_rel s' (str_step op v))"
proof -
  obtain t n z where v: "v = (t, n, z)" by (cases v)
  have s: "str_holds s t" "unat (str_n s) \<le> n" "n < 2 ^ 31" "z \<longrightarrow> terminated s" using assms(1) v by auto
  have cpy: "(\<exists>e. Some (utstring_bincpy mem b s) = Some (Inl e) \<and> e = Exit (-1)) \<or>
      (\<exists>s'. Some (utstring_bincpy mem b s) = Some (Inr s') \<and> str_rel s' (t @ b, n + length b + 1, True))"
    if "n + length b + 1 < 2 ^ 31" for b
    using utstring_bincpy_holds[OF s(1), of b mem] s that by fastforce
  show ?thesis
  proof (cases op)
    case (Str_bincpy b)
    then show ?thesis using cpy[of b] assms(2) v by simp
  next
    case (Str_concat src u)
    then show ?thesis using cpy[of u] utstring_concat_holds[OF s(1), of src u mem] assms(2) v by simp
  next
    case Str_concat_self
    then show ?thesis using cpy[of t] utstring_concat_self_holds[OF s(1), of mem] assms(2) v s(2) by simp
  next
    case (Str_printf x)
    then show ?thesis using utstring_printf_holds[OF s(1), of x mem] assms(2) v s by fastforce
  next
    case (Str_reserve k)
    have k: "unat (word_of_nat k :: 64 word) = k" using assms(2) v Str_reserve by (simp add: unat_of_nat)
    have fits: "unat (str_n s) + unat (word_of_nat k :: 64 word) < 2 ^ 64" using assms(2) v Str_reserve s k by simp
    have sum: "unat (str_n s + word_of_nat k) = unat (str_n s) + k"
      using fits k unat_add_lem[of "str_n s" "word_of_nat k"] by simp
    show ?thesis
      using utstring_reserve_holds[OF s(1) fits, of mem] utstring_reserve_terminated[OF s(1) _ _ fits, of mem]
        assms(2) v s sum Str_reserve by (auto split: if_splits)
  next
    case Str_clear
    then show ?thesis using utstring_clear_holds[OF s(1)] s v by (simp add: utstring_clear_def)
  qed
qed

interpretation utstring: partial_simulation str_rel "utstring_step mem" str_step str_allowed "\<lambda>e. e = Exit (-1)" for mem
  by unfold_locales (rule utstring_step_simulates)

section \<open>The string's guarantees\<close>

text \<open>C25: a dynamic string is a buffer that is appended to. Whatever sequence of operations is run on a new one,
  within \<open>2 ^ 31\<close> bytes, it ends, for lack of memory or with the block holding exactly the bytes appended since the
  last clearing, in order; after an append or a print they are followed by a NUL.\<close>

theorem utstring_implements_appending:
  assumes "ops_allowed str_allowed str_step ops ([], 100, False)"
    and "fold str_step ops ([], 100, False) = (t, n, ends)"
  shows "loop_bind (Some (utstring_new mem new)) (run_ops (utstring_step mem) ops) = Some (Inl (Exit (-1))) \<or>
    (\<exists>s rest. loop_bind (Some (utstring_new mem new)) (run_ops (utstring_step mem) ops) = Some (Inr s) \<and>
       utstring_body s = Block (map Some t @ rest) \<and> utstring_len s = word_of_nat (length t) \<and>
       (ends \<longrightarrow> hd rest = Some NUL))"
proof -
  have started: "utstring_new mem new = Inl (Exit (-1)) \<or> (\<exists>s. utstring_new mem new = Inr s \<and> str_rel s ([], 100, False))"
    using utstring_init_holds[of mem "\<lparr>str_d = Null, str_n = 0, str_i = 0\<rparr>"] by (auto simp: utstring_new_def)
  have holds: "\<exists>rest. str_d s = Block (map Some t @ rest) \<and> utstring_len s = word_of_nat (length t) \<and>
      (ends \<longrightarrow> hd rest = Some NUL)" if "str_rel s (t, n, ends)" for s
  proof -
    from that obtain rest where s: "str_d s = Block (map Some t @ rest)" "rest \<noteq> []" "unat (str_i s) = length t"
      "ends \<longrightarrow> terminated s" by (auto simp: str_holds_def)
    have "utstring_len s = word_of_nat (unat (str_i s))"
      unfolding utstring_len_def of_nat_unat ..
    moreover have "ends \<longrightarrow> hd rest = Some NUL"
      using s by (auto simp: terminated_def nth_append hd_conv_nth)
    ultimately show ?thesis using s by auto
  qed
  from started show ?thesis
    using utstring.run_simulates_or_gives_up[OF _ assms(1), of _ mem] holds assms(2)
    unfolding utstring_body_def by fastforce
qed

lemma utstring_implements_appending_witness:
  "\<exists>s rest. loop_bind (Some (utstring_new (\<lambda>_. True) True)) (run_ops (utstring_step (\<lambda>_. True))
      [Str_bincpy ''ab'', Str_concat_self]) = Some (Inr s) \<and>
    utstring_body s = Block (map Some ''abab'' @ rest) \<and> utstring_len s = 4 \<and> hd rest = Some NUL"
proof -
  let ?ops = "[Str_bincpy ''ab'', Str_concat_self]"
  have "loop_bind (Some (utstring_new (\<lambda>_. True) True)) (run_ops (utstring_step (\<lambda>_. True)) ?ops) \<noteq> Some (Inl (Exit (-1)))"
    by (simp add: utstring_new_def utstring_init_def utstring_reserve_def str_realloc_def utstring_bincpy_def
        str_append_def str_store_def utstring_concat_def str_read_def Let_def)
  then show ?thesis
    using utstring_implements_appending[of ?ops "''abab''" 106 True "\<lambda>_. True" True] by simp
qed

text \<open>C40: if every allocation succeeds and the sizes stay below \<open>2 ^ 64\<close>, printing a text of fewer than \<open>2 ^ 30\<close>
  characters into a string that holds any text ends, unless the text fits into the
  unused bytes but their number, converted to \<open>int\<close>, is not greater than the length of the text: then the
  loop tries again for ever without growing the string.\<close>

theorem utstring_printf_ends_iff:
  assumes "str_holds s t" and "length x < 2 ^ 30" and "unat (str_n s) + length x + 1 < 2 ^ 64" and "\<forall>k. mem k"
  shows "utstring_printf_va mem (Some x) s \<noteq> None \<longleftrightarrow>
    \<not> (length x < unat (str_n s) - length t \<and> signed_take_bit 31 (int (unat (str_n s) - length t)) \<le> int (length x))"
proof -
  have room: "room_int s = signed_take_bit 31 (int (unat (str_n s) - length t))"
    unfolding room_int_eq str_holds_room(1)[OF assms(1)] ..
  show ?thesis
  proof (cases "length x < unat (str_n s) - length t")
    case True
    then show ?thesis
      using printf_fits[OF assms(1) True] printf_stuck[OF assms(2,1) True] assms(2) room by fastforce
  next
    case False
    then have "unat (str_n s) - length t < 2 ^ 31" using assms(2) by simp
    with utstring_printf_holds[OF assms(1,2) this assms(3), of mem] False show ?thesis by auto
  qed
qed

lemma utstring_printf_ends_iff_witness:
  "\<exists>s. utstring_reserve (\<lambda>_. True) (2 ^ 31) s = Inr s \<and> utstring_printf_va (\<lambda>_. True) (Some ''x'') s = None"
proof -
  let ?s = "\<lparr>str_d = Block (replicate (2 ^ 31) None), str_n = 2 ^ 31, str_i = 0\<rparr>"
  have "str_holds ?s []" unfolding str_holds_def by (intro exI[of _ "replicate (2 ^ 31) None"]) simp
  then have "utstring_printf_va (\<lambda>_. True) (Some ''x'') ?s = None"
    using utstring_printf_ends_iff[of ?s "[]" "''x''" "\<lambda>_. True"] by (simp add: signed_take_bit_eq_if_negative)
  moreover have "utstring_reserve (\<lambda>_. True) (2 ^ 31) ?s = Inr ?s" by (simp add: utstring_reserve_def)
  ultimately show ?thesis by blast
qed

text \<open>A text that cannot be encoded in the locale ends the process: each attempt triples the string until there is
  no memory.\<close>

lemma unprintable_text_exits:
  assumes "str_holds s t" and "unat (str_n s) < 2 ^ 62" and "\<forall>k \<ge> 2 ^ 62. \<not> mem k"
  shows "utstring_printf_va mem None s = Some (Inl (Exit (-1)))"
  by (rule printf_error_grows[OF assms])

lemma unprintable_text_exits_witness:
  "utstring_printf_va (\<lambda>k. k < 2 ^ 40) None \<lparr>str_d = Block [None], str_n = 1, str_i = 0\<rparr> = Some (Inl (Exit (-1)))"
  by (rule unprintable_text_exits[of _ "[]"]) (simp_all add: str_holds_def)

text \<open>A new string is not terminated, and a cleared one still begins with the old text: the body is no empty
  string until something is appended.\<close>

lemma new_string_not_terminated:
  "utstring_init mem s = Inr s' \<Longrightarrow> \<not> terminated s'"
  by (auto simp: utstring_init_def utstring_reserve_def str_realloc_def terminated_def split: if_splits)

lemma cleared_string_keeps_text:
  assumes "str_holds s t" and "t \<noteq> []" and "hd t \<noteq> NUL"
  shows "\<not> terminated (utstring_clear s)"
  using assms by (cases t) (auto simp: str_holds_def terminated_def utstring_clear_def)

text \<open>\<open>utstring_done\<close> leaves the pointer to the freed block: a second one frees it again, and a string that is
  used again without \<open>utstring_init\<close> writes to it.\<close>

lemma done_string_keeps_pointer:
  assumes "str_holds s t" and "utstring_done s = Inr s'"
  shows "utstring_done s' = Inl Out_of_bounds_read \<and>
    (b \<noteq> [] \<longrightarrow> length b < 2 ^ 31 \<longrightarrow> (\<exists>e. utstring_bincpy mem b s' = Inl e))"
proof -
  have s': "s' = s\<lparr>str_d := Freed, str_n := 0\<rparr>" using assms by (auto simp: str_holds_def utstring_done_def)
  have "\<exists>e. utstring_bincpy mem b s' = Inl e" if "b \<noteq> []"
    using that by (auto simp: s' utstring_bincpy_def utstring_reserve_def str_realloc_def str_append_def str_store_def)
  then show ?thesis by (simp add: s' utstring_done_def)
qed

end
