(* ===== verification/UtListIter.thy ===== *)
theory UtListIter
  imports UtList
begin

text \<open>
  The rest of \<open>utlist.h\<close>: the loops that allow their body to delete the node they visit, for the three kinds of
  list; searching for a value; and the replacements of two macros for a compiler without \<open>decltype\<close>, which
  use a field or the head itself as their loop variable. Deleting while iterating is shown once for
  every kind of list whose delete macro keeps its order; the replacements are shown to do what the
  macros they replace do.
\<close>

section \<open>Loops whose body may delete\<close>

text \<open>The successor is read before the body runs. \<open>seen\<close> are the nodes visited so far.\<close>

partial_function (option) foreach_safe ::
    "('p \<Rightarrow> 'p ut_list \<Rightarrow> 'p ut_list c_result option) \<Rightarrow> 'p option \<Rightarrow> 'p list \<Rightarrow> 'p ut_list \<Rightarrow>
     ('p list \<times> 'p ut_list) c_result option" where
  "foreach_safe body el seen l =
     (case el of
        None \<Rightarrow> Some (Inr (seen, l))
      | Some p \<Rightarrow>
          (case body p l of
             None \<Rightarrow> None
           | Some (Inl e) \<Rightarrow> Some (Inl e)
           | Some (Inr l') \<Rightarrow> foreach_safe body (ul_next l p) (seen @ [p]) l'))"

partial_function (option) cdl_foreach_safe_from ::
    "('p \<Rightarrow> 'p ut_list \<Rightarrow> 'p ut_list c_result option) \<Rightarrow> 'p option \<Rightarrow> 'p option \<Rightarrow> 'p list \<Rightarrow> 'p ut_list \<Rightarrow>
     ('p list \<times> 'p ut_list) c_result option" where
  "cdl_foreach_safe_from body tmp1 el seen l =
     (case el of
        None \<Rightarrow> Some (Inr (seen, l))
      | Some p \<Rightarrow>
          (case body p l of
             None \<Rightarrow> None
           | Some (Inl e) \<Rightarrow> Some (Inl e)
           | Some (Inr l') \<Rightarrow>
               cdl_foreach_safe_from body tmp1 (if Some p = tmp1 then None else ul_next l p) (seen @ [p]) l'))"

definition cdl_foreach_safe ::
    "('p \<Rightarrow> 'p ut_list \<Rightarrow> 'p ut_list c_result option) \<Rightarrow> 'p ut_list \<Rightarrow> ('p list \<times> 'p ut_list) c_result option" where
  "cdl_foreach_safe body l =
     cdl_foreach_safe_from body (case ul_head l of None \<Rightarrow> None | Some h \<Rightarrow> ul_prev l h) (ul_head l) [] l"

text \<open>A body that deletes the nodes of which \<open>old\<close> holds.\<close>

definition delete_if :: "('p \<Rightarrow> 'p ut_list \<Rightarrow> 'p ut_list c_result option) \<Rightarrow> ('p \<Rightarrow> bool) \<Rightarrow> 'p \<Rightarrow> 'p ut_list \<Rightarrow> 'p ut_list c_result option" where
  "delete_if del old p l = (if old p then del p l else Some (Inr l))"

section \<open>Deleting while iterating\<close>

text \<open>\<open>nil\<close> is where the list ends.\<close>

locale deletable_list =
  fixes holds :: "'p ut_list \<Rightarrow> 'p list \<Rightarrow> bool"
    and del :: "'p \<Rightarrow> 'p ut_list \<Rightarrow> 'p ut_list c_result option"
  assumes del_holds: "holds l xs \<Longrightarrow> p \<in> set xs \<Longrightarrow> \<exists>l'. del p l = Some (Inr l') \<and> holds l' (remove1 p xs)"
    and holds_next: "holds l (us @ p # vs) \<Longrightarrow> vs \<noteq> [] \<Longrightarrow> ul_next l p = Some (hd vs)"
    and holds_once: "holds l xs \<Longrightarrow> distinct xs"
begin

lemma delete_if_holds:
  assumes "holds l (us @ p # vs)"
  shows "\<exists>l'. delete_if del old p l = Some (Inr l') \<and> holds l' (us @ filter (\<lambda>p. \<not> old p) [p] @ vs)"
proof -
  have "remove1 p (us @ p # vs) = us @ vs" using holds_once[OF assms] by (simp add: remove1_append)
  then show ?thesis using del_holds[OF assms, of p] assms by (auto simp: delete_if_def)
qed

end

locale ended_list = deletable_list +
  assumes holds_head: "holds l xs \<Longrightarrow> ul_head l = (if xs = [] then None else Some (hd xs))"
    and holds_end: "holds l (us @ [p]) \<Longrightarrow> ul_next l p = None"
begin

lemma foreach_safe_deletes:
  "holds l (us @ vs) \<Longrightarrow> el = (if vs = [] then None else Some (hd vs)) \<Longrightarrow>
   \<exists>l'. foreach_safe (delete_if del old) el seen l = Some (Inr (seen @ vs, l')) \<and>
     holds l' (us @ filter (\<lambda>p. \<not> old p) vs)"
proof (induction vs arbitrary: us el seen l)
  case (Cons p vs)
  obtain l' where l': "delete_if del old p l = Some (Inr l')" "holds l' ((us @ filter (\<lambda>p. \<not> old p) [p]) @ vs)"
    using delete_if_holds[OF Cons.prems(1), of old] by auto
  have "ul_next l p = (if vs = [] then None else Some (hd vs))"
    using holds_next[OF Cons.prems(1)] holds_end[of l us p] Cons.prems(1) by (cases vs) simp_all
  from Cons.IH[OF l'(2) this, of "seen @ [p]"] l'(1) Cons.prems(2) show ?case
    by (subst foreach_safe.simps) (auto split: if_splits)
qed (subst foreach_safe.simps, simp)

text \<open>Every node is visited once, in order, and those that were not deleted stay, in order.\<close>

lemma delete_while_visiting:
  "holds l xs \<Longrightarrow> \<exists>l'. foreach_safe (delete_if del old) (ul_head l) [] l = Some (Inr (xs, l')) \<and>
     holds l' (filter (\<lambda>p. \<not> old p) xs)"
  using foreach_safe_deletes[of l "[]" xs "ul_head l" old "[]"] holds_head[of l xs] by simp

end

lemma path_next: "path nx h (us @ p # vs) q \<Longrightarrow> nx p = (if vs = [] then q else Some (hd vs))"
  using path_start[of nx "nx p" vs q] by (auto simp: path_simps)

interpretation ll_deletable: ended_list ll_holds ll_delete
proof unfold_locales
  show "\<exists>l'. ll_delete p l = Some (Inr l') \<and> ll_holds l' (remove1 p xs)" if "ll_holds l xs" "p \<in> set xs" for l :: "'p ut_list" and xs p
    using ll_delete_holds[OF that] .
  show "ul_head l = (if xs = [] then None else Some (hd xs))" if "ll_holds l xs" for l :: "'p ut_list" and xs
    using that path_start[of "ul_next l" "ul_head l" xs None] by (simp add: ll_holds_def)
qed (auto simp: ll_holds_def path_next dest: path_next)

interpretation dl_deletable: ended_list dl_holds "\<lambda>p l. Some (dl_delete p l)"
proof unfold_locales
  show "\<exists>l'. Some (dl_delete p l) = Some (Inr l') \<and> dl_holds l' (remove1 p xs)" if "dl_holds l xs" "p \<in> set xs" for l :: "'p ut_list" and xs p
    using dl_delete_holds[OF that] by simp
  show "ul_head l = (if xs = [] then None else Some (hd xs))" if "dl_holds l xs" for l :: "'p ut_list" and xs
    using that path_start[of "ul_next l" "ul_head l" xs None] by (simp add: dl_holds_def)
qed (auto simp: dl_holds_def path_next dest: path_next)

interpretation cdl_deletable: deletable_list cdl_holds "\<lambda>p l. Some (cdl_delete p l)"
proof unfold_locales
  show "\<exists>l'. Some (cdl_delete p l) = Some (Inr l') \<and> cdl_holds l' (remove1 p xs)" if "cdl_holds l xs" "p \<in> set xs" for l :: "'p ut_list" and xs p
    using cdl_delete_holds[OF that] by simp
qed (auto simp: cdl_holds_def path_next dest: path_next)

text \<open>In a circular list the loop ends at the node that was the last when it began.\<close>

lemma cdl_foreach_safe_deletes:
  "cdl_holds l (us @ vs) \<Longrightarrow> el = (if vs = [] then None else Some (hd vs)) \<Longrightarrow>
   (vs \<noteq> [] \<Longrightarrow> t = last vs) \<Longrightarrow>
   \<exists>l'. cdl_foreach_safe_from (delete_if (\<lambda>p l. Some (cdl_delete p l)) old) (Some t) el seen l = Some (Inr (seen @ vs, l')) \<and>
     cdl_holds l' (us @ filter (\<lambda>p. \<not> old p) vs)"
proof (induction vs arbitrary: us el seen l)
  case (Cons p vs)
  obtain l' where l': "delete_if (\<lambda>p l. Some (cdl_delete p l)) old p l = Some (Inr l')"
    "cdl_holds l' ((us @ filter (\<lambda>p. \<not> old p) [p]) @ vs)"
    using cdl_deletable.delete_if_holds[OF Cons.prems(1), of old] by auto
  have "p \<notin> set vs" using cdl_deletable.holds_once[OF Cons.prems(1)] by simp
  then have "p = t \<longleftrightarrow> vs = []" using Cons.prems(3) by (cases vs rule: rev_cases) auto
  then have "(if Some p = Some t then None else ul_next l p) = (if vs = [] then None else Some (hd vs))"
    using cdl_deletable.holds_next[OF Cons.prems(1)] by simp
  moreover have "vs \<noteq> [] \<Longrightarrow> t = last vs" using Cons.prems(3) by simp
  ultimately show ?case
    using Cons.IH[OF l'(2), of "ul_next l p" "seen @ [p]"] Cons.IH[OF l'(2), of None "seen @ [p]"] l'(1) Cons.prems(2)
    by (subst cdl_foreach_safe_from.simps) (auto split: if_splits)
qed (subst cdl_foreach_safe_from.simps, simp)

lemma cdl_delete_while_visiting:
  assumes "cdl_holds l xs"
  shows "\<exists>l'. cdl_foreach_safe (delete_if (\<lambda>p l. Some (cdl_delete p l)) old) l = Some (Inr (xs, l')) \<and>
     cdl_holds l' (filter (\<lambda>p. \<not> old p) xs)"
proof (cases xs)
  case Nil
  then show ?thesis
    using assms by (auto simp: cdl_holds_def cdl_foreach_safe_def cdl_foreach_safe_from.simps)
next
  case (Cons h ys)
  then have "ul_head l = Some h" "ul_prev l h = Some (last xs)" using assms by (auto simp: cdl_holds_def)
  then show ?thesis
    using cdl_foreach_safe_deletes[of l "[]" xs "Some h" "last xs" old "[]"] assms Cons by (simp add: cdl_foreach_safe_def)
qed

section \<open>Searching\<close>

text \<open>The macros for doubly linked lists are those for singly linked ones.\<close>

definition ll_search_scalar :: "('p \<Rightarrow> 'p option) \<Rightarrow> ('p \<Rightarrow> 'a) \<Rightarrow> 'a \<Rightarrow> 'p option \<Rightarrow> 'p option option" where
  "ll_search_scalar nx field val out = ll_search nx (\<lambda>p. field p = val) out"

partial_function (option) cdl_search ::
    "('p \<Rightarrow> 'p option) \<Rightarrow> 'p option \<Rightarrow> ('p \<Rightarrow> bool) \<Rightarrow> 'p option \<Rightarrow> 'p option option" where
  "cdl_search nx first found out =
     (case out of
        None \<Rightarrow> Some None
      | Some p \<Rightarrow>
          if found p then Some (Some p)
          else cdl_search nx first found (if nx p = first then None else nx p))"

definition cdl_search_scalar ::
    "('p \<Rightarrow> 'p option) \<Rightarrow> 'p option \<Rightarrow> ('p \<Rightarrow> 'a) \<Rightarrow> 'a \<Rightarrow> 'p option \<Rightarrow> 'p option option" where
  "cdl_search_scalar nx first field val out = cdl_search nx first (\<lambda>p. field p = val) out"

lemma cdl_search_path:
  "path nx p xs (Some f) \<Longrightarrow> f \<notin> set (tl xs) \<Longrightarrow> xs \<noteq> [] \<Longrightarrow> cdl_search nx (Some f) found p = Some (find found xs)"
proof (induction xs arbitrary: p)
  case (Cons x xs)
  show ?case
  proof (cases xs)
    case Nil
    then show ?thesis
      using Cons.prems by (subst cdl_search.simps) (simp, subst cdl_search.simps, simp)
  next
    case (Cons y ys)
    then have "nx x = Some y" "y \<noteq> f" using Cons.prems by auto
    moreover have "cdl_search nx (Some f) found (Some y) = Some (find found xs)"
      using Cons.prems Cons.IH[of "Some y"] Cons by auto
    ultimately show ?thesis using Cons.prems by (subst cdl_search.simps) simp
  qed
qed simp

text \<open>A search stops at the first node with the value, or goes once around.\<close>

lemma searches_find_first:
  "ll_holds l xs \<Longrightarrow> ll_search_scalar (ul_next l) field val (ul_head l) = Some (find (\<lambda>p. field p = val) xs)"
  "dl_holds l xs \<Longrightarrow> ll_search_scalar (ul_next l) field val (ul_head l) = Some (find (\<lambda>p. field p = val) xs)"
  "cdl_holds l xs \<Longrightarrow> cdl_search_scalar (ul_next l) (ul_head l) field val (ul_head l) = Some (find (\<lambda>p. field p = val) xs)"
proof -
  show "ll_search_scalar (ul_next l) field val (ul_head l) = Some (find (\<lambda>p. field p = val) xs)" if "ll_holds l xs"
    using that by (simp add: ll_holds_def ll_search_scalar_def ll_search_path)
  show "ll_search_scalar (ul_next l) field val (ul_head l) = Some (find (\<lambda>p. field p = val) xs)" if "dl_holds l xs"
    using that by (simp add: dl_holds_def ll_search_scalar_def ll_search_path)
  show "cdl_search_scalar (ul_next l) (ul_head l) field val (ul_head l) = Some (find (\<lambda>p. field p = val) xs)" if "cdl_holds l xs"
  proof (cases xs)
    case Nil
    then show ?thesis using that by (simp add: cdl_holds_def cdl_search_scalar_def cdl_search.simps)
  next
    case (Cons h ys)
    then show ?thesis
      using that cdl_search_path[of "ul_next l" "Some h" xs h] by (auto simp: cdl_holds_def cdl_search_scalar_def)
  qed
qed

section \<open>Without decltype\<close>

text \<open>\<open>add->next\<close> is the loop variable of the append, the head that of the delete.\<close>

partial_function (option) vs_last :: "'p \<Rightarrow> 'p ut_list \<Rightarrow> 'p ut_list c_result option" where
  "vs_last add l =
     (case ul_next l add of
        None \<Rightarrow> Some (Inl Null_pointer)
      | Some t \<Rightarrow>
          (case ul_next l t of None \<Rightarrow> Some (Inr l) | Some q \<Rightarrow> vs_last add (set_next add (Some q) l)))"

definition ll_append_vs :: "'p \<Rightarrow> 'p ut_list \<Rightarrow> 'p ut_list c_result option" where
  "ll_append_vs add l =
     (case ul_head l of
        Some h \<Rightarrow>
          loop_bind (vs_last add (set_next add (Some h) l)) (\<lambda>l.
            loop_bind (Some (at_pointer (ul_next l add) (\<lambda>t. set_next t (Some add)) l)) (\<lambda>l.
              Some (Inr (set_next add None l))))
      | None \<Rightarrow> Some (Inr (set_next add None (l\<lparr>ul_head := Some add\<rparr>))))"

partial_function (option) vs_before :: "'p \<Rightarrow> 'p ut_list \<Rightarrow> 'p ut_list c_result option" where
  "vs_before del l =
     (case ul_head l of
        None \<Rightarrow> Some (Inl Null_pointer)
      | Some h \<Rightarrow>
          (case ul_next l h of
             None \<Rightarrow> Some (Inr l)
           | Some q \<Rightarrow> if q \<noteq> del then vs_before del (l\<lparr>ul_head := Some q\<rparr>) else Some (Inr l)))"

definition ll_delete_vs :: "'p \<Rightarrow> 'p ut_list \<Rightarrow> 'p ut_list c_result option" where
  "ll_delete_vs del l =
     (if ul_head l = Some del then Some (Inr (l\<lparr>ul_head := ul_next l del\<rparr>))
      else
        let tmp = ul_head l in
        loop_bind (vs_before del l) (\<lambda>l.
          case ul_head l of
            None \<Rightarrow> Some (Inl Null_pointer)
          | Some h \<Rightarrow>
              let l = (case ul_next l h of None \<Rightarrow> l | Some _ \<Rightarrow> set_next h (ul_next l del) l)
              in Some (Inr (l\<lparr>ul_head := tmp\<rparr>))))"

lemma vs_last_path:
  "path (ul_next l) (Some x) (xs @ [t]) None \<Longrightarrow> add \<notin> set (xs @ [t]) \<Longrightarrow> ul_next l add = Some x \<Longrightarrow>
   vs_last add l = Some (Inr (set_next add (Some t) l))"
proof (induction xs arbitrary: x l)
  case Nil
  then have "(ul_next l)(add := Some t) = ul_next l" by (intro fun_upd_idem) simp
  with Nil show ?case by (subst vs_last.simps) (simp add: set_next_def)
next
  case (Cons y xs)
  then obtain z where z: "ul_next l y = Some z" "x = y" "path (ul_next l) (Some z) (xs @ [t]) None" by (cases xs) auto
  let ?l = "set_next add (Some z) l"
  have "path (ul_next ?l) (Some z) (xs @ [t]) None" using z(3) Cons.prems(2) by (simp add: set_next_def path_frame)
  from Cons.IH[OF this] Cons.prems z have "vs_last add ?l = Some (Inr (set_next add (Some t) ?l))"
    by (simp add: set_next_def)
  with z Cons.prems show ?case by (subst vs_last.simps) (simp add: set_next_def)
qed

lemma ll_append_vs_same:
  assumes "ll_holds l xs" and "add \<notin> set xs"
  shows "ll_append_vs add l = ll_append add l"
proof (cases xs rule: rev_cases)
  case Nil
  with assms show ?thesis by (simp add: ll_holds_def ll_append_vs_def ll_append_def set_next_def)
next
  case (snoc ys t)
  have path: "path ((ul_next l)(add := q)) (ul_head l) (ys @ [t]) None" for q
    using assms snoc by (simp add: ll_holds_def path_frame)
  then obtain h where h: "ul_head l = Some h" by (cases ys) auto
  have t: "t \<noteq> add" using assms snoc by auto
  have "vs_last add (set_next add (Some h) l) = Some (Inr (set_next add (Some t) (set_next add (Some h) l)))"
    using path[of "Some h"] h assms snoc by (intro vs_last_path[of _ h ys]) (simp_all add: set_next_def)
  moreover have "ll_last ((ul_next l)(add := None)) h = Some t" using path[of None] h ll_last_path by metis
  ultimately show ?thesis
    using h t by (simp add: ll_append_vs_def ll_append_def link_defs Let_def fun_upd_twist)
qed

lemma vs_before_path:
  "path (ul_next l) (Some x) xs None \<Longrightarrow>
   \<exists>t. ll_before (ul_next l) del x = Some t \<and> vs_before del (l\<lparr>ul_head := Some x\<rparr>) = Some (Inr (l\<lparr>ul_head := Some t\<rparr>))"
proof (induction xs arbitrary: x)
  case (Cons y xs)
  show ?case
  proof (cases "ul_next l x")
    case None
    then show ?thesis by (subst ll_before.simps, subst vs_before.simps) simp
  next
    case (Some q)
    then have "path (ul_next l) (Some q) xs None" using Cons.prems by simp
    from Cons.IH[OF this] Some show ?thesis
      by (subst ll_before.simps, subst vs_before.simps) auto
  qed
qed simp

lemma ll_delete_vs_same:
  assumes "ll_holds l xs"
  shows "ll_delete_vs del l = ll_delete del l"
proof (cases "ul_head l")
  case None
  then show ?thesis by (simp add: ll_delete_vs_def ll_delete_def vs_before.simps)
next
  case (Some h)
  then have "path (ul_next l) (Some h) xs None" using assms by (simp add: ll_holds_def)
  from vs_before_path[OF this, of del] obtain t where
    t: "ll_before (ul_next l) del h = Some t" "vs_before del (l\<lparr>ul_head := Some h\<rparr>) = Some (Inr (l\<lparr>ul_head := Some t\<rparr>))" by blast
  have "l\<lparr>ul_head := Some h\<rparr> = l" using Some by simp
  with t Some show ?thesis
    by (auto simp: ll_delete_vs_def ll_delete_def set_next_def split: option.split)
qed

end
