(* ===== verification/HeapArray.thy ===== *)
theory HeapArray
  imports UtArray CString
begin

text \<open>
  The heap of \<open>array_heap.c\<close> on the dynamic array it really uses. \<open>ArrayHeap\<close> states its operations on
  a list and unbounded indices; here they run on the slots of a \<open>ut_array\<close>, with \<open>int\<close> indices that are
  compared with the array's \<open>unsigned\<close> length, pointers from the array's macros, and an exchange of two
  slots through a block of memory. The operations are shown to implement those of \<open>ArrayHeap\<close> on heaps
  of fewer than \<open>2 ^ 30\<close> elements. The last section is \<open>heap_test.c\<close>, which runs all of them.
\<close>

section \<open>Indices, pointers and slots\<close>

definition c_int :: "int \<Rightarrow> int c_result" where
  "c_int x = (if - (2 ^ 31) \<le> x \<and> x < 2 ^ 31 then Inr x else Inl Signed_overflow)"

text \<open>An \<open>int\<close> that meets an \<open>unsigned\<close> is converted to it.\<close>

definition c_unsigned :: "int \<Rightarrow> 32 word" where
  "c_unsigned x = word_of_int x"

text \<open>The comparison of a heap called on two pointers into its array.\<close>

definition compare_slots :: "('a \<Rightarrow> 'a \<Rightarrow> bool) \<Rightarrow> 'a ut_array \<Rightarrow> nat option \<Rightarrow> nat option \<Rightarrow> bool c_result" where
  "compare_slots gt a p q =
     (case (p, q) of
        (Some i, Some j) \<Rightarrow>
          if i < length (ua_d a) \<and> j < length (ua_d a) then
            (case (ua_d a ! i, ua_d a ! j) of
               (Some x, Some y) \<Rightarrow> Inr (gt x y)
             | _ \<Rightarrow> Inl Out_of_bounds_read)
          else Inl Out_of_bounds_read
      | _ \<Rightarrow> Inl Null_pointer)"

text \<open>\<open>_swap_ptr\<close>: the block that holds one of the elements meanwhile is as large as one slot.\<close>

definition swap_slots :: "(nat \<Rightarrow> bool) \<Rightarrow> nat option \<Rightarrow> nat option \<Rightarrow> 'a ut_array \<Rightarrow> 'a ut_array c_result" where
  "swap_slots mem p q a =
     (if \<not> mem 1 then Inl (Exit 1)
      else case (p, q) of
        (Some i, Some j) \<Rightarrow>
          if i < length (ua_d a) \<and> j < length (ua_d a)
          then Inr (a\<lparr>ua_d := swap_elems (ua_d a) i j\<rparr>) else Inl Out_of_bounds_read
      | _ \<Rightarrow> Inl Null_pointer)"

section \<open>The operations\<close>

definition heapify_target :: "('a \<Rightarrow> 'a \<Rightarrow> bool) \<Rightarrow> int \<Rightarrow> 'a ut_array \<Rightarrow> int c_result" where
  "heapify_target gt index a =
     result_bind (c_int (2 * index + 1)) (\<lambda>left_index.
     result_bind (c_int (2 * index + 2)) (\<lambda>right_index.
     result_bind
       (if c_unsigned left_index < utarray_len a then
          result_bind (compare_slots gt a (utarray_eltptr a (c_unsigned left_index))
              (utarray_eltptr a (c_unsigned index))) (\<lambda>greater.
            Inr (if greater then left_index else index))
        else Inr index) (\<lambda>largest_index.
       if c_unsigned right_index < utarray_len a then
         result_bind (compare_slots gt a (utarray_eltptr a (c_unsigned right_index))
             (utarray_eltptr a (c_unsigned largest_index))) (\<lambda>greater.
           Inr (if greater then right_index else largest_index))
       else Inr largest_index)))"

lemma heapify_target_range:
  "heapify_target gt index a = Inr k \<Longrightarrow>
   k = index \<or> (k = 2 * index + 1 \<or> k = 2 * index + 2) \<and> k < 2 ^ 31"
  by (auto simp: heapify_target_def c_int_def result_simps split: if_splits)

function ut_heapify ::
    "(nat \<Rightarrow> bool) \<Rightarrow> ('a \<Rightarrow> 'a \<Rightarrow> bool) \<Rightarrow> int \<Rightarrow> 'a ut_array \<Rightarrow> 'a ut_array c_result" where
  "ut_heapify mem gt index a =
     (if index < 0 \<or> c_unsigned index > utarray_len a - 1 then Inr a
      else
        result_bind (heapify_target gt index a) (\<lambda>largest_index.
          if largest_index \<noteq> index then
            result_bind (swap_slots mem (utarray_eltptr a (c_unsigned largest_index))
                (utarray_eltptr a (c_unsigned index)) a) (\<lambda>a.
              ut_heapify mem gt largest_index a)
          else Inr a))"
  by pat_completeness auto
termination
proof (relation "measure (\<lambda>(mem, gt, index, a). nat (2 ^ 31 - index))", goal_cases)
  case (2 mem gt index a k b)
  then show ?case using heapify_target_range[of gt index a k] by auto
qed simp

declare ut_heapify.simps [simp del]

definition ut_heap_is_empty :: "'a ut_array \<Rightarrow> bool" where
  "ut_heap_is_empty a = (if utarray_len a \<noteq> 0 then False else True)"

definition ut_heap_first :: "'a ut_array \<Rightarrow> nat option" where
  "ut_heap_first a = utarray_front a"

fun ut_build_loop ::
    "(nat \<Rightarrow> bool) \<Rightarrow> ('a \<Rightarrow> 'a \<Rightarrow> bool) \<Rightarrow> nat \<Rightarrow> 'a ut_array \<Rightarrow> 'a ut_array c_result" where
  "ut_build_loop mem gt 0 a = Inr a"
| "ut_build_loop mem gt (Suc i) a = result_bind (ut_heapify mem gt (int i) a) (ut_build_loop mem gt i)"

text \<open>\<open>last_index\<close> is the length, an \<open>unsigned\<close>, less 1, stored in an \<open>int\<close>.\<close>

definition ut_heap_build ::
    "(nat \<Rightarrow> bool) \<Rightarrow> ('a \<Rightarrow> 'a \<Rightarrow> bool) \<Rightarrow> 'a ut_array \<Rightarrow> 'a ut_array c_result" where
  "ut_heap_build mem gt a =
     (if ut_heap_is_empty a then Inr a
      else
        let last_index = sint (utarray_len a - 1) in
        result_bind (c_int (last_index - 1)) (\<lambda>d.
          let last_parent_index = c_div d 2 in
          ut_build_loop mem gt (nat (last_parent_index + 1)) a))"

function ut_sift_up ::
    "(nat \<Rightarrow> bool) \<Rightarrow> ('a \<Rightarrow> 'a \<Rightarrow> bool) \<Rightarrow> int \<Rightarrow> 'a ut_array \<Rightarrow> 'a ut_array c_result" where
  "ut_sift_up mem gt elem_index a =
     (if elem_index > 0 then
        let elem = utarray_eltptr a (c_unsigned elem_index);
            parent_index = c_div (elem_index - 1) 2;
            parent = utarray_eltptr a (c_unsigned parent_index) in
        result_bind (compare_slots gt a parent elem) (\<lambda>greater.
          if greater then Inr a
          else result_bind (swap_slots mem parent elem a) (\<lambda>a. ut_sift_up mem gt parent_index a))
      else Inr a)"
  by pat_completeness auto
termination
  by (relation "measure (\<lambda>(mem, gt, index, a). nat index)") (auto simp: sgn_if)

declare ut_sift_up.simps [simp del]

definition ut_heap_push ::
    "(nat \<Rightarrow> bool) \<Rightarrow> 'a ut_icd \<Rightarrow> ('a \<Rightarrow> 'a \<Rightarrow> bool) \<Rightarrow> 'a \<Rightarrow> 'a ut_array \<Rightarrow> 'a ut_array c_result option" where
  "ut_heap_push mem icd gt elem a =
     loop_bind (utarray_push_back mem icd elem a) (\<lambda>a. Some (
       ut_sift_up mem gt (sint (utarray_len a - 1)) a))"

definition ut_heap_pop ::
    "(nat \<Rightarrow> bool) \<Rightarrow> 'a ut_icd \<Rightarrow> ('a \<Rightarrow> 'a \<Rightarrow> bool) \<Rightarrow> 'a ut_array \<Rightarrow> 'a ut_array c_result" where
  "ut_heap_pop mem icd gt a =
     (if ut_heap_is_empty a then Inr a
      else
        result_bind
          (case (utarray_front a, utarray_back a) of
             (Some front, Some back) \<Rightarrow> move_slots front back 1 a
           | _ \<Rightarrow> Inl Null_pointer) (\<lambda>a.
        result_bind (utarray_pop_back icd a) (\<lambda>a.
          if \<not> ut_heap_is_empty a then ut_heapify mem gt 0 a else Inr a)))"

section \<open>The heap an array holds\<close>

text \<open>
  The relation to the heaps of \<open>ArrayHeap\<close>: the slots hold the list, the comparison looks at the values
  only, and the children of every element have an index that an \<open>int\<close> can hold.
\<close>

definition holds_heap :: "('a \<Rightarrow> 'a \<Rightarrow> bool) \<Rightarrow> 'a ut_array \<Rightarrow> 'a array_heap \<Rightarrow> bool" where
  "holds_heap gt a heap \<longleftrightarrow>
     holds a (array heap) \<and> is_greater heap = by_value gt \<and> length (array heap) < 2 ^ 30"

lemma unat_c_unsigned [simp]: "i < 2 ^ 31 \<Longrightarrow> unat (c_unsigned (int i)) = i"
  by (simp add: c_unsigned_def take_bit_nat_eq_self unsigned_of_nat)

lemma c_int_small [simp]: "i < 2 ^ 31 \<Longrightarrow> c_int (int i) = Inr (int i)"
  by (simp add: c_int_def)

lemma eltptr_holds: "holds a xs \<Longrightarrow> i < length xs \<Longrightarrow> utarray_eltptr a (c_unsigned (int i)) = Some i"
  using holds_bound[of a xs] by (simp add: utarray_eltptr_def holds_simps)

lemma below_len_holds:
  "holds a xs \<Longrightarrow> i < 2 ^ 31 \<Longrightarrow> c_unsigned (int i) < utarray_len a \<longleftrightarrow> i < length xs"
  by (simp add: utarray_len_def holds_simps)

lemma compare_holds:
  "holds a xs \<Longrightarrow> i < length xs \<Longrightarrow> j < length xs \<Longrightarrow>
   compare_slots gt a (Some i) (Some j) = Inr (gt (xs ! i) (xs ! j))"
  by (auto simp: compare_slots_def holds_def nth_append)

lemma swap_elems_append:
  "i < length xs \<Longrightarrow> j < length xs \<Longrightarrow> swap_elems (xs @ ys) i j = swap_elems xs i j @ ys"
  by (simp add: swap_elems_def nth_append list_update_append)

lemma swap_elems_map: "i < length xs \<Longrightarrow> j < length xs \<Longrightarrow> swap_elems (map f xs) i j = map f (swap_elems xs i j)"
  by (simp add: swap_elems_def map_update)

lemma swap_holds:
  "holds a xs \<Longrightarrow> i < length xs \<Longrightarrow> j < length xs \<Longrightarrow> mem 1 \<Longrightarrow>
   \<exists>a'. swap_slots mem (Some i) (Some j) a = Inr a' \<and> holds a' (swap_elems xs i j)"
  by (auto simp: swap_slots_def holds_def swap_elems_append swap_elems_map)

lemma heapify_target_holds:
  assumes "holds_heap gt a heap" and "i < 2 ^ 30 - 1"
    and "i < length (array heap) \<or> array heap = []"
  shows "heapify_target gt (int i) a = Inr (int (sift_target heap i))"
proof -
  let ?xs = "array heap"
  have a: "holds a ?xs" "is_greater heap = by_value gt" using assms(1) by (simp_all add: holds_heap_def)
  have idx: "2 * int i + 1 = int (2 * i + 1)" "2 * int i + 2 = int (2 * i + 2)" by simp_all
  have small: "2 * i + 1 < 2 ^ 31" "2 * i + 2 < 2 ^ 31" using assms(2) by simp_all
  note len = below_len_holds[OF a(1)] and ptr = eltptr_holds[OF a(1)] and cmp = compare_holds[OF a(1), where gt = gt]
  consider "2 * i + 2 < length ?xs" | "2 * i + 1 < length ?xs" "\<not> 2 * i + 2 < length ?xs"
    | "\<not> 2 * i + 1 < length ?xs" "\<not> 2 * i + 2 < length ?xs" by linarith
  then show ?thesis
    unfolding heapify_target_def idx using small assms(3)
    by cases (simp_all add: len ptr cmp sift_target_def largest_index_def greater_at_def a(2) by_value_def Let_def
        nat_add_distrib nat_mult_distrib del: of_nat_add of_nat_mult of_nat_Suc)
qed

lemma holds_heap_swap:
  "holds_heap gt a heap \<Longrightarrow> i < length (array heap) \<Longrightarrow> j < length (array heap) \<Longrightarrow> mem 1 \<Longrightarrow>
   \<exists>a'. swap_slots mem (Some i) (Some j) a = Inr a' \<and>
     holds_heap gt a' (heap\<lparr>array := swap_elems (array heap) i j\<rparr>)"
  using swap_holds[of a "array heap" i j mem] by (auto simp: holds_heap_def)

lemma holds_len_pred:
  "holds a xs \<Longrightarrow> unat (utarray_len a - 1) = (if xs = [] then 2 ^ 32 - 1 else length xs - 1)"
  by (auto simp: utarray_len_def holds_def unat_sub word_le_nat_alt Suc_le_eq unat_eq_0 unsigned_minus_1_eq_mask mask_eq_exp_minus_1)

lemma heapify_holds:
  "holds_heap gt a heap \<Longrightarrow> i < 2 ^ 30 - 1 \<Longrightarrow> mem 1 \<Longrightarrow>
   \<exists>a'. ut_heapify mem gt (int i) a = Inr a' \<and> holds_heap gt a' (heapify heap (int i))"
proof (induction heap i arbitrary: a rule: heapify_induct)
  case (step heap i)
  let ?k = "sift_target heap i"
  have h: "holds a (array heap)" "length (array heap) < 2 ^ 30" using step.prems(1) by (simp_all add: holds_heap_def)
  have out: "c_unsigned (int i) > utarray_len a - 1 \<longleftrightarrow> array heap \<noteq> [] \<and> length (array heap) \<le> i"
    using holds_len_pred[OF h(1)] step.prems(2) by (cases "array heap") (auto simp: word_less_nat_alt)
  show ?case
  proof (cases "array heap \<noteq> [] \<and> length (array heap) \<le> i")
    case True
    then show ?thesis using step.prems(1) out by (subst ut_heapify.simps, subst heapify_unfold) simp
  next
    case False
    then have target: "heapify_target gt (int i) a = Inr (int ?k)"
      using heapify_target_holds[OF step.prems(1,2)] by auto
    show ?thesis
    proof (cases "?k = i")
      case True
      then show ?thesis using step.prems(1) False out target
        by (subst ut_heapify.simps, subst heapify_unfold) simp
    next
      case moves: False
      then have k: "?k < length (array heap)" "i < ?k" "i < length (array heap)"
        using sift_target_cases[of heap i] by auto
      from holds_heap_swap[where mem = mem, OF step.prems(1) k(1,3) step.prems(3)] obtain b where
        b: "swap_slots mem (Some ?k) (Some i) a = Inr b"
          "holds_heap gt b (heap\<lparr>array := swap_elems (array heap) ?k i\<rparr>)" by blast
      have "?k < 2 ^ 30 - 1" using k(1) h(2) by simp
      from step.IH[OF k(3) refl k(2,1) b(2) this step.prems(3)] show ?thesis
        using moves False out target b(1) k h(1)
        by (subst ut_heapify.simps, subst heapify_unfold) (simp add: eltptr_holds)
    qed
  qed
qed

section \<open>The operations implement those on lists\<close>

lemma ut_heap_is_empty_holds: "holds_heap gt a heap \<Longrightarrow> ut_heap_is_empty a = heap_is_empty heap"
  by (auto simp: ut_heap_is_empty_def heap_is_empty_def holds_heap_def holds_def utarray_len_def unat_eq_0)

lemma heap_first_holds:
  assumes "holds_heap gt a heap"
  shows "slot_value a (ut_heap_first a) = heap_first heap"
  using accessors_hold(2)[of a "array heap"] assms
  by (auto simp: ut_heap_first_def heap_first_def holds_heap_def split: list.splits)

lemma build_loop_holds:
  "holds_heap gt a heap \<Longrightarrow> n < 2 ^ 30 \<Longrightarrow> mem 1 \<Longrightarrow>
   \<exists>a'. ut_build_loop mem gt n a = Inr a' \<and> holds_heap gt a' (build_loop heap n)"
proof (induction n arbitrary: a heap)
  case (Suc n)
  then have "n < 2 ^ 30 - 1" by simp
  from heapify_holds[where mem = mem, OF Suc.prems(1) this Suc.prems(3)] obtain b where
    "ut_heapify mem gt (int n) a = Inr b" "holds_heap gt b (heapify heap (int n))" by blast
  with Suc.IH[of b "heapify heap (int n)"] Suc.prems show ?case by simp
qed simp

lemma sint_len_pred:
  assumes "holds a xs" and "xs \<noteq> []"
  shows "sint (utarray_len a - 1) = int (length xs - 1)"
proof -
  have "unat (utarray_len a - 1) = length xs - 1" using holds_len_pred[OF assms(1)] assms(2) by simp
  moreover have "length xs - 1 < 2 ^ 31" using holds_bound[OF assms(1)] assms(2) by (cases xs) auto
  ultimately show ?thesis
    using uint_nat[of "utarray_len a - 1"] by (simp add: sint_uint signed_take_bit_int_eq_self)
qed

lemma build_holds:
  assumes "holds_heap gt a heap" and "mem 1"
  shows "\<exists>a'. ut_heap_build mem gt a = Inr a' \<and> holds_heap gt a' (heap_build heap)"
proof (cases "array heap = []")
  case True
  then show ?thesis using assms(1) ut_heap_is_empty_holds[OF assms(1)]
    by (auto simp: ut_heap_build_def heap_build_def heap_is_empty_def)
next
  case False
  let ?n = "length (array heap)"
  have h: "holds a (array heap)" "?n < 2 ^ 30" using assms(1) by (simp_all add: holds_heap_def)
  have "c_div (int (?n - 1) - 1) 2 = int ((?n - 2) div 2)"
    using c_div_half_pred[of "?n - 1"] by (metis diff_diff_add one_add_one)
  moreover have "c_int (int (?n - 1) - 1) = Inr (int (?n - 1) - 1)" using h(2) by (auto simp: c_int_def)
  moreover have "Suc ((?n - 2) div 2) < 2 ^ 30" using h(2) by simp
  ultimately show ?thesis
    using build_loop_holds[OF assms(1), of "Suc ((?n - 2) div 2)" mem] assms(2) False
      ut_heap_is_empty_holds[OF assms(1)] sint_len_pred[OF h(1) False]
    by (simp add: ut_heap_build_def heap_build_unfold heap_is_empty_def nat_add_distrib Let_def
        del: c_div_code ut_build_loop.simps build_loop.simps)
qed

lemma sift_up_holds:
  "holds_heap gt a heap \<Longrightarrow> i < length (array heap) \<Longrightarrow> mem 1 \<Longrightarrow>
   \<exists>a'. ut_sift_up mem gt (int i) a = Inr a' \<and> holds_heap gt a' (sift_up heap (int i))"
proof (induction heap i arbitrary: a rule: sift_up_induct)
  case (step heap i)
  let ?p = "(i - 1) div 2"
  have h: "holds a (array heap)" "is_greater heap = by_value gt" using step.prems(1) by (simp_all add: holds_heap_def)
  have p: "?p < length (array heap)" using step.prems(2) by linarith
  have one: "ut_sift_up mem gt (int i) a =
    (if 0 < i then
       if gt (array heap ! ?p) (array heap ! i) then Inr a
       else result_bind (swap_slots mem (Some ?p) (Some i) a) (\<lambda>a. ut_sift_up mem gt (int ?p) a)
     else Inr a)"
    using compare_holds[OF h(1) p step.prems(2), of gt] eltptr_holds[OF h(1) p] eltptr_holds[OF h(1) step.prems(2)]
    by (subst ut_sift_up.simps) (simp add: Let_def c_div_half_pred del: c_div_code)
  show ?case
  proof (cases "0 < i \<and> \<not> gt (array heap ! ?p) (array heap ! i)")
    case True
    from holds_heap_swap[where mem = mem, OF step.prems(1) p step.prems(2,3)] obtain b where
      "swap_slots mem (Some ?p) (Some i) a = Inr b"
      "holds_heap gt b (heap\<lparr>array := swap_elems (array heap) ?p i\<rparr>)" by blast
    with step.IH[of b] True h(2) p step.prems(3) show ?thesis
      by (subst sift_up_unfold) (simp add: one by_value_def)
  next
    case False
    then show ?thesis using step.prems(1) h(2)
      by (subst sift_up_unfold) (auto simp: one by_value_def)
  qed
qed

lemma push_holds:
  assumes "holds_heap gt a heap" and "length (array heap) < 2 ^ 30 - 1" and "enough mem"
  shows "\<exists>a'. ut_heap_push mem icd gt x a = Some (Inr a') \<and>
    holds_heap gt a' (heap_push heap (copied_elem icd x))"
proof -
  have "length (array heap) < 2 ^ 31" using assms(2) by simp
  moreover have h: "holds a (array heap)" using assms(1) by (simp add: holds_heap_def)
  ultimately obtain b where b: "utarray_push_back mem icd x a = Some (Inr b)"
      "holds b (array heap @ [copied_elem icd x])"
    using push_back_holds[OF h _ assms(3), of icd x] by blast
  let ?h = "heap\<lparr>array := array heap @ [copied_elem icd x]\<rparr>"
  have "holds_heap gt b ?h" using assms(1,2) b(2) by (simp add: holds_heap_def)
  moreover have "sint (utarray_len b - 1) = int (length (array heap))" using sint_len_pred[OF b(2)] by simp
  ultimately show ?thesis
    using sift_up_holds[of gt b ?h "length (array heap)" mem] assms(3) b(1)
    by (auto simp: ut_heap_push_def heap_push_unfold enough_def)
qed

lemma pop_holds:
  assumes "holds_heap gt a heap" and "mem 1"
  shows "\<exists>a'. ut_heap_pop mem icd gt a = Inr a' \<and> holds_heap gt a' (heap_pop heap)"
proof (cases "array heap")
  case Nil
  then show ?thesis using assms(1) ut_heap_is_empty_holds[OF assms(1)]
    by (auto simp: ut_heap_pop_def heap_pop_def heap_is_empty_def)
next
  case (Cons x xs)
  have h: "holds a (x # xs)" "is_greater heap = by_value gt" "length (x # xs) < 2 ^ 30"
    using assms(1) Cons by (simp_all add: holds_heap_def)
  have i: "ua_i a \<noteq> 0" "unat (ua_i a - 1) = length xs"
    using holds_len_pred[OF h(1)] h(1) by (auto simp: holds_def utarray_len_def)
  let ?b = "a\<lparr>ua_d := (ua_d a)[0 := Some (last (x # xs))]\<rparr>"
  obtain spare where d: "ua_d a = map Some (x # xs) @ spare" using h(1) by (auto simp: holds_def)
  have "take 1 (drop (length xs) (Some x # map Some xs @ spare)) = [Some (last (x # xs))]"
    by (induction xs arbitrary: x) auto
  then have b: "move_slots 0 (length xs) 1 a = Inr ?b" "holds ?b (last (x # xs) # xs)"
    using d h(1) by (auto simp: move_slots_def put_slots_def holds_def)
  from pop_back_holds[OF b(2), of icd] obtain c where c: "utarray_pop_back icd ?b = Inr c"
      "holds c (butlast (last (x # xs) # xs))" by auto
  have "utarray_back a = Some (length xs)" "utarray_front a = Some 0"
    using i by (simp_all add: utarray_back_def utarray_front_def)
  then have start: "ut_heap_pop mem icd gt a = (if \<not> ut_heap_is_empty c then ut_heapify mem gt 0 c else Inr c)"
    using b(1) c(1) i(1) by (simp add: ut_heap_pop_def ut_heap_is_empty_def utarray_len_def)
  let ?h = "heap\<lparr>array := butlast (last (x # xs) # xs)\<rparr>"
  have hc: "holds_heap gt c ?h" using c(2) h by (simp add: holds_heap_def)
  from ut_heap_is_empty_holds[OF hc] have e: "ut_heap_is_empty c \<longleftrightarrow> xs = []"
    by (simp add: heap_is_empty_def)
  show ?thesis
  proof (cases "xs = []")
    case True
    then show ?thesis using start e hc Cons by (simp add: heap_pop_unfold)
  next
    case False
    then have "heap_pop heap = heapify ?h (int 0)" using Cons by (simp add: heap_pop_unfold)
    with False show ?thesis
      using start e heapify_holds[where mem = mem, OF hc, of 0] assms(2) by simp
  qed
qed

text \<open>Sequences of operations, as interpretation of the simulation: what the code does on the slots, what
  \<open>ArrayHeap\<close> says of the list.\<close>

datatype 'a heap_op = Build | Push 'a | Pop

fun ut_heap_step ::
    "(nat \<Rightarrow> bool) \<Rightarrow> 'a ut_icd \<Rightarrow> ('a \<Rightarrow> 'a \<Rightarrow> bool) \<Rightarrow> 'a heap_op \<Rightarrow> 'a ut_array \<Rightarrow> 'a ut_array c_result option" where
  "ut_heap_step mem icd gt Build a = Some (ut_heap_build mem gt a)"
| "ut_heap_step mem icd gt (Push x) a = ut_heap_push mem icd gt x a"
| "ut_heap_step mem icd gt Pop a = Some (ut_heap_pop mem icd gt a)"

fun heap_step :: "'a ut_icd \<Rightarrow> 'a heap_op \<Rightarrow> 'a array_heap \<Rightarrow> 'a array_heap" where
  "heap_step icd Build heap = heap_build heap"
| "heap_step icd (Push x) heap = heap_push heap (copied_elem icd x)"
| "heap_step icd Pop heap = heap_pop heap"

fun heap_allowed :: "'a heap_op \<Rightarrow> 'a array_heap \<Rightarrow> bool" where
  "heap_allowed (Push x) heap = (length (array heap) < 2 ^ 30 - 1)"
| "heap_allowed _ heap = True"

lemma heap_step_simulates:
  assumes "enough mem" and "holds_heap gt a heap" and "heap_allowed op heap"
  shows "\<exists>a'. ut_heap_step mem icd gt op a = Some (Inr a') \<and> holds_heap gt a' (heap_step icd op heap)"
proof -
  have "mem 1" using assms(1) by (simp add: enough_def)
  then show ?thesis
    using assms build_holds[OF assms(2)] push_holds[OF assms(2) _ assms(1)] pop_holds[OF assms(2)]
    by (cases op) auto
qed

interpretation slots: simulation "holds_heap gt" "ut_heap_step (\<lambda>n. n \<le> 2 ^ 31) icd gt" "heap_step icd" heap_allowed
  for icd gt
  by unfold_locales (rule heap_step_simulates, simp_all add: enough_def)

lemma holds_heap_new: "holds_heap gt utarray_new \<lparr>array = [], is_greater = by_value gt\<rparr>"
  by (simp add: holds_heap_def holds_new)

section \<open>The heap on its array\<close>

lemma heap_step_invar:
  "heap_comparison gt ge \<Longrightarrow> heap_invar gt ge heap \<Longrightarrow> heap_invar gt ge (heap_step icd op heap)"
  using heap_comparison.heap_build_ordered[of gt ge heap] heap_build_keeps[of heap]
    heap_comparison.heap_push_ordered[of gt ge heap] heap_push_keeps[of heap]
    heap_comparison.heap_pop_ordered[of gt ge heap]
  by (cases op) (simp_all add: heap_invar_def)

lemma heap_steps_invar:
  "heap_comparison gt ge \<Longrightarrow> heap_invar gt ge heap \<Longrightarrow> heap_invar gt ge (fold (heap_step icd) ops heap)"
  by (induction ops arbitrary: heap) (simp_all add: heap_step_invar)

lemma heap_step_length:
  "length (array (heap_step icd op heap)) \<le> Suc (length (array heap))"
proof (cases op)
  case Pop
  then show ?thesis using heap_pop_keeps[of heap] by (cases "array heap") (auto simp: heap_pop_unfold)
qed (use heap_build_keeps[of heap] heap_push_keeps[of heap] in auto)

lemma few_ops_allowed:
  "length (array heap) + length ops < 2 ^ 30 \<Longrightarrow> ops_allowed heap_allowed (heap_step icd) ops heap"
proof (induction ops arbitrary: heap)
  case (Cons op ops)
  have "heap_allowed op heap" using Cons.prems by (cases op) simp_all
  moreover have "length (array (heap_step icd op heap)) + length ops < 2 ^ 30"
    using heap_step_length[of icd op heap] Cons.prems by simp
  ultimately show ?case using Cons.IH by simp
qed simp

text \<open>C15: Fewer than \<open>2 ^ 30\<close> heap operations on a new dynamic array follow no NULL pointer, read no
  uninitialised slot and overflow no index. The array then holds a heap, the one the operations make on a
  list, and the pointer to the first element is NULL or points to an element that precedes all others.\<close>

theorem heap_runs_on_array:
  assumes "heap_comparison gt ge" and "length ops < 2 ^ 30"
  shows "\<exists>a. run_ops (ut_heap_step (\<lambda>n. n \<le> 2 ^ 31) icd gt) ops utarray_new = Some (Inr a) \<and>
    (let xs = array (fold (heap_step icd) ops \<lparr>array = [], is_greater = by_value gt\<rparr>) in
      holds a xs \<and> heap_ordered ge xs \<and>
      (case slot_value a (ut_heap_first a) of None \<Rightarrow> xs = [] | Some x \<Rightarrow> x \<in> set xs \<and> (\<forall>y \<in> set xs. ge x y)))"
proof -
  let ?h = "fold (heap_step icd) ops \<lparr>array = [], is_greater = by_value gt\<rparr>"
  from slots.run_simulates[OF holds_heap_new few_ops_allowed, where gt = gt and ops = ops and icd = icd] assms(2) obtain a where
    a: "run_ops (ut_heap_step (\<lambda>n. n \<le> 2 ^ 31) icd gt) ops utarray_new = Some (Inr a)" "holds_heap gt a ?h" by auto
  have "heap_invar gt ge ?h"
    by (rule heap_steps_invar[OF assms(1)]) (simp add: heap_invar_def ordered_from_def)
  then have o: "heap_ordered ge (array ?h)" by (simp add: heap_invar_def)
  have "ge x y" if "heap_first ?h = Some x" "y \<in> set (array ?h)" for x y
    using heap_comparison.heap_first_greatest[OF assms(1) o that] .
  then show ?thesis
    using a o heap_first_holds[OF a(2)]
    by (auto simp: Let_def holds_heap_def heap_first_None_iff heap_first_Some_iff split: option.split)
qed

lemma heap_runs_on_array_witness:
  "\<exists>a. run_ops (ut_heap_step (\<lambda>n. n \<le> 2 ^ 31) ut_int_icd (<)) [Push 3, Push 1, Push (2 :: int), Pop] utarray_new =
     Some (Inr a) \<and> holds a [2, 3]"
proof -
  let ?ops = "[Push 3, Push 1, Push (2 :: int), Pop]"
  have "array (fold (heap_step ut_int_icd) ?ops \<lparr>array = [], is_greater = by_value (<)\<rparr>) = [2, 3]"
    by (simp add: ut_int_icd_def copied_elem_def) code_simp
  with heap_runs_on_array[OF heap_comparison_int, of ?ops ut_int_icd] show ?thesis
    by (auto simp: Let_def)
qed

text \<open>The bound is the code's: at index \<open>2 ^ 30 - 1\<close> of a larger array the index of the right child
  overflows.\<close>

lemma large_heap_overflows:
  assumes "holds a xs" and "2 ^ 30 \<le> length xs"
  shows "ut_heapify mem gt (2 ^ 30 - 1) a = Inl Signed_overflow"
proof -
  have "heapify_target gt (2 ^ 30 - 1) a = Inl Signed_overflow" by (simp add: heapify_target_def c_int_def)
  moreover have "\<not> c_unsigned (int (2 ^ 30 - 1)) > utarray_len a - 1"
    using holds_len_pred[OF assms(1)] assms(2) unat_c_unsigned[of "2 ^ 30 - 1"]
    by (auto simp: word_less_nat_alt simp del: unat_c_unsigned)
  ultimately show ?thesis by (subst ut_heapify.simps) simp
qed

section \<open>heap_test.c\<close>

text \<open>The elements are \<open>int\<close>s; the program's \<open>is_greater\<close> is smaller-than, so the least comes first.\<close>

definition test_is_greater :: "int \<Rightarrow> int \<Rightarrow> bool" where
  "test_is_greater a b = (a < b)"

definition int_text :: "int \<Rightarrow> string" where
  "int_text x = (if x < 0 then CHR ''-'' # decimal (nat (- x)) else decimal (nat x))"

text \<open>
  The loop that fills the array: what \<open>rand\<close> returns is a list of numbers; the block of each element is
  written to without a check that there is one.
\<close>

fun fill_array :: "(nat \<Rightarrow> bool) \<Rightarrow> int list \<Rightarrow> int ut_array \<Rightarrow> int ut_array c_result option" where
  "fill_array mem [] a = Some (Inr a)"
| "fill_array mem (r # rands) a =
     (if \<not> mem 1 then Some (Inl Null_pointer)
      else loop_bind (utarray_push_back mem ut_int_icd (r mod 1000) a) (fill_array mem rands))"

text \<open>The printing loop, from a pointer on; \<open>utarray_next\<close> gives NULL behind the last element.\<close>

function print_array :: "int ut_array \<Rightarrow> nat option \<Rightarrow> string c_result" where
  "print_array a p =
     (case p of
        None \<Rightarrow> Inr []
      | Some j \<Rightarrow>
          case slot_value a p of
            None \<Rightarrow> Inl Out_of_bounds_read
          | Some x \<Rightarrow> result_bind (print_array a (utarray_next a p)) (\<lambda>out.
              Inr (int_text x @ newline # out)))"
  by pat_completeness auto
termination
  by (relation "measure (\<lambda>(a, p). case p of None \<Rightarrow> 0 | Some j \<Rightarrow> Suc (unat (ua_i a) - j))")
    (auto simp: utarray_next_def)

declare print_array.simps [simp del]

definition dashes :: string where
  "dashes = ''------'' @ [newline]"

definition heap_test_main :: "bool \<Rightarrow> (nat \<Rightarrow> bool) \<Rightarrow> int list \<Rightarrow> string c_result option" where
  "heap_test_main got mem rands =
     loop_bind (Some (utarray_alloc got)) (\<lambda>a.
     loop_bind (fill_array mem (take 20 rands) a) (\<lambda>a.
     loop_bind (Some (print_array a (utarray_front a))) (\<lambda>out1.
     loop_bind (Some (ut_heap_build mem test_is_greater a)) (\<lambda>a.
     loop_bind (Some (print_array a (utarray_front a))) (\<lambda>out2.
     loop_bind (ut_heap_push mem ut_int_icd test_is_greater 1000 a) (\<lambda>a.
     loop_bind (Some (print_array a (utarray_front a))) (\<lambda>out3.
     loop_bind (Some (ut_heap_pop mem ut_int_icd test_is_greater a)) (\<lambda>a.
     loop_bind (Some (print_array a (utarray_front a))) (\<lambda>out4.
       Some (Inr (out1 @ dashes @ out2 @ dashes @ out3 @ dashes @ out4)))))))))))"

definition ints_text :: "int list \<Rightarrow> string" where
  "ints_text xs = concat (map (\<lambda>x. int_text x @ [newline]) xs)"

lemma print_array_from:
  assumes "holds a xs"
  shows "j < length xs \<Longrightarrow> print_array a (Some j) = Inr (ints_text (drop j xs))"
proof (induction "length xs - j" arbitrary: j rule: less_induct)
  case less
  have "unat (ua_i a) = length xs" using assms by (simp add: holds_def)
  then have nx: "utarray_next a (Some j) = (if j + 1 < length xs then Some (j + 1) else None)"
    by (simp add: utarray_next_def)
  have d: "drop j xs = xs ! j # drop (j + 1) xs" using less.prems by (simp add: Cons_nth_drop_Suc)
  have "print_array a (utarray_next a (Some j)) = Inr (ints_text (drop (j + 1) xs))"
  proof (cases "j + 1 < length xs")
    case True
    then show ?thesis using less.hyps[of "j + 1"] nx by simp
  next
    case False
    then show ?thesis using nx by (simp add: print_array.simps ints_text_def)
  qed
  then show ?case
    using slot_value_holds[OF assms less.prems]
    by (subst print_array.simps) (simp add: d ints_text_def)
qed

lemma print_array_holds: "holds a xs \<Longrightarrow> print_array a (utarray_front a) = Inr (ints_text xs)"
  using print_array_from[of a xs 0]
  by (cases "xs = []") (auto simp: utarray_front_def print_array.simps ints_text_def holds_def unat_eq_0)

lemma fill_array_holds:
  "holds a xs \<Longrightarrow> length xs + length rands < 2 ^ 31 \<Longrightarrow> enough mem \<Longrightarrow>
   \<exists>a'. fill_array mem rands a = Some (Inr a') \<and> holds a' (xs @ map (\<lambda>r. r mod 1000) rands)"
proof (induction rands arbitrary: a xs)
  case (Cons r rands)
  then have "length xs < 2 ^ 31" by simp
  from push_back_holds[OF Cons.prems(1) this Cons.prems(3), of ut_int_icd "r mod 1000"] obtain b where
    "utarray_push_back mem ut_int_icd (r mod 1000) a = Some (Inr b)" "holds b (xs @ [r mod 1000])"
    by (auto simp: copied_elem_def ut_int_icd_def)
  with Cons.IH[of b "xs @ [r mod 1000]"] Cons.prems show ?case by (simp add: enough_def)
qed simp

text \<open>The program runs its three operations as those on lists.\<close>

lemma print_heap: "holds_heap gt a heap \<Longrightarrow> print_array a (utarray_front a) = Inr (ints_text (array heap))"
  by (simp add: holds_heap_def print_array_holds)

lemma heap_test_runs:
  assumes "length rands = 20" and "enough mem"
  defines "heap \<equiv> heap_build \<lparr>array = map (\<lambda>r. r mod 1000) rands, is_greater = by_value (<)\<rparr>"
  shows "heap_test_main True mem rands =
    Some (Inr (ints_text (map (\<lambda>r. r mod 1000) rands) @ dashes @ ints_text (array heap) @ dashes @
      ints_text (array (heap_push heap 1000)) @ dashes @ ints_text (array (heap_pop (heap_push heap 1000)))))"
proof -
  have mem: "mem 1" using assms(2) by (simp add: enough_def)
  have gt: "test_is_greater = (<)" by (auto simp: test_is_greater_def fun_eq_iff)
  let ?rs = "map (\<lambda>r. r mod 1000) rands"
  obtain a where a: "fill_array mem rands utarray_new = Some (Inr a)" "holds a ?rs"
    using fill_array_holds[OF holds_new, of rands mem] assms(1,2) by auto
  have "holds_heap (<) a \<lparr>array = ?rs, is_greater = by_value (<)\<rparr>"
    using a(2) assms(1) by (simp add: holds_heap_def)
  from build_holds[where mem = mem, OF this mem] obtain b where
    b: "ut_heap_build mem (<) a = Inr b" "holds_heap (<) b heap" unfolding heap_def by blast
  have len: "length (array heap) < 2 ^ 30 - 1"
    using assms(1) by (simp add: heap_def heap_build_keeps)
  from push_holds[OF b(2) len assms(2), of ut_int_icd 1000] obtain c where
    c: "ut_heap_push mem ut_int_icd (<) 1000 b = Some (Inr c)" "holds_heap (<) c (heap_push heap 1000)"
    by (auto simp: copied_elem_def ut_int_icd_def)
  from pop_holds[where mem = mem, OF c(2) mem, of ut_int_icd] obtain d where
    d: "ut_heap_pop mem ut_int_icd (<) c = Inr d" "holds_heap (<) d (heap_pop (heap_push heap 1000))" by blast
  show ?thesis
    using a b(1) c(1) d(1) assms(1) print_heap[OF b(2)] print_heap[OF c(2)] print_heap[OF d(2)]
    by (simp add: heap_test_main_def utarray_alloc_def gt print_array_holds)
qed

text \<open>What the test program prints: the numbers it drew, the same numbers as a heap, the heap with 1000 added,
  and that heap without its least element.\<close>

lemma heap_test_prints_heaps:
  assumes "length rands = 20" and "enough mem"
  defines "rs \<equiv> map (\<lambda>r. r mod 1000) rands"
  shows "\<exists>xs ys zs.
    heap_test_main True mem rands =
      Some (Inr (ints_text rs @ dashes @ ints_text xs @ dashes @ ints_text ys @ dashes @ ints_text zs)) \<and>
    heap_ordered (\<le>) xs \<and> mset xs = mset rs \<and>
    heap_ordered (\<le>) ys \<and> mset ys = add_mset 1000 (mset rs) \<and>
    heap_ordered (\<le>) zs \<and> add_mset (Min (set rs)) (mset zs) = mset ys"
proof -
  let ?h = "heap_build \<lparr>array = rs, is_greater = by_value (<)\<rparr>"
  let ?h' = "heap_push ?h 1000"
  have inv: "heap_invar (<) (\<le>) ?h"
    by (simp add: heap_invar_def int_greater.heap_build_ordered heap_build_keeps)
  note inv' = int_greater.pq.invar_push[OF inv, of 1000]
  note inv'' = int_greater.pq.invar_pop[OF inv']
  have m: "mset (array ?h) = mset rs" "mset (array ?h') = add_mset 1000 (mset rs)"
    by (simp_all add: heap_build_keeps heap_push_keeps)
  then have sy: "set (array ?h') = insert 1000 (set rs)" by (metis set_mset_add_mset_insert set_mset_mset)
  obtain x where x: "heap_first ?h' = Some x"
    using m(2) by (cases "array ?h'") (auto simp: heap_first_Some_iff)
  have least: "x \<le> y" if "y \<in> set (array ?h')" for y
    using int_greater.heap_first_greatest[OF _ x that] inv' by (simp add: heap_invar_def)
  have "hd rs \<in> set rs" "hd rs < 1000" using assms(1) by (cases rands; simp add: rs_def)+
  moreover have "x \<in> set (array ?h')" using x by (auto simp: heap_first_Some_iff)
  ultimately have "x \<in> set rs" using least[of "hd rs"] sy by auto
  then have "x = Min (set rs)" using least sy by (intro Min_eqI[symmetric]) auto
  then have "add_mset (Min (set rs)) (mset (array (heap_pop ?h'))) = mset (array ?h')"
    using int_greater.pq.elems_pop[OF inv' x] by (simp add: heap_elems_def)
  then show ?thesis
    using heap_test_runs[OF assms(1,2)] inv inv' inv'' m unfolding rs_def
    by (intro exI conjI) (assumption | simp add: heap_invar_def)+
qed

end
