(* ===== verification/BucketServer.thy ===== *)
theory BucketServer
  imports Transmitter UtHash
begin

text \<open>
  The round of \<open>mtn-server-transmitter.c\<close> and the subscriptions of \<open>mtn-server-receiver.c\<close> on the hash table as
  it is in memory: nodes are blocks that are allocated and freed and may be allocated again, the table of
  clients is the bucket table of \<open>UtHash\<close> under the bytes of the addresses, the iteration is its two pointers, and
  a subscription is two steps, the search and what follows it; each macro of the table is one step. The simulation
  shows that \<open>Transmitter\<close>, where the table is a list and the iteration a list of clients to come, describes every
  run of it; what remains are the faults that only pointers can have.
\<close>

section \<open>Addresses as keys\<close>

text \<open>The bytes of \<open>struct sockaddr_in\<close>: \<open>AF_INET\<close>, the port in network order, the address, eight bytes of zero.\<close>

definition address_key :: "sockaddr_in \<Rightarrow> hash_key" where
  "address_key a =
     [2, 0, ucast (drop_bit 8 (sin_port a)), ucast (sin_port a)] @ map word_of_nat (sin_addr a) @ replicate 8 0"

lemma octet_inj: "x \<le> 255 \<Longrightarrow> y \<le> 255 \<Longrightarrow> (word_of_nat x :: 8 word) = word_of_nat y \<longleftrightarrow> x = y"
  by (simp add: of_nat_eq_iff word_of_nat_eq_iff take_bit_nat_def)

lemma port_bytes_inj:
  fixes v w :: "16 word"
  assumes "(ucast (drop_bit 8 v) :: 8 word) = ucast (drop_bit 8 w)" and "(ucast v :: 8 word) = ucast w"
  shows "v = w"
proof (rule bit_word_eqI)
  fix n assume "n < LENGTH(16)"
  then have n: "n < 16" by simp
  show "bit v n = bit w n"
  proof (cases "n < 8")
    case True
    have "bit (ucast v :: 8 word) n = bit (ucast w :: 8 word) n" using assms(2) by simp
    with True show ?thesis by (simp add: bit_ucast_iff)
  next
    case False
    have "bit (ucast (drop_bit 8 v) :: 8 word) (n - 8) = bit (ucast (drop_bit 8 w) :: 8 word) (n - 8)" using assms(1) by simp
    moreover have "n - 8 < 8" using n by simp
    ultimately show ?thesis using False by (simp add: bit_ucast_iff bit_drop_bit_eq)
  qed
qed

lemma address_key_inj:
  assumes "octets (sin_addr a)" and "octets (sin_addr b)"
  shows "address_key a = address_key b \<longleftrightarrow> a = b"
proof
  assume eq: "address_key a = address_key b"
  have len: "length (map word_of_nat (sin_addr a) :: 8 word list) = length (map word_of_nat (sin_addr b) :: 8 word list)"
    using assms by (simp add: octets_def)
  with eq have "map word_of_nat (sin_addr a) = (map word_of_nat (sin_addr b) :: 8 word list)"
    unfolding address_key_def by simp
  moreover have "inj_on (word_of_nat :: nat \<Rightarrow> 8 word) (set (sin_addr a) \<union> set (sin_addr b))"
    using assms octet_inj by (auto simp: inj_on_def octets_def)
  ultimately have "sin_addr a = sin_addr b" by (simp add: map_inj_on)
  moreover have "sin_port a = sin_port b"
    using eq by (intro port_bytes_inj) (simp_all add: address_key_def)
  ultimately show "a = b" by simp
qed simp

section \<open>The threads on the table\<close>

text \<open>
  Where the transmission thread is, as in \<open>Transmitter\<close>, but with the pointers \<open>node\<close> and \<open>tmp\<close> of \<open>HASH_ITER\<close>;
  and where the request thread is: past \<open>HASH_FIND\<close> it holds the node it found, or the address of which there was
  none.
\<close>

datatype bucket_pc =
    At_wait
  | At_visit "nat option" "nat option"
  | At_expired_wait "nat option"
  | At_expired_check "nat option"
  | At_done_check
  | At_done_blocked
  | At_finished

datatype request_pc = Req_wait | Req_found nat | Req_absent sockaddr_in

text \<open>
  \<open>b_client\<close> gives the data of the nodes that are allocated, \<open>b_frees\<close> how often each block was freed: \<open>malloc\<close> may
  hand out a block again, but a pointer from before it was freed does not point to what is there now. A sending
  thread has the pointer to the data, with the number of times the block had been freed when it got it; using it
  after a further time is a fault, whatever lies there. (Only the request thread allocates clients, so between its
  search and what follows a block is not handed out again.)
\<close>

record bucket_server =
  b_table :: "nat ut_hash"
  b_client :: "nat \<Rightarrow> client_data option"
  b_frees :: "nat \<Rightarrow> nat"
  b_round :: bucket_pc
  b_request :: request_pc
  b_queue :: "data_message list"
  b_sent_map :: "(int \<times> int, data_message) hash"
  b_max :: nat
  b_done :: nat
  b_sendings :: "((nat \<times> nat) \<times> sending_pc) list"
  b_now :: int
  b_sent_log :: "sockaddr_in list"

definition bucket_start :: "nat ut_hash \<Rightarrow> data_message list \<Rightarrow> int \<Rightarrow> bucket_server" where
  "bucket_start h q t =
     \<lparr>b_table = empty_hash h, b_client = (\<lambda>_. None), b_frees = (\<lambda>_. 0), b_round = At_wait, b_request = Req_wait, b_queue = q,
      b_sent_map = [], b_max = MAX_ACTIVE_SENDINGS, b_done = 0, b_sendings = [], b_now = t, b_sent_log = []\<rparr>"

text \<open>The loop's pointers when it comes to \<open>el\<close>.\<close>

definition iterate_at :: "nat ut_hash \<Rightarrow> nat option \<Rightarrow> bucket_pc" where
  "iterate_at h el = At_visit el (case el of None \<Rightarrow> None | Some p \<Rightarrow> app_next h p)"

inductive bucket_transmission :: "bucket_server \<Rightarrow> bucket_server c_result \<Rightarrow> bool" where
  b_start: "b_round s = At_wait \<Longrightarrow> b_queue s \<noteq> [] \<Longrightarrow> uthash_count (b_table s) = Inr n \<Longrightarrow>
    bucket_transmission s (Inr (s\<lparr>b_done := unat n, b_sent_log := [],
      b_round := iterate_at (b_table s) (uh_head (b_table s))\<rparr>))"
| b_start_crash: "b_round s = At_wait \<Longrightarrow> b_queue s \<noteq> [] \<Longrightarrow> uthash_count (b_table s) = Inl e \<Longrightarrow>
    bucket_transmission s (Inl e)"
| b_visit_freed: "b_round s = At_visit (Some p) tmp \<Longrightarrow> b_client s p = None \<Longrightarrow>
    bucket_transmission s (Inl Out_of_bounds_read)"
| b_expired: "b_round s = At_visit (Some p) tmp \<Longrightarrow> b_client s p = Some c \<Longrightarrow> expired (b_now s) c \<Longrightarrow>
    uthash_del p (b_table s) = Inr h \<Longrightarrow>
    bucket_transmission s (Inr (s\<lparr>b_table := h, b_client := (b_client s)(p := None),
      b_frees := (b_frees s)(p := Suc (b_frees s p)), b_round := At_expired_wait tmp\<rparr>))"
| b_expired_crash: "b_round s = At_visit (Some p) tmp \<Longrightarrow> b_client s p = Some c \<Longrightarrow> expired (b_now s) c \<Longrightarrow>
    uthash_del p (b_table s) = Inl e \<Longrightarrow> bucket_transmission s (Inl e)"
| b_send: "b_round s = At_visit (Some p) tmp \<Longrightarrow> b_client s p = Some c \<Longrightarrow> \<not> expired (b_now s) c \<Longrightarrow>
    b_max s = Suc n \<Longrightarrow>
    bucket_transmission s (Inr (s\<lparr>b_max := n, b_sendings := b_sendings s @ [((p, b_frees s p), Sending)],
      b_round := iterate_at (b_table s) tmp\<rparr>))"
| b_visited: "b_round s = At_visit None tmp \<Longrightarrow> bucket_transmission s (Inr (s\<lparr>b_round := At_done_check\<rparr>))"
| b_count_expired: "b_round s = At_expired_wait tmp \<Longrightarrow> b_done s = Suc n \<Longrightarrow>
    bucket_transmission s (Inr (s\<lparr>b_done := n, b_round := At_expired_check tmp\<rparr>))"
| b_checked: "b_round s = At_expired_check tmp \<Longrightarrow>
    bucket_transmission s (Inr (s\<lparr>b_round := iterate_at (b_table s) tmp\<rparr>))"
| b_all_done: "b_round s = At_done_check \<Longrightarrow> b_done s = 0 \<Longrightarrow>
    bucket_transmission s (Inr (s\<lparr>b_round := At_finished\<rparr>))"
| b_not_done: "b_round s = At_done_check \<Longrightarrow> b_done s \<noteq> 0 \<Longrightarrow>
    bucket_transmission s (Inr (s\<lparr>b_round := At_done_blocked\<rparr>))"
| b_woken: "b_round s = At_done_blocked \<Longrightarrow> bucket_transmission s (Inr (s\<lparr>b_round := At_done_check\<rparr>))"
| b_end: "b_round s = At_finished \<Longrightarrow> b_queue s = m # q \<Longrightarrow>
    bucket_transmission s (Inr (s\<lparr>b_queue := q,
      b_sent_map := hash_add (b_sent_map s) (release_time m, message_id m) m, b_round := At_wait\<rparr>))"
| b_end_null: "b_round s = At_finished \<Longrightarrow> b_queue s = [] \<Longrightarrow> bucket_transmission s (Inl Null_pointer)"

inductive bucket_sending :: "bucket_server \<Rightarrow> bucket_server c_result \<Rightarrow> bool" where
  b_sent: "b_sendings s = xs @ ((p, b_frees s p), Sending) # ys \<Longrightarrow> b_queue s \<noteq> [] \<Longrightarrow> b_client s p = Some c \<Longrightarrow>
    bucket_sending s (Inr (s\<lparr>b_sendings := xs @ ((p, b_frees s p), Sent) # ys,
      b_sent_log := client_address c # b_sent_log s\<rparr>))"
| b_sent_null: "b_sendings s = xs @ (p, Sending) # ys \<Longrightarrow> b_queue s = [] \<Longrightarrow> bucket_sending s (Inl Null_pointer)"
| b_sent_freed: "b_sendings s = xs @ ((p, n), Sending) # ys \<Longrightarrow> n \<noteq> b_frees s p \<or> b_client s p = None \<Longrightarrow>
    bucket_sending s (Inl Out_of_bounds_read)"
| b_sent_too_long: "b_sendings s = xs @ (p, Sending) # ys \<Longrightarrow> b_queue s = m # q \<Longrightarrow>
    send_data_message rest m = Inl e \<Longrightarrow> bucket_sending s (Inl e)"
| b_posted: "b_sendings s = xs @ (p, Sent) # ys \<Longrightarrow>
    bucket_sending s (Inr (s\<lparr>b_sendings := xs @ (p, Posted) # ys, b_max := Suc (b_max s)\<rparr>))"
| b_counted: "b_sendings s = xs @ (p, Posted) # ys \<Longrightarrow> b_done s = Suc n \<Longrightarrow>
    bucket_sending s (Inr (s\<lparr>b_sendings := xs @ (p, Counted) # ys, b_done := n\<rparr>))"
| b_signalled: "b_sendings s = xs @ (p, Counted) # ys \<Longrightarrow>
    bucket_sending s (Inr (s\<lparr>b_sendings := xs @ ys,
      b_round := (if b_done s = 0 \<and> b_round s = At_done_blocked then At_done_check else b_round s)\<rparr>))"

text \<open>The request thread does not take the mutex of the table. Memory holds fewer than \<open>2 ^ 31 - 1\<close> clients.\<close>

inductive bucket_request :: "(nat \<Rightarrow> bool) \<Rightarrow> bucket_server \<Rightarrow> bucket_server c_result \<Rightarrow> bool" for mem where
  b_find: "b_request s = Req_wait \<Longrightarrow> octets (sin_addr a) \<Longrightarrow>
    uthash_find (b_table s) (address_key a) = Some (Inr r) \<Longrightarrow>
    bucket_request mem s (Inr (s\<lparr>b_request := (case r of None \<Rightarrow> Req_absent a | Some p \<Rightarrow> Req_found p)\<rparr>))"
| b_find_crash: "b_request s = Req_wait \<Longrightarrow> octets (sin_addr a) \<Longrightarrow>
    uthash_find (b_table s) (address_key a) = Some (Inl e) \<Longrightarrow> bucket_request mem s (Inl e)"
| b_renew: "b_request s = Req_found p \<Longrightarrow> b_client s p = Some c \<Longrightarrow>
    bucket_request mem s (Inr (s\<lparr>b_client := (b_client s)(p \<mapsto> c\<lparr>last_update_time := b_now s\<rparr>), b_request := Req_wait\<rparr>))"
| b_renew_freed: "b_request s = Req_found p \<Longrightarrow> b_client s p = None \<Longrightarrow> bucket_request mem s (Inl Buffer_overflow)"
| b_join: "b_request s = Req_absent a \<Longrightarrow> b_client s p = None \<Longrightarrow> card (dom (b_client s)) < 2 ^ 31 - 1 \<Longrightarrow>
    uthash_add mem (address_key a) p (b_table s) = Some (Inr h) \<Longrightarrow>
    bucket_request mem s (Inr (s\<lparr>b_table := h,
      b_client := (b_client s)(p \<mapsto> \<lparr>client_address = a, last_update_time = b_now s\<rparr>), b_request := Req_wait\<rparr>))"
| b_join_crash: "b_request s = Req_absent a \<Longrightarrow> b_client s p = None \<Longrightarrow> card (dom (b_client s)) < 2 ^ 31 - 1 \<Longrightarrow>
    uthash_add mem (address_key a) p (b_table s) = Some (Inl e) \<Longrightarrow>
    bucket_request mem s (Inl e)"
| b_no_memory: "b_request s = Req_absent a \<Longrightarrow> bucket_request mem s (Inl (Exit 1))"

inductive bucket_step :: "(nat \<Rightarrow> bool) \<Rightarrow> bucket_server \<Rightarrow> bucket_server c_result \<Rightarrow> bool" for mem where
  b_transmit: "bucket_transmission s r \<Longrightarrow> bucket_step mem s r"
| b_sending: "bucket_sending s r \<Longrightarrow> bucket_step mem s r"
| b_serve: "bucket_request mem s r \<Longrightarrow> bucket_step mem s r"
| b_queued: "b_round s = At_wait \<Longrightarrow> bucket_step mem s (Inr (s\<lparr>b_queue := b_queue s @ [m]\<rparr>))"
| b_tick: "t \<noteq> -1 \<Longrightarrow> bucket_step mem s (Inr (s\<lparr>b_now := t\<rparr>))"

inductive bucket_run :: "(nat \<Rightarrow> bool) \<Rightarrow> bucket_server \<Rightarrow> bucket_server \<Rightarrow> bool" for mem s0 where
  b_run_start: "bucket_run mem s0 s0"
| b_run_step: "bucket_run mem s0 s \<Longrightarrow> bucket_step mem s (Inr s') \<Longrightarrow> bucket_run mem s0 s'"

section \<open>The table as a list of clients\<close>

abbreviation addr :: "(nat \<Rightarrow> client_data option) \<Rightarrow> nat \<Rightarrow> sockaddr_in" where
  "addr d p \<equiv> client_address (the (d p))"

abbreviation keyed :: "(nat \<Rightarrow> client_data option) \<Rightarrow> nat list \<Rightarrow> (hash_key, nat) hash" where
  "keyed d ns \<equiv> map (\<lambda>p. (address_key (addr d p), p)) ns"

text \<open>The nodes \<open>ns\<close>, in application order, are those allocated, and hold the clients \<open>m\<close>.\<close>

definition table_rel :: "nat ut_hash \<Rightarrow> (nat \<Rightarrow> client_data option) \<Rightarrow> nat list \<Rightarrow> client_map \<Rightarrow> bool" where
  "table_rel h d ns m \<longleftrightarrow> hash_holds h (keyed d ns) \<and> dom d = set ns \<and> (\<forall>p \<in> set ns. octets (sin_addr (addr d p))) \<and>
     m = map (\<lambda>p. (addr d p, the (d p))) ns"

lemma nodes_agree:
  assumes "\<And>q. q \<in> set ns \<Longrightarrow> d' q = d q"
  shows "keyed d' ns = keyed d ns" and "map (\<lambda>q. (addr d' q, the (d' q))) ns = map (\<lambda>q. (addr d q, the (d q))) ns"
  using assms by auto

lemma table_rel_distinct: "table_rel h d ns m \<Longrightarrow> distinct ns"
  by (simp add: table_rel_def hash_holds_def comp_def)

lemma table_rel_keys: "table_rel h d ns m \<Longrightarrow> hash_keys m = map (addr d) ns"
  by (simp add: table_rel_def hash_keys_def)

lemma table_rel_addr_inj:
  assumes "table_rel h d ns m" and "p \<in> set ns" and "q \<in> set ns" and "addr d p = addr d q"
  shows "p = q"
proof -
  have "distinct (map (\<lambda>p. address_key (addr d p)) ns)"
    using assms(1) by (simp add: table_rel_def hash_holds_def hash_ok_def hash_keys_def comp_def)
  then show ?thesis using assms(2-4) by (auto simp: distinct_map inj_on_def)
qed

lemma table_rel_find_node:
  assumes "table_rel h d ns m" and "p \<in> set ns"
  shows "hash_find m (addr d p) = d p"
proof -
  have "distinct (map fst m)"
    using table_rel_distinct[OF assms(1)] table_rel_addr_inj[OF assms(1)] assms(1)
    by (auto simp: table_rel_def comp_def distinct_map inj_on_def)
  moreover have "(addr d p, the (d p)) \<in> set m" using assms by (auto simp: table_rel_def)
  moreover have "d p \<noteq> None" using assms by (auto simp: table_rel_def)
  ultimately show ?thesis by (auto simp: hash_find_def)
qed

lemma table_rel_find:
  assumes rel: "table_rel h d ns m" and a: "octets (sin_addr a)"
  shows "(uthash_find h (address_key a) = Some (Inr None) \<and> hash_find m a = None) \<or>
    (\<exists>p \<in> set ns. uthash_find h (address_key a) = Some (Inr (Some p)) \<and> addr d p = a)"
proof -
  have holds: "hash_holds h (keyed d ns)" using rel by (simp add: table_rel_def)
  have keys: "address_key (addr d p) = address_key a \<longleftrightarrow> addr d p = a" if "p \<in> set ns" for p
    using rel that a by (simp add: table_rel_def address_key_inj)
  show ?thesis
  proof (cases "hash_find (keyed d ns) (address_key a)")
    case None
    then have "a \<notin> set (hash_keys m)"
      using keys unfolding hash_find_None_iff table_rel_keys[OF rel] by (force simp: hash_keys_def)
    with None uthash_find_holds[OF holds] show ?thesis by (simp add: hash_find_None_iff)
  next
    case (Some p)
    then have "(address_key a, p) \<in> set (keyed d ns)" unfolding hash_find_def by (rule map_of_SomeD)
    then have "p \<in> set ns" "address_key (addr d p) = address_key a" by auto
    with Some keys uthash_find_holds[OF holds] show ?thesis by simp
  qed
qed

lemma table_rel_count:
  assumes "table_rel h d ns m"
  shows "\<exists>n. uthash_count h = Inr n \<and> unat n = hash_count m"
proof -
  have holds: "hash_holds h (keyed d ns)" using assms by (simp add: table_rel_def)
  then have "length ns < 2 ^ 32" by (cases ns) (auto simp: hash_holds_def)
  with uthash_count_holds[OF holds] assms show ?thesis
    by (auto simp: hash_count_def table_rel_def unat_of_small)
qed

lemma table_rel_head: "table_rel h d ns m \<Longrightarrow> uh_head h = (case ns of [] \<Rightarrow> None | p # _ \<Rightarrow> Some p)"
  using hash_holds_head[of h "keyed d ns"] by (cases ns) (simp_all add: table_rel_def)

lemma table_rel_next:
  "table_rel h d (us @ p # vs) m \<Longrightarrow> app_next h p = (case vs of [] \<Rightarrow> None | q # _ \<Rightarrow> Some q)"
  using hash_holds_next[of h "keyed d us" "address_key (addr d p)" p "keyed d vs"]
  by (cases vs) (simp_all add: table_rel_def)

lemma table_rel_del:
  assumes rel: "table_rel h d (us @ p # vs) m"
  shows "\<exists>h'. uthash_del p h = Inr h' \<and> table_rel h' (d(p := None)) (us @ vs) (hash_del m (addr d p))"
proof -
  note dist = table_rel_distinct[OF rel]
  have holds: "hash_holds h (keyed d (us @ p # vs))" and dom: "dom d = insert p (set us \<union> set vs)"
    using rel by (simp_all add: table_rel_def)
  have same: "(d(p := None)) q = d q" if "q \<in> set (us @ vs)" for q using that dist by auto
  have "remove_elem p (keyed d (us @ p # vs)) = keyed d (us @ vs)"
    using remove_elem_split[of "keyed d (us @ p # vs)" "keyed d us" "address_key (addr d p)" p "keyed d vs"] holds
    by (simp add: hash_holds_def)
  with uthash_del_holds[OF holds, of p]
  obtain h' where h': "uthash_del p h = Inr h'" "hash_holds h' (keyed d (us @ vs))" by auto
  have "hash_del m (addr d p) = map (\<lambda>q. (addr d q, the (d q))) (us @ vs)"
  proof -
    have "q \<in> set us \<union> set vs \<Longrightarrow> addr d q \<noteq> addr d p" for q
      using table_rel_addr_inj[OF rel, of q p] dist by auto
    then show ?thesis using rel by (auto simp: table_rel_def hash_del_def filter_map comp_def intro!: filter_True)
  qed
  moreover have "dom (d(p := None)) = set (us @ vs)" using dom dist by auto
  moreover have "\<forall>q \<in> set (us @ vs). octets (sin_addr (addr (d(p := None)) q))"
    using rel same unfolding table_rel_def by auto
  ultimately have "table_rel h' (d(p := None)) (us @ vs) (hash_del m (addr d p))"
    using h'(2) nodes_agree[of "us @ vs" "d(p := None)" d, OF same] unfolding table_rel_def by metis
  with h'(1) show ?thesis by blast
qed

lemma table_rel_add:
  assumes rel: "table_rel h d ns m" and a: "octets (sin_addr (client_address c))" and new: "hash_find m (client_address c) = None"
    and p: "d p = None" and len: "card (dom d) < 2 ^ 31 - 1" and mem: "\<not> mem (2 ^ 31)"
  shows "uthash_add mem (address_key (client_address c)) p h = Some (Inl (Exit (-1))) \<or>
    (\<exists>h'. uthash_add mem (address_key (client_address c)) p h = Some (Inr h') \<and>
       table_rel h' (d(p \<mapsto> c)) (ns @ [p]) (hash_add m (client_address c) c))"
proof -
  have holds: "hash_holds h (keyed d ns)" and dom: "dom d = set ns" using rel by (simp_all add: table_rel_def)
  have p_new: "p \<notin> set ns" using p dom by auto
  have "client_address c \<notin> addr d ` set ns"
    using new table_rel_keys[OF rel] by (simp add: hash_find_None_iff)
  then have "address_key (client_address c) \<notin> set (hash_keys (keyed d ns))"
    using rel a by (auto simp: hash_keys_def table_rel_def address_key_inj)
  moreover have "length (keyed d ns) < 2 ^ 32 - 1"
    using len dom distinct_card[OF table_rel_distinct[OF rel]] by simp
  ultimately have add: "uthash_add mem (address_key (client_address c)) p h = Some (Inl (Exit (-1))) \<or>
      (\<exists>h'. uthash_add mem (address_key (client_address c)) p h = Some (Inr h') \<and>
        hash_holds h' (keyed d ns @ [(address_key (client_address c), p)]))"
    using uthash_add_holds[OF holds, of "address_key (client_address c)" p mem] p_new mem
    unfolding hash_add_def by (simp add: image_image)
  have same: "(d(p \<mapsto> c)) q = d q" if "q \<in> set ns" for q using that p_new by auto
  have rel1: "keyed (d(p \<mapsto> c)) (ns @ [p]) = keyed d ns @ [(address_key (client_address c), p)]"
    using nodes_agree(1)[of ns "d(p \<mapsto> c)" d, OF same] by simp
  have rel2: "hash_add m (client_address c) c = map (\<lambda>q. (addr (d(p \<mapsto> c)) q, the ((d(p \<mapsto> c)) q))) (ns @ [p])"
    using nodes_agree(2)[of ns "d(p \<mapsto> c)" d, OF same] rel by (simp add: table_rel_def hash_add_def)
  have rel3: "dom (d(p \<mapsto> c)) = set (ns @ [p])" using dom by auto
  have rel4: "\<forall>q \<in> set (ns @ [p]). octets (sin_addr (addr (d(p \<mapsto> c)) q))"
    using rel same a unfolding table_rel_def by auto
  from add show ?thesis
  proof (elim disjE exE conjE)
    fix h' assume h': "uthash_add mem (address_key (client_address c)) p h = Some (Inr h')"
      "hash_holds h' (keyed d ns @ [(address_key (client_address c), p)])"
    have "table_rel h' (d(p \<mapsto> c)) (ns @ [p]) (hash_add m (client_address c) c)"
      unfolding table_rel_def rel1 using h'(2) rel2 rel3 rel4 by blast
    with h'(1) show ?thesis by blast
  qed simp
qed

lemma table_rel_change:
  assumes rel: "table_rel h d ns m" and p: "p \<in> set ns" and c: "d p = Some c"
  shows "table_rel h (d(p \<mapsto> c\<lparr>last_update_time := t\<rparr>)) ns (hash_change m (addr d p) (\<lambda>c. c\<lparr>last_update_time := t\<rparr>))"
proof -
  let ?d = "d(p \<mapsto> c\<lparr>last_update_time := t\<rparr>)"
  have same: "addr ?d q = addr d q" for q using c by simp
  then have keyed: "keyed ?d ns = keyed d ns" by (simp only:)
  have "hash_change m (addr d p) (\<lambda>c. c\<lparr>last_update_time := t\<rparr>) =
      map (\<lambda>q. (addr d q, if addr d q = addr d p then (the (d q))\<lparr>last_update_time := t\<rparr> else the (d q))) ns"
    using rel by (simp add: table_rel_def hash_change_def)
  also have "\<dots> = map (\<lambda>q. (addr ?d q, the (?d q))) ns"
  proof (intro map_cong refl)
    fix q assume q: "q \<in> set ns"
    show "(addr d q, if addr d q = addr d p then (the (d q))\<lparr>last_update_time := t\<rparr> else the (d q)) = (addr ?d q, the (?d q))"
      using table_rel_addr_inj[OF rel q p] c unfolding same by (cases "q = p") auto
  qed
  finally have "hash_change m (addr d p) (\<lambda>c. c\<lparr>last_update_time := t\<rparr>) = map (\<lambda>q. (addr ?d q, the (?d q))) ns" .
  moreover have "dom ?d = set ns" using rel p by (auto simp: table_rel_def)
  ultimately show ?thesis using rel keyed unfolding table_rel_def same by blast
qed

section \<open>The simulation\<close>

text \<open>The nodes from the next one on, and the clients a round still visits.\<close>

definition rest_from :: "nat list \<Rightarrow> nat option \<Rightarrow> nat list" where
  "rest_from ns q = (case q of None \<Rightarrow> [] | Some q \<Rightarrow> dropWhile (\<lambda>x. x \<noteq> q) ns)"

fun round_rel :: "(nat \<Rightarrow> sockaddr_in) \<Rightarrow> nat list \<Rightarrow> bucket_pc \<Rightarrow> trans_pc \<Rightarrow> bool" where
  "round_rel f ns At_wait p \<longleftrightarrow> p = Wait_message"
| "round_rel f ns (At_visit None tmp) p \<longleftrightarrow> p = Visit []"
| "round_rel f ns (At_visit (Some x) tmp) p \<longleftrightarrow>
     p = Visit (map f (x # rest_from ns tmp)) \<and> x \<in> set ns - set (rest_from ns tmp) \<and> set_option tmp \<subseteq> set ns"
| "round_rel f ns (At_expired_wait tmp) p \<longleftrightarrow>
     p = Expired_wait (map f (rest_from ns tmp)) \<and> set_option tmp \<subseteq> set ns"
| "round_rel f ns (At_expired_check tmp) p \<longleftrightarrow>
     p = Expired_check (map f (rest_from ns tmp)) \<and> set_option tmp \<subseteq> set ns"
| "round_rel f ns At_done_check p \<longleftrightarrow> p = Done_check"
| "round_rel f ns At_done_blocked p \<longleftrightarrow> p = Done_blocked"
| "round_rel f ns At_finished p \<longleftrightarrow> p = Finished"

definition sending_rel ::
    "(nat \<Rightarrow> client_data option) \<Rightarrow> (nat \<Rightarrow> nat) \<Rightarrow> (nat \<times> nat) \<times> sending_pc \<Rightarrow> sockaddr_in \<times> sending_pc \<Rightarrow> bool" where
  "sending_rel d frees x y \<longleftrightarrow> snd x = snd y \<and> snd (fst x) \<le> frees (fst (fst x)) \<and>
     (snd (fst x) = frees (fst (fst x)) \<longrightarrow> (\<exists>c. d (fst (fst x)) = Some c \<and> client_address c = fst y))"

fun request_rel :: "(nat \<Rightarrow> client_data option) \<Rightarrow> (nat \<Rightarrow> nat) \<Rightarrow> client_map \<Rightarrow> request_pc \<Rightarrow> bool" where
  "request_rel d frees m Req_wait \<longleftrightarrow> True"
| "request_rel d frees m (Req_found p) \<longleftrightarrow> d p \<noteq> None \<or> 0 < frees p"
| "request_rel d frees m (Req_absent a) \<longleftrightarrow> hash_find m a = None \<and> octets (sin_addr a)"

definition bucket_rel :: "bucket_server \<Rightarrow> transmitter \<Rightarrow> nat list \<Rightarrow> bool" where
  "bucket_rel s t ns \<longleftrightarrow>
     table_rel (b_table s) (b_client s) ns (clients t) \<and>
     round_rel (addr (b_client s)) ns (b_round s) (pc t) \<and>
     list_all2 (sending_rel (b_client s) (b_frees s)) (b_sendings s) (sendings t) \<and>
     request_rel (b_client s) (b_frees s) (clients t) (b_request s) \<and>
     (b_round s \<noteq> At_wait \<longrightarrow> b_queue s \<noteq> []) \<and>
     queue t = b_queue s \<and> sent_map t = b_sent_map s \<and> max_sendings t = b_max s \<and> sending_done t = b_done s \<and>
     time_now t = b_now s \<and> sent_log t = b_sent_log s"


lemma dropWhile_at: "x \<notin> set us \<Longrightarrow> dropWhile (\<lambda>y. y \<noteq> x) (us @ x # vs) = x # vs"
  by (subst dropWhile_append2) auto

lemma rest_from_simps [simp]:
  "rest_from ns None = []"
  "x \<notin> set us \<Longrightarrow> rest_from (us @ x # vs) (Some x) = x # vs"
  by (simp_all add: rest_from_def dropWhile_at)

lemma rest_from_snoc: "set_option q \<subseteq> set ns \<Longrightarrow> rest_from (ns @ [p]) q = (if q = None then [] else rest_from ns q @ [p])"
  by (auto simp: rest_from_def dropWhile_append split: option.splits)

lemma rest_from_subset: "set (rest_from ns q) \<subseteq> set ns"
  by (auto simp: rest_from_def dest: set_dropWhileD split: option.splits)

lemma rest_from_Nil_iff: "set_option q \<subseteq> set ns \<Longrightarrow> rest_from ns q = [] \<longleftrightarrow> q = None"
  by (auto simp: rest_from_def dropWhile_eq_Nil_conv split: option.splits)

lemma rest_from_remove:
  assumes "x \<notin> set (rest_from (us @ x # vs) q)" and "set_option q \<subseteq> set (us @ x # vs)"
  shows "rest_from (us @ vs) q = rest_from (us @ x # vs) q" and "set_option q \<subseteq> set (us @ vs)"
proof -
  have "rest_from (us @ vs) q = rest_from (us @ x # vs) q \<and> set_option q \<subseteq> set (us @ vs)"
  proof (cases q)
    case (Some y)
    have "y \<notin> set us"
    proof
      assume "y \<in> set us"
      then have "x \<in> set (rest_from (us @ x # vs) q)"
        using Some by (simp add: rest_from_def dropWhile_append1)
      with assms(1) show False by simp
    qed
    moreover from this have "y \<noteq> x" using assms(1) Some by auto
    moreover from this have "dropWhile (\<lambda>z. z \<noteq> y) (us @ ws) = dropWhile (\<lambda>z. z \<noteq> y) ws" for ws
      using calculation by (intro dropWhile_append2) auto
    ultimately show ?thesis using Some assms(2) by (auto simp: rest_from_def)
  qed simp
  then show "rest_from (us @ vs) q = rest_from (us @ x # vs) q" "set_option q \<subseteq> set (us @ vs)" by simp_all
qed

lemma round_rel_cong:
  assumes "\<And>p. p \<in> set ns \<Longrightarrow> f p = g p" and "round_rel f ns r p"
  shows "round_rel g ns r p"
proof -
  have same: "\<forall>x \<in> set (rest_from ns q). f x = g x" for q
    using assms(1) rest_from_subset[of ns q] by blast
  show ?thesis
    using assms by (cases "(f, ns, r, p)" rule: round_rel.cases) (simp_all add: same)
qed

lemma iterate_at_rel:
  assumes rel: "table_rel h d ns m" and el: "set_option el \<subseteq> set ns"
  shows "round_rel (addr d) ns (iterate_at h el) (Visit (map (addr d) (rest_from ns el)))"
proof (cases el)
  case (Some p)
  then obtain us vs where ns: "ns = us @ p # vs" using el by (auto dest: split_list)
  then have "p \<notin> set us" using table_rel_distinct[OF rel] by auto
  then show ?thesis
    using Some ns table_rel_next[OF rel[unfolded ns]] rest_from_simps(2)[of "hd vs" "us @ [p]" "tl vs"]
      table_rel_distinct[OF rel] by (cases vs) (auto simp: iterate_at_def)
qed (simp add: iterate_at_def)

lemma round_rel_join:
  assumes "round_rel f ns r p" and "p' \<notin> set ns"
  shows "round_rel f (ns @ [p']) r (see_new p (f p'))"
  using assms
  by (cases "(f, ns, r, p)" rule: round_rel.cases) (auto simp: rest_from_snoc rest_from_Nil_iff Suc_le_eq)

lemma sendings_mono:
  assumes "list_all2 (sending_rel d frees) ss ts" and "\<And>p. frees p \<le> frees' p"
    and "\<And>p c. frees' p = frees p \<Longrightarrow> d p = Some c \<Longrightarrow> \<exists>c'. d' p = Some c' \<and> client_address c' = client_address c"
  shows "list_all2 (sending_rel d' frees') ss ts"
proof (rule list_all2_mono[OF assms(1)])
  fix x y assume xy: "sending_rel d frees x y"
  from assms(2)[of "fst (fst x)"] assms(3)[of "fst (fst x)"] xy show "sending_rel d' frees' x y"
    by (fastforce simp: sending_rel_def)
qed

lemma bucket_transmission_rel:
  assumes step: "bucket_transmission s (Inr s')" and rel: "bucket_rel s t ns"
  shows "\<exists>t' ns'. transmission_thread t t' \<and> bucket_rel s' t' ns'"
proof -
  have table: "table_rel (b_table s) (b_client s) ns (clients t)" using rel by (simp add: bucket_rel_def)
  from step show ?thesis
  proof (cases rule: bucket_transmission.cases)
    case (b_start n)
    have ns: "rest_from ns (uh_head (b_table s)) = ns" "set_option (uh_head (b_table s)) \<subseteq> set ns"
      using table_rel_head[OF table] rest_from_simps(2)[of _ "[]"] by (auto split: list.splits)
    have "transmission_thread t (t\<lparr>sending_done := hash_count (clients t), pc := Visit (hash_keys (clients t)),
        targets := hash_keys (clients t), sent_log := [], expired_log := []\<rparr>)"
      using b_start rel by (intro start_round) (simp_all add: bucket_rel_def)
    moreover have "unat n = hash_count (clients t)" using table_rel_count[OF table] b_start by auto
    moreover have "round_rel (addr (b_client s)) ns (iterate_at (b_table s) (uh_head (b_table s))) (Visit (hash_keys (clients t)))"
      using iterate_at_rel[OF table ns(2)] unfolding ns(1) table_rel_keys[OF table] .
    ultimately show ?thesis using b_start rel by (intro exI[where x = ns] exI conjI) (assumption, simp add: bucket_rel_def)
  next
    case (b_expired p tmp c h)
    then have pc: "pc t = Visit (addr (b_client s) p # map (addr (b_client s)) (rest_from ns tmp))"
      and p: "p \<in> set ns" "p \<notin> set (rest_from ns tmp)" "set_option tmp \<subseteq> set ns"
      using rel by (auto simp: bucket_rel_def)
    then obtain us vs where ns: "ns = us @ p # vs" by (auto dest: split_list)
    note remove = rest_from_remove[OF p(2,3)[unfolded ns]]
    let ?d = "(b_client s)(p := None)" and ?a = "addr (b_client s) p"
    have "hash_find (clients t) ?a = Some c" using table_rel_find_node[OF table p(1)] b_expired by simp
    then have "transmission_thread t (t\<lparr>clients := hash_del (clients t) ?a,
        pc := Expired_wait (map (addr (b_client s)) (rest_from ns tmp)), expired_log := ?a # expired_log t\<rparr>)"
      using pc b_expired rel by (intro drop_expired) (auto simp: bucket_rel_def)
    moreover have "table_rel h ?d (us @ vs) (hash_del (clients t) ?a)"
      using table_rel_del[OF table[unfolded ns]] b_expired by auto
    moreover have "round_rel (addr ?d) (us @ vs) (At_expired_wait tmp) (Expired_wait (map (addr (b_client s)) (rest_from ns tmp)))"
    proof (rule round_rel_cong[of "us @ vs" "addr (b_client s)"])
      show "addr (b_client s) q = addr ?d q" if "q \<in> set (us @ vs)" for q
        using that table_rel_distinct[OF table[unfolded ns]] by auto
    qed (use remove ns in simp)
    moreover have "list_all2 (sending_rel ?d ((b_frees s)(p := Suc (b_frees s p)))) (b_sendings s) (sendings t)"
    proof (rule sendings_mono)
      show "list_all2 (sending_rel (b_client s) (b_frees s)) (b_sendings s) (sendings t)" using rel by (simp add: bucket_rel_def)
    qed (auto split: if_splits)
    moreover have "request_rel ?d ((b_frees s)(p := Suc (b_frees s p))) (hash_del (clients t) ?a) (b_request s)"
      using rel by (cases "b_request s") (auto simp: bucket_rel_def)
    ultimately show ?thesis using b_expired rel by (intro exI[where x = "us @ vs"] exI conjI) (assumption, simp add: bucket_rel_def)
  next
    case (b_send p tmp c n)
    then have pc: "pc t = Visit (addr (b_client s) p # map (addr (b_client s)) (rest_from ns tmp))"
      and p: "p \<in> set ns" "set_option tmp \<subseteq> set ns"
      using rel by (auto simp: bucket_rel_def)
    let ?a = "addr (b_client s) p"
    have "hash_find (clients t) ?a = Some c" using table_rel_find_node[OF table p(1)] b_send by simp
    then have "transmission_thread t (t\<lparr>max_sendings := n, sendings := sendings t @ [(?a, Sending)],
        pc := Visit (map (addr (b_client s)) (rest_from ns tmp))\<rparr>)"
      using pc b_send rel by (intro start_sending) (auto simp: bucket_rel_def)
    moreover have "list_all2 (sending_rel (b_client s) (b_frees s)) (b_sendings s @ [((p, b_frees s p), Sending)]) (sendings t @ [(?a, Sending)])"
      using rel b_send by (intro list_all2_appendI) (simp_all add: bucket_rel_def sending_rel_def)
    ultimately show ?thesis
      using b_send rel iterate_at_rel[OF table p(2)] by (intro exI[where x = ns] exI conjI) (assumption, simp add: bucket_rel_def)
  next
    case (b_visited tmp)
    then have "transmission_thread t (t\<lparr>pc := Done_check\<rparr>)" using rel by (intro all_visited) (simp add: bucket_rel_def)
    then show ?thesis using b_visited rel by (intro exI[where x = ns] exI conjI) (assumption, simp add: bucket_rel_def)
  next
    case (b_count_expired tmp n)
    then have "transmission_thread t (t\<lparr>sending_done := n, pc := Expired_check (map (addr (b_client s)) (rest_from ns tmp))\<rparr>)"
      using rel by (intro count_expired) (auto simp: bucket_rel_def)
    then show ?thesis using b_count_expired rel by (intro exI[where x = ns] exI conjI) (assumption, simp add: bucket_rel_def)
  next
    case (b_checked tmp)
    then have "transmission_thread t (t\<lparr>pc := Visit (map (addr (b_client s)) (rest_from ns tmp))\<rparr>)"
      using rel by (intro checked_expired) (simp add: bucket_rel_def)
    then show ?thesis
      using b_checked rel iterate_at_rel[OF table, of tmp] by (intro exI[where x = ns] exI conjI) (assumption, simp add: bucket_rel_def)
  next
    case b_all_done
    then have "transmission_thread t (t\<lparr>pc := Finished\<rparr>)" using rel by (intro all_done) (simp_all add: bucket_rel_def)
    then show ?thesis using b_all_done rel by (intro exI[where x = ns] exI conjI) (assumption, simp add: bucket_rel_def)
  next
    case b_not_done
    then have "transmission_thread t (t\<lparr>pc := Done_blocked\<rparr>)" using rel by (intro not_all_done) (simp_all add: bucket_rel_def)
    then show ?thesis using b_not_done rel by (intro exI[where x = ns] exI conjI) (assumption, simp add: bucket_rel_def)
  next
    case b_woken
    then have "transmission_thread t (t\<lparr>pc := Done_check\<rparr>)" using rel by (intro woken_early) (simp add: bucket_rel_def)
    then show ?thesis using b_woken rel by (intro exI[where x = ns] exI conjI) (assumption, simp add: bucket_rel_def)
  next
    case (b_end m q)
    then have "transmission_thread t (t\<lparr>queue := tl (queue t), sent_map := hash_add (sent_map t)
        (release_time (hd (queue t)), message_id (hd (queue t))) (hd (queue t)), pc := Wait_message\<rparr>)"
      using rel by (intro end_round) (simp add: bucket_rel_def)
    then show ?thesis using b_end rel by (intro exI[where x = ns] exI conjI) (assumption, simp add: bucket_rel_def)
  qed
qed


lemma sending_split:
  assumes "list_all2 (sending_rel d gone) ss ts" and "ss = xs @ (p, x) # ys"
  obtains us k vs where "ts = us @ (k, x) # vs" "sending_rel d gone (p, x) (k, x)"
    "list_all2 (sending_rel d gone) xs us" "list_all2 (sending_rel d gone) ys vs"
  using assms by (auto simp: list_all2_append1 list_all2_Cons1 sending_rel_def)

lemma bucket_sending_rel:
  assumes step: "bucket_sending s (Inr s')" and rel: "bucket_rel s t ns"
  shows "\<exists>t'. sending_thread t t' \<and> bucket_rel s' t' ns"
proof -
  let ?R = "sending_rel (b_client s) (b_frees s)"
  have all: "list_all2 ?R (b_sendings s) (sendings t)" using rel by (simp add: bucket_rel_def)
  from step show ?thesis
  proof (cases rule: bucket_sending.cases)
    case (b_sent xs p ys c)
    from sending_split[OF all b_sent(2)] obtain us k vs where ts: "sendings t = us @ (k, Sending) # vs"
      "?R ((p, b_frees s p), Sending) (k, Sending)" "list_all2 ?R xs us" "list_all2 ?R ys vs" .
    then have "k = client_address c" using b_sent by (simp add: sending_rel_def)
    moreover have "sending_thread t (t\<lparr>sendings := us @ (k, Sent) # vs, sent_log := k # sent_log t\<rparr>)"
      using ts b_sent rel by (intro sent) (simp_all add: bucket_rel_def)
    moreover have "list_all2 ?R (xs @ ((p, b_frees s p), Sent) # ys) (us @ (k, Sent) # vs)"
      using ts by (intro list_all2_appendI) (simp_all add: sending_rel_def)
    ultimately show ?thesis using b_sent rel by (intro exI conjI) (assumption, simp add: bucket_rel_def)
  next
    case (b_posted xs p ys)
    from sending_split[OF all b_posted(2)] obtain us k vs where ts: "sendings t = us @ (k, Sent) # vs"
      "?R (p, Sent) (k, Sent)" "list_all2 ?R xs us" "list_all2 ?R ys vs" .
    then have "sending_thread t (t\<lparr>sendings := us @ (k, Posted) # vs, max_sendings := Suc (max_sendings t)\<rparr>)"
      by (intro posted)
    moreover have "list_all2 ?R (xs @ (p, Posted) # ys) (us @ (k, Posted) # vs)"
      using ts by (intro list_all2_appendI) (simp_all add: sending_rel_def)
    ultimately show ?thesis using b_posted rel by (intro exI conjI) (assumption, simp add: bucket_rel_def)
  next
    case (b_counted xs p ys n)
    from sending_split[OF all b_counted(2)] obtain us k vs where ts: "sendings t = us @ (k, Posted) # vs"
      "?R (p, Posted) (k, Posted)" "list_all2 ?R xs us" "list_all2 ?R ys vs" .
    then have "sending_thread t (t\<lparr>sendings := us @ (k, Counted) # vs, sending_done := n\<rparr>)"
      using b_counted rel by (intro counted) (simp_all add: bucket_rel_def)
    moreover have "list_all2 ?R (xs @ (p, Counted) # ys) (us @ (k, Counted) # vs)"
      using ts by (intro list_all2_appendI) (simp_all add: sending_rel_def)
    ultimately show ?thesis using b_counted rel by (intro exI conjI) (assumption, simp add: bucket_rel_def)
  next
    case (b_signalled xs p ys)
    from sending_split[OF all b_signalled(2)] obtain us k vs where ts: "sendings t = us @ (k, Counted) # vs"
      "?R (p, Counted) (k, Counted)" "list_all2 ?R xs us" "list_all2 ?R ys vs" .
    have blocked: "b_round s = At_done_blocked \<longleftrightarrow> pc t = Done_blocked"
      using rel by (cases "(addr (b_client s), ns, b_round s, pc t)" rule: round_rel.cases) (auto simp: bucket_rel_def)
    have "sending_thread t (t\<lparr>sendings := us @ vs,
        pc := (if sending_done t = 0 \<and> pc t = Done_blocked then Done_check else pc t)\<rparr>)"
      using ts(1) by (rule signalled)
    moreover have "list_all2 ?R (xs @ ys) (us @ vs)" using ts by (intro list_all2_appendI)
    ultimately show ?thesis
      using b_signalled rel by (intro exI conjI) (assumption, auto simp: bucket_rel_def blocked)
  qed
qed


lemma bucket_request_rel:
  assumes step: "bucket_request mem s (Inr s')" and rel: "bucket_rel s t ns" and mem: "\<not> mem (2 ^ 31)"
  shows "\<exists>t' ns'. (t' = t \<or> environment t t') \<and> bucket_rel s' t' ns'"
proof -
  have table: "table_rel (b_table s) (b_client s) ns (clients t)" using rel by (simp add: bucket_rel_def)
  then have live: "p \<in> set ns \<Longrightarrow> \<exists>c. b_client s p = Some c" for p by (auto simp: table_rel_def)
  from step show ?thesis
  proof (cases rule: bucket_request.cases)
    case (b_find a r)
    have "request_rel (b_client s) (b_frees s) (clients t) (case r of None \<Rightarrow> Req_absent a | Some p \<Rightarrow> Req_found p)"
      using table_rel_find[OF table b_find(3)] b_find(3,4) live by auto
    then have "bucket_rel s' t ns" using b_find rel by (simp add: bucket_rel_def)
    then show ?thesis by blast
  next
    case (b_renew p c)
    let ?d = "(b_client s)(p \<mapsto> c\<lparr>last_update_time := b_now s\<rparr>)" and ?a = "addr (b_client s) p"
    have p: "p \<in> set ns" using b_renew table by (auto simp: table_rel_def)
    have "hash_find (clients t) ?a = Some c" using table_rel_find_node[OF table p] b_renew by simp
    then have "environment t (t\<lparr>clients := hash_change (clients t) ?a (\<lambda>c. c\<lparr>last_update_time := time_now t\<rparr>)\<rparr>)"
      by (rule renewed)
    moreover have "time_now t = b_now s" using rel by (simp add: bucket_rel_def)
    moreover have "table_rel (b_table s) ?d ns (hash_change (clients t) ?a (\<lambda>c. c\<lparr>last_update_time := b_now s\<rparr>))"
      by (rule table_rel_change[OF table p b_renew(3)])
    moreover have "round_rel (addr ?d) ns (b_round s) (pc t)"
      using rel b_renew by (intro round_rel_cong[of ns "addr (b_client s)" "addr ?d" "b_round s"]) (auto simp: bucket_rel_def)
    moreover have "list_all2 (sending_rel ?d (b_frees s)) (b_sendings s) (sendings t)"
    proof (rule sendings_mono)
      show "list_all2 (sending_rel (b_client s) (b_frees s)) (b_sendings s) (sendings t)" using rel by (simp add: bucket_rel_def)
    qed (use b_renew in auto)
    ultimately show ?thesis
      using b_renew rel by (intro exI[where x = ns] exI conjI) (rule disjI2, assumption, simp add: bucket_rel_def)
  next
    case (b_join a p h)
    let ?c = "\<lparr>client_address = a, last_update_time = b_now s\<rparr>"
    let ?d = "(b_client s)(p \<mapsto> ?c)"
    have a: "hash_find (clients t) a = None" "octets (sin_addr a)" using b_join rel by (simp_all add: bucket_rel_def)
    have p: "p \<notin> set ns" using b_join table by (auto simp: table_rel_def)
    have "environment t (t\<lparr>clients := hash_add (clients t) a \<lparr>client_address = a, last_update_time = time_now t\<rparr>,
        pc := see_new (pc t) a\<rparr>)" using a(1) by (rule joined)
    moreover have "time_now t = b_now s" using rel by (simp add: bucket_rel_def)
    moreover have "table_rel h ?d (ns @ [p]) (hash_add (clients t) a ?c)"
      using table_rel_add[OF table, of ?c p mem] a b_join mem by auto
    moreover have "round_rel (addr ?d) (ns @ [p]) (b_round s) (see_new (pc t) a)"
    proof -
      have "round_rel (addr ?d) ns (b_round s) (pc t)"
      proof (rule round_rel_cong[of ns "addr (b_client s)"])
        show "addr (b_client s) q = addr ?d q" if "q \<in> set ns" for q using that p by auto
      qed (use rel in \<open>simp add: bucket_rel_def\<close>)
      from round_rel_join[OF this p] show ?thesis by simp
    qed
    moreover have "list_all2 (sending_rel ?d (b_frees s)) (b_sendings s) (sendings t)"
    proof (rule sendings_mono)
      show "list_all2 (sending_rel (b_client s) (b_frees s)) (b_sendings s) (sendings t)" using rel by (simp add: bucket_rel_def)
    qed (use b_join in auto)
    ultimately show ?thesis
      using b_join rel by (intro exI[where x = "ns @ [p]"] exI conjI) (rule disjI2, assumption, simp add: bucket_rel_def)
  qed
qed


lemma bucket_step_rel:
  assumes "bucket_step mem s (Inr s')" and "bucket_rel s t ns" and "\<not> mem (2 ^ 31)"
  shows "\<exists>t' ns'. (t' = t \<or> server_step t t') \<and> bucket_rel s' t' ns'"
  using assms(1)
proof (cases rule: bucket_step.cases)
  case b_transmit
  with bucket_transmission_rel[OF _ assms(2)] show ?thesis by (blast intro: transmit)
next
  case b_sending
  with bucket_sending_rel[OF _ assms(2)] show ?thesis by (blast intro: sending)
next
  case b_serve
  with bucket_request_rel[where mem = mem, OF _ assms(2,3)] show ?thesis by (blast intro: outside)
next
  case (b_queued m)
  then have "environment t (t\<lparr>queue := queue t @ [m]\<rparr>)" using assms(2) by (intro queued) (simp add: bucket_rel_def)
  moreover have "bucket_rel s' (t\<lparr>queue := queue t @ [m]\<rparr>) ns" using assms(2) b_queued by (simp add: bucket_rel_def)
  ultimately show ?thesis by (blast intro: outside)
next
  case (b_tick n)
  then have "environment t (t\<lparr>time_now := n\<rparr>)" by (intro ticked)
  moreover have "bucket_rel s' (t\<lparr>time_now := n\<rparr>) ns" using assms(2) b_tick by (simp add: bucket_rel_def)
  ultimately show ?thesis by (blast intro: outside)
qed


lemma bucket_start_rel: "bucket_rel (bucket_start h q t) (transmission_control q [] t) []"
  by (simp add: bucket_rel_def bucket_start_def transmission_control_def table_rel_def hash_holds_empty)

lemma bucket_run_rel:
  assumes "bucket_run mem (bucket_start h q t0) s" and "\<not> mem (2 ^ 31)"
  shows "\<exists>t ns. server_run (transmission_control q [] t0) t \<and> bucket_rel s t ns"
  using assms(1)
proof (induction rule: bucket_run.induct)
  case b_run_start
  then show ?case using bucket_start_rel run_start by blast
next
  case (b_run_step s s')
  then obtain t ns where "server_run (transmission_control q [] t0) t" "bucket_rel s t ns" by blast
  with bucket_step_rel[where mem = mem, OF b_run_step(2) _ assms(2)] show ?case by (blast intro: run_step)
qed

section \<open>What the pointers add\<close>


text \<open>C38: a subscription can be lost with the process: while the round comes to a client that has expired, the client's
  request may find its node, the round then frees it, and the renewal writes into freed memory. The server's
  request thread does not take the table's mutex. This can happen in every state in which the round is at an
  expired client and no request is being served.\<close>

theorem renewal_of_freed_client:
  assumes "bucket_run mem (bucket_start h q t0) s" and "\<not> mem (2 ^ 31)"
    and "b_round s = At_visit (Some p) tmp" and "b_client s p = Some c" and "expired (b_now s) c" and "b_request s = Req_wait"
  shows "\<exists>s1 s2. bucket_step mem s (Inr s1) \<and> bucket_step mem s1 (Inr s2) \<and> bucket_step mem s2 (Inl Buffer_overflow)"
proof -
  obtain t ns where rel: "bucket_rel s t ns" using bucket_run_rel[where mem = mem, OF assms(1,2)] by blast
  then have table: "table_rel (b_table s) (b_client s) ns (clients t)" by (simp add: bucket_rel_def)
  then have p: "p \<in> set ns" using assms(4) by (auto simp: table_rel_def)
  then obtain us vs where ns: "ns = us @ p # vs" by (auto dest: split_list)
  let ?a = "addr (b_client s) p"
  have a: "octets (sin_addr ?a)" using p table by (simp add: table_rel_def)
  then have "uthash_find (b_table s) (address_key ?a) = Some (Inr (Some p))"
    using table_rel_find[OF table a] table_rel_addr_inj[OF table _ p] table_rel_find_node[OF table p] assms(4) by auto
  then have "bucket_step mem s (Inr (s\<lparr>b_request := Req_found p\<rparr>))"
    using b_find[OF assms(6) a, of "Some p"] by (auto intro: b_serve)
  moreover obtain h' where "uthash_del p (b_table s) = Inr h'" using table_rel_del[OF table[unfolded ns]] by blast
  then have "bucket_step mem (s\<lparr>b_request := Req_found p\<rparr>) (Inr (s\<lparr>b_request := Req_found p, b_table := h',
      b_client := (b_client s)(p := None), b_frees := (b_frees s)(p := Suc (b_frees s p)), b_round := At_expired_wait tmp\<rparr>))"
    using b_expired[of "s\<lparr>b_request := Req_found p\<rparr>" p tmp c h'] assms(3-5) by (auto intro: b_transmit)
  moreover have "bucket_step mem (s\<lparr>b_request := Req_found p, b_table := h',
      b_client := (b_client s)(p := None), b_frees := (b_frees s)(p := Suc (b_frees s p)), b_round := At_expired_wait tmp\<rparr>) (Inl Buffer_overflow)"
    by (intro b_serve b_renew_freed[where p = p]) simp_all
  ultimately show ?thesis by blast
qed

text \<open>One client subscribes, and a message is there to be sent.\<close>

lemma example_joined:
  "\<exists>h. bucket_run (\<lambda>n. n < 2 ^ 31) (bucket_start null_hash [example_message] 9)
    ((bucket_start null_hash [example_message] 9)\<lparr>b_table := h,
      b_client := [0 \<mapsto> \<lparr>client_address = example_client, last_update_time = 9\<rparr>]\<rparr>)"
proof -
  let ?mem = "\<lambda>n. n < (2 :: nat) ^ 31" and ?s = "bucket_start null_hash [example_message] 9"
  have a: "octets (sin_addr example_client)" by (simp add: example_client_def octets_def)
  obtain h where h: "uthash_add ?mem (address_key example_client) 0 (empty_hash null_hash) = Some (Inr h)"
    using first_add_succeeds[of ?mem "empty_hash null_hash"] by (auto simp: empty_hash_def)
  have "bucket_step ?mem ?s (Inr (?s\<lparr>b_request := Req_absent example_client\<rparr>))"
    using b_find[of ?s example_client None ?mem] a
    by (auto intro: b_serve simp: bucket_start_def uthash_find_def empty_hash_def)
  moreover have "bucket_step ?mem (?s\<lparr>b_request := Req_absent example_client\<rparr>) (Inr (?s\<lparr>b_table := h,
      b_client := [0 \<mapsto> \<lparr>client_address = example_client, last_update_time = 9\<rparr>]\<rparr>))"
    using b_join[of "?s\<lparr>b_request := Req_absent example_client\<rparr>" example_client 0 ?mem h] h
    by (auto intro: b_serve simp: bucket_start_def)
  ultimately show ?thesis by (blast intro: b_run_start b_run_step)
qed

lemma example_joined_table:
  assumes "bucket_run (\<lambda>n. n < 2 ^ 31) (bucket_start null_hash q 9) s"
    and "b_client s = [0 \<mapsto> \<lparr>client_address = example_client, last_update_time = l\<rparr>]"
  shows "uthash_find (b_table s) (address_key example_client) = Some (Inr (Some 0))"
    and "uh_head (b_table s) = Some 0" and "\<exists>n. uthash_count (b_table s) = Inr n"
proof -
  obtain t ns where "bucket_rel s t ns" using bucket_run_rel[where mem = "\<lambda>n. n < 2 ^ 31", OF assms(1)] by auto
  then have table: "table_rel (b_table s) (b_client s) ns (clients t)" by (simp add: bucket_rel_def)
  then have "set ns = {0}" "distinct ns" using table_rel_distinct[OF table] assms(2) by (auto simp: table_rel_def)
  then have ns: "ns = [0]" by (cases ns; cases "tl ns") auto
  have a: "octets (sin_addr example_client)" by (simp add: example_client_def octets_def)
  show "uthash_find (b_table s) (address_key example_client) = Some (Inr (Some 0))"
    using table_rel_find[OF table a] table_rel_find_node[OF table, of 0] assms(2) ns by auto
  show "uh_head (b_table s) = Some 0" using table_rel_head[OF table] ns by simp
  show "\<exists>n. uthash_count (b_table s) = Inr n" using table_rel_count[OF table] by blast
qed


lemma renewal_of_freed_client_witness:
  "\<exists>s. bucket_run (\<lambda>n. n < 2 ^ 31) (bucket_start null_hash [example_message] 9) s \<and>
    bucket_step (\<lambda>n. n < 2 ^ 31) s (Inl Buffer_overflow)"
proof -
  let ?mem = "\<lambda>n. n < (2 :: nat) ^ 31" and ?init = "bucket_start null_hash [example_message] 9"
  obtain h where h: "bucket_run ?mem ?init (?init\<lparr>b_table := h,
      b_client := [0 \<mapsto> \<lparr>client_address = example_client, last_update_time = 9\<rparr>]\<rparr>)" (is "bucket_run _ _ ?s")
    using example_joined by blast
  let ?late = "?s\<lparr>b_now := b_now ?s + 6\<rparr>"
  have "bucket_step ?mem ?s (Inr ?late)" by (rule b_tick) (simp add: bucket_start_def)
  with h have run: "bucket_run ?mem ?init ?late" by (blast intro: b_run_step)
  note table = example_joined_table[OF run, of 9]
  obtain n where "uthash_count h = Inr n" using table(3) by auto
  then have "bucket_step ?mem ?late (Inr (?late\<lparr>b_done := unat n, b_sent_log := [], b_round := iterate_at h (Some 0)\<rparr>))"
    (is "bucket_step _ _ (Inr ?at)")
    using b_start[of ?late n] table(2) by (auto intro: b_transmit simp: bucket_start_def)
  with run have run2: "bucket_run ?mem ?init ?at" by (blast intro: b_run_step)
  have "\<not> ?mem (2 ^ 31)" "b_round ?at = At_visit (Some 0) (app_next h 0)"
    "b_client ?at 0 = Some \<lparr>client_address = example_client, last_update_time = 9\<rparr>"
    "expired (b_now ?at) \<lparr>client_address = example_client, last_update_time = 9\<rparr>" "b_request ?at = Req_wait"
    by (simp_all add: iterate_at_def expired_def SUBSCR_EXPIRE_TIME_def bucket_start_def)
  from renewal_of_freed_client[where mem = ?mem, OF run2 this] run2 show ?thesis by (meson b_run_step)
qed

end
