(* ===== verification/RoundProgress.thy ===== *)
theory RoundProgress
  imports ServerSystem
begin

text \<open>
  What the threads of a round bring about when they are left alone: every schedule of the transmission
  thread, with its moves of files, and the sending threads empties the queue, unless the process ends or
  a move does not. Their steps, spurious wake-ups apart, decrease a lexicographic measure, and only an
  empty queue without senders, or a move that does not end, leaves no step.
\<close>

section \<open>Steps and their measure\<close>

























end
