(* ===== verification/ClientProgress.thy ===== *)
theory ClientProgress
  imports Updater
begin

text \<open>
  What the client's own threads bring about without any datagram: from every state the running requests
  can come to an end, each by an answer that was stored or by its time-out, and then a queue thread starts
  another request. No state is a dead end of semaphore, queues and condition variables.
\<close>

section \<open>The client's own steps\<close>

inductive own_step :: "client \<Rightarrow> client \<Rightarrow> bool" where
  own_subscribe: "subscription_thread c (Inr c') \<Longrightarrow> own_step c c'"
| own_update: "update_thread c (Inr c') \<Longrightarrow> own_step c c'"
| own_send: "sender_thread c (Inr c') \<Longrightarrow> own_step c c'"
| own_tick: "0 \<le> n \<Longrightarrow> clock c + n \<noteq> -1 \<Longrightarrow> own_step c (c\<lparr>clock := clock c + n\<rparr>)"

lemma own_step_ok: "own_step c c' \<Longrightarrow> client_ok ks c \<Longrightarrow> client_ok ks c'"
  by (erule own_step.cases) (auto intro: client_step_ok client_step.intros)

lemma own_steps_ok: "own_step\<^sup>*\<^sup>* c c' \<Longrightarrow> client_ok ks c \<Longrightarrow> client_ok ks c'"
  by (induction rule: rtranclp_induct) (auto intro: own_step_ok)

lemma own_steps_run: "own_step\<^sup>*\<^sup>* c c' \<Longrightarrow> client_run c0 c \<Longrightarrow> client_run c0 c'"
proof (induction rule: rtranclp_induct)
  case (step c1 c2)
  then have "client_step c1 (Inr c2)"
    by (auto elim!: own_step.cases intro: client_step.intros)
  with step show ?case by (auto intro: client_run.run_step)
qed simp

text \<open>A deadline can be waited for.\<close>

lemma wait_until: "\<exists>n. own_step c (c\<lparr>clock := clock c + n\<rparr>) \<and> t \<le> clock c + n"
  by (intro exI[of _ "max 0 (max t 0 - clock c)"]) (auto intro: own_tick)

section \<open>Requests come to an end\<close>

fun moves_left :: "sender_pc \<Rightarrow> nat" where
  "moves_left Request = 6"
| "moves_left (Check t) = 5"
| "moves_left (Await t) = 4"
| "moves_left Answered = 4"
| "moves_left Finish = 3"
| "moves_left (Push b) = 2"
| "moves_left Post = 1"

definition requests_left :: "client \<Rightarrow> nat" where
  "requests_left c = sum_list (map (\<lambda>(k, pc). moves_left pc) (senders c))"

text \<open>A sender's own move faults. (Pushing a server may read outside of the slots of a queue; such a read
  may also go on, and the push with it.)\<close>

definition faults :: "client \<Rightarrow> bool" where
  "faults c \<longleftrightarrow> (\<exists>k pc s e. (k, pc) \<in> set (senders c) \<and> hash_find (servers c) k = Some s \<and>
     sender_move (clock c) s pc (Inl e))"

lemma holder_is_listed:
  assumes "client_ok ks c" and "k \<in># places c"
  obtains s where "hash_find (servers c) k = Some s"
proof -
  have "k \<in> set (hash_keys (servers c))" using assms by (simp add: client_ok_def)
  then show ?thesis using that by (cases "hash_find (servers c) k") (auto simp: hash_find_None_iff)
qed

lemma sender_moves:
  assumes "senders c = (k, pc) # ss" and "hash_find (servers c) k = Some s"
    and "sender_move (clock c) s pc (Inr (s', pc'))" and "moves_left pc' < moves_left pc"
  shows "\<exists>c'. own_step c c' \<and> requests_left c' < requests_left c"
  using own_send[OF sender_thread.move[of c "[]" k pc ss s s' pc', OF _ assms(2,3)]] assms(1,4)
  by (auto simp: requests_left_def)

lemma sender_goes_on:
  assumes ok: "client_ok ks c" and ss: "senders c = (k, pc) # ss"
  shows "faults c \<or> (\<exists>c'. own_step\<^sup>*\<^sup>* c c' \<and> requests_left c' < requests_left c)"
proof (cases "pc = Post \<or> (\<exists>b. pc = Push b)")
  case True
  then have "\<exists>c'. own_step c c' \<and> requests_left c' < requests_left c"
  proof (elim disjE exE)
    assume "pc = Post"
    then show ?thesis using own_send[OF sender_thread.post[of c "[]" k ss]] ss by (auto simp: requests_left_def)
  next
    fix b assume "pc = Push b"
    then show ?thesis
      using own_send[OF sender_thread.push_subscribed[of c "[]" k ss]]
        own_send[OF sender_thread.push_not_subscribed[of c "[]" k ss]] ss
      by (cases b) (auto simp: requests_left_def)
  qed
  then show ?thesis by blast
next
  case False
  then have "k \<in># places c" using ss by (simp add: places_def)
  with ok obtain s where s: "hash_find (servers c) k = Some s" by (rule holder_is_listed)
  note go = sender_moves[OF ss s]
  have line: "\<exists>line :: string. length line = 4096" by (rule exI[of _ "replicate 4096 CHR ''x''"]) simp
  show ?thesis
  proof (cases pc)
    case Request
    then show ?thesis using go[of s "Check (clock c)"] by (auto intro: sender_move.sent)
  next
    case (Check t)
    show ?thesis
    proof (cases "state s = RESP")
      case True
      show ?thesis
      proof (cases "request_answered (clock c) s")
        case (Inl e)
        then have "sender_move (clock c) s pc (Inl e)" using True Check by (auto intro: sender_move.bad_answer)
        with ss s show ?thesis by (auto simp: faults_def)
      next
        case (Inr s')
        then show ?thesis using go[of s' Answered] True Check by (auto intro: sender_move.answered)
      qed
    next
      case False
      then show ?thesis using go[of s "Await t"] Check by (auto intro: sender_move.no_answer)
    qed
  next
    case (Await t)
    obtain n where n: "own_step c (c\<lparr>clock := clock c + n\<rparr>)" "t + SERVER_RESPONSE_TIMEOUT \<le> clock c + n"
      using wait_until by blast
    have "\<exists>c'. own_step (c\<lparr>clock := clock c + n\<rparr>) c' \<and> requests_left c' < requests_left (c\<lparr>clock := clock c + n\<rparr>)"
      by (rule sender_moves[of _ k pc ss s "request_timed_out t s" Finish])
        (use ss s Await n(2) in \<open>auto intro: sender_move.timed_out\<close>)
    then show ?thesis using n(1) by (auto simp: requests_left_def intro: converse_rtranclp_into_rtranclp)
  next
    case Answered
    from line obtain line :: string where l: "length line = 4096" by blast
    show ?thesis
    proof (cases "handle_response line s")
      case (Inl e)
      then have "sender_move (clock c) s pc (Inl e)" using l Answered by (auto intro: sender_move.mishandled)
      with ss s show ?thesis by (auto simp: faults_def)
    next
      case (Inr s')
      then show ?thesis using go[of s' Finish] l Answered by (auto intro: sender_move.handled)
    qed
  next
    case Finish
    then show ?thesis using go[of s "Push (state s = SUBSCR)"] by (auto intro: sender_move.chosen)
  qed (use False in auto)
qed

lemma requests_end:
  "client_ok ks c \<Longrightarrow> \<exists>c'. own_step\<^sup>*\<^sup>* c c' \<and> (faults c' \<or> senders c' = [])"
proof (induction "requests_left c" arbitrary: c rule: less_induct)
  case less
  show ?case
  proof (cases "senders c = [] \<or> faults c")
    case False
    then obtain k pc ss where "senders c = (k, pc) # ss" by (cases "senders c") auto
    with sender_goes_on[OF less.prems] False obtain c1 where
      c1: "own_step\<^sup>*\<^sup>* c c1" "requests_left c1 < requests_left c" by blast
    with less.hyps[OF c1(2) own_steps_ok[OF c1(1) less.prems]] show ?thesis
      by (meson rtranclp_trans)
  qed blast
qed

section \<open>A queue thread starts the next request\<close>

text \<open>
  What the two queue threads have in common: a thread whose queue is not empty (\<open>ready\<close>) goes from its test to
  the scan, pops a server or waits with a deadline, and after the deadline scans without waiting again.
\<close>

locale queue_thread =
  fixes thread_pc :: "client \<Rightarrow> queue_pc"
    and ready :: "client \<Rightarrow> bool"
  assumes starts: "ready c \<Longrightarrow> thread_pc c = Start \<Longrightarrow>
      \<exists>c'. own_step c c' \<and> thread_pc c' = Scan True \<and> ready c' \<and> senders c' = senders c"
    and scans: "ready c \<Longrightarrow> thread_pc c = Scan w \<Longrightarrow>
      \<exists>c'. own_step c c' \<and> senders c' = senders c \<and>
        ((\<exists>k. thread_pc c' = Popped k) \<or> w \<and> (\<exists>t. thread_pc c' = Blocked t) \<and> ready c')"
    and times_out: "ready c \<Longrightarrow> thread_pc c = Blocked t \<Longrightarrow> t \<le> clock c \<Longrightarrow>
      \<exists>c'. own_step c c' \<and> thread_pc c' = Scan False \<and> ready c' \<and> senders c' = senders c"
    and ticks: "ready c \<Longrightarrow> ready (c\<lparr>clock := n\<rparr>)" "thread_pc (c\<lparr>clock := n\<rparr>) = thread_pc c"
begin

definition pops :: "client \<Rightarrow> bool" where
  "pops c \<longleftrightarrow> (\<exists>c' k. own_step\<^sup>*\<^sup>* c c' \<and> thread_pc c' = Popped k \<and> senders c' = senders c)"

lemma pops_later: "own_step c c1 \<Longrightarrow> senders c1 = senders c \<Longrightarrow> pops c1 \<Longrightarrow> pops c"
  unfolding pops_def by (metis converse_rtranclp_into_rtranclp)

lemma scan_false_pops: "ready c \<Longrightarrow> thread_pc c = Scan False \<Longrightarrow> pops c"
  using scans[of c False] by (auto simp: pops_def)

lemma blocked_pops:
  assumes "ready c" and "thread_pc c = Blocked t"
  shows "pops c"
proof -
  obtain n where n: "own_step c (c\<lparr>clock := clock c + n\<rparr>)" "t \<le> clock c + n" using wait_until by blast
  let ?c = "c\<lparr>clock := clock c + n\<rparr>"
  obtain c' where "own_step ?c c'" "thread_pc c' = Scan False" "ready c'" "senders c' = senders ?c"
    using times_out[of ?c t] assms n(2) ticks by auto
  then have "pops ?c" by (blast intro: pops_later scan_false_pops)
  with pops_later[OF n(1)] show ?thesis by simp
qed

lemma scan_pops:
  assumes "ready c" and "thread_pc c = Scan w"
  shows "pops c"
proof -
  from scans[OF assms] obtain c' where c': "own_step c c'" "senders c' = senders c"
    "(\<exists>k. thread_pc c' = Popped k) \<or> (\<exists>t. thread_pc c' = Blocked t) \<and> ready c'" by blast
  from c'(3) have "pops c'"
  proof
    assume "\<exists>k. thread_pc c' = Popped k"
    then show ?thesis unfolding pops_def by blast
  qed (blast intro: blocked_pops)
  with c'(1,2) show ?thesis by (rule pops_later)
qed

lemma ready_pops:
  assumes "ready c"
  shows "pops c"
proof (cases "thread_pc c")
  case Start
  from starts[OF assms this] show ?thesis by (blast intro: pops_later scan_pops)
next
  case (Popped k)
  then show ?thesis by (auto simp: pops_def)
qed (use assms scan_pops blocked_pops in blast)+

end

lemma first_is_listed:
  assumes "client_ok ks c" and "array q \<noteq> []" and "set (array q) \<subseteq> set_mset (places c)"
  obtains k s where "heap_first q = Some k" "hash_find (servers c) k = Some s"
proof -
  obtain k r where "array q = k # r" using assms(2) by (cases "array q") auto
  then have "heap_first q = Some k" "k \<in># places c" using assms(3) by (auto simp: heap_first_Some_iff)
  with holder_is_listed[OF assms(1)] that show ?thesis by metis
qed

text \<open>Both queue threads are of this kind.\<close>

definition may_subscribe :: "sockaddr_in list \<Rightarrow> client \<Rightarrow> bool" where
  "may_subscribe ks c \<longleftrightarrow> client_ok ks c \<and> array (not_subscribed_queue c) \<noteq> []"

definition may_update :: "sockaddr_in list \<Rightarrow> client \<Rightarrow> bool" where
  "may_update ks c \<longleftrightarrow> client_ok ks c \<and> array (subscribed_queue c) \<noteq> []"

lemma tick_ok: "client_ok ks (c\<lparr>clock := n\<rparr>) = client_ok ks c"
  by (simp add: client_ok_def places_def)

interpretation subscriber: queue_thread subscr_pc "may_subscribe ks" for ks
proof (unfold_locales, goal_cases)
  case (1 c)
  then have s: "own_step c (c\<lparr>subscr_pc := Scan True\<rparr>)"
    by (intro own_subscribe sub_nonempty) (auto simp: may_subscribe_def heap_is_empty_def)
  with 1 own_step_ok[OF s] show ?case by (intro exI[of _ "c\<lparr>subscr_pc := Scan True\<rparr>"]) (simp add: may_subscribe_def)
next
  case (2 c w)
  from 2(1) have ready: "client_ok ks c" "array (not_subscribed_queue c) \<noteq> []" by (simp_all add: may_subscribe_def)
  from ready have "set (array (not_subscribed_queue c)) \<subseteq> set_mset (places c)" by (auto simp: places_def)
  from first_is_listed[OF ready this] obtain k s where f: "heap_first (not_subscribed_queue c) = Some k"
    "hash_find (servers c) k = Some s" by blast
  show ?case
  proof (cases "\<not> w \<or> connect_due (clock c) s")
    case True
    with own_subscribe[OF sub_pop[OF 2(2) f True]] show ?thesis by (auto intro: exI)
  next
    case False
    let ?d = "c\<lparr>subscr_pc := Blocked (last_connect_attempt_time s + NEXT_CONNECT_ATTEMPT_TIME)\<rparr>"
    have d: "own_step c ?d" using False 2(2) f by (intro own_subscribe sub_block) auto
    with own_step_ok[OF d ready(1)] ready(2) False show ?thesis
      by (intro exI[of _ ?d]) (simp add: may_subscribe_def)
  qed
next
  case (3 c t)
  then have s: "own_step c (c\<lparr>subscr_pc := Scan False\<rparr>)" by (intro own_subscribe sub_timed_out)
  with 3 own_step_ok[OF s] show ?case by (intro exI[of _ "c\<lparr>subscr_pc := Scan False\<rparr>"]) (simp add: may_subscribe_def)
qed (simp_all add: may_subscribe_def tick_ok)

interpretation updater: queue_thread update_pc "may_update ks" for ks
proof (unfold_locales, goal_cases)
  case (1 c)
  then have s: "own_step c (c\<lparr>update_pc := Scan True\<rparr>)"
    by (intro own_update upd_nonempty) (auto simp: may_update_def heap_is_empty_def)
  with 1 own_step_ok[OF s] show ?case by (intro exI[of _ "c\<lparr>update_pc := Scan True\<rparr>"]) (simp add: may_update_def)
next
  case (2 c w)
  from 2(1) have ready: "client_ok ks c" "array (subscribed_queue c) \<noteq> []" by (simp_all add: may_update_def)
  from ready have "set (array (subscribed_queue c)) \<subseteq> set_mset (places c)" by (auto simp: places_def)
  from first_is_listed[OF ready this] obtain k s where f: "heap_first (subscribed_queue c) = Some k"
    "hash_find (servers c) k = Some s" by blast
  show ?case
  proof (cases "\<not> w \<or> \<not> last_connect_attempt_time s + SUBSCR_EXPIRE_TIME > clock c")
    case True
    with own_update[OF upd_pop[OF 2(2) f True]] show ?thesis by (auto intro: exI)
  next
    case False
    let ?d = "c\<lparr>update_pc := Blocked (last_connect_attempt_time s + SUBSCR_EXPIRE_TIME)\<rparr>"
    have d: "own_step c ?d" using False 2(2) f by (intro own_update upd_block) auto
    with own_step_ok[OF d ready(1)] ready(2) False show ?thesis
      by (intro exI[of _ ?d]) (simp add: may_update_def)
  qed
next
  case (3 c t)
  then have s: "own_step c (c\<lparr>update_pc := Scan False\<rparr>)" by (intro own_update upd_timed_out)
  with 3 own_step_ok[OF s] show ?case by (intro exI[of _ "c\<lparr>update_pc := Scan False\<rparr>"]) (simp add: may_update_def)
qed (simp_all add: may_update_def tick_ok)

lemma next_request:
  assumes ok: "client_ok ks c" and idle: "senders c = []" and "ks \<noteq> []"
  shows "\<exists>c' k. own_step\<^sup>*\<^sup>* c c' \<and> senders c' = [(k, Request)]"
proof -
  have go: ?thesis if "own_step\<^sup>*\<^sup>* c d" "senders d = []" "subscr_pc d = Popped k \<or> update_pc d = Popped k" for d k
  proof -
    have "semaphore d = MAX_ACTIVE_REQUESTS" using own_steps_ok[OF that(1) ok] that(2) by (simp add: client_ok_def)
    then have n: "semaphore d = Suc 2" by (simp add: MAX_ACTIVE_REQUESTS_def)
    have "\<exists>c'. own_step d c' \<and> senders c' = [(k, Request)]"
      using that(3) own_subscribe[OF sub_send[OF _ n, of k]] own_update[OF upd_send[OF _ n, of k]] that(2) by fastforce
    with that(1) show ?thesis by (meson rtranclp.rtrancl_into_rtrancl)
  qed
  consider k where "subscr_pc c = Popped k \<or> update_pc c = Popped k"
    | "array (not_subscribed_queue c) \<noteq> []" | "array (subscribed_queue c) \<noteq> []"
  proof -
    have "mset (array (subscribed_queue c)) + mset (array (not_subscribed_queue c)) + pc_holds (subscr_pc c) +
        pc_holds (update_pc c) \<noteq> {#}"
      using ok idle assms(3) by (auto simp: client_ok_def places_def)
    then show thesis using that by (cases "subscr_pc c"; cases "update_pc c") auto
  qed
  then show ?thesis
  proof cases
    case 1
    with go[of c] idle show ?thesis by blast
  next
    case 2
    with subscriber.ready_pops[of ks c] ok go idle show ?thesis
      by (auto simp: may_subscribe_def subscriber.pops_def)
  next
    case 3
    with updater.ready_pops[of ks c] ok go idle show ?thesis
      by (auto simp: may_update_def updater.pops_def)
  qed
qed

text \<open>A fault needs a response that is stored, or whose handling has begun; own steps store none.\<close>

definition response_pending :: "client \<Rightarrow> bool" where
  "response_pending c \<longleftrightarrow> (\<exists>k s. hash_find (servers c) k = Some s \<and> state s = RESP) \<or>
     (\<exists>k. (k, Answered) \<in> set (senders c))"

lemma sender_move_pending:
  "sender_move now s pc (Inr (s', pc')) \<Longrightarrow> state s \<noteq> RESP \<Longrightarrow> pc \<noteq> Answered \<Longrightarrow>
   state s' \<noteq> RESP \<and> pc' \<noteq> Answered"
  by (cases rule: sender_move.cases) (auto simp: request_timed_out_def Let_def split: if_splits)

lemma own_step_pending: "own_step c c' \<Longrightarrow> \<not> response_pending c \<Longrightarrow> \<not> response_pending c'"
proof (induction rule: own_step.induct)
  case (own_subscribe c c')
  then show ?case
    by (cases rule: subscription_thread.cases) (auto simp: response_pending_def set_server_find split: if_splits)
next
  case (own_update c c')
  then show ?case by (cases rule: update_thread.cases) (auto simp: response_pending_def)
next
  case (own_send c c')
  then show ?case
  proof (cases rule: sender_thread.cases)
    case (move xs k pc ys s s' pc')
    then show ?thesis using own_send(2) sender_move_pending[OF move(4)]
      by (auto simp: response_pending_def set_server_find split: if_splits)
  qed (auto simp: response_pending_def)
qed (simp add: response_pending_def)

lemma fault_is_pending: "faults c \<Longrightarrow> response_pending c"
  by (auto simp: faults_def response_pending_def elim!: sender_move.cases)

lemma pending_before: "own_step\<^sup>*\<^sup>* c c' \<Longrightarrow> faults c' \<Longrightarrow> response_pending c"
  by (induction rule: converse_rtranclp_induct) (use fault_is_pending own_step_pending in blast)+

text \<open>C19: the client is never stuck: whatever has happened, its own threads and the passing of time can bring
  all running requests to their end, without any further datagram, and then start another one, as long as it
  has a server at all and no comparison of the queues that reads outside of the slots ends the process. The
  one other obstacle is a response that was already stored and whose handling faults.\<close>

theorem client_keeps_asking:
  assumes "client_run (update_control cmp m recv now) c" and "m \<noteq> []"
  shows "\<exists>c'. own_step\<^sup>*\<^sup>* c c' \<and> ((\<exists>k. senders c' = [(k, Request)]) \<or> response_pending c \<and> faults c')"
proof -
  have ok: "client_ok (hash_keys m) c" by (rule run_from_start_ok[OF assms(1)])
  from requests_end[OF ok] obtain d where d: "own_step\<^sup>*\<^sup>* c d" "faults d \<or> senders d = []" by blast
  have "hash_keys m \<noteq> []" using assms(2) by (simp add: hash_keys_def)
  with next_request[OF own_steps_ok[OF d(1) ok]] d pending_before[OF d(1)] show ?thesis
    by (meson rtranclp_trans)
qed

lemma client_keeps_asking_witness:
  "\<forall>s :: server_data. \<exists>c' k. own_step\<^sup>*\<^sup>* (update_control (\<lambda>_ _ _. True)
      [(\<lparr>sin_addr = [1, 2, 3, 4], sin_port = 5\<rparr>, s\<lparr>state := WAIT\<rparr>)] [] 0) c' \<and> senders c' = [(k, Request)]"
proof
  fix s :: server_data
  let ?c = "update_control (\<lambda>_ _ _. True) [(\<lparr>sin_addr = [1, 2, 3, 4], sin_port = 5\<rparr>, s\<lparr>state := WAIT\<rparr>)] [] 0"
  have "\<not> response_pending ?c" by (auto simp: response_pending_def update_control_def hash_find_def split: if_splits)
  with client_keeps_asking[OF client_run.run_start]
  show "\<exists>c' k. own_step\<^sup>*\<^sup>* ?c c' \<and> senders c' = [(k, Request)]" by fast
qed

end
