(* ===== verification/Sockets.thy ===== *)
theory Sockets
  imports Programs
begin

text \<open>
  The socket of each program: \<open>get_client_socket_fd\<close> of \<open>mtn-client.c\<close> and \<open>server_socket_fd\<close> of
  \<open>mtn-server.c\<close> create it on the first call and keep it in a static variable, without a lock. Several threads
  call them: the client's receiving thread and its senders, the server's request thread and its sending
  threads. A call is a sequence of steps, one per access to the static variable or call of the system.
\<close>

section \<open>The system's part\<close>

text \<open>
  \<open>static_fd\<close> is the static variable, \<open>next_fd\<close> the next descriptor that \<open>socket\<close> hands out, \<open>local_port\<close> the
  port a socket is bound to, \<open>calls\<close> where each thread is in its call; \<open>Got\<close> holds what the call returned.
\<close>

datatype fd_pc = Entered | Creating | Created | Returning | Got int

record sockets =
  static_fd :: int
  next_fd :: int
  local_port :: "int \<Rightarrow> (16 word) option"
  calls :: "nat \<Rightarrow> fd_pc"

definition no_sockets :: sockets where
  "no_sockets = \<lparr>static_fd = -1, next_fd = 3, local_port = (\<lambda>_. None), calls = (\<lambda>_. Entered)\<rparr>"

definition go :: "nat \<Rightarrow> fd_pc \<Rightarrow> sockets \<Rightarrow> sockets" where
  "go t p s = s\<lparr>calls := (calls s)(t := p)\<rparr>"

text \<open>\<open>bind\<close> to a port of the wildcard address fails for a socket that is bound and for a port that is taken.\<close>

definition bind_fd :: "int \<Rightarrow> 16 word \<Rightarrow> sockets \<Rightarrow> sockets c_result" where
  "bind_fd fd port s =
     (if local_port s fd \<noteq> None \<or> (\<exists>fd'. local_port s fd' = Some port) then Inl (Exit 1)
      else Inr (s\<lparr>local_port := (local_port s)(fd := Some port)\<rparr>))"

section \<open>The calls\<close>

text \<open>
  What both functions do; \<open>prepare\<close> is what they do with a new socket. The variable is read by the test, written by
  the assignment, and read again by the check of \<open>socket\<close>'s result, by the set-up and by the return.
\<close>

inductive lazy_socket :: "(int \<Rightarrow> sockets \<Rightarrow> sockets c_result) \<Rightarrow> nat \<Rightarrow> sockets \<Rightarrow> sockets c_result \<Rightarrow> bool"
  for prepare t where
  test_unset: "calls s t = Entered \<Longrightarrow> static_fd s = -1 \<Longrightarrow> lazy_socket prepare t s (Inr (go t Creating s))"
| test_set: "calls s t = Entered \<Longrightarrow> static_fd s \<noteq> -1 \<Longrightarrow> lazy_socket prepare t s (Inr (go t Returning s))"
| create: "calls s t = Creating \<Longrightarrow>
    lazy_socket prepare t s (Inr (go t Created (s\<lparr>static_fd := next_fd s, next_fd := next_fd s + 1\<rparr>)))"
| create_fails: "calls s t = Creating \<Longrightarrow> lazy_socket prepare t s (Inr (go t Created (s\<lparr>static_fd := -1\<rparr>)))"
| no_socket: "calls s t = Created \<Longrightarrow> static_fd s = -1 \<Longrightarrow> lazy_socket prepare t s (Inl (Exit 1))"
| set_up: "calls s t = Created \<Longrightarrow> static_fd s \<noteq> -1 \<Longrightarrow> prepare (static_fd s) s = Inr s' \<Longrightarrow>
    lazy_socket prepare t s (Inr (go t Returning s'))"
| set_up_fails: "calls s t = Created \<Longrightarrow> static_fd s \<noteq> -1 \<Longrightarrow> prepare (static_fd s) s = Inl e \<Longrightarrow>
    lazy_socket prepare t s (Inl e)"
| return_fd: "calls s t = Returning \<Longrightarrow> lazy_socket prepare t s (Inr (go t (Got (static_fd s)) s))"

definition server_setup :: "config_map \<Rightarrow> int \<Rightarrow> sockets \<Rightarrow> sockets c_result" where
  "server_setup config fd s = result_bind (server_port config) (\<lambda>port. bind_fd fd port s)"

definition get_client_socket_fd :: "nat \<Rightarrow> sockets \<Rightarrow> sockets c_result \<Rightarrow> bool" where
  "get_client_socket_fd t s r = lazy_socket (\<lambda>fd s. Inr s) t s r"

definition server_socket_fd :: "config_map \<Rightarrow> nat \<Rightarrow> sockets \<Rightarrow> sockets c_result \<Rightarrow> bool" where
  "server_socket_fd config t s r = lazy_socket (server_setup config) t s r"

text \<open>Runs of the calls of all threads; in a serial run no call begins while another one is under way.\<close>

inductive calls_run :: "(nat \<Rightarrow> sockets \<Rightarrow> sockets c_result \<Rightarrow> bool) \<Rightarrow> sockets \<Rightarrow> sockets \<Rightarrow> bool" for f s0 where
  calls_start: "calls_run f s0 s0"
| calls_next: "calls_run f s0 s \<Longrightarrow> f t s (Inr s') \<Longrightarrow> calls_run f s0 s'"

fun under_way :: "fd_pc \<Rightarrow> bool" where
  "under_way Entered = False"
| "under_way (Got fd) = False"
| "under_way _ = True"

inductive serial_run :: "(nat \<Rightarrow> sockets \<Rightarrow> sockets c_result \<Rightarrow> bool) \<Rightarrow> sockets \<Rightarrow> sockets \<Rightarrow> bool" for f s0 where
  serial_start: "serial_run f s0 s0"
| serial_next: "serial_run f s0 s \<Longrightarrow> f t s (Inr s') \<Longrightarrow> \<forall>u. u \<noteq> t \<longrightarrow> \<not> under_way (calls s u) \<Longrightarrow>
    serial_run f s0 s'"

section \<open>One socket for all, if calls do not overlap\<close>

text \<open>\<open>ready\<close> is what the set-up of a socket achieves, on the ports that sockets are bound to.\<close>

definition fds_ok :: "(int \<Rightarrow> (int \<Rightarrow> (16 word) option) \<Rightarrow> bool) \<Rightarrow> sockets \<Rightarrow> bool" where
  "fds_ok ready s \<longleftrightarrow>
     0 \<le> next_fd s \<and>
     (\<forall>t. calls s t = Creating \<longrightarrow> static_fd s = -1) \<and>
     (\<forall>t u fd. calls s t = Created \<longrightarrow> calls s u \<noteq> Got fd) \<and>
     (\<forall>t. calls s t = Returning \<longrightarrow> static_fd s \<noteq> -1) \<and>
     (\<forall>t fd. calls s t = Got fd \<longrightarrow> static_fd s \<noteq> -1 \<and> fd = static_fd s) \<and>
     (static_fd s \<noteq> -1 \<and> (\<forall>t. calls s t \<noteq> Created) \<longrightarrow> ready (static_fd s) (local_port s))"

locale socket_setup =
  fixes prepare :: "int \<Rightarrow> sockets \<Rightarrow> sockets c_result"
    and ready :: "int \<Rightarrow> (int \<Rightarrow> (16 word) option) \<Rightarrow> bool"
  assumes prepared: "prepare fd s = Inr s' \<Longrightarrow> ready fd (local_port s')"
    and prepare_keeps: "prepare fd s = Inr s' \<Longrightarrow>
      static_fd s' = static_fd s \<and> next_fd s' = next_fd s \<and> calls s' = calls s"
begin

lemma serial_step_ok:
  assumes "lazy_socket prepare t s (Inr s')" and "\<forall>u. u \<noteq> t \<longrightarrow> \<not> under_way (calls s u)" and ok: "fds_ok ready s"
  shows "fds_ok ready s'"
proof -
  have others: "calls s u = Creating \<Longrightarrow> u = t" "calls s u = Created \<Longrightarrow> u = t" "calls s u = Returning \<Longrightarrow> u = t" for u
    using assms(2) by (metis under_way.simps)+
  note fds_ok_def [simp] go_def [simp]
  show ?thesis
    using assms(1)
  proof (cases rule: lazy_socket.cases)
    case test_set
    then have "calls s u \<noteq> Created" for u using others(2)[of u] by auto
    with test_set ok show ?thesis by auto
  next
    case return_fd
    then have "calls s u \<noteq> Created" for u using others(2)[of u] by auto
    with return_fd ok show ?thesis by auto
  next
    case create
    then show ?thesis using ok by (auto dest: others)
  next
    case create_fails
    then show ?thesis using ok by (auto dest: others)
  next
    case (set_up s1)
    then show ?thesis using ok prepared[OF set_up(4)] prepare_keeps[OF set_up(4)] by (auto dest: others)
  qed (use ok in \<open>auto dest: others\<close>)
qed

lemma serial_run_ok: "serial_run (lazy_socket prepare) s0 s \<Longrightarrow> fds_ok ready s0 \<Longrightarrow> fds_ok ready s"
  by (induction rule: serial_run.induct) (auto intro: serial_step_ok)

end

lemma no_sockets_ok: "fds_ok ready no_sockets"
  by (simp add: fds_ok_def no_sockets_def)

interpretation client_socket: socket_setup "\<lambda>fd s. Inr s" "\<lambda>fd ports. True"
  by unfold_locales auto

interpretation server_socket: socket_setup "server_setup config"
  "\<lambda>fd ports. \<exists>port. server_port config = Inr port \<and> ports fd = Some port" for config
  by unfold_locales (auto simp: server_setup_def bind_fd_def result_simps split: if_splits)

text \<open>C35: as long as calls of \<open>server_socket_fd\<close> do not overlap, all of them return the same socket, the one the
  static variable holds, and it is bound to the configured port.\<close>

theorem serial_calls_share_socket:
  assumes "serial_run (server_socket_fd config) no_sockets s" and "calls s t = Got fd" and "calls s u = Got fd'"
  shows "fd = fd' \<and> fd = static_fd s \<and> fd \<noteq> -1 \<and>
    (\<exists>port. server_port config = Inr port \<and> local_port s fd = Some port)"
proof -
  have "serial_run (lazy_socket (server_setup config)) no_sockets s"
    using assms(1) by (simp add: server_socket_fd_def[abs_def])
  from server_socket.serial_run_ok[OF this no_sockets_ok]
  have ok: "fds_ok (\<lambda>fd ports. \<exists>port. server_port config = Inr port \<and> ports fd = Some port) s" .
  have "calls s v \<noteq> Created" for v using ok assms(2) by (auto simp: fds_ok_def)
  moreover have "static_fd s \<noteq> -1 \<and> fd = static_fd s" "fd' = static_fd s"
    using ok assms(2,3) unfolding fds_ok_def by blast+
  ultimately show ?thesis using ok by (simp add: fds_ok_def)
qed

text \<open>Two threads that both find the variable unset: the first has returned, the second has its own socket.\<close>

definition raced :: "(int \<Rightarrow> (16 word) option) \<Rightarrow> sockets" where
  "raced ports = \<lparr>static_fd = 4, next_fd = 5, local_port = ports,
     calls = (\<lambda>_. Entered)(0 := Got 3, 1 := Created)\<rparr>"

lemma race:
  assumes "\<And>s. local_port s = (\<lambda>_. None) \<Longrightarrow> prepare 3 s = Inr (s\<lparr>local_port := ports\<rparr>)"
  shows "calls_run (lazy_socket prepare) no_sockets (raced ports)"
proof -
  let ?run = "calls_run (lazy_socket prepare) no_sockets"
  have "?run (go 0 Creating no_sockets)"
    by (rule calls_next[OF calls_start], rule test_unset) (simp_all add: no_sockets_def)
  then have "?run (go 1 Creating (go 0 Creating no_sockets))"
    by (rule calls_next) (rule test_unset, simp_all add: no_sockets_def go_def)
  then have "?run (go 0 Created ((go 1 Creating (go 0 Creating no_sockets))\<lparr>static_fd := 3, next_fd := 4\<rparr>))"
    using create[of "go 1 Creating (go 0 Creating no_sockets)" 0 prepare]
    by (auto simp: no_sockets_def go_def elim: calls_next)
  then have "?run (go 0 Returning ((go 1 Creating no_sockets)\<lparr>static_fd := 3, next_fd := 4, local_port := ports\<rparr>))"
    using set_up[of "go 0 Created ((go 1 Creating (go 0 Creating no_sockets))\<lparr>static_fd := 3, next_fd := 4\<rparr>)" 0 prepare]
      assms[of "go 0 Created ((go 1 Creating (go 0 Creating no_sockets))\<lparr>static_fd := 3, next_fd := 4\<rparr>)"]
    by (auto simp: no_sockets_def go_def elim: calls_next)
  then have "?run (go 0 (Got 3) ((go 1 Creating no_sockets)\<lparr>static_fd := 3, next_fd := 4, local_port := ports\<rparr>))"
    using return_fd[of "go 0 Returning ((go 1 Creating no_sockets)\<lparr>static_fd := 3, next_fd := 4, local_port := ports\<rparr>)" 0 prepare]
    by (auto simp: no_sockets_def go_def elim: calls_next)
  then show ?thesis
    using create[of "go 0 (Got 3) ((go 1 Creating no_sockets)\<lparr>static_fd := 3, next_fd := 4, local_port := ports\<rparr>)" 1 prepare]
    by (auto simp: no_sockets_def go_def raced_def fun_upd_twist elim: calls_next)
qed

text \<open>When calls overlap, the client's receiving thread, number 0, then waits on one socket for ever, while the
  variable, and so every later request, has the other.\<close>

lemma client_sockets_may_differ:
  "\<exists>s. calls_run get_client_socket_fd no_sockets s \<and> calls s 0 = Got 3 \<and> calls s 1 = Got 4 \<and> static_fd s = 4"
proof -
  let ?s = "raced (\<lambda>_. None)"
  have f: "get_client_socket_fd = lazy_socket (\<lambda>fd s. Inr s)" by (intro ext) (simp add: get_client_socket_fd_def)
  have "calls_run (lazy_socket (\<lambda>fd s. Inr s)) no_sockets ?s"
    by (rule race) simp
  then have "calls_run (lazy_socket (\<lambda>fd s. Inr s)) no_sockets (go 1 Returning ?s)"
    by (rule calls_next) (rule set_up, simp_all add: raced_def)
  then have "calls_run (lazy_socket (\<lambda>fd s. Inr s)) no_sockets (go 1 (Got 4) ?s)"
    using return_fd[of "go 1 Returning ?s" 1 "\<lambda>fd s. Inr s"] by (auto simp: raced_def go_def elim: calls_next)
  then show ?thesis unfolding f by (intro exI[of _ "go 1 (Got 4) ?s"]) (simp add: raced_def go_def)
qed

text \<open>The server's second socket finds the port taken, and the process ends.\<close>

lemma server_socket_race_ends_process:
  assumes "server_port config = Inr port"
  shows "\<exists>s. calls_run (server_socket_fd config) no_sockets s \<and> calls s 0 = Got 3 \<and>
    server_socket_fd config 1 s (Inl (Exit 1))"
proof -
  let ?s = "raced ((\<lambda>_. None)(3 := Some port))"
  have f: "server_socket_fd config = lazy_socket (server_setup config)"
    by (intro ext) (simp add: server_socket_fd_def)
  have "calls_run (lazy_socket (server_setup config)) no_sockets ?s"
    using assms by (intro race) (auto simp: server_setup_def bind_fd_def)
  moreover have "lazy_socket (server_setup config) 1 ?s (Inl (Exit 1))"
    using assms by (intro set_up_fails) (auto simp: raced_def server_setup_def bind_fd_def)
  ultimately show ?thesis unfolding f by (intro exI[of _ ?s]) (simp add: raced_def)
qed

lemma serial_calls_share_socket_witness:
  "\<exists>s. serial_run (server_socket_fd server_defaults) no_sockets s \<and> calls s 0 = Got 3 \<and> calls s 1 = Got 3 \<and>
    (\<exists>port. local_port s 3 = Some port)"
proof -
  let ?run = "serial_run (server_socket_fd server_defaults) no_sockets"
  obtain port where port: "server_port server_defaults = Inr port"
    by (simp add: server_port_def get_config_value_def server_defaults_def hash_find_def)
  define st where "st p q = \<lparr>static_fd = 3, next_fd = 4, local_port = (\<lambda>_. None)(3 := Some port),
     calls = (\<lambda>_. Entered)(0 := p, 1 := q)\<rparr>" for p q
  let ?created = "\<lparr>static_fd = 3, next_fd = 4, local_port = (\<lambda>_. None), calls = (\<lambda>_. Entered)(0 := Created)\<rparr>"
  have e: "(\<lambda>_. Entered)(0 := p, Suc 0 := Entered) = (\<lambda>_. Entered)(0 := p)" for p by auto
  note f = server_socket_fd_def and idle = no_sockets_def go_def st_def e
  have onward: "serial_run (server_socket_fd server_defaults) no_sockets s'"
    if "?run s" "lazy_socket (server_setup server_defaults) t s (Inr s')" "\<forall>u. u \<noteq> t \<longrightarrow> \<not> under_way (calls s u)" for s s' t
    using that by (auto simp: f intro: serial_next)
  have "?run (go 0 Creating no_sockets)"
    by (rule onward[OF serial_start]) (rule test_unset, simp_all add: no_sockets_def)
  then have "?run ?created"
    by (rule onward) (use create[of "go 0 Creating no_sockets" 0] in \<open>simp_all add: idle\<close>)
  then have "?run (st Returning Entered)"
    by (rule onward) (use set_up[of ?created 0 "server_setup server_defaults"] port in
        \<open>simp_all add: idle server_setup_def bind_fd_def\<close>)
  then have "?run (st (Got 3) Entered)"
    by (rule onward) (use return_fd[of "st Returning Entered" 0] in \<open>simp_all add: idle\<close>)
  then have "?run (st (Got 3) Returning)"
    by (rule onward) (use test_set[of "st (Got 3) Entered" 1] in \<open>simp_all add: idle\<close>)
  then have run: "?run (st (Got 3) (Got 3))"
    by (rule onward) (use return_fd[of "st (Got 3) Returning" 1] in \<open>simp_all add: idle\<close>)
  moreover have "calls (st (Got 3) (Got 3)) 0 = Got 3" "calls (st (Got 3) (Got 3)) 1 = Got 3" by (simp_all add: st_def)
  ultimately show ?thesis using serial_calls_share_socket[OF run] by blast
qed

end
