(* ===== verification/UtHashKeys.thy ===== *)
theory UtHashKeys
  imports UtHash Config
begin

text \<open>
  The forms of the hash table's macros for keys that are strings, integers and pointers (\<open>HASH_FIND_STR\<close>,
  \<open>HASH_ADD_STR\<close> and so on), and the table of the configuration on them: \<open>mtn-config.c\<close> as it runs on the
  buckets and nodes in memory, which implements the table of \<open>Config\<close>.
\<close>

unbundle bit_operations_syntax

section \<open>Keys as bytes\<close>

text \<open>The bytes of a string up to its terminator; of an \<open>int\<close> and a pointer on a little-endian machine.\<close>

definition str_key :: "string \<Rightarrow> hash_key" where
  "str_key s = map (\<lambda>c. word_of_nat (of_char c)) s"

definition int_key :: "32 word \<Rightarrow> hash_key" where
  "int_key w = [ucast w, ucast (drop_bit 8 w), ucast (drop_bit 16 w), ucast (drop_bit 24 w)]"

definition ptr_key :: "64 word \<Rightarrow> hash_key" where
  "ptr_key w = int_key (ucast w) @ int_key (ucast (drop_bit 32 w))"

lemma str_key_inj [simp]: "str_key s = str_key s' \<longleftrightarrow> s = s'"
proof -
  have "inj (\<lambda>c :: char. word_of_nat (of_char c) :: 8 word)"
  proof (rule injI)
    fix c d :: char assume "(word_of_nat (of_char c) :: 8 word) = word_of_nat (of_char d)"
    moreover have "of_char c < (256 :: nat)" "of_char d < (256 :: nat)" by (simp_all add: nat_of_char_less_256)
    ultimately have "(of_char c :: nat) = of_char d" by (simp add: word_of_nat_eq_iff take_bit_nat_eq_self)
    then show "c = d" by simp
  qed
  then show ?thesis by (simp add: str_key_def inj_map_eq_map)
qed

lemma int_key_inj [simp]: "int_key v = int_key w \<longleftrightarrow> v = w"
proof
  assume eq: "int_key v = int_key w"
  show "v = w"
  proof (rule bit_word_eqI)
    fix n assume "n < LENGTH(32)"
    then obtain k where k: "k \<in> {0, 8, 16, 24}" "k \<le> n" "n - k < 8"
      by (cases "n < 8"; cases "n < 16"; cases "n < 24") (use that in force)+
    have b: "bit (ucast (drop_bit k x) :: 8 word) (n - k) = bit x n" for x :: "32 word"
      using k(2,3) by (simp add: bit_ucast_iff bit_drop_bit_eq)
    have "(ucast (drop_bit k v) :: 8 word) = ucast (drop_bit k w)" using eq k(1) by (auto simp: int_key_def)
    then show "bit v n = bit w n" using b[of v] b[of w] by simp
  qed
qed simp

lemma length_int_key [simp]: "length (int_key w) = 4"
  by (simp add: int_key_def)

lemma ptr_key_inj [simp]: "ptr_key v = ptr_key w \<longleftrightarrow> v = w"
proof
  assume "ptr_key v = ptr_key w"
  then have eq: "(ucast v :: 32 word) = ucast w" "(ucast (drop_bit 32 v) :: 32 word) = ucast (drop_bit 32 w)"
    by (simp_all add: ptr_key_def)
  show "v = w"
  proof (rule bit_word_eqI)
    fix n assume n: "n < LENGTH(64)"
    have b: "bit (ucast v :: 32 word) n = bit (ucast w :: 32 word) n"
      "bit (ucast (drop_bit 32 v) :: 32 word) (n - 32) = bit (ucast (drop_bit 32 w) :: 32 word) (n - 32)"
      using eq by simp_all
    show "bit v n = bit w n"
      using n b by (cases "n < 32") (auto simp: bit_ucast_iff bit_drop_bit_eq)
  qed
qed simp

section \<open>The macros for these keys\<close>

definition hash_find_str :: "'p ut_hash \<Rightarrow> string \<Rightarrow> 'p option c_result option" where
  "hash_find_str head findstr = uthash_find head (str_key findstr)"

definition hash_add_str :: "(nat \<Rightarrow> bool) \<Rightarrow> string \<Rightarrow> 'p \<Rightarrow> 'p ut_hash \<Rightarrow> 'p ut_hash c_result option" where
  "hash_add_str mem strfield add head = uthash_add mem (str_key strfield) add head"

definition hash_find_int :: "'p ut_hash \<Rightarrow> 32 word \<Rightarrow> 'p option c_result option" where
  "hash_find_int head findint = uthash_find head (int_key findint)"

definition hash_add_int :: "(nat \<Rightarrow> bool) \<Rightarrow> 32 word \<Rightarrow> 'p \<Rightarrow> 'p ut_hash \<Rightarrow> 'p ut_hash c_result option" where
  "hash_add_int mem intfield add head = uthash_add mem (int_key intfield) add head"

definition hash_find_ptr :: "'p ut_hash \<Rightarrow> 64 word \<Rightarrow> 'p option c_result option" where
  "hash_find_ptr head findptr = uthash_find head (ptr_key findptr)"

definition hash_add_ptr :: "(nat \<Rightarrow> bool) \<Rightarrow> 64 word \<Rightarrow> 'p \<Rightarrow> 'p ut_hash \<Rightarrow> 'p ut_hash c_result option" where
  "hash_add_ptr mem ptrfield add head = uthash_add mem (ptr_key ptrfield) add head"

section \<open>Nodes in a table\<close>

text \<open>
  A client's table: the macros for one kind of key, and the nodes the table links, with their values. The
  locale's lemmas turn what a search or an addition does to the buckets into what it does to a table of keys
  and values.
\<close>

locale key_bytes =
  fixes enc :: "'k \<Rightarrow> hash_key"
  assumes enc_inj: "enc k = enc k' \<Longrightarrow> k = k'"
begin

definition encoded :: "('k \<times> 'p) list \<Rightarrow> (hash_key, 'p) hash" where
  "encoded es = map (\<lambda>(k, p). (enc k, p)) es"

definition values_of :: "('p \<Rightarrow> 'v) \<Rightarrow> ('k \<times> 'p) list \<Rightarrow> ('k, 'v) hash" where
  "values_of val es = map (\<lambda>(k, p). (k, val p)) es"

lemma find_encoded: "hash_find (encoded es) (enc k) = map_of es k"
  by (induction es) (auto simp: encoded_def hash_find_def dest: enc_inj)

lemma find_values: "hash_find (values_of val es) k = map_option val (map_of es k)"
  by (induction es) (auto simp: values_of_def hash_find_def)

lemma find_node: "hash_holds h (encoded es) \<Longrightarrow> uthash_find h (enc k) = Some (Inr (map_of es k))"
  by (simp add: uthash_find_holds find_encoded)

lemma add_node:
  assumes "hash_holds h (encoded es)" and "map_of es k = None" and "p \<notin> snd ` set es"
    and "length es < 2 ^ 32 - 1" and "\<not> mem (2 ^ 31)"
  shows "uthash_add mem (enc k) p h = Some (Inl (Exit (-1))) \<or>
    (\<exists>h'. uthash_add mem (enc k) p h = Some (Inr h') \<and> hash_holds h' (encoded (es @ [(k, p)])))"
proof -
  have "enc k \<notin> set (hash_keys (encoded es))"
    using assms(2) find_encoded[of es k] by (simp add: hash_find_None_iff)
  moreover have "p \<notin> snd ` set (encoded es)" using assms(3) by (force simp: encoded_def)
  moreover have "hash_add (encoded es) (enc k) p = encoded (es @ [(k, p)])" by (simp add: encoded_def hash_add_def)
  ultimately show ?thesis
    using uthash_add_holds[of h "encoded es" "enc k" p mem] assms(1,4,5) by (simp add: encoded_def)
qed

lemma values_of_add:
  "p \<notin> snd ` set es \<Longrightarrow> values_of (val(p := v)) (es @ [(k, p)]) = hash_add (values_of val es) k v"
  by (force simp: values_of_def hash_add_def)

lemma values_of_change:
  "distinct (map fst es) \<Longrightarrow> distinct (map snd es) \<Longrightarrow> map_of es k = Some p \<Longrightarrow>
   values_of (val(p := v)) es = hash_change (values_of val es) k (\<lambda>_. v)"
proof (induction es)
  case (Cons e es)
  obtain k' p' where e: "e = (k', p')" by (cases e)
  show ?case
  proof (cases "k' = k")
    case True
    then have "p' = p" "p \<notin> snd ` set es" "k \<notin> fst ` set es" using Cons.prems e by auto
    with True e show ?thesis by (force simp: values_of_def hash_change_def)
  next
    case False
    then have "p \<in> snd ` set es" using Cons.prems(3) e by (force dest: map_of_SomeD)
    then have "p' \<noteq> p" using Cons.prems(2) e by auto
    with False Cons e show ?thesis by (simp add: values_of_def hash_change_def)
  qed
qed simp

lemma encoded_distinct: "hash_holds h (encoded es) \<Longrightarrow> distinct (map fst es) \<and> distinct (map snd es)"
  by (auto simp: hash_holds_def encoded_def hash_ok_def hash_keys_def comp_def case_prod_unfold distinct_map
      inj_on_def)

end

interpretation str_keys: key_bytes str_key
  by unfold_locales simp

interpretation int_keys: key_bytes int_key
  by unfold_locales simp

interpretation ptr_keys: key_bytes ptr_key
  by unfold_locales simp

section \<open>The configuration's table\<close>

text \<open>
  The nodes are numbered in the order \<open>malloc\<close> returns them; \<open>got\<close> says for which of them, and its value's block,
  there is memory. Nodes are never freed.
\<close>

record config_table =
  ct_head :: "nat ut_hash"
  ct_value :: "nat \<Rightarrow> string"
  ct_next :: nat

definition no_config :: "nat ut_hash \<Rightarrow> config_table" where
  "no_config h = \<lparr>ct_head = empty_hash h, ct_value = (\<lambda>_. []), ct_next = 0\<rparr>"

fun init_nodes_from_array ::
    "(nat \<Rightarrow> bool) \<Rightarrow> (nat \<Rightarrow> bool) \<Rightarrow> nat \<Rightarrow> (string \<times> string) list \<Rightarrow> config_table \<Rightarrow> config_table c_result option" where
  "init_nodes_from_array mem got usable [] t = Some (Inr t)"
| "init_nodes_from_array mem got usable ((name, v) # config_array) t =
     (let node = ct_next t in
      if \<not> got node then Some (Inl (Exit 1))
      else if MTN_CFG_NAME_LEN \<le> length name then Some (Inl Buffer_overflow)
      else if usable \<le> length v then Some (Inl Buffer_overflow)
      else loop_bind (hash_add_str mem name node (ct_head t)) (\<lambda>head.
        init_nodes_from_array mem got usable config_array
          (t\<lparr>ct_head := head, ct_value := (ct_value t)(node := v), ct_next := node + 1\<rparr>)))"

text \<open>\<open>again\<close> is the success of \<open>realloc\<close>, which gives the value's block the same size once more.\<close>

definition get_node_value :: "config_table \<Rightarrow> string \<Rightarrow> string option c_result option" where
  "get_node_value t name =
     loop_bind (hash_find_str (ct_head t) name) (\<lambda>node. Some (Inr (map_option (ct_value t) node)))"

definition set_node_value ::
    "bool \<Rightarrow> nat \<Rightarrow> string \<Rightarrow> string \<Rightarrow> config_table \<Rightarrow> (bool \<times> config_table) c_result option" where
  "set_node_value again usable name v t =
     loop_bind (hash_find_str (ct_head t) name) (\<lambda>node. Some (
       case node of
         Some node \<Rightarrow>
           if \<not> again then Inl (Exit 1)
           else if usable \<le> length v then Inl Buffer_overflow
           else Inr (True, t\<lparr>ct_value := (ct_value t)(node := v)\<rparr>)
       | None \<Rightarrow> Inr (False, t)))"

definition config_holds :: "config_table \<Rightarrow> config_map \<Rightarrow> bool" where
  "config_holds t m \<longleftrightarrow> (\<exists>es. hash_holds (ct_head t) (str_keys.encoded es) \<and> m = str_keys.values_of (ct_value t) es \<and>
     (\<forall>p \<in> snd ` set es. p < ct_next t))"

lemma get_node_holds: "config_holds t m \<Longrightarrow> get_node_value t name = Some (Inr (get_config_value m name))"
  by (auto simp: config_holds_def get_node_value_def hash_find_str_def get_config_value_def
      str_keys.find_node str_keys.find_values)

lemma set_node_holds:
  assumes "config_holds t m"
  shows "set_node_value False usable name v t =
      (if hash_find m name = None then Some (Inr (False, t)) else Some (Inl (Exit 1)))"
    and "case set_config_value usable name v m of
      Inl e \<Rightarrow> set_node_value True usable name v t = Some (Inl e)
    | Inr (found, m') \<Rightarrow> \<exists>t'. set_node_value True usable name v t = Some (Inr (found, t')) \<and> config_holds t' m'"
proof -
  obtain es where es: "hash_holds (ct_head t) (str_keys.encoded es)" "m = str_keys.values_of (ct_value t) es"
    "\<forall>p \<in> snd ` set es. p < ct_next t" using assms by (auto simp: config_holds_def)
  show "set_node_value False usable name v t =
      (if hash_find m name = None then Some (Inr (False, t)) else Some (Inl (Exit 1)))"
    using es by (auto simp: set_node_value_def hash_find_str_def str_keys.find_node str_keys.find_values split: option.split)
  show "case set_config_value usable name v m of
      Inl e \<Rightarrow> set_node_value True usable name v t = Some (Inl e)
    | Inr (found, m') \<Rightarrow> \<exists>t'. set_node_value True usable name v t = Some (Inr (found, t')) \<and> config_holds t' m'"
  proof (cases "map_of es name")
    case None
    then show ?thesis using es assms
      by (simp add: set_config_value_def set_node_value_def hash_find_str_def str_keys.find_node str_keys.find_values)
  next
    case (Some p)
    have "str_keys.values_of ((ct_value t)(p := v)) es = hash_change m name (\<lambda>_. v)"
      using str_keys.encoded_distinct[OF es(1)] str_keys.values_of_change[OF _ _ Some] es(2) by simp
    then have "config_holds (t\<lparr>ct_value := (ct_value t)(p := v)\<rparr>) (hash_change m name (\<lambda>_. v))"
      using es by (auto simp: config_holds_def intro!: exI[of _ es])
    with Some es show ?thesis
      by (simp add: set_config_value_def set_node_value_def hash_find_str_def str_keys.find_node str_keys.find_values)
  qed
qed

text \<open>Every node of the array is added under a name that is not in the table.\<close>

lemma init_nodes_hold:
  assumes "config_holds t m" and "distinct (map fst config_array)"
    and "set (map fst config_array) \<inter> set (hash_keys m) = {}" and "length m + length config_array < 2 ^ 32"
    and "\<not> mem (2 ^ 31)"
  shows "case init_config_from_array usable config_array m of
      Inl e \<Rightarrow> \<exists>e'. init_nodes_from_array mem got usable config_array t = Some (Inl e') \<and> (e' = e \<or> e' \<in> {Exit 1, Exit (-1)})
    | Inr m' \<Rightarrow> (\<exists>e'. init_nodes_from_array mem got usable config_array t = Some (Inl e') \<and> e' \<in> {Exit 1, Exit (-1)}) \<or>
        (\<exists>t'. init_nodes_from_array mem got usable config_array t = Some (Inr t') \<and> config_holds t' m')"
  using assms(1-4)
proof (induction config_array arbitrary: t m)
  case (Cons e config_array)
  obtain name v where e: "e = (name, v)" by (cases e)
  show ?case
  proof (cases "got (ct_next t) \<and> \<not> MTN_CFG_NAME_LEN \<le> length name \<and> \<not> usable \<le> length v")
    case False
    then show ?thesis using e by (auto simp: Let_def split: sum.split)
  next
    case True
    obtain es where es: "hash_holds (ct_head t) (str_keys.encoded es)" "m = str_keys.values_of (ct_value t) es"
      "\<forall>p \<in> snd ` set es. p < ct_next t" using Cons.prems(1) by (auto simp: config_holds_def)
    have new: "map_of es name = None"
      using Cons.prems(3) e es(2) by (auto simp: hash_keys_def str_keys.values_of_def map_of_eq_None_iff image_iff)
    have p: "ct_next t \<notin> snd ` set es" using es(3) by auto
    have "length es < 2 ^ 32 - 1" using Cons.prems(4) es(2) by (simp add: str_keys.values_of_def)
    from str_keys.add_node[where mem = mem, OF es(1) new p this assms(5)] show ?thesis
    proof (elim disjE exE conjE)
      assume "uthash_add mem (str_key name) (ct_next t) (ct_head t) = Some (Inl (Exit (- 1)))"
      then show ?thesis using True e by (auto simp: Let_def hash_add_str_def split: sum.split)
    next
      fix h' assume h: "uthash_add mem (str_key name) (ct_next t) (ct_head t) = Some (Inr h')"
        "hash_holds h' (str_keys.encoded (es @ [(name, ct_next t)]))"
      let ?t = "t\<lparr>ct_head := h', ct_value := (ct_value t)(ct_next t := v), ct_next := ct_next t + 1\<rparr>"
      have "config_holds ?t (hash_add m name v)"
        using h(2) str_keys.values_of_add[OF p, where k = name and v = v and val = "ct_value t"] es(2,3)
        unfolding config_holds_def by (intro exI[of _ "es @ [(name, ct_next t)]"]) (auto simp: less_Suc_eq)
      moreover have "set (map fst config_array) \<inter> set (hash_keys (hash_add m name v)) = {}"
        using Cons.prems(2,3) e by (auto simp: hash_keys_def hash_add_def)
      moreover have "distinct (map fst config_array)" "length (hash_add m name v) + length config_array < 2 ^ 32"
        using Cons.prems(2,4) e by (simp_all add: hash_add_def)
      moreover have "init_nodes_from_array mem got usable (e # config_array) t =
          init_nodes_from_array mem got usable config_array ?t"
        "init_config_from_array usable (e # config_array) m =
          init_config_from_array usable config_array (hash_add m name v)"
        using True e h(1) by (simp_all add: Let_def hash_add_str_def)
      ultimately show ?thesis using Cons.IH[of ?t "hash_add m name v"] by (simp only: simp_thms)
    qed
  qed
qed simp

text \<open>The table of a started server, changed by any sequence of settings.\<close>

fun set_step :: "(string \<Rightarrow> bool) \<Rightarrow> nat \<Rightarrow> string \<times> string \<Rightarrow> config_table \<Rightarrow> config_table c_result option" where
  "set_step again usable (name, v) t =
     loop_bind (set_node_value (again v) usable name v t) (\<lambda>(found, t). Some (Inr t))"

fun config_step :: "nat \<Rightarrow> string \<times> string \<Rightarrow> config_map \<Rightarrow> config_map" where
  "config_step usable (name, v) m = (case set_config_value usable name v m of Inl e \<Rightarrow> m | Inr (found, m') \<Rightarrow> m')"

interpretation settings: partial_simulation config_holds "set_step again usable" "config_step usable"
  "\<lambda>(name, v) m. length v < usable" "\<lambda>e. e = Exit 1" for again usable
proof (unfold_locales, goal_cases)
  case (1 t m op)
  obtain name v where op: "op = (name, v)" by (cases op)
  have "\<exists>found m'. set_config_value usable name v m = Inr (found, m')"
    using 1(2) op by (auto simp: set_config_value_def split: option.split)
  then show ?case
    using set_node_holds[OF 1(1), of usable name v] op 1(1)
    by (cases "again v") (auto simp: set_config_value_def split: option.splits)
qed

lemma config_runs_on_buckets:
  assumes "init_config_from_array usable config_array [] = Inr m" and "distinct (map fst config_array)"
    and "length config_array < 2 ^ 32" and "\<forall>(name, v) \<in> set sets. length v < usable" and "\<not> mem (2 ^ 31)"
  shows "(\<exists>e \<in> {Exit 1, Exit (-1)}. loop_bind (init_nodes_from_array mem got usable config_array (no_config h))
      (run_ops (set_step again usable) sets) = Some (Inl e)) \<or>
    (\<exists>t. loop_bind (init_nodes_from_array mem got usable config_array (no_config h))
       (run_ops (set_step again usable) sets) = Some (Inr t) \<and>
      (\<forall>name. get_node_value t name = Some (Inr (get_config_value (fold (config_step usable) sets m) name))))"
proof -
  have "config_holds (no_config h) []"
    using hash_holds_empty[of h]
    by (auto simp: config_holds_def no_config_def str_keys.encoded_def str_keys.values_of_def intro!: exI[of _ "[]"])
  from init_nodes_hold[where mem = mem and usable = usable and got = got, OF this assms(2) _ _ assms(5)] assms(1,3)
  consider e where "init_nodes_from_array mem got usable config_array (no_config h) = Some (Inl e)" "e \<in> {Exit 1, Exit (-1)}"
    | t where "init_nodes_from_array mem got usable config_array (no_config h) = Some (Inr t)" "config_holds t m"
    by (auto simp: hash_keys_def)
  then show ?thesis
  proof cases
    case (2 t)
    have "ops_allowed (\<lambda>(name, v) m. length v < usable) (config_step usable) sets m"
      using assms(4) by (induction sets arbitrary: m) auto
    from settings.run_simulates_or_gives_up[OF 2(2) this, of again] 2(1) show ?thesis
      using get_node_holds by fastforce
  qed auto
qed

end
