(* ===== verification/MessageQueue.thy ===== *)
theory MessageQueue
  imports Transmitter UtList
begin

text \<open>
  The server's messages in memory: the loading thread of \<open>mtn-server-data-message.c\<close> allocates a
  message, one node per block and one per queued message, and links them with \<open>DL_APPEND\<close>; the
  threads of \<open>mtn-server-transmitter.c\<close> follow these links and unlink the head. Messages, blocks and
  nodes are addresses that \<open>malloc\<close> gives out of those not in use. Loading and sending on this
  memory are shown to implement the loading and sending of lists of messages and blocks.
\<close>

section \<open>The memory\<close>

record stored_message =
  st_release_time :: int
  st_id :: int
  st_file_name :: string
  st_blocks_count :: nat
  st_blocks :: "nat option"

text \<open>
  \<open>None\<close> is an address without an object of the field's type. The links of all blocks are two
  functions, those of the nodes of the queue with its head one list; the last three fields are
  the static variables of the loading thread.
\<close>

record message_memory =
  in_use :: "nat list"
  msg_at :: "nat \<Rightarrow> stored_message option"
  block_data :: "nat \<Rightarrow> string option"
  block_next :: "nat \<Rightarrow> nat option"
  block_prev :: "nat \<Rightarrow> nat option"
  node_data :: "nat \<Rightarrow> nat option"
  queue_links :: "nat ut_list"
  mem_last_id :: int
  mem_last_release_time :: int
  mem_new_message :: bool

definition no_messages :: message_memory where
  "no_messages = \<lparr>in_use = [], msg_at = \<lambda>_. None, block_data = \<lambda>_. None, block_next = \<lambda>_. None,
     block_prev = \<lambda>_. None, node_data = \<lambda>_. None, queue_links = null_list (\<lambda>_. None) (\<lambda>_. None),
     mem_last_id = 0, mem_last_release_time = 0, mem_new_message = False\<rparr>"

text \<open>\<open>malloc\<close> chooses an address when it is told those in use; allocation succeeds.\<close>

definition take_address :: "(nat list \<Rightarrow> nat) \<Rightarrow> message_memory \<Rightarrow> nat \<times> message_memory" where
  "take_address malloc mem = (malloc (in_use mem), mem\<lparr>in_use := malloc (in_use mem) # in_use mem\<rparr>)"

definition new_message :: "(nat list \<Rightarrow> nat) \<Rightarrow> message_memory \<Rightarrow> nat \<times> message_memory" where
  "new_message malloc mem =
     (let (message, mem) = take_address malloc mem in
      (message, mem\<lparr>msg_at := (msg_at mem)(message \<mapsto>
         \<lparr>st_release_time = 0, st_id = 0, st_file_name = [], st_blocks_count = 0, st_blocks = None\<rparr>)\<rparr>))"

definition free_message :: "nat \<Rightarrow> message_memory \<Rightarrow> message_memory" where
  "free_message message mem =
     mem\<lparr>in_use := remove1 message (in_use mem), msg_at := (msg_at mem)(message := None)\<rparr>"

section \<open>Loading\<close>

definition block_list :: "message_memory \<Rightarrow> nat option \<Rightarrow> nat ut_list" where
  "block_list mem head = \<lparr>ul_head = head, ul_next = block_next mem, ul_prev = block_prev mem\<rparr>"

definition store_block :: "(nat list \<Rightarrow> nat) \<Rightarrow> nat \<Rightarrow> string \<Rightarrow> message_memory \<Rightarrow> message_memory c_result" where
  "store_block malloc message buffer mem =
     (let (block, mem) = take_address malloc mem;
          mem = mem\<lparr>block_next := (block_next mem)(block := None), block_prev := (block_prev mem)(block := None),
            block_data := (block_data mem)(block \<mapsto> cstr buffer)\<rparr>
      in case msg_at mem message of
           None \<Rightarrow> Inl Null_pointer
         | Some m \<Rightarrow>
             result_bind (dl_append block (block_list mem (st_blocks m))) (\<lambda>l.
               Inr (mem\<lparr>block_next := ul_next l, block_prev := ul_prev l,
                 msg_at := (msg_at mem)(message \<mapsto>
                   m\<lparr>st_blocks := ul_head l, st_blocks_count := st_blocks_count m + 1\<rparr>)\<rparr>)))"

fun store_blocks ::
    "(nat list \<Rightarrow> nat) \<Rightarrow> nat \<Rightarrow> read_result list \<Rightarrow> message_memory \<Rightarrow> message_memory c_result" where
  "store_blocks malloc message [] mem = Inr mem"
| "store_blocks malloc message (Read_failed # fd) mem = Inr mem"
| "store_blocks malloc message (Chunk buffer # fd) mem =
     (if buffer = [] then Inr mem
      else result_bind (store_block malloc message buffer mem) (store_blocks malloc message fd))"

definition store_node :: "(nat list \<Rightarrow> nat) \<Rightarrow> nat \<Rightarrow> message_memory \<Rightarrow> message_memory c_result" where
  "store_node malloc message mem =
     (let (node, mem) = take_address malloc mem;
          mem = mem\<lparr>node_data := (node_data mem)(node \<mapsto> message),
            queue_links := set_next node None (set_prev node None (queue_links mem))\<rparr>
      in result_bind (dl_append node (queue_links mem)) (\<lambda>l. Inr (mem\<lparr>queue_links := l\<rparr>)))"

definition finish_message :: "int \<Rightarrow> string \<Rightarrow> nat \<Rightarrow> stored_message \<Rightarrow> message_memory \<Rightarrow> message_memory" where
  "finish_message now name message m mem =
     (let new_id = (if now = mem_last_release_time mem then mem_last_id mem + 1 else 0)
      in mem\<lparr>msg_at := (msg_at mem)(message \<mapsto>
             m\<lparr>st_release_time := now, st_id := new_id, st_file_name := name\<rparr>),
           mem_last_id := new_id, mem_last_release_time := now\<rparr>)"

text \<open>An opened file with the results of its reads, and a directory entry.\<close>

definition store_file ::
    "(nat list \<Rightarrow> nat) \<Rightarrow> string \<Rightarrow> int \<Rightarrow> read_result list \<Rightarrow> message_memory \<Rightarrow> message_memory c_result" where
  "store_file malloc d_name c_time fd mem =
     (let (message, mem) = new_message malloc mem in
      result_bind (store_blocks malloc message fd mem) (\<lambda>mem.
        case msg_at mem message of
          None \<Rightarrow> Inl Null_pointer
        | Some m \<Rightarrow>
            if st_blocks_count m = 0 then Inr (free_message message mem)
            else result_bind (current_time c_time) (\<lambda>now.
              store_node malloc message (finish_message now d_name message m mem))))"

definition store_entry ::
    "(nat list \<Rightarrow> nat) \<Rightarrow> string option \<Rightarrow> string \<times> int \<Rightarrow> file_system \<times> message_memory \<Rightarrow>
     (file_system \<times> message_memory) c_result" where
  "store_entry malloc home = (\<lambda>(d_name, c_time) (fs, mem).
     if streq d_name ''.'' \<or> streq d_name ''..'' then Inr (fs, mem)
     else if 4096 \<le> length (USER_NEW_MESSAGE_DIR @ d_name) then Inl Buffer_overflow
     else
       result_bind (load_file home fs (USER_NEW_MESSAGE_DIR @ d_name) O_RDONLY None)
         (\<lambda>(fs, message_file_fd).
           case message_file_fd of
             None \<Rightarrow> Inr (fs, mem)
           | Some fd \<Rightarrow> result_bind (store_file malloc d_name c_time (reads MTN_DM_BLOCK_DATA_LEN fs fd) mem)
                         (\<lambda>mem. Inr (fs, mem))))"

definition store_messages ::
    "(nat list \<Rightarrow> nat) \<Rightarrow> string option \<Rightarrow> (string \<times> int) list \<Rightarrow> file_system \<times> message_memory \<Rightarrow>
     (file_system \<times> message_memory) c_result" where
  "store_messages malloc home listing = (\<lambda>(fs, mem).
     let mem = mem\<lparr>mem_new_message := False\<rparr> in
     result_bind (load_dir home fs USER_NEW_MESSAGE_DIR) (\<lambda>(fs, dir).
       case dir of
         None \<Rightarrow> Inr (fs, mem)
       | Some _ \<Rightarrow> fold_result (store_entry malloc home) listing (fs, mem)))"

section \<open>Sending\<close>

text \<open>The message a node of the queue points to, and a message with the data of its blocks, in order.\<close>

definition node_message :: "message_memory \<Rightarrow> nat option \<Rightarrow> (nat \<times> stored_message) c_result" where
  "node_message mem node =
     (case Option.bind node (node_data mem) of
        None \<Rightarrow> Inl Null_pointer
      | Some message \<Rightarrow>
          (case msg_at mem message of None \<Rightarrow> Inl Null_pointer | Some m \<Rightarrow> Inr (message, m)))"

fun data_of_blocks :: "message_memory \<Rightarrow> nat list \<Rightarrow> string list c_result" where
  "data_of_blocks mem [] = Inr []"
| "data_of_blocks mem (block # bs) =
     (case block_data mem block of
        None \<Rightarrow> Inl Null_pointer
      | Some s \<Rightarrow> result_bind (data_of_blocks mem bs) (\<lambda>ss. Inr (s # ss)))"

definition read_message :: "message_memory \<Rightarrow> nat option \<Rightarrow> data_message c_result option" where
  "read_message mem node =
     loop_bind (Some (node_message mem node)) (\<lambda>(message, m).
       case ll_foreach (block_next mem) (st_blocks m) of
         None \<Rightarrow> None
       | Some bs \<Rightarrow> Some (result_bind (data_of_blocks mem bs) (\<lambda>ds.
           Inr \<lparr>release_time = st_release_time m, message_id = st_id m, file_name = st_file_name m,
             blocks_count = st_blocks_count m, blocks = ds\<rparr>)))"

text \<open>A sending thread reads the message at the head of the queue and sends it.\<close>

definition send_from_memory :: "string \<Rightarrow> message_memory \<Rightarrow> string list c_result option" where
  "send_from_memory rest mem =
     loop_bind (read_message mem (ul_head (queue_links mem))) (\<lambda>m. Some (send_data_message rest m))"

text \<open>
  At the end of the round the head is unlinked; \<open>free(node)\<close> gets the NULL the iteration over the
  clients has left in \<open>node\<close>, so the unlinked node stays in use.
\<close>

definition unlink_message :: "message_memory \<Rightarrow> (nat \<times> message_memory) c_result" where
  "unlink_message mem =
     (case ul_head (queue_links mem) of
        None \<Rightarrow> Inl Null_pointer
      | Some node \<Rightarrow>
          result_bind (node_message mem (Some node)) (\<lambda>(message, m).
            result_bind (dl_delete node (queue_links mem)) (\<lambda>l. Inr (message, mem\<lparr>queue_links := l\<rparr>))))"

section \<open>What stays when memory is added\<close>

lemma path_same: "(\<And>x. x \<in> set xs \<Longrightarrow> nx' x = nx x) \<Longrightarrow> path nx' p xs q \<longleftrightarrow> path nx p xs q"
  by (induction xs arbitrary: p) auto

lemma rpath_same: "(\<And>x. x \<in> set xs \<Longrightarrow> pv' x = pv x) \<Longrightarrow> rpath pv' q xs \<longleftrightarrow> rpath pv q xs"
  by (induction xs arbitrary: q) auto

lemma dl_holds_same:
  assumes "ul_head l' = ul_head l"
    and "\<And>x. x \<in> set xs \<Longrightarrow> ul_next l' x = ul_next l x \<and> ul_prev l' x = ul_prev l x"
  shows "dl_holds l' xs \<longleftrightarrow> dl_holds l xs"
  using assms path_same[of xs "ul_next l'" "ul_next l"] rpath_same[of xs "ul_prev l'" "ul_prev l"]
  by (simp add: dl_holds_def)

lemma dl_append_elsewhere:
  assumes "dl_holds l xs" and "dl_append p l = Inr l'" and "x \<notin> insert p (set xs)"
  shows "ul_next l' x = ul_next l x \<and> ul_prev l' x = ul_prev l x"
proof (cases xs)
  case Nil
  with assms show ?thesis by (auto simp: dl_holds_def dl_append_def link_defs Let_def)
next
  case (Cons h r)
  then have "ul_head l = Some h" "ul_prev l h = Some (last xs)" "last xs \<in> set xs" "h \<in> set xs"
    using assms(1) by (auto simp: dl_holds_def)
  with assms(2,3) show ?thesis
    by (auto simp: dl_append_def link_defs Let_def result_simps split: if_splits)
qed

text \<open>\<open>keeps A mem mem'\<close>: at the addresses \<open>A\<close> nothing of messages and blocks has changed.\<close>

definition keeps :: "nat set \<Rightarrow> message_memory \<Rightarrow> message_memory \<Rightarrow> bool" where
  "keeps A mem mem' \<longleftrightarrow> A \<subseteq> set (in_use mem') \<and>
     (\<forall>p \<in> A. block_data mem' p = block_data mem p \<and> block_next mem' p = block_next mem p \<and>
        block_prev mem' p = block_prev mem p \<and> msg_at mem' p = msg_at mem p)"

definition same_queue :: "message_memory \<Rightarrow> message_memory \<Rightarrow> bool" where
  "same_queue mem mem' \<longleftrightarrow> queue_links mem' = queue_links mem \<and> node_data mem' = node_data mem \<and>
     mem_last_id mem' = mem_last_id mem \<and> mem_last_release_time mem' = mem_last_release_time mem \<and>
     mem_new_message mem' = mem_new_message mem"

definition holds_blocks :: "message_memory \<Rightarrow> nat option \<Rightarrow> string list \<Rightarrow> nat list \<Rightarrow> bool" where
  "holds_blocks mem head ds bs \<longleftrightarrow> dl_holds (block_list mem head) bs \<and>
     map (block_data mem) bs = map Some ds \<and> set bs \<subseteq> set (in_use mem)"

definition holds_message :: "message_memory \<Rightarrow> nat \<Rightarrow> data_message \<Rightarrow> bool" where
  "holds_message mem q m \<longleftrightarrow> q \<in> set (in_use mem) \<and>
     (\<exists>s bs. msg_at mem q = Some s \<and> st_release_time s = release_time m \<and> st_id s = message_id m \<and>
        st_file_name s = file_name m \<and> st_blocks_count s = blocks_count m \<and>
        holds_blocks mem (st_blocks s) (blocks m) bs)"

lemma keeps_trans: "keeps A mem mem1 \<Longrightarrow> keeps A mem1 mem2 \<Longrightarrow> keeps A mem mem2"
  by (auto simp: keeps_def)

lemma same_queue_trans: "same_queue mem mem1 \<Longrightarrow> same_queue mem1 mem2 \<Longrightarrow> same_queue mem mem2"
  by (simp add: same_queue_def)

lemma holds_blocks_kept:
  assumes "holds_blocks mem head ds bs" and "keeps A mem mem'" and "set bs \<subseteq> A"
  shows "holds_blocks mem' head ds bs"
proof -
  have "dl_holds (block_list mem' head) bs \<longleftrightarrow> dl_holds (block_list mem head) bs"
    using assms(2,3) by (intro dl_holds_same) (auto simp: keeps_def block_list_def)
  moreover have "map (block_data mem') bs = map (block_data mem) bs" "set bs \<subseteq> set (in_use mem')"
    using assms(2,3) by (auto simp: keeps_def)
  ultimately show ?thesis using assms(1) unfolding holds_blocks_def by argo
qed

lemma holds_message_kept:
  assumes "holds_message mem q m" and "keeps (set (in_use mem)) mem mem'"
  shows "holds_message mem' q m"
proof -
  obtain s bs where s: "q \<in> set (in_use mem)" "msg_at mem q = Some s" "st_release_time s = release_time m"
      "st_id s = message_id m" "st_file_name s = file_name m" "st_blocks_count s = blocks_count m"
      "holds_blocks mem (st_blocks s) (blocks m) bs"
    using assms(1) by (auto simp: holds_message_def)
  have "holds_blocks mem' (st_blocks s) (blocks m) bs"
    using holds_blocks_kept[OF s(7) assms(2)] s(7) by (simp add: holds_blocks_def)
  with s assms(2) show ?thesis by (auto simp: holds_message_def keeps_def)
qed

section \<open>Building a message\<close>

text \<open>While its blocks are read, the message is linked to the blocks so far, all outside \<open>A\<close>.\<close>

definition building :: "nat \<Rightarrow> nat set \<Rightarrow> string list \<Rightarrow> message_memory \<Rightarrow> bool" where
  "building q A ds mem \<longleftrightarrow> q \<in> set (in_use mem) \<and> q \<notin> A \<and> A \<subseteq> set (in_use mem) \<and>
     (\<exists>m bs. msg_at mem q = Some m \<and> st_blocks_count m = length ds \<and>
        holds_blocks mem (st_blocks m) ds bs \<and> set bs \<inter> A = {})"

lemma store_block_building:
  assumes fresh: "malloc (in_use mem) \<notin> set (in_use mem)" and b: "building q A ds mem"
  shows "\<exists>mem'. store_block malloc q buffer mem = Inr mem' \<and> building q A (ds @ [cstr buffer]) mem' \<and>
    keeps A mem mem' \<and> same_queue mem mem'"
proof -
  let ?p = "malloc (in_use mem)"
  let ?mem = "mem\<lparr>in_use := ?p # in_use mem, block_next := (block_next mem)(?p := None),
    block_prev := (block_prev mem)(?p := None), block_data := (block_data mem)(?p \<mapsto> cstr buffer)\<rparr>"
  obtain m bs where m: "msg_at mem q = Some m" "st_blocks_count m = length ds"
      "holds_blocks mem (st_blocks m) ds bs" "set bs \<inter> A = {}"
    and q: "q \<in> set (in_use mem)" "q \<notin> A" "A \<subseteq> set (in_use mem)"
    using b by (auto simp: building_def)
  have p: "?p \<notin> set bs" "?p \<notin> A" using fresh m(3) q(3) by (auto simp: holds_blocks_def)
  have "keeps (set (in_use mem)) mem ?mem" using fresh by (auto simp: keeps_def)
  then have hb: "holds_blocks ?mem (st_blocks m) ds bs"
    by (rule holds_blocks_kept[OF m(3)]) (use m(3) in \<open>simp add: holds_blocks_def\<close>)
  then have dl: "dl_holds (block_list ?mem (st_blocks m)) bs" by (simp add: holds_blocks_def)
  from dl_append_holds[OF dl p(1)] obtain l
    where l: "dl_append ?p (block_list ?mem (st_blocks m)) = Inr l" "dl_holds l (bs @ [?p])" by auto
  let ?m = "m\<lparr>st_blocks := ul_head l, st_blocks_count := st_blocks_count m + 1\<rparr>"
  let ?mem' = "?mem\<lparr>block_next := ul_next l, block_prev := ul_prev l, msg_at := (msg_at mem)(q \<mapsto> ?m)\<rparr>"
  have run: "store_block malloc q buffer mem = Inr ?mem'"
    using m(1) l(1) by (simp add: store_block_def take_address_def)
  have "block_list ?mem' (st_blocks ?m) = l" by (simp add: block_list_def)
  moreover have "map (block_data mem) bs = map Some ds" using m(3) by (simp add: holds_blocks_def)
  then have "map (block_data ?mem') (bs @ [?p]) = map Some (ds @ [cstr buffer])"
    using p(1) by simp
  ultimately have "holds_blocks ?mem' (st_blocks ?m) (ds @ [cstr buffer]) (bs @ [?p])"
    using l(2) m(3) unfolding holds_blocks_def by auto
  then have "building q A (ds @ [cstr buffer]) ?mem'"
    using q m(2,4) p(2) unfolding building_def by (intro conjI exI[of _ ?m] exI[of _ "bs @ [?p]"]) auto
  moreover have "keeps A mem ?mem'"
    unfolding keeps_def
  proof (intro conjI ballI)
    fix x assume x: "x \<in> A"
    then have "x \<notin> insert ?p (set bs)" using m(4) p(2) by auto
    from dl_append_elsewhere[OF dl l(1) this] x p(2) q(2)
    show "block_next ?mem' x = block_next mem x" "block_prev ?mem' x = block_prev mem x"
      "block_data ?mem' x = block_data mem x" "msg_at ?mem' x = msg_at mem x"
      by (auto simp: block_list_def)
  qed (use q(3) in auto)
  ultimately show ?thesis using run by (auto simp: same_queue_def)
qed

lemma store_blocks_building:
  "(\<And>A. malloc A \<notin> set A) \<Longrightarrow> building q A ds mem \<Longrightarrow>
   \<exists>mem'. store_blocks malloc q rs mem = Inr mem' \<and> building q A (ds @ read_blocks rs) mem' \<and>
     keeps A mem mem' \<and> same_queue mem mem'"
proof (induction malloc q rs mem arbitrary: ds rule: store_blocks.induct)
  case (3 malloc q buffer fd mem)
  show ?case
  proof (cases "buffer = []")
    case False
    obtain mem1 where m1: "store_block malloc q buffer mem = Inr mem1"
        "building q A (ds @ [cstr buffer]) mem1" "keeps A mem mem1" "same_queue mem mem1"
      using store_block_building[where malloc = malloc, OF "3.prems"(1) "3.prems"(2)] by blast
    obtain mem2 where "store_blocks malloc q fd mem1 = Inr mem2"
        "building q A ((ds @ [cstr buffer]) @ read_blocks fd) mem2" "keeps A mem1 mem2" "same_queue mem1 mem2"
      using "3.IH"[OF False m1(1) "3.prems"(1) m1(2)] by blast
    with False m1 show ?thesis by (auto intro: keeps_trans same_queue_trans)
  qed (use 3 in \<open>auto simp: keeps_def building_def same_queue_def\<close>)
qed (auto simp: keeps_def building_def same_queue_def)

lemma new_message_building:
  assumes "\<And>A. malloc A \<notin> set A"
  obtains q mem' where "new_message malloc mem = (q, mem')" "q \<notin> set (in_use mem)"
    "in_use mem' = q # in_use mem" "building q (set (in_use mem)) [] mem'"
    "keeps (set (in_use mem)) mem mem'" "same_queue mem mem'"
proof (rule that)
  let ?q = "malloc (in_use mem)"
  let ?m = "\<lparr>st_release_time = 0, st_id = 0, st_file_name = [], st_blocks_count = 0, st_blocks = None\<rparr>"
  let ?mem = "mem\<lparr>in_use := ?q # in_use mem, msg_at := (msg_at mem)(?q \<mapsto> ?m)\<rparr>"
  show "new_message malloc mem = (?q, ?mem)" by (simp add: new_message_def take_address_def)
  show q: "?q \<notin> set (in_use mem)" using assms .
  have "dl_holds (block_list ?mem None) []" by (simp add: dl_holds_def block_list_def)
  then show "building ?q (set (in_use mem)) [] ?mem"
    using q by (auto simp: building_def holds_blocks_def)
  show "keeps (set (in_use mem)) mem ?mem" using q by (auto simp: keeps_def)
qed (auto simp: same_queue_def)

section \<open>The queue\<close>

definition holds_queue :: "message_memory \<Rightarrow> data_message list \<Rightarrow> bool" where
  "holds_queue mem ms \<longleftrightarrow> (\<exists>ps qs. dl_holds (queue_links mem) ps \<and> set ps \<subseteq> set (in_use mem) \<and>
     map (node_data mem) ps = map Some qs \<and> list_all2 (holds_message mem) qs ms)"

text \<open>The memory stands for the state of the loading thread and the queue.\<close>

definition in_memory :: "message_memory \<Rightarrow> loader \<Rightarrow> bool" where
  "in_memory mem st \<longleftrightarrow> holds_queue mem (to_send_queue st) \<and> mem_last_id mem = last_id st \<and>
     mem_last_release_time mem = last_release_time st \<and> mem_new_message mem = new_message_available st"

lemma holds_queue_kept:
  assumes "holds_queue mem ms" and "keeps (set (in_use mem)) mem mem'"
    and "queue_links mem' = queue_links mem" and "node_data mem' = node_data mem"
  shows "holds_queue mem' ms"
proof -
  obtain ps qs where q: "dl_holds (queue_links mem) ps" "set ps \<subseteq> set (in_use mem)"
      "map (node_data mem) ps = map Some qs" "list_all2 (holds_message mem) qs ms"
    using assms(1) unfolding holds_queue_def by blast
  have "list_all2 (holds_message mem') qs ms"
    using q(4) by (rule list.rel_mono_strong) (rule holds_message_kept[OF _ assms(2)])
  moreover have "set ps \<subseteq> set (in_use mem')" using q(2) assms(2) by (auto simp: keeps_def)
  ultimately show ?thesis using q assms(3,4) unfolding holds_queue_def by metis
qed

lemma store_node_appends:
  assumes fresh: "malloc (in_use mem) \<notin> set (in_use mem)"
    and q: "holds_queue mem ms" and m: "holds_message mem message m"
  shows "\<exists>mem'. store_node malloc message mem = Inr mem' \<and> holds_queue mem' (ms @ [m]) \<and>
    mem_last_id mem' = mem_last_id mem \<and> mem_last_release_time mem' = mem_last_release_time mem \<and>
    mem_new_message mem' = mem_new_message mem"
proof -
  let ?p = "malloc (in_use mem)"
  obtain ps qs where q: "dl_holds (queue_links mem) ps" "set ps \<subseteq> set (in_use mem)"
      "map (node_data mem) ps = map Some qs" "list_all2 (holds_message mem) qs ms"
    using q unfolding holds_queue_def by blast
  have p: "?p \<notin> set ps" using q(2) fresh by auto
  let ?l = "set_next ?p None (set_prev ?p None (queue_links mem))"
  have "dl_holds ?l ps \<longleftrightarrow> dl_holds (queue_links mem) ps"
    by (intro dl_holds_same) (use p in \<open>auto simp: link_defs\<close>)
  with q(1) dl_append_holds[OF _ p] obtain l where l: "dl_append ?p ?l = Inr l" "dl_holds l (ps @ [?p])"
    by blast
  let ?mem = "mem\<lparr>in_use := ?p # in_use mem, node_data := (node_data mem)(?p \<mapsto> message), queue_links := l\<rparr>"
  have "keeps (set (in_use mem)) mem ?mem" by (auto simp: keeps_def)
  note kept = holds_message_kept[OF _ this]
  have "list_all2 (holds_message ?mem) (qs @ [message]) (ms @ [m])"
    using list.rel_mono_strong[OF q(4) kept] kept[OF m] by (simp add: list_all2_appendI)
  moreover have "map (node_data ?mem) (ps @ [?p]) = map Some (qs @ [message])" using p q(3) by simp
  moreover have "set (ps @ [?p]) \<subseteq> set (in_use ?mem)" using q(2) by auto
  ultimately have "holds_queue ?mem (ms @ [m])"
    using l(2) unfolding holds_queue_def
    by (intro exI[of _ "ps @ [?p]"] exI[of _ "qs @ [message]"]) simp
  with l(1) show ?thesis by (simp add: store_node_def take_address_def)
qed

section \<open>Loading implements loading\<close>

lemma rel_result_bind:
  assumes "rel_sum (=) S x y" and "\<And>a b. S a b \<Longrightarrow> rel_sum (=) T (f a) (g b)"
  shows "rel_sum (=) T (result_bind x f) (result_bind y g)"
  using assms by (cases x; cases y) auto

lemma in_memory_kept:
  assumes "in_memory mem st" and "keeps (set (in_use mem)) mem mem'" and "same_queue mem mem'"
  shows "in_memory mem' st"
  using assms holds_queue_kept[of mem "to_send_queue st" mem'] by (simp add: in_memory_def same_queue_def)

lemma free_message_in_memory:
  assumes "in_memory mem st" and "keeps (set (in_use mem)) mem mem'" and "same_queue mem mem'"
    and "q \<notin> set (in_use mem)"
  shows "in_memory (free_message q mem') st"
proof (rule in_memory_kept[OF assms(1)])
  have "p \<in> set (remove1 q (in_use mem'))" if "p \<in> set (in_use mem)" for p
  proof -
    have "p \<noteq> q" using that assms(4) by auto
    moreover have "p \<in> set (in_use mem')" using that assms(2) by (auto simp: keeps_def)
    ultimately show ?thesis by simp
  qed
  then show "keeps (set (in_use mem)) mem (free_message q mem')"
    using assms(2,4) by (auto simp: keeps_def free_message_def)
  show "same_queue mem (free_message q mem')" using assms(3) by (simp add: same_queue_def free_message_def)
qed

lemma finished_message_is_queued:
  assumes fresh: "\<And>A. malloc A \<notin> set A" and st: "in_memory mem0 st"
    and kept: "keeps (set (in_use mem0)) mem0 mem" "same_queue mem0 mem"
    and q: "building q (set (in_use mem0)) ds mem" and m: "msg_at mem q = Some m"
  shows "\<exists>mem'. store_node malloc q (finish_message now name q m mem) = Inr mem' \<and>
    in_memory mem' (queue_message now name ds st)"
proof -
  let ?mem = "finish_message now name q m mem"
  let ?m = "\<lparr>release_time = now, message_id = next_id st now, file_name = name, blocks_count = length ds, blocks = ds\<rparr>"
  obtain bs where bs: "st_blocks_count m = length ds" "holds_blocks mem (st_blocks m) ds bs"
    and qA: "q \<notin> set (in_use mem0)" "q \<in> set (in_use mem)"
    using q m by (auto simp: building_def)
  have keeps: "keeps (set (in_use mem0)) mem0 ?mem"
    using kept(1) qA(1) by (auto simp: keeps_def finish_message_def Let_def)
  have queue: "holds_queue ?mem (to_send_queue st)"
    by (rule holds_queue_kept[OF _ keeps])
      (use st kept(2) in \<open>auto simp: in_memory_def same_queue_def finish_message_def Let_def\<close>)
  have id: "next_id st now = (if now = mem_last_release_time mem then mem_last_id mem + 1 else 0)"
    using st kept(2) by (simp add: in_memory_def same_queue_def next_id_def)
  have "holds_blocks ?mem (st_blocks m) ds bs"
    using bs(2) by (simp add: holds_blocks_def finish_message_def Let_def block_list_def)
  with bs(1) qA(2) have message: "holds_message ?mem q ?m"
    by (auto simp: holds_message_def finish_message_def Let_def id)
  from store_node_appends[where malloc = malloc, OF fresh queue message] obtain mem'
    where mem': "store_node malloc q ?mem = Inr mem'" "holds_queue mem' (to_send_queue st @ [?m])"
      "mem_last_id mem' = mem_last_id ?mem" "mem_last_release_time mem' = mem_last_release_time ?mem"
      "mem_new_message mem' = mem_new_message ?mem" by blast
  then have "in_memory mem' (queue_message now name ds st)"
    using st kept(2) by (auto simp: in_memory_def same_queue_def queue_message_def finish_message_def Let_def id)
  with mem'(1) show ?thesis by blast
qed

lemma store_file_in_memory:
  assumes fresh: "\<And>A. malloc A \<notin> set A" and st: "in_memory mem st"
  shows "rel_sum (=) in_memory (store_file malloc d_name c_time fd mem)
    (if read_blocks fd = [] then Inr st
     else result_bind (current_time c_time) (\<lambda>now. Inr (queue_message now d_name (read_blocks fd) st)))"
proof -
  obtain q mem1 where q: "new_message malloc mem = (q, mem1)" "q \<notin> set (in_use mem)"
      "building q (set (in_use mem)) [] mem1" "keeps (set (in_use mem)) mem mem1" "same_queue mem mem1"
    using new_message_building[where malloc = malloc, OF fresh] by metis
  obtain mem2 where mem2: "store_blocks malloc q fd mem1 = Inr mem2"
      "building q (set (in_use mem)) ([] @ read_blocks fd) mem2"
      "keeps (set (in_use mem)) mem1 mem2" "same_queue mem1 mem2"
    using store_blocks_building[where malloc = malloc, OF fresh q(3)] by blast
  note kept = keeps_trans[OF q(4) mem2(3)] same_queue_trans[OF q(5) mem2(4)]
  obtain m where m: "msg_at mem2 q = Some m" "st_blocks_count m = length (read_blocks fd)"
    using mem2(2) by (auto simp: building_def)
  note run = store_file_def q(1) mem2(1) m
  show ?thesis
  proof (cases "read_blocks fd = []")
    case True
    with free_message_in_memory[OF st kept q(2)] show ?thesis by (simp add: run)
  next
    case False
    show ?thesis
    proof (cases "current_time c_time")
      case (Inr now)
      from finished_message_is_queued[where malloc = malloc, OF fresh st kept mem2(2) m(1), of now d_name]
      show ?thesis using False Inr by (auto simp: run)
    qed (use False in \<open>simp add: run\<close>)
  qed
qed

lemma store_entry_in_memory:
  assumes fresh: "\<And>A. malloc A \<notin> set A" and st: "in_memory mem st"
  shows "rel_sum (=) (rel_prod (=) in_memory) (store_entry malloc home e (fs, mem)) (load_entry home e (fs, st))"
proof -
  obtain d_name c_time where e: "e = (d_name, c_time)" by (cases e)
  have opened: "rel_sum (=) (rel_prod (=) in_memory)
      (result_bind (store_file malloc d_name c_time fd mem) (\<lambda>mem. Inr (fs1, mem)))
      (if read_blocks fd = [] then Inr (fs1, st)
       else result_bind (current_time c_time) (\<lambda>now. Inr (fs1, queue_message now d_name (read_blocks fd) st)))"
    for fs1 fd
    using store_file_in_memory[where malloc = malloc, OF fresh st, of d_name c_time fd]
    by (cases "store_file malloc d_name c_time fd mem"; cases "current_time c_time"; cases "read_blocks fd = []") auto
  let ?open = "load_file home fs (USER_NEW_MESSAGE_DIR @ d_name) O_RDONLY None"
  show ?thesis
  proof (cases ?open)
    case (Inr r)
    obtain fs1 fd where "r = (fs1, fd)" by (cases r)
    show ?thesis
    proof (cases fd)
      case (Some loc)
      with Inr \<open>r = (fs1, fd)\<close> st opened[of "reads MTN_DM_BLOCK_DATA_LEN fs1 loc" fs1]
      show ?thesis by (simp add: e store_entry_def load_entry_def Let_def split: if_splits)
    qed (use Inr \<open>r = (fs1, fd)\<close> st in \<open>simp add: e store_entry_def load_entry_def\<close>)
  qed (use st in \<open>simp add: e store_entry_def load_entry_def\<close>)
qed

lemma fold_store_entry_in_memory:
  assumes fresh: "\<And>A. malloc A \<notin> set A"
  shows "in_memory mem st \<Longrightarrow> rel_sum (=) (rel_prod (=) in_memory)
    (fold_result (store_entry malloc home) listing (fs, mem)) (fold_result (load_entry home) listing (fs, st))"
proof (induction listing arbitrary: fs mem st)
  case (Cons e listing)
  have "rel_sum (=) (rel_prod (=) in_memory)
      (fold_result (store_entry malloc home) listing a) (fold_result (load_entry home) listing b)"
    if "rel_prod (=) in_memory a b" for a b
    using that Cons.IH by (cases a; cases b) simp
  from rel_result_bind[OF store_entry_in_memory[where malloc = malloc, OF fresh Cons.prems] this]
  show ?case by simp
qed simp

lemma store_messages_in_memory:
  assumes fresh: "\<And>A. malloc A \<notin> set A" and "in_memory mem st"
  shows "rel_sum (=) (rel_prod (=) in_memory)
    (store_messages malloc home listing (fs, mem)) (load_data_messages home listing (fs, st))"
proof -
  have "holds_queue (mem\<lparr>mem_new_message := False\<rparr>) (to_send_queue st)"
    by (rule holds_queue_kept[of mem]) (use assms(2) in \<open>auto simp: in_memory_def keeps_def\<close>)
  then have "in_memory (mem\<lparr>mem_new_message := False\<rparr>) (st\<lparr>new_message_available := False\<rparr>)"
    using assms(2) by (simp add: in_memory_def)
  from fold_store_entry_in_memory[where malloc = malloc, OF fresh this] this show ?thesis
    unfolding store_messages_def load_data_messages_def
    by (auto simp: Let_def sum.rel_eq split: option.split intro!: rel_result_bind[where S = "(=)"])
qed

section \<open>Sending implements sending\<close>

lemma data_of_blocks_read: "map (block_data mem) bs = map Some ds \<Longrightarrow> data_of_blocks mem bs = Inr ds"
proof (induction bs arbitrary: ds)
  case (Cons b bs)
  then show ?case by (cases ds) auto
qed simp

lemma read_message_holds:
  assumes "holds_message mem q m" and "node_data mem p = Some q"
  shows "read_message mem (Some p) = Some (Inr m)"
proof -
  obtain s bs where s: "msg_at mem q = Some s" "st_release_time s = release_time m"
      "st_id s = message_id m" "st_file_name s = file_name m" "st_blocks_count s = blocks_count m"
      "holds_blocks mem (st_blocks s) (blocks m) bs"
    using assms(1) by (auto simp: holds_message_def)
  have "ll_foreach (block_next mem) (st_blocks s) = Some bs"
    using s(6) ll_foreach_path[of "block_next mem" "st_blocks s" bs]
    by (simp add: holds_blocks_def dl_holds_def block_list_def)
  moreover have "data_of_blocks mem bs = Inr (blocks m)"
    using s(6) by (intro data_of_blocks_read) (simp add: holds_blocks_def)
  ultimately show ?thesis using s assms(2) by (simp add: read_message_def node_message_def)
qed

lemma holds_queue_head:
  assumes "holds_queue mem ms"
  shows "(ms = [] \<and> ul_head (queue_links mem) = None) \<or>
    (\<exists>p q. ul_head (queue_links mem) = Some p \<and> node_data mem p = Some q \<and> holds_message mem q (hd ms) \<and> ms \<noteq> [])"
proof -
  obtain ps qs where q: "dl_holds (queue_links mem) ps" "map (node_data mem) ps = map Some qs"
      "list_all2 (holds_message mem) qs ms"
    using assms unfolding holds_queue_def by blast
  show ?thesis
  proof (cases ps)
    case Nil
    with q show ?thesis by (auto simp: dl_holds_def)
  next
    case (Cons p ps')
    with q obtain q' qs' where "qs = q' # qs'" by (cases qs) auto
    with Cons q show ?thesis by (cases ms) (auto simp: dl_holds_def)
  qed
qed

lemma send_from_memory_head:
  assumes "holds_queue mem ms"
  shows "send_from_memory rest mem =
    Some (if ms = [] then Inl Null_pointer else send_data_message rest (hd ms))"
  using holds_queue_head[OF assms] read_message_holds[of mem _ "hd ms"]
  by (auto simp: send_from_memory_def read_message_def node_message_def)

lemma unlink_message_tl:
  assumes "holds_queue mem ms" and "ms \<noteq> []"
  shows "\<exists>message mem'. unlink_message mem = Inr (message, mem') \<and> holds_queue mem' (tl ms) \<and>
    mem' = mem\<lparr>queue_links := queue_links mem'\<rparr>"
proof -
  obtain ps qs where q: "dl_holds (queue_links mem) ps" "set ps \<subseteq> set (in_use mem)"
      "map (node_data mem) ps = map Some qs" "list_all2 (holds_message mem) qs ms"
    using assms(1) unfolding holds_queue_def by blast
  obtain m ms' where ms: "ms = m # ms'" using assms(2) by (cases ms) auto
  then obtain q1 qs' where qs: "qs = q1 # qs'" "holds_message mem q1 m" "list_all2 (holds_message mem) qs' ms'"
    using q(4) by (cases qs) auto
  then obtain p ps' where ps: "ps = p # ps'" "node_data mem p = Some q1" "map (node_data mem) ps' = map Some qs'"
    using q(3) by (cases ps) auto
  obtain l where l: "dl_delete p (queue_links mem) = Inr l" "dl_holds l ps'"
    using dl_delete_holds[OF q(1), of p] ps(1) by auto
  let ?mem = "mem\<lparr>queue_links := l\<rparr>"
  have head: "ul_head (queue_links mem) = Some p" using q(1) ps(1) by (simp add: dl_holds_def)
  obtain s where "msg_at mem q1 = Some s" using qs(2) by (auto simp: holds_message_def)
  with head ps(2) l(1) have "unlink_message mem = Inr (q1, ?mem)"
    by (simp add: unlink_message_def node_message_def)
  moreover have "keeps (set (in_use mem)) mem ?mem" by (simp add: keeps_def)
  then have "list_all2 (holds_message ?mem) qs' ms'"
    using list.rel_mono_strong[OF qs(3)] holds_message_kept by blast
  then have "holds_queue ?mem ms'"
    using l(2) ps q(2) unfolding holds_queue_def by (intro exI[of _ ps'] exI[of _ qs']) auto
  ultimately show ?thesis using ms by auto
qed

section \<open>The threads' turns\<close>

text \<open>The signal, a turn of the loading thread on the directory it finds, and the end of a round.\<close>

datatype queue_op =
    Signal
  | Load file_system "(string \<times> int) list"
  | Unlink

fun memory_step ::
    "(nat list \<Rightarrow> nat) \<Rightarrow> string option \<Rightarrow> queue_op \<Rightarrow> message_memory \<Rightarrow> message_memory c_result option" where
  "memory_step malloc home Signal mem = Some (Inr (mem\<lparr>mem_new_message := True\<rparr>))"
| "memory_step malloc home (Load fs listing) mem =
     Some (result_bind (store_messages malloc home listing (fs, mem)) (\<lambda>(fs, mem). Inr mem))"
| "memory_step malloc home Unlink mem = Some (result_bind (unlink_message mem) (\<lambda>(message, mem). Inr mem))"

fun loader_step :: "string option \<Rightarrow> queue_op \<Rightarrow> loader \<Rightarrow> loader" where
  "loader_step home Signal st = new_message_signal st"
| "loader_step home (Load fs listing) st =
     (case load_data_messages home listing (fs, st) of Inr (fs, st) \<Rightarrow> st | Inl e \<Rightarrow> st)"
| "loader_step home Unlink st = st\<lparr>to_send_queue := tl (to_send_queue st)\<rparr>"

text \<open>A turn that does not end the process, and a round only for a queued message.\<close>

fun turn_allowed :: "string option \<Rightarrow> queue_op \<Rightarrow> loader \<Rightarrow> bool" where
  "turn_allowed home Signal st = True"
| "turn_allowed home (Load fs listing) st =
     (case load_data_messages home listing (fs, st) of Inr r \<Rightarrow> True | Inl e \<Rightarrow> False)"
| "turn_allowed home Unlink st = (to_send_queue st \<noteq> [])"

lemma memory_step_simulates:
  assumes fresh: "\<And>A. malloc A \<notin> set A" and st: "in_memory mem st" and ok: "turn_allowed home op st"
  shows "\<exists>mem'. memory_step malloc home op mem = Some (Inr mem') \<and> in_memory mem' (loader_step home op st)"
proof (cases op)
  case Signal
  have "holds_queue (mem\<lparr>mem_new_message := True\<rparr>) (to_send_queue st)"
    by (rule holds_queue_kept[of mem]) (use st in \<open>auto simp: in_memory_def keeps_def\<close>)
  with st Signal show ?thesis by (simp add: in_memory_def new_message_signal_def)
next
  case (Load fs listing)
  from store_messages_in_memory[where malloc = malloc, OF fresh st, of home listing fs] ok Load
  show ?thesis
    by (cases "store_messages malloc home listing (fs, mem)"; cases "load_data_messages home listing (fs, st)") auto
next
  case Unlink
  obtain message mem' where m: "unlink_message mem = Inr (message, mem')" "holds_queue mem' (tl (to_send_queue st))"
      "mem' = mem\<lparr>queue_links := queue_links mem'\<rparr>"
    using unlink_message_tl[of mem "to_send_queue st"] st ok Unlink by (auto simp: in_memory_def)
  have "mem_last_id mem' = mem_last_id mem" "mem_last_release_time mem' = mem_last_release_time mem"
    "mem_new_message mem' = mem_new_message mem" by (subst m(3), simp)+
  with st m(1,2) Unlink show ?thesis by (simp add: in_memory_def)
qed

interpretation message_queue: simulation
    "\<lambda>mem st. (\<forall>A. malloc A \<notin> set A) \<and> in_memory mem st" "memory_step malloc home" "loader_step home" "turn_allowed home"
  by unfold_locales (use memory_step_simulates in blast)

definition no_loader :: loader where
  "no_loader = \<lparr>last_id = 0, last_release_time = 0, new_message_available = False, to_send_queue = []\<rparr>"

lemma no_messages_in_memory: "in_memory no_messages no_loader"
  by (simp add: in_memory_def no_messages_def no_loader_def holds_queue_def dl_holds_empty)

section \<open>The queue's guarantees\<close>

text \<open>C26: whatever signals, directories and rounds come in whatever order, the loading thread and the
  end of a round work on linked messages, blocks and nodes without following a NULL pointer, for
  every allocator that gives unused addresses; a thread that then sends from the memory sends
  the datagrams of the first message of the list the queue stands for, and follows a NULL pointer
  exactly when that list is empty.\<close>

theorem queue_runs_in_memory:
  assumes "\<And>A. malloc A \<notin> set A" and "ops_allowed (turn_allowed home) (loader_step home) ops no_loader"
  shows "\<exists>mem. run_ops (memory_step malloc home) ops no_messages = Some (Inr mem) \<and>
    (let ms = to_send_queue (fold (loader_step home) ops no_loader) in
     send_from_memory rest mem = Some (if ms = [] then Inl Null_pointer else send_data_message rest (hd ms)))"
proof -
  have "(\<forall>A. malloc A \<notin> set A) \<and> in_memory no_messages no_loader" using assms(1) no_messages_in_memory by simp
  from message_queue.run_simulates[OF this assms(2)] show ?thesis
    using send_from_memory_head by (auto simp: in_memory_def Let_def)
qed

definition new_messages_example :: file_system where
  "new_messages_example =
     (let dir = [''h'', ''.config'', ''mtn'', ''server'', ''new_messages''] in
      \<lparr>nodes = [dir \<mapsto> Dir, dir @ [''f''] \<mapsto> File ''hello'', dir @ [''e''] \<mapsto> File [], dir @ [''g''] \<mapsto> File ''again''],
       cwd = [], may_change = \<lambda>_. True\<rparr>)"

lemma pieces_short: "s \<noteq> [] \<Longrightarrow> length s \<le> n \<Longrightarrow> pieces n s = [s]"
  by (subst pieces.simps, subst pieces.simps) (auto simp: neq_Nil_conv)

lemma new_messages_example_loads:
  "load_data_messages (Some ''/h'') [(''f'', 7), (''e'', 7), (''g'', 7)] (new_messages_example, st) =
   Inr (new_messages_example, queue_message 7 ''g'' [''again''] (queue_message 7 ''f'' [''hello'']
     (st\<lparr>new_message_available := False\<rparr>)))"
proof -
  let ?ds = "[''h'', ''.config'', ''mtn'', ''server'', ''new_messages'']"
  let ?c = "\<lambda>f. if f = ''f'' then ''hello'' else if f = ''g'' then ''again'' else []"
  let ?l = "[(''f'', 7), (''e'', 7), (''g'', 7)]"
  have dir: "expand_home (Some ''/h'') USER_NEW_MESSAGE_DIR = Inr (abs_path ?ds @ ''/'')"
    by (simp add: expand_home_result replace_first_def replacement_text_def abs_path_def USER_NEW_MESSAGE_DIR_def)
  have entries: "expand_home (Some ''/h'') (USER_NEW_MESSAGE_DIR @ f) = Inr (abs_path (?ds @ [f]))"
    if "f \<in> {''f'', ''e'', ''g''}" for f
    using that by (auto simp: expand_home_result replace_first_def replacement_text_def
        abs_path_def USER_NEW_MESSAGE_DIR_def)
  have "in_dir (Some ''/h'') ?ds ''f''" "in_dir (Some ''/h'') ?ds ''e''" "in_dir (Some ''/h'') ?ds ''g''"
    using entries[of "''f''"] entries[of "''e''"] entries[of "''g''"]
    by (simp_all add: in_dir_def part_def abs_path_def USER_NEW_MESSAGE_DIR_def)
  then have "load_data_messages (Some ''/h'') ?l (new_messages_example, st) =
      Inr (new_messages_example, queue_files ?c ?l (st\<lparr>new_message_available := False\<rparr>))"
    using dir by (intro load_data_messages_run[where ds = ?ds])
      (auto simp: part_def node_at_def new_messages_example_def)
  moreover have "pieces MTN_DM_BLOCK_DATA_LEN s = [s]" if "s = ''hello'' \<or> s = ''again''" for s
    using that pieces_short[of s MTN_DM_BLOCK_DATA_LEN] by (auto simp: size_defs)
  ultimately show ?thesis by (simp add: cstr_def dot_name_def)
qed

lemma queue_runs_in_memory_witness:
  "\<exists>mem. run_ops (memory_step (\<lambda>A. Suc (sum_list A)) (Some ''/h''))
     [Signal, Load new_messages_example [(''f'', 7), (''e'', 7), (''g'', 7)], Unlink] no_messages = Some (Inr mem) \<and>
   send_from_memory [] mem = Some (send_data_message []
     \<lparr>release_time = 7, message_id = 1, file_name = ''g'', blocks_count = 1, blocks = [''again'']\<rparr>)"
proof -
  let ?ops = "[Signal, Load new_messages_example [(''f'', 7), (''e'', 7), (''g'', 7)], Unlink]"
  have "Suc (sum_list A) \<notin> set A" for A :: "nat list"
    using member_le_sum_list[of "Suc (sum_list A)" A] by auto
  moreover have run: "ops_allowed (turn_allowed (Some ''/h'')) (loader_step (Some ''/h'')) ?ops no_loader"
    "to_send_queue (fold (loader_step (Some ''/h'')) ?ops no_loader) =
      [\<lparr>release_time = 7, message_id = 1, file_name = ''g'', blocks_count = 1, blocks = [''again'']\<rparr>]"
    by (simp_all add: new_messages_example_loads no_loader_def new_message_signal_def queue_message_def next_id_def)
  ultimately show ?thesis
    using queue_runs_in_memory[of "\<lambda>A. Suc (sum_list A)" "Some ''/h''" ?ops "[]"] by (simp only: Let_def) simp
qed

section \<open>The node that is not freed\<close>

text \<open>
  After a round the node that was unlinked is still in use, but no traversal of the queue meets it,
  so nothing can free it any more.
\<close>

lemma unlinked_node_leaks:
  assumes "in_memory mem st" and "to_send_queue st \<noteq> []"
  shows "\<exists>node message mem' nodes. ul_head (queue_links mem) = Some node \<and> unlink_message mem = Inr (message, mem') \<and>
    node \<in> set (in_use mem') \<and> node_data mem' node = Some message \<and>
    ll_foreach (ul_next (queue_links mem')) (ul_head (queue_links mem')) = Some nodes \<and> node \<notin> set nodes"
proof -
  obtain ps qs where q: "dl_holds (queue_links mem) ps" "set ps \<subseteq> set (in_use mem)"
      "map (node_data mem) ps = map Some qs" "list_all2 (holds_message mem) qs (to_send_queue st)"
    using assms(1) unfolding in_memory_def holds_queue_def by blast
  obtain m ms where "to_send_queue st = m # ms" using assms(2) by (cases "to_send_queue st") auto
  with q obtain p ps' q1 qs' where ps: "ps = p # ps'" "node_data mem p = Some q1" "holds_message mem q1 m"
    by (cases qs; cases ps) auto
  obtain l where l: "dl_delete p (queue_links mem) = Inr l" "dl_holds l ps'"
    using dl_delete_holds[OF q(1), of p] ps(1) by auto
  have head: "ul_head (queue_links mem) = Some p" "p \<notin> set ps'" using q(1) ps(1) by (auto simp: dl_holds_def)
  obtain s where "msg_at mem q1 = Some s" using ps(3) by (auto simp: holds_message_def)
  with head ps(2) l(1) have "unlink_message mem = Inr (q1, mem\<lparr>queue_links := l\<rparr>)"
    by (simp add: unlink_message_def node_message_def)
  moreover have "ll_foreach (ul_next l) (ul_head l) = Some ps'"
    using l(2) by (intro ll_foreach_path) (simp add: dl_holds_def)
  ultimately show ?thesis using head ps q(2) by auto
qed

end
