(* ===== verification/Spec2Isabelle.thy ===== *)
theory Spec2Isabelle
  imports Programs NetSystem ClientMessages ClientTypes Logging UtArray UtList UtHash UtSort UtHashSort
    UtHashIter UtHashSelect UtHashFunctions UtString UtListIter HeapArray BucketServer RoundProgress
    ClientProgress Sockets UtHashKeys MessageQueue
begin

text \<open>
  Verification library of the message transmission net: a server that sends the messages put into a
  directory to its subscribers over UDP, and a client that keeps subscriptions at a list of servers.
  Paths are relative to \<open>src/src/\<close>; the macro headers are in \<open>src/lib/uthash-1.9.3/src/\<close>.

  \<^bold>\<open>The program.\<close> The client (\<open>mtn-client.c\<close>) loads its configuration and its list of servers and starts a
  receiving thread and the updater. The updater's two threads take the server that is due from one of
  two array heaps and start sender threads, at most three at a time, that send a request, wait for the
  response the receiving thread stores, and put the server back into a heap. The server
  (\<open>mtn-server.c\<close>) starts a thread that answers subscription requests and keeps the table of clients, a
  thread that on a signal loads new files as messages of numbered blocks into a queue, and a thread
  that sends the first message of the queue to every client, one thread per client and at most three
  at a time, and moves its file when all are done.

  \<^bold>\<open>Theories and code.\<close>
  \<^item> \<open>Prelude\<close>: failures of C functions as values (\<open>c_error\<close>, \<open>c_result\<close>, loops that may not end as \<open>None\<close>),
    C division, exchange of array elements. \<open>Refinement\<close>: the locales \<open>simulation\<close> and \<open>partial_simulation\<close>,
    what it means that operations of a C structure implement those of an abstract one, for whole runs.
  \<^item> Containers, macro by macro, with 32-bit counters and link fields as functions on pointers, and
    interpretations of \<open>Refinement\<close> that they implement lists, sequences of nodes and finite maps in insertion
    order: \<open>UtArray\<close> (\<open>utarray.h\<close>), \<open>UtList\<close> and \<open>UtListIter\<close> (\<open>utlist.h\<close>; the second its loops that may delete,
    its searches by value and its variants for old compilers), \<open>UtHash\<close> (\<open>uthash.h\<close>), with \<open>UtHashIter\<close> (additions
    during an iteration), \<open>UtHashSelect\<close> (selection into another table), \<open>UtHashFunctions\<close> (the other hash
    functions, the Bloom filter), \<open>UtHashKeys\<close> (keys that are strings, integers, pointers), \<open>UtSort\<close> and
    \<open>UtHashSort\<close> (the merge sorts), \<open>UtString\<close> (\<open>utstring.h\<close>). The programs' components are modelled over these
    abstract values: a heap's array is a list, a queue of messages a list, a table an association list
    (\<open>HashTable\<close>, whose locale \<open>keyed_table\<close> states what clients use).
  \<^item> \<open>ArrayHeap\<close> (\<open>array_heap.c\<close>): the heap with its comparison as a function of the array and two slots. Its
    lemmas: nothing but permutation whatever the comparison does; the heap property and the order of
    service under the locale \<open>heap_comparison\<close>, which every comparison of the program as it is meant
    satisfies. \<open>HeapArray\<close>: the same operations on the slots of the dynamic array, and \<open>heap_test.c\<close>.
  \<^item> \<open>CString\<close>, \<open>LineReader\<close>, \<open>FileSystem\<close>, \<open>Logging\<close> (\<open>mtn-common.c\<close>): string routines on byte arrays with their
    ends, the buffered line reader over the results of \<open>read\<close>, file helpers on a tree of directories and
    files, and the lines written to the two output streams.
  \<^item> \<open>Config\<close> (\<open>mtn-config.c\<close>, \<open>mtn-server-config.c\<close>, \<open>mtn-client-config.c\<close>; its table in memory in \<open>UtHashKeys\<close>),
    \<open>Protocol\<close> (\<open>mtn-protocol.c\<close>), \<open>Network\<close> (addresses and datagrams), \<open>Programs\<close> (options and start of both
    programs), \<open>Sockets\<close> (the sockets both create on first use).
  \<^item> Client: \<open>ServerList\<close> (\<open>mtn-client-server-list.c\<close>), \<open>ClientRequest\<close> (\<open>mtn-client-request.c\<close>,
    \<open>mtn-client-receiver.c\<close>, the parsing of responses), \<open>Updater\<close> (\<open>mtn-client-updater.c\<close>) as the step relation
    \<open>client_step\<close>, with the comparisons that read behind the slots of a queue as faults, \<open>ClientTypes\<close>,
    \<open>ClientProgress\<close>, \<open>ClientMessages\<close> (\<open>mtn-client-data-message.c\<close>: the handlers the receiver calls).
  \<^item> Server: \<open>ServerReceiver\<close> (\<open>mtn-server-receiver.c\<close>), \<open>ServerMessages\<close> (\<open>mtn-server-data-message.c\<close>),
    \<open>Transmitter\<close> (the round of \<open>mtn-server-transmitter.c\<close>) as the step relation \<open>server_step\<close>, \<open>SentFiles\<close> (its
    file part), \<open>ServerSystem\<close> the threads together on one table, queue and file system: \<open>threads_step\<close>, made of
    \<open>transmit_threads\<close>, \<open>loading_thread\<close> and \<open>request_thread\<close>; \<open>RoundProgress\<close>; \<open>BucketServer\<close> the round and the
    subscriptions once more on the hash table in memory, with clients as blocks that are allocated and freed;
    \<open>MessageQueue\<close> the loading and sending once more on allocated messages, blocks and nodes of linked lists.
  \<^item> \<open>NetSystem\<close>: a client and any number of servers, composed over a network that may lose, reorder and repeat
    datagrams and on which other hosts send too, from their own addresses: the step relation \<open>net_step\<close>.

  \<^bold>\<open>What is shown.\<close> The containers refine their abstract values for all sequences of operations, the hash
  table through any number of bucket doublings, with deletion and addition during iteration, selection into a
  second table, and a Bloom filter in front of it; the dynamic string holds what was appended; the heap
  serves in order, also on its dynamic array below \<open>2 ^ 30\<close> elements; the in-place merge sorts are the stable sort.
  Text is read back as written where it fits the arrays it is copied into, and overflows them otherwise: configuration
  files, server lists, subscription requests and answers; so do the bytes of a file in the datagrams sent for it, also
  from the linked blocks in memory. In every interleaving of the client's threads each server is in exactly one
  place and its data keep their types, the receiving thread faults at exactly three kinds of datagrams, and the client
  can always go on to its next request. In a round of the server each subscriber is served once and the
  semaphores account for the senders, provided no client joins in time to be visited by the round under way
  (a calm run); this carries over to the threads of the whole server by a map of their runs to runs of the
  round. The round on the hash table in memory refines that on a list of clients in every run. Messages are sent in the
  order in which they were loaded and named apart while the clock is not set back, and left alone after a calm run the server
  empties its queue under every schedule. On the network, what a client believes of a server was
  recorded there before, and a server serves only who has asked. The remaining properties and lemmas show
  where the code does otherwise: late responses, late subscribers, renewal of a freed client, repeated
  signals, a clock that is set back, blocks that do not fit, a sent file that is lost, two sockets for one.

  \<^bold>\<open>Modelling decisions.\<close>
  \<^item> A memory fault is a value of \<open>c_error\<close>: a NULL pointer, a write or read outside an array, a division by
    zero, an overflow of a signed integer; \<open>exit\<close> is \<open>Exit\<close> with its status. No operation continues after one,
    with one exception: a read behind an array may end the process or may return something. Both are steps, for the
    comparison of the client's queues (\<open>Updater\<close>) and for the texts of messages that are sent (\<open>Transmitter\<close>).
  \<^item> A thread's step is a section under a lock or one access to shared data; all interleavings of steps are
    runs. A race inside a single operation on a table is not represented, but the search and the renewal of
    a client, and the test and the assignment of a socket, are steps of their own (\<open>BucketServer\<close>, \<open>Sockets\<close>).
  \<^item> The blocks of messages (\<open>MessageQueue\<close>) and of clients (\<open>BucketServer\<close>) may be handed out again after they were
    freed; the use of an old pointer to a freed client is a fault whatever its block holds then.
  \<^item> The clock may show any time at any step, and be set back; where \<open>time\<close> fails, the caller exits, and the runs of the
    threads go on only with times other than -1.
  \<^item> Parameters: the memory the allocator returns and for which sizes it succeeds (\<open>alloc\<close>, \<open>mem\<close>, \<open>got\<close>,
    \<open>usable\<close>), the answers of the heap's comparison where the code reads past its argument (\<open>cmp\<close>), the results
    of \<open>read\<close>, \<open>recvfrom\<close>, \<open>sendto\<close>, \<open>time\<close>, \<open>rand\<close>, \<open>qsort\<close> and \<open>strdup\<close>, formatted text and \<open>strerror\<close> in log lines.
  \<^item> Integers are words where their width matters (ports, hash values, counters and sizes of the
    containers, debug levels), else mathematical integers, with a check where \<open>int\<close> may overflow.

  \<^bold>\<open>Bounds.\<close> There is no fuel: loops recurse structurally, by a measure, or are partial functions whose
  results are shown to exist. An array holds up to \<open>2 ^ 31\<close> elements, beyond which its loop for more
  room is shown not to end; a heap fewer than \<open>2 ^ 30\<close>, beyond which an index is shown to overflow. A list of more
  than \<open>2 ^ 30\<close> nodes makes its sort overflow, which is shown. A hash table has fewer than \<open>2 ^ 32\<close> elements (the
  server's, fewer than \<open>2 ^ 31\<close> clients), and it is assumed that there is
  no memory for \<open>2 ^ 31\<close> buckets, since with those the next doubling would wrap to none.

  \<^bold>\<open>Not modelled.\<close> Creation of threads and installation of the signal handler (calls of the system), and the
  functions that only return the address of a static variable; \<open>receive_data_messages_thread\<close>, which ends in the
  middle of its loop in a file that does not compile, and in the same file what follows the call of \<open>mktime\<close>
  on an object that is too small; code in comments (the earlier versions of the
  configuration and of the receiver); of \<open>uthash.h\<close>, \<open>HASH_EMIT_KEYS\<close>, which writes keys to a file for tuning,
  and the variants of a macro for other compilers that do the same. The two queues of pointers to servers are not put onto
  their arrays again at the level of threads: this is covered by the refinement of the heap, in \<open>HeapArray\<close>.
\<close>

section \<open>Between client and server\<close>

text \<open>C3: a subscription request and its answer work end to end: the server that receives the client's
  request records the client and replies; the client that receives the reply, handling the response,
  is subscribed and knows the server's configured name and description.\<close>

theorem subscription_round_trip:
  assumes "get_config_value config ''name'' = Some n" and "NUL \<notin> set n" and "newline \<notin> set n"
    and "length n < SRV_NAME_LEN"
    and "get_config_value config ''descr'' = Some d" and "NUL \<notin> set d" and "newline \<notin> set d"
    and "length d < SRV_DESCR_LEN"
    and "t \<noteq> -1" and "hash_ok known" and "hash_find m srv = Some s" and "responses_sized m"
    and "length line = 4096"
  shows "\<exists>buf' clients' reply cbuf' m' s' s''.
    server_receive config t True (Datagram subscription_request cl) buf known =
      Inr (buf', clients', [(cl, reply)], True) \<and> last_update clients' cl = Some t \<and>
    client_receive (Datagram reply srv) cbuf m = Inr (cbuf', m', True) \<and> hash_find m' srv = Some s' \<and>
    handle_response line s' = Inr s'' \<and> state s'' = SUBSCR \<and> srv_name s'' = n \<and> srv_descr s'' = d"
proof -
  have r: "accept_response config = Inr (accept_text n d)" "length (accept_text n d) \<le> MTN_MSG_LEN"
    using accept_response_text[OF assms(1,5)] assms(4,8) by (simp_all add: accept_text_def text_defs size_defs)
  have q: "asks_subscription subscription_request"
    by (simp add: asks_subscription_def subscription_request_text get_message_type_iff
        get_request_type_iff MTN_MSG_LEN_def)
  have "ordinary (t, True, Datagram subscription_request cl)"
    using assms(9) by (simp add: subscription_request_text)
  then obtain buf' clients' where
    "server_receive config t True (Datagram subscription_request cl) buf known =
      Inr (buf', clients', [(cl, accept_text n d)], True)" "last_update clients' cl = Some t"
    using server_receive_ordinary[OF _ assms(10) r, of t True subscription_request cl buf] q by auto
  moreover obtain cbuf' m' s' rest where
    "client_receive (Datagram (accept_text n d) srv) cbuf m = Inr (cbuf', m', True)"
    "hash_find m' srv = Some s'" "srv_response s' = accept_text n d @ NUL # rest"
    using client_stores_accept[OF assms(11,12,2,6) r(2), of cbuf] by auto
  moreover have "handle_response line s' = Inr (s'\<lparr>state := SUBSCR, srv_name := n, srv_descr := d,
      srv_response := NUL # tl (srv_response s')\<rparr>)"
    using assms calculation by (intro handle_accept) auto
  ultimately show ?thesis by (intro exI conjI) (assumption | simp)+
qed

lemma subscription_round_trip_witness:
  "\<exists>buf' clients' reply cbuf' m' s' s''.
    server_receive server_defaults 7 True (Datagram subscription_request example_client) (replicate 1025 NUL) [] =
      Inr (buf', clients', [(example_client, reply)], True) \<and>
    client_receive (Datagram reply example_server) (replicate 1025 NUL) example_servers = Inr (cbuf', m', True) \<and>
    hash_find m' example_server = Some s' \<and>
    handle_response (replicate 4096 NUL) s' = Inr s'' \<and> srv_name s'' = ''MTN server''"
proof -
  have "get_config_value server_defaults ''name'' = Some ''MTN server''"
    "get_config_value server_defaults ''descr'' = Some []"
    by (simp_all add: get_config_value_def hash_find_def server_defaults_def)
  moreover obtain s where "hash_find example_servers example_server = Some s" "responses_sized example_servers"
    by (simp add: example_servers_def hash_find_def responses_sized_def MTN_MSG_LEN_def)
  moreover have "hash_ok ([] :: client_map)" by (simp add: hash_ok_def)
  ultimately show ?thesis
    using subscription_round_trip[of server_defaults "''MTN server''" "[]" 7 "[]" example_servers
        example_server s "replicate 4096 NUL" example_client "replicate 1025 NUL" "replicate 1025 NUL"]
    by (simp add: SRV_NAME_LEN_def SRV_DESCR_LEN_def del: server_receive.simps client_receive.simps) blast
qed










text \<open>The port written in the configuration file is the port the server binds: after a file whose last
  entry is \<open>port "p"\<close> has been read over the defaults, the socket's port is \<open>p\<close>, for every 16-bit
  \<open>p\<close>.\<close>

lemma configured_port_is_bound:
  assumes "good rd" and "stream rd = text_of (map line_text (ls @ [Entry ''port'' [decimal p]]))"
    and "\<forall>l \<in> set (ls @ [Entry ''port'' [decimal p]]). line_ok usable server_defaults l" and "p < 65536"
  shows "\<exists>config rd'. parse_config_file usable rd server_defaults = Inr (config, rd') \<and>
    (\<exists>port. server_port config = Inr port \<and> unat port = p)"
proof -
  let ?ls = "ls @ [Entry ''port'' [decimal p]]"
  obtain rd' where run: "parse_config_file usable rd server_defaults = Inr (fold apply_line ?ls server_defaults, rd')"
    using parse_config_file_text[OF assms(1-3)] by blast
  have "hash_find (fold apply_line ls server_defaults) ''port'' \<noteq> None"
    by (subst find_fold_None) (simp add: server_defaults_def hash_find_def)
  then have "get_config_value (fold apply_line ?ls server_defaults) ''port'' = Some (decimal p)"
    by (simp add: get_config_value_def find_set_entry apply_line_def)
  then have "server_port (fold apply_line ?ls server_defaults) = Inr (word_of_int (int p))"
    by (simp add: server_port_def atoi_decimal)
  moreover have "unat (word_of_int (int p) :: 16 word) = p"
    using assms(4) by (simp add: unsigned_of_nat take_bit_nat_eq_self)
  ultimately show ?thesis using run by blast
qed

lemma configured_port_is_bound_witness:
  "\<exists>config rd' port. parse_config_file 24
     \<lparr>unread = [], input_fd = [Chunk (''port '' @ [quote] @ ''50000'' @ [quote, newline])]\<rparr> server_defaults =
       Inr (config, rd') \<and> server_port config = Inr port \<and> unat port = 50000"
proof -
  let ?e = "Entry ''port'' [''50000'']"
  let ?rd = "\<lparr>unread = [], input_fd = [Chunk (''port '' @ [quote] @ ''50000'' @ [quote, newline])]\<rparr>"
  have "digit_char 5 = CHR ''5''" "digit_char 0 = CHR ''0''" by code_simp+
  then have p: "decimal 50000 = ''50000''" by (simp add: decimal.simps)
  have "line_ok 24 server_defaults ?e"
    by (simp add: line_ok_def line_fits_def plain_word_def word_def TOKEN_MAX_SIZE_def LINE_MAX_SIZE_def fits_def)
  then have ok: "\<forall>l \<in> set ([] @ [?e]). line_ok 24 server_defaults l" by simp
  have rd: "good ?rd" "stream ?rd = text_of (map line_text ([] @ [?e]))"
    by (simp_all add: good_def stream_def text_of_def)
  have "(50000::nat) < 65536" by simp
  from configured_port_is_bound[of _ "[]" 50000, unfolded p, OF rd ok this]
  show ?thesis by blast
qed
section \<open>The table a round iterates over\<close>

text \<open>What \<open>Transmitter\<close> says of a client that joins while another is visited is what \<open>HASH_ITER\<close> and \<open>HASH_ADD\<close> do on
  the buckets and links of the table: the same clients are visited after the one at hand, and the new one
  is in the table.\<close>

lemma round_sees_what_iteration_sees:
  fixes p0 q :: sockaddr_in
  assumes "hash_holds h (us @ (k0, p0) # vs)" and "table_allowed (Hash_add k q) (us @ (k0, p0) # vs)"
  shows "iter_adding (\<lambda>n. n < 2 ^ 31 \<and> mem n) (\<lambda>p. if p = p0 then [(k, q)] else []) h = Some (Inl (Exit (-1))) \<or>
    (\<exists>h'. iter_adding (\<lambda>n. n < 2 ^ 31 \<and> mem n) (\<lambda>p. if p = p0 then [(k, q)] else []) h =
       Some (Inr (h', map snd us @ to_visit (see_new (Visit (p0 # map snd vs)) q))) \<and>
     uthash_find h' k = Some (Inr (Some q)))"
  using iter_one_join[OF assms, of mem] by (cases vs) auto

section \<open>The whole client\<close>

lemma parse_server_line_ok:
  "parse_server_line alloc l m = Inr m' \<Longrightarrow> addresses_ok m \<Longrightarrow> addresses_ok m'"
  by (auto simp: parse_server_line_def result_simps Let_def addresses_add_server
      split: if_splits option.splits)

lemma loaded_list_invariant:
  assumes load: "load_client_server_list alloc home f fs buffered [] = Inr (fs', m, buffered')"
    and empty: "P []"
    and keep: "\<And>l m m'. parse_server_line alloc l m = Inr m' \<Longrightarrow> P m \<Longrightarrow> P m'"
  shows "P m"
proof -
  have parsed: "P m'" if "parse_client_server_list alloc rd = Inr (m', rd')" for rd m' rd'
    by (rule fold_lines_invariant[where P = P, OF _ that[unfolded parse_client_server_list_def] empty])
      (rule keep)
  from load obtain fs1 fd where fd: "(case fd of None \<Rightarrow> Inr (fs1, [], buffered)
      | Some fd \<Rightarrow> result_bind (parse_client_server_list alloc
          \<lparr>unread = buffered, input_fd = reads LINE_MAX_SIZE fs1 fd\<rparr>)
          (\<lambda>(m, rd). Inr (fs1, m, unread rd))) = Inr (fs', m, buffered')"
    unfolding load_client_server_list_def result_bind_Inr_iff by (auto simp only: split_paired_Ex prod.case)
  show ?thesis
  proof (cases fd)
    case None
    with fd empty show ?thesis by simp
  next
    case (Some loc)
    with fd show ?thesis using parsed by (auto simp: result_bind_Inr_iff)
  qed
qed

lemma loaded_list_ok:
  "load_client_server_list alloc home f fs buffered [] = Inr (fs', m, buffered') \<Longrightarrow> addresses_ok m"
proof (erule loaded_list_invariant)
  show "addresses_ok []" by (simp add: addresses_ok_def hash_ok_def)
qed (rule parse_server_line_ok)

lemma started_client:
  assumes "client_main usable alloc cmp survives home recv now args fs = Inr (fs', config, c0)"
  obtains m fs1 f buffered fs2 buffered' where
    "load_client_server_list alloc home f fs1 buffered [] = Inr (fs2, m, buffered')"
    "c0 = update_control cmp m recv now"
  using assms by (auto simp: client_main_def result_simps split: if_splits)

text \<open>C1: whatever the arguments, the configuration and the server list hold, whatever memory the allocator
  returned and whatever the queues' comparison answers: if the client starts, then in every state its threads
  reach every listed server is in exactly one place, a queue, a queue thread or a sender, and at most three
  requests are running. The only fault of the queue threads is a comparison that reads behind the
  slots of a queue, and it needs at least six listed servers; where it does not end the process, all of this goes on
  to hold.\<close>

theorem client_never_loses_a_server:
  assumes "client_main usable alloc cmp survives home recv now args fs = Inr (fs', config, c0)"
    and "client_run c0 c"
  shows "distinct (hash_keys (servers c0)) \<and> hash_keys (servers c) = hash_keys (servers c0) \<and>
    places c = mset (hash_keys (servers c0)) \<and> length (senders c) \<le> 3 \<and>
    (subscription_thread c (Inl e) \<or> update_thread c (Inl e) \<longrightarrow>
       e = Out_of_bounds_read \<and> 6 \<le> length (hash_keys (servers c0)))"
proof -
  obtain m fs1 f buffered fs2 buffered' where m:
      "load_client_server_list alloc home f fs1 buffered [] = Inr (fs2, m, buffered')"
      "c0 = update_control cmp m recv now"
    using assms(1) by (rule started_client)
  then have keys: "distinct (hash_keys m)" "hash_keys (servers c0) = hash_keys m"
    using loaded_list_ok[OF m(1)] by (auto simp: addresses_ok_def hash_ok_def update_control_def)
  have ok: "client_ok (hash_keys m) c" using run_from_start_ok assms(2) m(2) by blast
  have "Updater.slots_ok c" using client_run_slots[OF assms(2)] update_control_slots m(2) by simp
  with ok keys queue_threads_fault[of c e "hash_keys m"] show ?thesis
    by (auto simp: client_ok_def MAX_ACTIVE_REQUESTS_def)
qed

text \<open>A file system with an empty configuration and a server list of one line.\<close>

definition example_fs :: file_system where
  "example_fs = \<lparr>nodes = [[''c''] \<mapsto> File [], [''s''] \<mapsto> File (''10.0.0.2'' @ [newline])],
     cwd = [], may_change = \<lambda>_. False\<rparr>"

lemma example_client_starts:
  "\<exists>config c0. client_main 24 alloc (\<lambda>_ _ _. True) True None recv 0
     [Short (CHR ''c'') ''/c'', Short (CHR ''s'') ''/s''] example_fs = Inr (example_fs, config, c0) \<and>
   hash_keys (servers c0) = [\<lparr>sin_addr = [10, 0, 0, 2], sin_port = 48888\<rparr>]"
proof -
  let ?e = "Server [10, 0, 0, 2] None"
  let ?config = "\<lparr>unread = [], input_fd = reads LINE_MAX_SIZE example_fs [''c'']\<rparr>"
  let ?list = "\<lparr>unread = [], input_fd = reads LINE_MAX_SIZE example_fs [''s'']\<rparr>"
  have t: "entry_text ?e = ''10.0.0.2''" by code_simp
  obtain d where d: "init_client_config 24 [] = Inr d"
    by (simp add: init_client_config_def init_config_def common_config_array_def MTN_CFG_NAME_LEN_def hash_add_def)
  have "good ?config \<and> stream ?config = []"
    by (rule reads_file) (simp_all add: example_fs_def node_at_def)
  then obtain rd config where c: "parse_config_file 24 ?config d = Inr (config, rd)" "unread rd = []"
    using parse_config_file_text[of ?config "[]" 24 d] by auto
  have "good ?list \<and> stream ?list = text_of (map entry_text [?e])"
    by (rule reads_file) (simp_all add: example_fs_def node_at_def t text_of_def del: entry_text.simps)
  moreover have "\<forall>e \<in> set [?e]. entry_ok e" by (simp add: octets_def)
  ultimately obtain m rd' where s: "parse_client_server_list alloc ?list = Inr (m, rd')"
    "hash_keys m = first_occurrences (map entry_address [?e])"
    using parse_server_list_text[of ?list "[?e]" alloc] by blast
  have "load_file None example_fs ''/c'' O_RDONLY ex = Inr (example_fs, Some [''c''])"
    "load_file None example_fs ''/s'' O_RDONLY None = Inr (example_fs, Some [''s''])"
    if "ex = Some EXAMPLE_CLIENT_CFG_FILE" for ex
    by (simp_all add: that load_file_def expand_home_result replace_first_def EXAMPLE_CLIENT_CFG_FILE_def
        init_file_def access_ok_def locate_def node_at_def wants_dir_def open_file_def Let_def example_fs_def)
  with c d s show ?thesis
    by (simp add: client_main_def load_client_config_def load_client_server_list_def update_control_def
        first_occurrences_def)
qed

lemma client_never_loses_a_server_witness:
  "\<forall>alloc recv. \<exists>config c0. client_main 24 alloc (\<lambda>_ _ _. True) True None recv 0
     [Short (CHR ''c'') ''/c'', Short (CHR ''s'') ''/s''] example_fs = Inr (example_fs, config, c0) \<and>
   places c0 = {#\<lparr>sin_addr = [10, 0, 0, 2], sin_port = 48888\<rparr>#}"
proof (intro allI)
  fix alloc :: "nat \<Rightarrow> server_data" and recv :: string
  obtain config c0 where c0: "client_main 24 alloc (\<lambda>_ _ _. True) True None recv 0
      [Short (CHR ''c'') ''/c'', Short (CHR ''s'') ''/s''] example_fs = Inr (example_fs, config, c0)"
    "hash_keys (servers c0) = [\<lparr>sin_addr = [10, 0, 0, 2], sin_port = 48888\<rparr>]"
    using example_client_starts by blast
  have "places c0 = mset (hash_keys (servers c0))"
    using client_never_loses_a_server[OF c0(1) client_run.run_start] by blast
  then have "places c0 = {#\<lparr>sin_addr = [10, 0, 0, 2], sin_port = 48888\<rparr>#}" unfolding c0(2) by simp
  with c0(1) show "\<exists>config c0. client_main 24 alloc (\<lambda>_ _ _. True) True None recv 0
      [Short (CHR ''c'') ''/c'', Short (CHR ''s'') ''/s''] example_fs = Inr (example_fs, config, c0) \<and>
    places c0 = {#\<lparr>sin_addr = [10, 0, 0, 2], sin_port = 48888\<rparr>#}" by blast
qed

text \<open>C29: the client's data stay well-typed, whatever memory the allocator hands out and whatever datagrams arrive:
  in every state the threads of a started client reach, each server is stored once, under its own
  address; its state, name and description are either still what the allocated block held, whose clearing covers only
  the size of a pointer, or a state of the enumeration and texts shorter than their arrays; and the
  arrays for responses and received messages keep their sizes.\<close>

theorem client_data_stay_well_typed:
  assumes "client_main usable alloc cmp survives home recv now args fs = Inr (fs', config, c0)"
    and "client_run c0 c" and "length recv = MTN_MSG_LEN + 1"
  shows "client_typed alloc c"
proof -
  obtain m fs1 f buffered fs2 buffered' where m:
      "load_client_server_list alloc home f fs1 buffered [] = Inr (fs2, m, buffered')"
      "c0 = update_control cmp m recv now"
    using assms(1) by (rule started_client)
  have "servers_typed alloc m"
    by (rule loaded_list_invariant[where P = "servers_typed alloc", OF m(1)])
      (auto simp: servers_typed_def[of _ "[]"] hash_ok_def intro: parse_server_line_typed)
  then have "client_typed alloc c0" using m(2) assms(3) by (simp add: client_typed_def update_control_def)
  then show ?thesis by (rule client_run_typed[OF assms(2)])
qed

lemma client_data_stay_well_typed_witness:
  "\<forall>alloc. \<exists>config c0. client_main 24 alloc (\<lambda>_ _ _. True) True None (replicate 1025 NUL) 0
     [Short (CHR ''c'') ''/c'', Short (CHR ''s'') ''/s''] example_fs = Inr (example_fs, config, c0) \<and>
   client_typed alloc (c0\<lparr>clock := 5\<rparr>)"
proof
  fix alloc
  obtain config c0 where c0: "client_main 24 alloc (\<lambda>_ _ _. True) True None (replicate 1025 NUL) 0
      [Short (CHR ''c'') ''/c'', Short (CHR ''s'') ''/s''] example_fs = Inr (example_fs, config, c0)"
    using example_client_starts[of alloc "replicate 1025 NUL"] by blast
  have "client_step c0 (Inr (c0\<lparr>clock := 5\<rparr>))" using tick[of 5 c0] by simp
  then have "client_run c0 (c0\<lparr>clock := 5\<rparr>)" by (rule client_run.run_step[OF client_run.run_start])
  from client_data_stay_well_typed[OF c0 this]
  have "client_typed alloc (c0\<lparr>clock := 5\<rparr>)" by (simp add: MTN_MSG_LEN_def)
  with c0 show "\<exists>config c0. client_main 24 alloc (\<lambda>_ _ _. True) True None (replicate 1025 NUL) 0
     [Short (CHR ''c'') ''/c'', Short (CHR ''s'') ''/s''] example_fs = Inr (example_fs, config, c0) \<and>
   client_typed alloc (c0\<lparr>clock := 5\<rparr>)" by blast
qed

end
